(* ===== verification/Prelude.thy ===== *)
theory Prelude
  imports Main "HOL-Library.List_Lexorder" "HOL-Library.Char_ord" "HOL-Library.Word"
begin

text \<open>
  What every component of the model shares: the text operations the source takes from the
  Rust standard library, the ordered map that stands for \<open>BTreeMap\<close>, results that may be a
  refusal, and the interfaces (locales) more than one component relies on.

  A Rust \<open>str\<close> is modelled as the list of its characters, over the first 256 code points
  (\<open>char\<close> read through \<open>of_char\<close>). \<open>char::is_whitespace\<close> and \<open>char::is_control\<close> are
  written out on that range, and \<open>byte_len\<close> is the UTF-8 length that \<open>str::len\<close> reports.
\<close>

named_theorems check_defs \<open>the definitions of the plan checks\<close>
named_theorems bmap_simps \<open>lookup after an update of an ordered map\<close>
named_theorems edit_defs \<open>the definitions of the edit compilers\<close>

type_synonym str = string
type_synonym u32 = "32 word"

section \<open>Text\<close>

definition code_point :: "char \<Rightarrow> nat" where
  "code_point c = of_char c"

definition is_space :: "char \<Rightarrow> bool" where
  "is_space c \<longleftrightarrow>
     (let n = code_point c in (9 \<le> n \<and> n \<le> 13) \<or> n = 32 \<or> n = 133 \<or> n = 160)"

definition is_control :: "char \<Rightarrow> bool" where
  "is_control c \<longleftrightarrow> (let n = code_point c in n < 32 \<or> (127 \<le> n \<and> n < 160))"

definition is_ascii_digit :: "char \<Rightarrow> bool" where
  "is_ascii_digit c \<longleftrightarrow> (let n = code_point c in 48 \<le> n \<and> n \<le> 57)"

definition is_ascii_lower :: "char \<Rightarrow> bool" where
  "is_ascii_lower c \<longleftrightarrow> (let n = code_point c in 97 \<le> n \<and> n \<le> 122)"

definition is_ascii_hexdigit :: "char \<Rightarrow> bool" where
  "is_ascii_hexdigit c \<longleftrightarrow>
     (let n = code_point c in
        (48 \<le> n \<and> n \<le> 57) \<or> (65 \<le> n \<and> n \<le> 70) \<or> (97 \<le> n \<and> n \<le> 102))"

definition trim_start :: "str \<Rightarrow> str" where
  "trim_start s = dropWhile is_space s"

definition trim_end :: "str \<Rightarrow> str" where
  "trim_end s = rev (dropWhile is_space (rev s))"

definition trim :: "str \<Rightarrow> str" where
  "trim s = trim_end (trim_start s)"

definition blank :: "str \<Rightarrow> bool" where
  "blank s \<longleftrightarrow> trim s = []"

definition byte_len :: "str \<Rightarrow> nat" where
  "byte_len s = sum_list (map (\<lambda>c. if code_point c < 128 then 1 else 2) s)"

definition strip_prefix :: "str \<Rightarrow> str \<Rightarrow> str option" where
  "strip_prefix p s = (if take (length p) s = p then Some (drop (length p) s) else None)"

definition starts_with :: "str \<Rightarrow> str \<Rightarrow> bool" where
  "starts_with p s \<longleftrightarrow> take (length p) s = p"

definition strip_suffix :: "str \<Rightarrow> str \<Rightarrow> str option" where
  "strip_suffix p s = map_option rev (strip_prefix (rev p) (rev s))"

fun split_once :: "char \<Rightarrow> str \<Rightarrow> (str \<times> str) option" where
  "split_once c [] = None"
| "split_once c (x # xs) =
     (if x = c then Some ([], xs)
      else map_option (\<lambda>(a, b). (x # a, b)) (split_once c xs))"

fun split_at_char :: "char \<Rightarrow> str \<Rightarrow> str list" where
  "split_at_char c [] = [[]]"
| "split_at_char c (x # xs) =
     (if x = c then [] # split_at_char c xs
      else (case split_at_char c xs of
              [] \<Rightarrow> [[x]]
            | w # ws \<Rightarrow> (x # w) # ws))"

lemma blank_Nil [simp]: "blank []"
  by (simp add: blank_def trim_def trim_start_def trim_end_def)

lemma dropWhile_eq_ConsD: "dropWhile P xs = y # ys \<Longrightarrow> \<not> P y"
  by (simp add: dropWhile_eq_Cons_conv)

lemma blank_iff_all_space: "blank s \<longleftrightarrow> (\<forall>c \<in> set s. is_space c)"
proof -
  have "trim s = [] \<longleftrightarrow> (\<forall>c \<in> set (dropWhile is_space s). is_space c)"
    by (simp only: trim_def trim_end_def trim_start_def rev_is_Nil_conv dropWhile_eq_Nil_conv set_rev)
  also have "\<dots> \<longleftrightarrow> dropWhile is_space s = []"
  proof (cases "dropWhile is_space s")
    case (Cons y ys)
    then have "\<not> is_space y" by (rule dropWhile_eq_ConsD)
    with Cons show ?thesis by simp
  next
    case Nil
    then show ?thesis by (simp only: list.set ball_simps simp_thms)
  qed
  finally show ?thesis
    by (simp only: blank_def dropWhile_eq_Nil_conv)
qed

lemma split_once_Some:
  "split_once c s = Some (a, b) \<longleftrightarrow> s = a @ c # b \<and> c \<notin> set a"
  by (induction s arbitrary: a b) (auto simp: Cons_eq_append_conv)

lemma split_once_None: "split_once c s = None \<longleftrightarrow> c \<notin> set s"
  by (induction s) auto

lemma strip_prefix_Some: "strip_prefix p s = Some r \<longleftrightarrow> s = p @ r"
  by (auto simp: strip_prefix_def) (metis append_take_drop_id)

lemma strip_prefix_append [simp]: "strip_prefix p (p @ r) = Some r"
  by (simp add: strip_prefix_def)

lemma split_once_append [simp]: "c \<notin> set a \<Longrightarrow> split_once c (a @ c # b) = Some (a, b)"
  by (simp add: split_once_Some)

lemma starts_with_append [simp]: "starts_with p (p @ r)"
  by (simp add: starts_with_def)

lemma starts_with_iff: "starts_with p s \<longleftrightarrow> (\<exists>r. s = p @ r)"
  by (auto simp: starts_with_def) (metis append_take_drop_id)

lemma notin_image: "b \<notin> f ` A \<Longrightarrow> x \<in> A \<Longrightarrow> f x \<noteq> b"
  by blast

lemma in_map_filter: "x \<in> set (List.map_filter f xs) \<longleftrightarrow> (\<exists>y \<in> set xs. f y = Some x)"
  by (force simp: List.map_filter_def)

section \<open>Refusals\<close>

text \<open>
  A fallible operation of the source returns \<open>Result<T, E>\<close>; here it is \<open>'e + 'a\<close> with
  \<open>Inl\<close> for the error. \<open>require\<close> is the guard \<open>if \<not> ok { return Err(e) }\<close>, \<open>and_then\<close> the
  \<open>?\<close> operator, and \<open>first_refusal\<close> a sequence of checks whose first refusal is returned.
\<close>

definition require :: "bool \<Rightarrow> 'e \<Rightarrow> 'e + unit" where
  "require ok e = (if ok then Inr () else Inl e)"

definition and_then :: "'e + 'a \<Rightarrow> ('a \<Rightarrow> 'e + 'b) \<Rightarrow> 'e + 'b" where
  "and_then r k = (case r of Inl e \<Rightarrow> Inl e | Inr x \<Rightarrow> k x)"

definition map_err :: "('e \<Rightarrow> 'f) \<Rightarrow> 'e + 'a \<Rightarrow> 'f + 'a" where
  "map_err f r = (case r of Inl e \<Rightarrow> Inl (f e) | Inr x \<Rightarrow> Inr x)"

fun first_refusal :: "('e + unit) list \<Rightarrow> 'e + unit" where
  "first_refusal [] = Inr ()"
| "first_refusal (Inl e # rs) = Inl e"
| "first_refusal (Inr _ # rs) = first_refusal rs"

lemma require_Inr [simp]: "require ok e = Inr u \<longleftrightarrow> ok"
  by (simp add: require_def)

lemma require_Inl [simp]: "require ok e = Inl f \<longleftrightarrow> \<not> ok \<and> f = e"
  by (auto simp: require_def)

lemma and_then_Inr [simp]: "and_then r k = Inr y \<longleftrightarrow> (\<exists>x. r = Inr x \<and> k x = Inr y)"
  by (cases r) (auto simp: and_then_def)

lemma and_then_simps [simp]:
  "and_then (Inl e) k = Inl e" "and_then (Inr x) k = k x"
  by (simp_all add: and_then_def)

lemma map_err_Inr [simp]: "map_err f r = Inr x \<longleftrightarrow> r = Inr x"
  by (cases r) (auto simp: map_err_def)

lemma map_err_simps [simp]:
  "map_err f (Inl e) = Inl (f e)" "map_err f (Inr x) = Inr x"
  by (simp_all add: map_err_def)

lemma first_refusal_Inr [simp]: "first_refusal rs = Inr u \<longleftrightarrow> (\<forall>r \<in> set rs. r = Inr ())"
  by (induction rs rule: first_refusal.induct) auto

lemma first_refusal_Inl:
  "first_refusal rs = Inl e \<Longrightarrow> Inl e \<in> set rs"
  by (induction rs rule: first_refusal.induct) auto

section \<open>The ordered map\<close>

text \<open>
  A \<open>BTreeMap<K, V>\<close> is the list of its entries in ascending key order, so equality of
  maps is equality of lists and iterating is walking the list. \<open>bmap_ok\<close> is the
  representation invariant every operation keeps.
\<close>

type_synonym ('k, 'v) omap = "('k \<times> 'v) list"

type_synonym 'v bmap = "(str, 'v) omap"

fun bput :: "'k::linorder \<Rightarrow> 'v \<Rightarrow> ('k, 'v) omap \<Rightarrow> ('k, 'v) omap" where
  "bput k v [] = [(k, v)]"
| "bput k v ((a, b) # m) =
     (if k < a then (k, v) # (a, b) # m
      else if k = a then (k, v) # m
      else (a, b) # bput k v m)"

definition bdel :: "'k \<Rightarrow> ('k, 'v) omap \<Rightarrow> ('k, 'v) omap" where
  "bdel k m = filter (\<lambda>e. fst e \<noteq> k) m"

abbreviation bget :: "('k, 'v) omap \<Rightarrow> 'k \<Rightarrow> 'v option" where
  "bget m \<equiv> map_of m"

definition bmap_ok :: "('k::linorder, 'v) omap \<Rightarrow> bool" where
  "bmap_ok m \<longleftrightarrow> sorted_wrt (<) (map fst m)"

definition bcollect :: "('k::linorder \<times> 'v) list \<Rightarrow> ('k, 'v) omap" where
  "bcollect kvs = fold (\<lambda>(k, v) m. bput k v m) kvs []"

definition bmodify :: "'k \<Rightarrow> ('v \<Rightarrow> 'v) \<Rightarrow> ('k, 'v) omap \<Rightarrow> ('k, 'v) omap" where
  "bmodify k f m = map (\<lambda>(a, b). if a = k then (a, f b) else (a, b)) m"

lemma bget_bput [simp]: "bget (bput k v m) j = (if j = k then Some v else bget m j)"
  by (induction m) auto

lemma set_bput_keys [simp]: "fst ` set (bput k v m) = insert k (fst ` set m)"
proof (induction m)
  case (Cons e m)
  then show ?case by (cases e) (simp add: insert_commute)
qed simp

lemma bget_bdel [simp]: "bget (bdel k m) j = (if j = k then None else bget m j)"
  by (induction m) (auto simp: bdel_def)

lemma bget_bmodify [simp]:
  "bget (bmodify k f m) j = (if j = k then map_option f (bget m j) else bget m j)"
  by (induction m) (auto simp: bmodify_def)

lemma keys_bmodify [simp]: "map fst (bmodify k f m) = map fst m"
  by (induction m) (auto simp: bmodify_def)

lemma bmap_ok_Nil [simp]: "bmap_ok []"
  by (simp add: bmap_ok_def)

lemma bmap_ok_Cons [simp]:
  "bmap_ok ((k, v) # m) \<longleftrightarrow> (\<forall>j \<in> fst ` set m. k < j) \<and> bmap_ok m"
  by (auto simp: bmap_ok_def)

lemma bmap_ok_bput [simp]: "bmap_ok m \<Longrightarrow> bmap_ok (bput k v m)"
proof (induction m)
  case (Cons e m)
  obtain a b where e: "e = (a, b)" by (cases e)
  consider "k < a" | "k = a" | "a < k" by (rule linorder_cases)
  then show ?case
    using Cons e by cases (auto intro: less_trans)
qed simp

lemma bmap_ok_bdel [simp]: "bmap_ok m \<Longrightarrow> bmap_ok (bdel k m)"
  by (auto simp: bmap_ok_def bdel_def sorted_wrt_map intro: sorted_wrt_filter)

lemma bmap_ok_bmodify [simp]: "bmap_ok m \<Longrightarrow> bmap_ok (bmodify k f m)"
  by (simp add: bmap_ok_def)

lemma bmap_ok_distinct: "bmap_ok m \<Longrightarrow> distinct (map fst m)"
  unfolding bmap_ok_def by (metis strict_sorted_iff)

lemma bget_dom: "bget m k = None \<longleftrightarrow> k \<notin> fst ` set m"
  by (simp add: map_of_eq_None_iff)

lemma bget_Some_in: "bget m k = Some v \<Longrightarrow> (k, v) \<in> set m"
  by (rule map_of_SomeD)

lemma bmap_ok_in_bget: "bmap_ok m \<Longrightarrow> (k, v) \<in> set m \<Longrightarrow> bget m k = Some v"
  by (simp add: bmap_ok_distinct)

lemma bmap_keys_eq:
  assumes "bmap_ok m" "bmap_ok n" "fst ` set m = fst ` set n"
  shows "map fst m = map fst n"
proof (rule strict_sorted_equal)
  show "sorted_wrt (<) (map fst n)" "sorted_wrt (<) (map fst m)"
    using assms(1,2) by (simp_all add: bmap_ok_def)
  show "set (map fst m) = set (map fst n)" using assms(3) by simp
qed

text \<open>Two ordered maps that answer every lookup alike are the same list.\<close>

lemma bmap_eqI:
  assumes "bmap_ok m" "bmap_ok n" "\<And>k. bget m k = bget n k"
  shows "m = n"
proof -
  have "fst ` set m = fst ` set n"
    using assms(3) by (simp add: dom_map_of_conv_image_fst [symmetric] dom_def)
  then have keys: "map fst m = map fst n"
    using assms(1,2) by (rule bmap_keys_eq [rotated 2])
  have "map snd m = map snd n"
  proof (rule nth_equalityI)
    show "length (map snd m) = length (map snd n)"
      using arg_cong [OF keys, of length] by simp
  next
    fix i assume i: "i < length (map snd m)"
    have len: "length m = length n" using arg_cong [OF keys, of length] by simp
    have k: "fst (m ! i) = fst (n ! i)"
      using arg_cong [OF keys, of "\<lambda>xs. xs ! i"] i len by simp
    have "bget m (fst (m ! i)) = Some (snd (m ! i))"
      using i bmap_ok_in_bget [OF assms(1), of "fst (m ! i)" "snd (m ! i)"] by simp
    moreover have "bget n (fst (n ! i)) = Some (snd (n ! i))"
      using i len bmap_ok_in_bget [OF assms(2), of "fst (n ! i)" "snd (n ! i)"] by simp
    ultimately show "map snd m ! i = map snd n ! i"
      using assms(3) [of "fst (m ! i)"] k i len by simp
  qed
  with keys show ?thesis by (metis zip_map_fst_snd)
qed

section \<open>Interfaces\<close>

text \<open>
  The contract of a keyed store: what a lookup returns after an insertion or a removal, and
  that a store is determined by its answers. The components read \<open>BTreeMap\<close> through it.
\<close>

locale key_store =
  fixes get :: "'s \<Rightarrow> 'k \<Rightarrow> 'v option"
    and put :: "'k \<Rightarrow> 'v \<Rightarrow> 's \<Rightarrow> 's"
    and del :: "'k \<Rightarrow> 's \<Rightarrow> 's"
    and ok :: "'s \<Rightarrow> bool"
    and none :: 's
  assumes get_none: "get none k = None"
    and get_put: "get (put k v m) j = (if j = k then Some v else get m j)"
    and get_del: "get (del k m) j = (if j = k then None else get m j)"
    and ok_none: "ok none"
    and ok_put: "ok m \<Longrightarrow> ok (put k v m)"
    and ok_del: "ok m \<Longrightarrow> ok (del k m)"
    and ext: "ok m \<Longrightarrow> ok n \<Longrightarrow> (\<And>k. get m k = get n k) \<Longrightarrow> m = n"
begin

lemma put_same: "ok m \<Longrightarrow> get m k = Some v \<Longrightarrow> put k v m = m"
  by (rule ext) (auto simp: get_put ok_put)

lemma put_put: "ok m \<Longrightarrow> put k v (put k w m) = put k v m"
  by (rule ext) (auto simp: get_put ok_put)

lemma put_commute: "ok m \<Longrightarrow> j \<noteq> k \<Longrightarrow> put j w (put k v m) = put k v (put j w m)"
  by (rule ext) (auto simp: get_put ok_put)

lemma del_absent: "ok m \<Longrightarrow> get m k = None \<Longrightarrow> del k m = m"
  by (rule ext) (auto simp: get_del ok_del)

lemma ok_collect: "ok m \<Longrightarrow> ok (fold (\<lambda>(k, v). put k v) kvs m)"
  by (induction kvs arbitrary: m) (auto simp: ok_put)

lemma get_collect:
  "get (fold (\<lambda>(k, v). put k v) kvs m) k =
     (case map_of (rev kvs) k of Some v \<Rightarrow> Some v | None \<Rightarrow> get m k)"
proof (induction kvs arbitrary: m)
  case (Cons e kvs)
  then show ?case
    by (cases e) (auto simp: get_put map_add_def split: option.splits)
qed simp

lemma get_collect_distinct:
  assumes "distinct (map fst kvs)"
  shows "get (fold (\<lambda>(k, v). put k v) kvs none) k = map_of kvs k"
proof -
  have "map_of (rev kvs) = map_of kvs"
    using assms by (intro map_of_eqI) (auto simp: rev_map [symmetric])
  then show ?thesis
    by (simp add: get_collect get_none split: option.split)
qed

end

interpretation bm: key_store "map_of :: ('k::linorder, 'v) omap \<Rightarrow> 'k \<Rightarrow> 'v option" bput bdel bmap_ok "[]"
  by unfold_locales (simp_all add: bmap_eqI)

text \<open>
  A vocabulary written as words: rendering and reading back. The statuses, landings,
  publication kinds and rules of the source all have this shape.
\<close>

locale word_codec =
  fixes as_word :: "'a \<Rightarrow> str"
    and read_word :: "str \<Rightarrow> 'a option"
  assumes read_as: "read_word (as_word x) = Some x"
    and as_read: "read_word s = Some x \<Longrightarrow> as_word x = s"
begin

lemma as_word_inj: "as_word x = as_word y \<Longrightarrow> x = y"
  by (metis option.inject read_as)

lemma read_iff: "read_word s = Some x \<longleftrightarrow> s = as_word x"
  using as_read read_as by blast

lemma read_None: "read_word s = None \<longleftrightarrow> (\<forall>x. s \<noteq> as_word x)"
  by (metis not_None_eq read_iff)

end

text \<open>
  A state folded over a sequence of records, each of which keeps an invariant: the shape of
  every replay (the edit operations onto the graph, the frontier an envelope advances).
\<close>

locale preserving_fold =
  fixes step :: "'o \<Rightarrow> 's \<Rightarrow> 's"
    and inv :: "'s \<Rightarrow> bool"
  assumes step_inv: "inv s \<Longrightarrow> inv (step x s)"
begin

lemma fold_inv: "inv s \<Longrightarrow> inv (fold step xs s)"
  by (induction xs arbitrary: s) (auto simp: step_inv)

end

end
