(* ===== verification/Plan_Model.thy ===== *)
theory Plan_Model
  imports Prelude
begin

text \<open>
  The plan's data (\<open>src/src/plan.rs\<close>): a node, the steps of a lifecycle node, and the plan
  that lists the nodes. Every field of the Rust structs is a field here, under its own name
  where HOL has not taken it (\<open>id\<close>, \<open>kind\<close> and \<open>context\<close> carry a prefix).

  A field whose type belongs to a sibling crate and which this code only carries
  (\<open>onevcs::Bound\<close>, \<open>MergePolicy\<close>, \<open>Adoption\<close>, \<open>TargetName\<close>, the store's \<open>GlobalId\<close>,
  \<open>Priority\<close>, \<open>SourceName\<close>, \<open>oneagentgraph\<close>'s \<open>ConfigRef\<close>) is the text it is written as.
  The functions of those crates the checks call are the record \<open>siblings\<close>, an argument of
  every definition that uses one.
\<close>

section \<open>Vocabularies\<close>

datatype node_kind = Agent | Human

datatype publish = Land | Preserve

definition is_land :: "publish \<Rightarrow> bool" where
  "is_land p \<longleftrightarrow> p = Land"

fun publish_word :: "publish \<Rightarrow> str" where
  "publish_word Land = ''land''"
| "publish_word Preserve = ''preserve''"

definition read_publish :: "str \<Rightarrow> publish option" where
  "read_publish s =
     (if s = ''land'' then Some Land
      else if s = ''preserve'' then Some Preserve
      else None)"

interpretation publish_codec: word_codec publish_word read_publish
proof unfold_locales
  show "read_publish (publish_word x) = Some x" for x
    by (cases x) (simp_all add: read_publish_def)
  show "read_publish s = Some x \<Longrightarrow> publish_word x = s" for s x
    by (auto simp: read_publish_def split: if_splits)
qed

datatype repo_type = SingleOwner | Team

datatype workflow = Local | Remote

text \<open>The store's classification of a task; the stricter of two is the private one.\<close>

datatype classification = Public_Task | Private_Task

datatype human_item_kind = Task_Item | Question_Item

section \<open>Records\<close>

record human_item_metadata =
  hi_kind :: human_item_kind
  hi_priority :: str
  hi_title :: str
  hi_body :: str

record resume_point =
  resume_branch :: str
  checkpoint :: "str option"
  completed_steps :: "str list"

record task_record =
  record_id :: str
  record_key :: "str option"
  record_title :: str
  record_source :: "str option"
  repositories :: "str list"
  record_priority :: "str option"

record step =
  step_id :: str
  step_kind :: node_kind
  step_task :: "str option"
  step_persona :: "str option"
  step_deps :: "str list"
  step_max_turns :: "u32 option"
  step_expects_no_diff :: bool
  step_executor :: "str option"
  step_agent_graph :: "str option"

record node =
  human_item :: "human_item_metadata option"
  node_id :: str
  kind :: node_kind
  task :: "str option"
  persona :: "str option"
  deps :: "str list"
  max_turns :: "u32 option"
  sets :: "str list"
  expects_no_diff :: bool
  planner_context :: "str option"
  amendment :: "str option"
  parked :: bool
  executor :: "str option"
  agent_graph :: "str option"
  repo :: "str option"
  repo_type :: "repo_type option"
  workflow :: "workflow option"
  merge_policy :: "str option"
  base_branch :: "str option"
  branch :: "str option"
  title :: "str option"
  body :: "str option"
  draft :: bool
  publish :: publish
  execution_checkout :: "str option"
  pool :: "u32 option"
  overflow :: "str option"
  steps :: "step list option"
  resume :: "resume_point option"
  adoption :: "str option"
  consumes :: "str bmap"
  delivers :: "str list"
  task_record :: "task_record option"
  assets_from :: "str option"
  classification :: classification

record export_edge =
  edge_from :: str
  edge_to :: str
  source_directory :: str
  target_directory :: str
  accepted_opaque :: "str list"

record plan =
  schema_version :: u32
  goal :: "str option"
  plan_name :: "str option"
  plan_concurrency :: u32
  tasks :: "node list"
  export_edges :: "export_edge list"

text \<open>\<open>Node::default()\<close> and \<open>Step::default()\<close>, as \<open>#[derive(Default)]\<close> gives them.\<close>

definition blank_node :: node where
  "blank_node = \<lparr>
     human_item = None, node_id = [], kind = Agent, task = None, persona = None, deps = [],
     max_turns = None, sets = [], expects_no_diff = False, planner_context = None,
     amendment = None, parked = False, executor = None, agent_graph = None, repo = None,
     repo_type = None, workflow = None, merge_policy = None, base_branch = None,
     branch = None, title = None, body = None, draft = False, publish = Land,
     execution_checkout = None, pool = None, overflow = None, steps = None, resume = None,
     adoption = None, consumes = [], delivers = [], task_record = None, assets_from = None,
     classification = Public_Task \<rparr>"

definition blank_step :: step where
  "blank_step = \<lparr>
     step_id = [], step_kind = Agent, step_task = None, step_persona = None, step_deps = [],
     step_max_turns = None, step_expects_no_diff = False, step_executor = None,
     step_agent_graph = None \<rparr>"

definition plan_schema_version :: u32 where
  "plan_schema_version = 3"

definition plan_schema_versions_read :: "u32 list" where
  "plan_schema_versions_read = [plan_schema_version, 2, 1]"

section \<open>What the siblings answer\<close>

text \<open>
  The library calls the plan checks make into other crates. \<open>parse_set_ok\<close> is
  \<open>oneagentgraph::run::parse_set(entry).is_ok()\<close>, \<open>subject_limit\<close> is
  \<open>onevcs::provenance::SUBJECT_LIMIT\<close>, \<open>source_name_ok\<close> is
  \<open>onetaskgraph\<close>'s \<open>SourceName::new(name).is_ok()\<close>, \<open>accepted_opaque_ok\<close> is
  \<open>onevcs::validate_accepted_opaque(list).is_ok()\<close>, \<open>repo_identity\<close> is
  \<open>onevcs::release_targets(repo)\<close>'s identity where that repository can be read, and
  \<open>is_http_url\<close> is \<open>onevcs::Url::parse\<close> answering an \<open>http\<close> or \<open>https\<close> URL.
\<close>

record siblings =
  parse_set_ok :: "str \<Rightarrow> bool"
  subject_limit :: nat
  source_name_ok :: "str \<Rightarrow> bool"
  accepted_opaque_ok :: "str list \<Rightarrow> bool"
  repo_identity :: "str \<Rightarrow> str option"
  is_http_url :: "str \<Rightarrow> bool"

end
