(* ===== verification/Node_Status.thy ===== *)
theory Node_Status
  imports Plan_Model
begin

text \<open>
  Where a node has got to (\<open>src/src/graph.rs\<close>): the statuses and the words they are written
  as, the landing that qualifies a settlement, the state a whole graph settled in, and
  \<open>Settled\<close>, what scheduling knows of a settlement.
\<close>

section \<open>Statuses\<close>

datatype node_status =
    Pending | Ready | Running | Waiting | Blocked | Parked | Cancelled | Done
  | CompleteDraft | CompleteHeld | Failed | Skipped

fun status_as_str :: "node_status \<Rightarrow> str" where
  "status_as_str Pending = ''pending''"
| "status_as_str Ready = ''ready''"
| "status_as_str Running = ''running''"
| "status_as_str Waiting = ''waiting''"
| "status_as_str Blocked = ''blocked''"
| "status_as_str Parked = ''parked''"
| "status_as_str Cancelled = ''cancelled''"
| "status_as_str Done = ''done''"
| "status_as_str CompleteDraft = ''complete-but-draft''"
| "status_as_str CompleteHeld = ''complete-but-held''"
| "status_as_str Failed = ''failed''"
| "status_as_str Skipped = ''skipped''"

definition status_parse :: "str \<Rightarrow> node_status option" where
  "status_parse text =
     (if text = ''pending'' then Some Pending
      else if text = ''ready'' then Some Ready
      else if text = ''running'' then Some Running
      else if text = ''waiting'' then Some Waiting
      else if text = ''blocked'' then Some Blocked
      else if text = ''parked'' then Some Parked
      else if text = ''cancelled'' then Some Cancelled
      else if text = ''done'' then Some Done
      else if text = ''complete-but-draft'' then Some CompleteDraft
      else if text = ''complete-but-held'' then Some CompleteHeld
      else if text = ''failed'' then Some Failed
      else if text = ''skipped'' then Some Skipped
      else None)"

interpretation status_codec: word_codec status_as_str status_parse
proof unfold_locales
  show "status_parse (status_as_str x) = Some x" for x
    by (cases x) (simp_all add: status_parse_def)
  show "status_parse s = Some x \<Longrightarrow> status_as_str x = s" for s x
    by (auto simp: status_parse_def split: if_splits)
qed

definition is_settled :: "node_status \<Rightarrow> bool" where
  "is_settled s \<longleftrightarrow> s \<in> {Done, Failed, Skipped, Waiting, Blocked, Parked, Cancelled}"

definition awaits_release :: "node_status \<Rightarrow> bool" where
  "awaits_release s \<longleftrightarrow> s \<in> {CompleteDraft, CompleteHeld}"

definition is_dispatchable :: "node_status \<Rightarrow> bool" where
  "is_dispatchable s \<longleftrightarrow> s \<notin> {Done, Parked}"

section \<open>Landings\<close>

datatype landing = Landed | Unlanded

fun landing_as_str :: "landing \<Rightarrow> str" where
  "landing_as_str Landed = ''landed''"
| "landing_as_str Unlanded = ''unlanded''"

definition landing_parse :: "str \<Rightarrow> landing option" where
  "landing_parse text =
     (if text = ''landed'' then Some Landed
      else if text = ''unlanded'' then Some Unlanded
      else None)"

interpretation landing_codec: word_codec landing_as_str landing_parse
proof unfold_locales
  show "landing_parse (landing_as_str x) = Some x" for x
    by (cases x) (simp_all add: landing_parse_def)
  show "landing_parse s = Some x \<Longrightarrow> landing_as_str x = s" for s x
    by (auto simp: landing_parse_def split: if_splits)
qed

section \<open>How a graph settled\<close>

datatype graph_state = Graph_Complete | Graph_Waiting | Graph_Failed

fun graph_state_as_str :: "graph_state \<Rightarrow> str" where
  "graph_state_as_str Graph_Complete = ''complete''"
| "graph_state_as_str Graph_Waiting = ''waiting''"
| "graph_state_as_str Graph_Failed = ''failed''"

text \<open>\<open>EXIT_SUCCESS\<close> is 0 and \<open>EXIT_QUEUED\<close> is 1 (\<open>src/src/error.rs\<close>).\<close>

definition graph_exit_code :: "graph_state \<Rightarrow> int" where
  "graph_exit_code s = (if s = Graph_Complete then 0 else 1)"

section \<open>What a settlement said\<close>

datatype settled = At node_status | ReachedTheOrigin | ReachedItsBase

text \<open>\<open>crate::vcs::Failure::UNREAD\<close>.\<close>

definition unread_word :: str where
  "unread_word = ''pushed-unverified''"

definition settled_of :: "node_status \<Rightarrow> str option \<Rightarrow> landing option \<Rightarrow> settled" where
  "settled_of status outcome landing =
     (if status = Failed \<and> outcome = Some unread_word
      then (if landing = Some Landed then ReachedItsBase else ReachedTheOrigin)
      else At status)"

definition settled_at :: "node_status \<Rightarrow> settled" where
  "settled_at s = At s"

fun settled_status_of :: "settled \<Rightarrow> node_status" where
  "settled_status_of (At s) = s"
| "settled_status_of ReachedTheOrigin = Failed"
| "settled_status_of ReachedItsBase = Failed"

definition skips_dependents :: "settled \<Rightarrow> bool" where
  "skips_dependents r \<longleftrightarrow> r = At Failed \<or> r = At Skipped"

definition holds_dependents :: "settled \<Rightarrow> bool" where
  "holds_dependents r \<longleftrightarrow> r = ReachedTheOrigin"

definition reached_its_base :: "settled \<Rightarrow> bool" where
  "reached_its_base r \<longleftrightarrow> r = ReachedItsBase"

lemma settled_of_status [simp]: "settled_status_of (settled_of s w l) = s"
  by (simp add: settled_of_def)

lemma unsettled_statuses:
  "\<not> is_settled s \<longleftrightarrow> s = Pending \<or> s = Ready \<or> s = Running \<or> awaits_release s"
  by (cases s) (simp_all add: is_settled_def awaits_release_def)

lemma state_of_settled_not_released: "awaits_release s \<Longrightarrow> \<not> is_settled s"
  by (auto simp: is_settled_def awaits_release_def)

end
