(* ===== verification/Task_Graph.thy ===== *)
theory Task_Graph
  imports Node_Status
begin

text \<open>
  The desired graph (\<open>Graph\<close> of \<open>src/src/graph.rs\<close>): the nodes by id beside the order the
  planner wrote them in. The two private fields hold one fact twice; \<open>graph_ok\<close> says they
  agree, and every operation keeps it.
\<close>

record graph =
  order_ids :: "str list"
  nodes :: "node bmap"
  concurrency :: u32

definition with_concurrency :: "u32 \<Rightarrow> graph" where
  "with_concurrency c = \<lparr> order_ids = [], nodes = [], concurrency = c \<rparr>"

definition graph_insert :: "node \<Rightarrow> graph \<Rightarrow> graph" where
  "graph_insert n g =
     g\<lparr> order_ids := (if bget (nodes g) (node_id n) = None
                      then order_ids g @ [node_id n] else order_ids g),
        nodes := bput (node_id n) n (nodes g) \<rparr>"

definition graph_remove :: "str \<Rightarrow> graph \<Rightarrow> graph" where
  "graph_remove k g =
     g\<lparr> order_ids := filter (\<lambda>i. i \<noteq> k) (order_ids g), nodes := bdel k (nodes g) \<rparr>"

definition graph_get :: "graph \<Rightarrow> str \<Rightarrow> node option" where
  "graph_get g k = bget (nodes g) k"

text \<open>\<open>get_mut\<close> and the assignments through it: the node under \<open>k\<close>, changed in place.\<close>

definition graph_modify :: "str \<Rightarrow> (node \<Rightarrow> node) \<Rightarrow> graph \<Rightarrow> graph" where
  "graph_modify k f g = g\<lparr> nodes := bmodify k f (nodes g) \<rparr>"

definition graph_contains :: "graph \<Rightarrow> str \<Rightarrow> bool" where
  "graph_contains g k \<longleftrightarrow> graph_get g k \<noteq> None"

definition graph_iter :: "graph \<Rightarrow> node list" where
  "graph_iter g = List.map_filter (graph_get g) (order_ids g)"

definition graph_len :: "graph \<Rightarrow> nat" where
  "graph_len g = length (order_ids g)"

definition graph_is_empty :: "graph \<Rightarrow> bool" where
  "graph_is_empty g \<longleftrightarrow> order_ids g = []"

definition from_plan :: "plan \<Rightarrow> graph" where
  "from_plan p = fold graph_insert (tasks p) (with_concurrency (plan_concurrency p))"

definition to_plan :: "graph \<Rightarrow> plan \<Rightarrow> plan" where
  "to_plan g source =
     source\<lparr> plan_concurrency := concurrency g, tasks := graph_iter g \<rparr>"

definition dependents_of :: "graph \<Rightarrow> str \<Rightarrow> str list" where
  "dependents_of g k = map node_id (filter (\<lambda>n. k \<in> set (deps n)) (graph_iter g))"

definition unblocks :: "graph \<Rightarrow> str \<Rightarrow> str list" where
  "unblocks g k = dependents_of g k"

section \<open>The representation invariant\<close>

definition graph_ok :: "graph \<Rightarrow> bool" where
  "graph_ok g \<longleftrightarrow>
     bmap_ok (nodes g) \<and> distinct (order_ids g) \<and>
     (\<forall>k. k \<in> set (order_ids g) \<longleftrightarrow> graph_get g k \<noteq> None) \<and>
     (\<forall>k n. graph_get g k = Some n \<longrightarrow> node_id n = k)"

lemma graph_get_insert [simp]:
  "graph_get (graph_insert n g) k = (if k = node_id n then Some n else graph_get g k)"
  by (simp add: graph_get_def graph_insert_def)

lemma graph_get_remove [simp]:
  "graph_get (graph_remove j g) k = (if k = j then None else graph_get g k)"
  by (simp add: graph_get_def graph_remove_def)

lemma graph_get_modify [simp]:
  "graph_get (graph_modify j f g) k =
     (if k = j then map_option f (graph_get g k) else graph_get g k)"
  by (simp add: graph_get_def graph_modify_def)

lemma order_remove [simp]:
  "order_ids (graph_remove k g) = filter (\<lambda>i. i \<noteq> k) (order_ids g)"
  by (simp add: graph_remove_def)

lemma order_modify [simp]: "order_ids (graph_modify k f g) = order_ids g"
  by (simp add: graph_modify_def)

lemma order_insert:
  "order_ids (graph_insert n g) =
     (if graph_contains g (node_id n) then order_ids g else order_ids g @ [node_id n])"
  by (simp add: graph_insert_def graph_contains_def graph_get_def)

lemma concurrency_simps [simp]:
  "concurrency (graph_insert n g) = concurrency g"
  "concurrency (graph_remove k g) = concurrency g"
  "concurrency (graph_modify k f g) = concurrency g"
  by (simp_all add: graph_insert_def graph_remove_def graph_modify_def)

lemma graph_ok_empty [simp]: "graph_ok (with_concurrency c)"
  by (simp add: graph_ok_def with_concurrency_def graph_get_def)

lemma nodes_simps [simp]:
  "nodes (graph_insert n g) = bput (node_id n) n (nodes g)"
  "nodes (graph_remove k g) = bdel k (nodes g)"
  "nodes (graph_modify k f g) = bmodify k f (nodes g)"
  by (simp_all add: graph_insert_def graph_remove_def graph_modify_def)

lemma graph_ok_order: "graph_ok g \<Longrightarrow> k \<in> set (order_ids g) \<longleftrightarrow> graph_contains g k"
  by (simp add: graph_ok_def graph_contains_def)

lemma graph_ok_id: "graph_ok g \<Longrightarrow> graph_get g k = Some n \<Longrightarrow> node_id n = k"
  by (simp add: graph_ok_def)

lemma graph_ok_insert [simp]: "graph_ok g \<Longrightarrow> graph_ok (graph_insert n g)"
  by (auto simp: graph_ok_def order_insert graph_contains_def)

lemma graph_ok_remove [simp]: "graph_ok g \<Longrightarrow> graph_ok (graph_remove k g)"
  by (auto simp: graph_ok_def)

lemma graph_ok_modify:
  assumes "graph_ok g" "\<And>n. node_id (f n) = node_id n"
  shows "graph_ok (graph_modify k f g)"
  using assms by (auto simp: graph_ok_def)

lemma graph_ok_from_plan: "graph_ok (from_plan p)"
proof -
  have "graph_ok g \<Longrightarrow> graph_ok (fold graph_insert ns g)" for ns g
    by (induction ns arbitrary: g) auto
  then show ?thesis by (simp add: from_plan_def)
qed

section \<open>Iterating\<close>

lemma in_graph_iter:
  assumes ok: "graph_ok g"
  shows "n \<in> set (graph_iter g) \<longleftrightarrow> graph_get g (node_id n) = Some n"
proof -
  have "n \<in> set (graph_iter g) \<longleftrightarrow> (\<exists>k \<in> set (order_ids g). graph_get g k = Some n)"
    by (force simp: graph_iter_def List.map_filter_def)
  also have "\<dots> \<longleftrightarrow> (\<exists>k. graph_get g k = Some n)"
    using ok by (auto simp: graph_ok_def)
  also have "\<dots> \<longleftrightarrow> graph_get g (node_id n) = Some n"
    using graph_ok_id [OF ok] by blast
  finally show ?thesis .
qed

lemma graph_iter_ids: "graph_ok g \<Longrightarrow> map node_id (graph_iter g) = order_ids g"
proof -
  assume ok: "graph_ok g"
  have "set ks \<subseteq> set (order_ids g) \<Longrightarrow> map node_id (List.map_filter (graph_get g) ks) = ks" for ks
  proof (induction ks)
    case (Cons k ks)
    then obtain n where "graph_get g k = Some n"
      using graph_ok_order [OF ok, of k] by (auto simp: graph_contains_def)
    with Cons show ?case
      using graph_ok_id [OF ok, of k n] by (simp add: map_filter_simps)
  qed (simp add: map_filter_simps)
  then show ?thesis by (simp add: graph_iter_def)
qed

lemma distinct_iter_ids: "graph_ok g \<Longrightarrow> distinct (map node_id (graph_iter g))"
  by (simp add: graph_iter_ids) (simp add: graph_ok_def)

lemma in_dependents_of:
  assumes ok: "graph_ok g"
  shows "j \<in> set (dependents_of g k) \<longleftrightarrow> (\<exists>n. graph_get g j = Some n \<and> k \<in> set (deps n))"
proof -
  have "j \<in> set (dependents_of g k) \<longleftrightarrow>
      (\<exists>n. n \<in> set (graph_iter g) \<and> k \<in> set (deps n) \<and> node_id n = j)"
    by (auto simp: dependents_of_def)
  also have "\<dots> \<longleftrightarrow> (\<exists>n. graph_get g j = Some n \<and> k \<in> set (deps n))"
    using graph_ok_id [OF ok] by (auto simp: in_graph_iter [OF ok])
  finally show ?thesis .
qed

lemma graph_eqI:
  assumes "graph_ok g" "graph_ok h" "order_ids g = order_ids h"
    "\<And>k. graph_get g k = graph_get h k" "concurrency g = concurrency h"
  shows "g = h"
proof -
  have "nodes g = nodes h"
    using assms(1,2,4) by (intro bmap_eqI) (simp_all add: graph_ok_def graph_get_def)
  with assms(3,5) show ?thesis by simp
qed

section \<open>The graph of a plan\<close>

lemma fold_insert_nodes:
  "nodes (fold graph_insert ns g) = fold (\<lambda>(k, v). bput k v) (map (\<lambda>n. (node_id n, n)) ns) (nodes g)"
  by (induction ns arbitrary: g) auto

lemma fold_insert_order:
  assumes "graph_ok g" "distinct (map node_id ns)" "\<forall>n \<in> set ns. \<not> graph_contains g (node_id n)"
  shows "order_ids (fold graph_insert ns g) = order_ids g @ map node_id ns"
  using assms
proof (induction ns arbitrary: g)
  case (Cons n ns)
  have "\<forall>m \<in> set ns. \<not> graph_contains (graph_insert n g) (node_id m)"
    using Cons.prems(2,3) by (auto simp: graph_contains_def dest: notin_image)
  with Cons show ?case by (simp add: order_insert)
qed simp

lemma from_plan_get:
  assumes "distinct (map node_id (tasks p))"
  shows "graph_get (from_plan p) k = map_of (map (\<lambda>n. (node_id n, n)) (tasks p)) k"
proof -
  have "distinct (map fst (map (\<lambda>n. (node_id n, n)) (tasks p)))"
    using assms by (simp add: comp_def)
  from bm.get_collect_distinct [OF this] show ?thesis
    by (simp add: graph_get_def from_plan_def fold_insert_nodes with_concurrency_def)
qed

lemma from_plan_get_iff:
  assumes "distinct (map node_id (tasks p))"
  shows "graph_get (from_plan p) k = Some n \<longleftrightarrow> n \<in> set (tasks p) \<and> node_id n = k"
proof -
  have "distinct (map fst (map (\<lambda>n. (node_id n, n)) (tasks p)))"
    using assms by (simp add: comp_def)
  from map_of_eq_Some_iff [OF this] show ?thesis
    unfolding from_plan_get [OF assms] by auto
qed

lemma from_plan_order:
  "distinct (map node_id (tasks p)) \<Longrightarrow> order_ids (from_plan p) = map node_id (tasks p)"
  using fold_insert_order [OF graph_ok_empty, of "tasks p" "plan_concurrency p"]
  by (simp add: from_plan_def graph_contains_def graph_get_def with_concurrency_def)

lemma from_plan_iter:
  assumes dist: "distinct (map node_id (tasks p))"
  shows "graph_iter (from_plan p) = tasks p"
proof -
  have "set ns \<subseteq> set (tasks p) \<Longrightarrow>
      List.map_filter (graph_get (from_plan p)) (map node_id ns) = ns" for ns
    by (induction ns) (auto simp: map_filter_simps from_plan_get_iff [OF dist, THEN iffD2])
  then show ?thesis by (simp add: graph_iter_def from_plan_order [OF dist])
qed

lemma from_plan_concurrency [simp]: "concurrency (from_plan p) = plan_concurrency p"
proof -
  have "concurrency (fold graph_insert ns g) = concurrency g" for ns g
    by (induction ns arbitrary: g) auto
  then show ?thesis by (simp add: from_plan_def with_concurrency_def)
qed

lemma graph_iter_length: "graph_ok g \<Longrightarrow> length (graph_iter g) = graph_len g"
  using graph_iter_ids [of g] by (metis graph_len_def length_map)

text \<open>A graph is determined by the nodes it lists and its concurrency.\<close>

lemma from_plan_to_plan:
  assumes ok: "graph_ok g"
  shows "from_plan (to_plan g source) = g"
proof (rule graph_eqI [OF graph_ok_from_plan ok])
  have dist: "distinct (map node_id (tasks (to_plan g source)))"
    using distinct_iter_ids [OF ok] by (simp add: to_plan_def)
  show "order_ids (from_plan (to_plan g source)) = order_ids g"
    unfolding from_plan_order [OF dist] by (simp add: to_plan_def graph_iter_ids [OF ok])
  show "graph_get (from_plan (to_plan g source)) k = graph_get g k" for k
  proof (cases "graph_get g k")
    case None
    then have "graph_get (from_plan (to_plan g source)) k \<noteq> Some n" for n
      using in_graph_iter [OF ok, of n] unfolding from_plan_get_iff [OF dist]
      by (auto simp: to_plan_def)
    with None show ?thesis by (cases "graph_get (from_plan (to_plan g source)) k") auto
  next
    case (Some n)
    have "node_id n = k" by (rule graph_ok_id [OF ok Some])
    with Some have "graph_get (from_plan (to_plan g source)) k = Some n"
      unfolding from_plan_get_iff [OF dist] by (simp add: to_plan_def in_graph_iter [OF ok])
    with Some show ?thesis by simp
  qed
  show "concurrency (from_plan (to_plan g source)) = concurrency g" by (simp add: to_plan_def)
qed

end
