(* ===== verification/Cross_Dag.thy ===== *)
theory Cross_Dag
  imports Task_Graph
begin

text \<open>
  Cross-DAG edges (\<open>src/src/crossdag.rs\<close>): the \<open>run:<run_id>#<node_id>\<close> references, the
  ledger reads that answer one, and the observer that resolves a graph's edges and remembers
  what it has already reported. A run's ledger is the list of its records as JSON readers see
  them: a line that does not parse is \<open>None\<close>. The clock and the read cache, which decide only
  when a ledger is read again, are not modelled; \<open>resolve\<close> takes the ledgers its two reads of
  an upstream see, since the upstream may append between them.
\<close>

section \<open>References\<close>

definition run_prefix :: str where
  "run_prefix = ''run:''"

record reference =
  ref_run :: str
  ref_node :: str

text \<open>
  \<open>Path::new(s).components().count()\<close> on Unix: a leading root, then every segment between
  slashes that is neither empty nor, past the first, a lone dot.
\<close>

definition path_components :: "str \<Rightarrow> nat" where
  "path_components s =
     (let segments = split_at_char (CHR ''/'') s;
          kept = (\<lambda>w. w \<noteq> [] \<and> w \<noteq> ''.'')
      in (if starts_with ''/'' s then 1 else 0)
         + (if hd segments = ''.'' then 1 else 0)
         + length (filter kept segments))"

text \<open>\<open>ledger::is_valid_run_id\<close>.\<close>

definition is_valid_run_id :: "str \<Rightarrow> bool" where
  "is_valid_run_id run \<longleftrightarrow>
     run \<noteq> [] \<and> run \<noteq> ''.'' \<and> run \<noteq> ''..'' \<and>
     CHR ''/'' \<notin> set run \<and> CHR 0x5C \<notin> set run \<and>
     \<not> starts_with ''/'' run \<and> path_components run = 1"

definition parse_reference :: "str \<Rightarrow> reference option" where
  "parse_reference dependency =
     (case strip_prefix run_prefix dependency of
        None \<Rightarrow> None
      | Some rest \<Rightarrow>
          (case split_once (CHR ''#'') rest of
             None \<Rightarrow> None
           | Some (run, nid) \<Rightarrow>
               if nid = [] \<or> \<not> is_valid_run_id run then None
               else Some \<lparr> ref_run = run, ref_node = nid \<rparr>))"

definition is_reference :: "str \<Rightarrow> bool" where
  "is_reference dependency \<longleftrightarrow> parse_reference dependency \<noteq> None"

definition is_malformed :: "str \<Rightarrow> bool" where
  "is_malformed dependency \<longleftrightarrow>
     starts_with run_prefix dependency \<and> parse_reference dependency = None"

text \<open>\<open>graph::is_cross_dag\<close>.\<close>

definition is_cross_dag :: "str \<Rightarrow> bool" where
  "is_cross_dag dep \<longleftrightarrow> is_reference dep"

definition show_reference :: "reference \<Rightarrow> str" where
  "show_reference r = run_prefix @ ref_run r @ CHR ''#'' # ref_node r"

section \<open>Reading another run's ledger\<close>

record ledger_line =
  line_kind :: "str option"
  line_node :: "str option"
  line_status :: "str option"

type_synonym ledger = "ledger_line option list"

definition node_settled_word :: str where
  "node_settled_word = ''node-settled''"

definition settlement_of :: "str \<Rightarrow> ledger_line option \<Rightarrow> node_status option" where
  "settlement_of nid line =
     (case line of
        None \<Rightarrow> None
      | Some e \<Rightarrow>
          if line_kind e = Some node_settled_word \<and> line_node e = Some nid
          then Option.bind (line_status e) status_parse else None)"

definition read_settled_status ::
    "(str \<Rightarrow> ledger option) \<Rightarrow> reference \<Rightarrow> node_status option" where
  "read_settled_status ledgers r =
     (case ledgers (ref_run r) of
        None \<Rightarrow> None
      | Some ls \<Rightarrow>
          (case rev (List.map_filter (settlement_of (ref_node r)) ls) of
             [] \<Rightarrow> None
           | s # _ \<Rightarrow> Some s))"

definition extent :: "(str \<Rightarrow> ledger option) \<Rightarrow> str \<Rightarrow> nat option" where
  "extent ledgers run = map_option length (ledgers run)"

section \<open>The graph's edges\<close>

definition edge_push :: "str \<Rightarrow> str \<Rightarrow> str list bmap \<Rightarrow> str list bmap" where
  "edge_push dep consumer m =
     bput dep ((case bget m dep of None \<Rightarrow> [] | Some cs \<Rightarrow> cs) @ [consumer]) m"

definition cross_edges :: "graph \<Rightarrow> str list bmap" where
  "cross_edges g =
     fold (\<lambda>(dep, consumer) m. edge_push dep consumer m)
       (concat (map (\<lambda>n. map (\<lambda>dep. (dep, node_id n)) (filter is_reference (deps n)))
                 (graph_iter g))) []"

definition satisfied_status :: "node_status option \<Rightarrow> node_status" where
  "satisfied_status s = (if s = Some Done then Done else Blocked)"

definition resolve_with ::
    "(reference \<Rightarrow> node_status option) \<Rightarrow> graph \<Rightarrow> node_status bmap" where
  "resolve_with read g =
     bcollect (List.map_filter
       (\<lambda>dep. map_option (\<lambda>r. (dep, satisfied_status (read r))) (parse_reference dep))
       (map fst (cross_edges g)))"

section \<open>The observer\<close>

record observer =
  baselines :: "nat bmap"
  reported :: "(str \<times> str) set"

datatype cross_event =
    CrossDagSatisfied str str nat      \<comment> \<open>consumer, dependency, \<open>last_seq\<close>\<close>
  | UpstreamModified str str nat nat   \<comment> \<open>consumer, dependency, captured, observed\<close>

text \<open>
  Writing to the journal may fail, which ends the pass with what it already did done:
  \<open>emits e\<close> says whether the record \<open>e\<close> could be appended. A step answers whether it went
  through, the observer, and the records appended so far.
\<close>

type_synonym observation = "bool \<times> observer \<times> cross_event list"

fun report_moved ::
    "(cross_event \<Rightarrow> bool) \<Rightarrow> str \<Rightarrow> nat \<Rightarrow> nat \<Rightarrow> str list \<Rightarrow>
     observer \<Rightarrow> cross_event list \<Rightarrow> observation" where
  "report_moved emits dep base now [] ob out = (True, ob, out)"
| "report_moved emits dep base now (c # cs) ob out =
     (if (dep, c) \<in> reported ob then report_moved emits dep base now cs ob out
      else
        let ob' = ob\<lparr> reported := insert (dep, c) (reported ob) \<rparr>;
            e = UpstreamModified c dep base now
        in if emits e then report_moved emits dep base now cs ob' (out @ [e])
           else (False, ob', out))"

definition capture_baseline ::
    "(cross_event \<Rightarrow> bool) \<Rightarrow> str \<Rightarrow> nat \<Rightarrow> str list \<Rightarrow>
     observer \<Rightarrow> cross_event list \<Rightarrow> observation" where
  "capture_baseline emits dep now cs ob out =
     (case bget (baselines ob) dep of
        Some _ \<Rightarrow> (True, ob, out)
      | None \<Rightarrow>
          let ob' = ob\<lparr> baselines := bput dep now (baselines ob) \<rparr>
          in case cs of
               [] \<Rightarrow> (True, ob', out)
             | c # _ \<Rightarrow>
                 let e = CrossDagSatisfied c dep now
                 in if emits e then (True, ob', out @ [e]) else (False, ob', out))"

definition resolve_done ::
    "(cross_event \<Rightarrow> bool) \<Rightarrow> str \<Rightarrow> nat option \<Rightarrow> str list \<Rightarrow>
     observer \<Rightarrow> cross_event list \<Rightarrow> observation" where
  "resolve_done emits dep reached cs ob out =
     (case reached of
        None \<Rightarrow> (True, ob, out)
      | Some now \<Rightarrow>
          (case capture_baseline emits dep now cs ob out of
             (False, ob1, out1) \<Rightarrow> (False, ob1, out1)
           | (True, ob1, out1) \<Rightarrow>
               let base = (case bget (baselines ob) dep of Some b \<Rightarrow> b | None \<Rightarrow> now)
               in if now \<le> base then (True, ob1, out1)
                  else report_moved emits dep base now cs ob1 out1))"

fun resolve_edges ::
    "(cross_event \<Rightarrow> bool) \<Rightarrow> (str \<Rightarrow> ledger option) \<Rightarrow> (str \<Rightarrow> ledger option) \<Rightarrow>
     str list bmap \<Rightarrow> observer \<Rightarrow> cross_event list \<Rightarrow> node_status bmap \<Rightarrow>
     observer \<times> cross_event list \<times> node_status bmap option" where
  "resolve_edges emits w1 w2 [] ob out res = (ob, out, Some res)"
| "resolve_edges emits w1 w2 ((dep, cs) # es) ob out res =
     (case parse_reference dep of
        None \<Rightarrow> resolve_edges emits w1 w2 es ob out res
      | Some r \<Rightarrow>
          if read_settled_status w1 r \<noteq> Some Done
          then resolve_edges emits w1 w2 es ob out (bput dep Blocked res)
          else
            (case resolve_done emits dep (extent w2 (ref_run r)) cs ob out of
               (False, ob1, out1) \<Rightarrow> (ob1, out1, None)
             | (True, ob1, out1) \<Rightarrow>
                 resolve_edges emits w1 w2 es ob1 out1 (bput dep Done res)))"

definition resolve ::
    "(cross_event \<Rightarrow> bool) \<Rightarrow> (str \<Rightarrow> ledger option) \<Rightarrow> (str \<Rightarrow> ledger option) \<Rightarrow>
     graph \<Rightarrow> observer \<Rightarrow> cross_event list \<Rightarrow>
     observer \<times> cross_event list \<times> node_status bmap option" where
  "resolve emits w1 w2 g ob out = resolve_edges emits w1 w2 (cross_edges g) ob out []"

text \<open>A run of the observer: one pass after another, each over the graph and ledgers of its
  own moment, its records appended to the same journal.\<close>

type_synonym pass =
  "(cross_event \<Rightarrow> bool) \<times> (str \<Rightarrow> ledger option) \<times> (str \<Rightarrow> ledger option) \<times> graph"

fun observe :: "pass list \<Rightarrow> observer \<Rightarrow> cross_event list \<Rightarrow> observer \<times> cross_event list" where
  "observe [] ob out = (ob, out)"
| "observe ((emits, w1, w2, g) # ps) ob out =
     (case resolve emits w1 w2 g ob out of (ob1, out1, _) \<Rightarrow> observe ps ob1 out1)"

section \<open>References round trip\<close>

lemma parse_reference_Some:
  "parse_reference d = Some r \<longleftrightarrow>
     d = show_reference r \<and> CHR ''#'' \<notin> set (ref_run r) \<and> ref_node r \<noteq> [] \<and>
     is_valid_run_id (ref_run r)"
proof
  assume "parse_reference d = Some r"
  then obtain run nid where "d = run_prefix @ run @ CHR ''#'' # nid" "CHR ''#'' \<notin> set run"
    "nid \<noteq> []" "is_valid_run_id run" "r = \<lparr> ref_run = run, ref_node = nid \<rparr>"
    by (auto simp: parse_reference_def strip_prefix_Some split_once_Some
        split: option.splits prod.splits if_splits)
  then show "d = show_reference r \<and> CHR ''#'' \<notin> set (ref_run r) \<and> ref_node r \<noteq> [] \<and>
      is_valid_run_id (ref_run r)"
    by (simp add: show_reference_def)
next
  assume "d = show_reference r \<and> CHR ''#'' \<notin> set (ref_run r) \<and> ref_node r \<noteq> [] \<and>
      is_valid_run_id (ref_run r)"
  then show "parse_reference d = Some r"
    by (simp add: parse_reference_def show_reference_def)
qed

text \<open>
  A cross-DAG reference reads back as exactly what was written: parsing what a reference
  shows gives that reference when its run id is a valid one without \<open>#\<close> and its node is
  not empty, and every text that parses is the text its reference shows.
\<close>

lemma reference_round_trip:
  "(parse_reference (show_reference r) = Some r \<longleftrightarrow>
      is_valid_run_id (ref_run r) \<and> CHR ''#'' \<notin> set (ref_run r) \<and> ref_node r \<noteq> []) \<and>
   (parse_reference d = Some r \<longrightarrow> show_reference r = d)"
  by (auto simp: parse_reference_Some)

section \<open>What a pass answers\<close>

lemma edge_push_get:
  "bget (edge_push dep c m) d =
     (if d = dep then Some ((case bget m dep of None \<Rightarrow> [] | Some cs \<Rightarrow> cs) @ [c]) else bget m d)"
  by (simp add: edge_push_def)

definition cross_pairs :: "graph \<Rightarrow> (str \<times> str) list" where
  "cross_pairs g =
     concat (map (\<lambda>n. map (\<lambda>dep. (dep, node_id n)) (filter is_reference (deps n))) (graph_iter g))"

lemma fold_edge_push_keys:
  "fst ` set (fold (\<lambda>(dep, c) m. edge_push dep c m) es m) = fst ` set es \<union> fst ` set m"
proof (induction es arbitrary: m)
  case (Cons e es)
  obtain dep c where e: "e = (dep, c)" by (cases e)
  show ?case
    using Cons.IH [of "edge_push dep c m"] by (simp add: e edge_push_def)
qed simp

lemma cross_edges_keys: "fst ` set (cross_edges g) = fst ` set (cross_pairs g)"
  unfolding cross_edges_def fold_edge_push_keys cross_pairs_def by simp

lemma cross_edges_ok: "bmap_ok (cross_edges g)"
proof -
  have "bmap_ok m \<Longrightarrow> bmap_ok (fold (\<lambda>(dep, c) m. edge_push dep c m) es m)" for es m
  proof (induction es arbitrary: m)
    case (Cons e es)
    obtain dep c where e: "e = (dep, c)" by (cases e)
    show ?case
      using Cons.IH [of "edge_push dep c m"] Cons.prems by (simp add: e edge_push_def)
  qed simp
  then show ?thesis by (simp add: cross_edges_def)
qed

lemma in_cross_edges:
  assumes "graph_ok g"
  shows "d \<in> fst ` set (cross_edges g) \<longleftrightarrow>
    is_reference d \<and> (\<exists>k n. graph_get g k = Some n \<and> d \<in> set (deps n))"
proof -
  have "d \<in> fst ` set (cross_edges g) \<longleftrightarrow>
      is_reference d \<and> (\<exists>n \<in> set (graph_iter g). d \<in> set (deps n))"
    unfolding cross_edges_keys cross_pairs_def by force
  also have "\<dots> \<longleftrightarrow> is_reference d \<and> (\<exists>k n. graph_get g k = Some n \<and> d \<in> set (deps n))"
    using in_graph_iter [OF assms] graph_ok_id [OF assms] by blast
  finally show ?thesis .
qed

text \<open>What one edge of a pass answers: nothing for a text that is no reference.\<close>

definition answer :: "(reference \<Rightarrow> node_status option) \<Rightarrow> str \<Rightarrow> node_status option" where
  "answer read d = map_option (\<lambda>r. satisfied_status (read r)) (parse_reference d)"

lemma resolve_edges_answers:
  "resolve_edges emits w1 w2 es ob out res = (ob', out', Some res') \<Longrightarrow>
     bget res' d =
       (if d \<in> fst ` set es \<and> answer (read_settled_status w1) d \<noteq> None
        then answer (read_settled_status w1) d else bget res d)"
proof (induction es arbitrary: ob out res)
  case (Cons e es)
  obtain dep cs where e: "e = (dep, cs)" by (cases e)
  show ?case
  proof (cases "parse_reference dep")
    case None
    with Cons e show ?thesis by (auto simp: answer_def)
  next
    case (Some r)
    obtain ob1 out1 where
      run: "resolve_edges emits w1 w2 es ob1 out1
              (bput dep (satisfied_status (read_settled_status w1 r)) res) = (ob', out', Some res')"
      using Cons.prems e Some
      by (auto simp: satisfied_status_def split: prod.splits bool.splits if_splits)
    from Cons.IH [OF run] show ?thesis
      using e Some by (auto simp: answer_def)
  qed
qed simp

lemma resolve_with_answers:
  "bget (resolve_with read g) d = (if d \<in> fst ` set (cross_edges g) then answer read d else None)"
proof -
  let ?keys = "map fst (cross_edges g)"
  let ?f = "\<lambda>dep. map_option (\<lambda>r. (dep, satisfied_status (read r))) (parse_reference dep)"
  have keys: "map fst (List.map_filter ?f ks) = filter (\<lambda>k. answer read k \<noteq> None) ks" for ks
    by (induction ks) (auto simp: map_filter_simps answer_def split: option.split)
  have dist: "distinct (map fst (List.map_filter ?f ?keys))"
    unfolding keys by (intro distinct_filter bmap_ok_distinct cross_edges_ok)
  have get: "map_of (List.map_filter ?f ks) d = (if d \<in> set ks then answer read d else None)" for ks
    by (induction ks) (auto simp: map_filter_simps answer_def split: option.split)
  show ?thesis
    unfolding resolve_with_def bcollect_def bm.get_collect_distinct [OF dist] get by simp
qed

lemma resolve_with_ok: "bmap_ok (resolve_with read g)"
  unfolding resolve_with_def bcollect_def by (rule bm.ok_collect) simp

lemma resolve_edges_ok:
  "resolve_edges emits w1 w2 es ob out res = (ob', out', Some res') \<Longrightarrow> bmap_ok res \<Longrightarrow>
     bmap_ok res'"
proof (induction es arbitrary: ob out res)
  case (Cons e es)
  then show ?case
    by (cases e) (auto split: option.splits if_splits prod.splits bool.splits)
qed simp

text \<open>
  A pass that completes answers every cross-DAG dependency of the graph from the last
  settlement the upstream's ledger holds: \<open>done\<close> exactly when that settlement is \<open>done\<close>, and
  \<open>blocked\<close> otherwise, which is what the pure \<open>resolve_with\<close> answers; so the answers the
  scheduler reads are never anything else.
\<close>

lemma pass_answers_the_ledger:
  assumes ok: "graph_ok g" and run: "resolve emits w1 w2 g ob out = (ob', out', Some res)"
  shows "res = resolve_with (read_settled_status w1) g \<and>
    (bget res d = Some Done \<longleftrightarrow>
       (\<exists>r k n. parse_reference d = Some r \<and> read_settled_status w1 r = Some Done \<and>
          graph_get g k = Some n \<and> d \<in> set (deps n))) \<and>
    bget res d \<in> {None, Some Done, Some Blocked}"
proof -
  have run': "resolve_edges emits w1 w2 (cross_edges g) ob out [] = (ob', out', Some res)"
    using run by (simp add: resolve_def)
  have eq: "res = resolve_with (read_settled_status w1) g"
  proof (rule bmap_eqI)
    show "bmap_ok res" using resolve_edges_ok [OF run'] by simp
    show "bget res k = bget (resolve_with (read_settled_status w1) g) k" for k
      unfolding resolve_edges_answers [OF run'] resolve_with_answers by auto
  qed (rule resolve_with_ok)
  have "bget res d = (if d \<in> fst ` set (cross_edges g) then answer (read_settled_status w1) d else None)"
    unfolding eq by (rule resolve_with_answers)
  then show ?thesis
    using eq unfolding in_cross_edges [OF ok]
    by (auto simp: answer_def is_reference_def satisfied_status_def split: if_splits)
qed

section \<open>What the observer reports\<close>

fun satisfied_edge :: "cross_event \<Rightarrow> str option" where
  "satisfied_edge (CrossDagSatisfied c d n) = Some d"
| "satisfied_edge (UpstreamModified c d b n) = None"

fun modified_edge :: "cross_event \<Rightarrow> (str \<times> str) option" where
  "modified_edge (CrossDagSatisfied c d n) = None"
| "modified_edge (UpstreamModified c d b n) = Some (d, c)"

text \<open>An event agrees with what the observer remembers of its edge.\<close>

fun remembered :: "observer \<Rightarrow> cross_event \<Rightarrow> bool" where
  "remembered ob (CrossDagSatisfied c d n) \<longleftrightarrow> bget (baselines ob) d = Some n"
| "remembered ob (UpstreamModified c d b n) \<longleftrightarrow>
     bget (baselines ob) d = Some b \<and> b < n \<and> (d, c) \<in> reported ob"

definition once :: "observer \<Rightarrow> cross_event list \<Rightarrow> bool" where
  "once ob out \<longleftrightarrow>
     (\<forall>e \<in> set out. remembered ob e) \<and>
     distinct (List.map_filter satisfied_edge out) \<and>
     distinct (List.map_filter modified_edge out)"

lemma map_filter_snoc:
  "List.map_filter f (xs @ [x]) =
     List.map_filter f xs @ (case f x of None \<Rightarrow> [] | Some y \<Rightarrow> [y])"
  by (simp add: List.map_filter_def split: option.split)

lemma remembered_report:
  "remembered ob e \<Longrightarrow> remembered (ob\<lparr> reported := insert p (reported ob) \<rparr>) e"
  by (cases e) auto

lemma remembered_baseline:
  "bget (baselines ob) dep = None \<Longrightarrow> remembered ob e \<Longrightarrow>
     remembered (ob\<lparr> baselines := bput dep now (baselines ob) \<rparr>) e"
  by (cases e) auto

lemma once_report:
  assumes "once ob out" and base: "bget (baselines ob) dep = Some b" "b < now"
    and new: "(dep, c) \<notin> reported ob"
  shows "once (ob\<lparr> reported := insert (dep, c) (reported ob) \<rparr>) out"
    and "once (ob\<lparr> reported := insert (dep, c) (reported ob) \<rparr>) (out @ [UpstreamModified c dep b now])"
proof -
  let ?ob = "ob\<lparr> reported := insert (dep, c) (reported ob) \<rparr>"
  have all: "\<forall>e \<in> set out. remembered ?ob e"
    using assms(1) remembered_report by (simp add: once_def)
  have "(dep, c) \<notin> set (List.map_filter modified_edge out)"
  proof
    assume "(dep, c) \<in> set (List.map_filter modified_edge out)"
    then obtain e where e: "e \<in> set out" "modified_edge e = Some (dep, c)"
      by (auto simp: in_map_filter)
    then have "remembered ob e" using assms(1) by (simp add: once_def)
    with e(2) new show False by (cases e) auto
  qed
  with all assms(1) base show "once ?ob out" "once ?ob (out @ [UpstreamModified c dep b now])"
    by (simp_all add: once_def map_filter_snoc)
qed

lemma once_baseline:
  assumes "once ob out" and none: "bget (baselines ob) dep = None"
  shows "once (ob\<lparr> baselines := bput dep now (baselines ob) \<rparr>) out"
    and "once (ob\<lparr> baselines := bput dep now (baselines ob) \<rparr>) (out @ [CrossDagSatisfied c dep now])"
proof -
  let ?ob = "ob\<lparr> baselines := bput dep now (baselines ob) \<rparr>"
  have all: "\<forall>e \<in> set out. remembered ?ob e"
    using assms(1) remembered_baseline [OF none] by (simp add: once_def)
  have "dep \<notin> set (List.map_filter satisfied_edge out)"
  proof
    assume "dep \<in> set (List.map_filter satisfied_edge out)"
    then obtain e where e: "e \<in> set out" "satisfied_edge e = Some dep"
      by (auto simp: in_map_filter)
    then have "remembered ob e" using assms(1) by (simp add: once_def)
    with e(2) none show False by (cases e) auto
  qed
  with all assms(1) show "once ?ob out" "once ?ob (out @ [CrossDagSatisfied c dep now])"
    by (simp_all add: once_def map_filter_snoc)
qed

lemma report_moved_once:
  "once ob out \<Longrightarrow> bget (baselines ob) dep = Some b \<Longrightarrow> b < now \<Longrightarrow>
     report_moved emits dep b now cs ob out = (ok, ob', out') \<Longrightarrow> once ob' out'"
proof (induction cs arbitrary: ob out)
  case (Cons c cs)
  show ?case
  proof (cases "(dep, c) \<in> reported ob")
    case True
    with Cons show ?thesis by simp
  next
    case False
    note new = once_report [OF Cons.prems(1-3) False]
    show ?thesis
    proof (cases "emits (UpstreamModified c dep b now)")
      case True
      show ?thesis
        by (rule Cons.IH [OF new(2)]) (use Cons.prems False True in \<open>simp_all add: Let_def\<close>)
    next
      case not: False
      with False Cons.prems new(1) show ?thesis by (simp add: Let_def)
    qed
  qed
qed simp

lemma capture_baseline_once:
  assumes "once ob out" "capture_baseline emits dep now cs ob out = (ok, ob', out')"
  shows "once ob' out' \<and> bget (baselines ob') dep =
    Some (case bget (baselines ob) dep of Some b \<Rightarrow> b | None \<Rightarrow> now)"
proof (cases "bget (baselines ob) dep")
  case None
  note new = once_baseline [OF assms(1) None, of now]
  show ?thesis
    using assms(2) None new(1) new(2) [of "hd cs"]
    by (cases cs) (auto simp: capture_baseline_def Let_def split: if_splits)
next
  case (Some b)
  with assms show ?thesis by (simp add: capture_baseline_def)
qed

lemma resolve_done_eq:
  assumes "capture_baseline emits dep now cs ob out = (ok1, ob1, out1)"
    and "base = (case bget (baselines ob) dep of Some b \<Rightarrow> b | None \<Rightarrow> now)"
  shows "resolve_done emits dep (Some now) cs ob out =
    (if ok1 \<and> base < now then report_moved emits dep base now cs ob1 out1 else (ok1, ob1, out1))"
  using assms by (cases ok1) (simp_all add: resolve_done_def Let_def)

lemma resolve_done_once:
  assumes inv: "once ob out" and run: "resolve_done emits dep reached cs ob out = (ok, ob', out')"
  shows "once ob' out'"
proof (cases reached)
  case None
  with assms show ?thesis by (simp add: resolve_done_def)
next
  case (Some now)
  obtain ok1 ob1 out1 where cap: "capture_baseline emits dep now cs ob out = (ok1, ob1, out1)"
    by (cases "capture_baseline emits dep now cs ob out")
  define base where "base = (case bget (baselines ob) dep of Some b \<Rightarrow> b | None \<Rightarrow> now)"
  have inv1: "once ob1 out1" and base: "bget (baselines ob1) dep = Some base"
    using capture_baseline_once [OF inv cap] by (simp_all only: base_def)
  have step: "(ok, ob', out') =
      (if ok1 \<and> base < now then report_moved emits dep base now cs ob1 out1 else (ok1, ob1, out1))"
    using run resolve_done_eq [OF cap base_def] Some by simp
  show ?thesis
  proof (cases "ok1 \<and> base < now")
    case True
    with step have "report_moved emits dep base now cs ob1 out1 = (ok, ob', out')" by simp
    with True show ?thesis by (intro report_moved_once [OF inv1 base]) simp_all
  next
    case False
    with step inv1 show ?thesis by simp
  qed
qed

lemma resolve_edges_once:
  "once ob out \<Longrightarrow> resolve_edges emits w1 w2 es ob out res = (ob', out', ans) \<Longrightarrow> once ob' out'"
proof (induction es arbitrary: ob out res)
  case (Cons e es)
  obtain dep cs where e: "e = (dep, cs)" by (cases e)
  show ?case
  proof (cases "parse_reference dep")
    case (Some r)
    show ?thesis
    proof (cases "read_settled_status w1 r = Some Done")
      case True
      obtain ok1 ob1 out1 where
        step: "resolve_done emits dep (extent w2 (ref_run r)) cs ob out = (ok1, ob1, out1)"
        by (cases "resolve_done emits dep (extent w2 (ref_run r)) cs ob out") auto
      have "once ob1 out1" using Cons.prems(1) step by (rule resolve_done_once)
      with Cons e Some True step show ?thesis by (cases ok1) auto
    next
      case False
      with Cons e Some show ?thesis by auto
    qed
  qed (use Cons e in auto)
qed simp

lemma observe_once: "once ob out \<Longrightarrow> observe ps ob out = (ob', out') \<Longrightarrow> once ob' out'"
proof (induction ps arbitrary: ob out)
  case (Cons p ps)
  obtain emits w1 w2 g where p: "p = (emits, w1, w2, g)" by (cases p)
  obtain ob1 out1 ans where r: "resolve emits w1 w2 g ob out = (ob1, out1, ans)"
    by (cases "resolve emits w1 w2 g ob out")
  have "once ob1 out1"
    using Cons.prems(1) r unfolding resolve_def by (rule resolve_edges_once)
  then show ?case
    by (rule Cons.IH) (use Cons.prems(2) p r in simp)
qed simp

text \<open>A new observer: nothing captured, nothing reported.\<close>

definition new_observer :: observer where
  "new_observer = \<lparr> baselines = [], reported = {} \<rparr>"

text \<open>
  C27. Over any sequence of passes, whatever the ledgers hold and whichever journal writes
  fail, an edge is reported satisfied at most once, each consumer of it is told at most once
  that the upstream moved on, and such a report names a length the upstream really passed:
  the one its satisfaction was captured at.
\<close>

theorem observer_reports_once:
  assumes "observe ps new_observer [] = (ob, out)"
  shows "distinct (List.map_filter satisfied_edge out) \<and>
    distinct (List.map_filter modified_edge out) \<and>
    (UpstreamModified c d captured now \<in> set out \<longrightarrow>
       captured < now \<and>
       (\<forall>c' n. CrossDagSatisfied c' d n \<in> set out \<longrightarrow> n = captured))"
proof -
  have "once new_observer []" by (simp add: once_def map_filter_simps)
  then have inv: "once ob out" using assms by (rule observe_once)
  then have all: "\<forall>e \<in> set out. remembered ob e" by (simp add: once_def)
  have "captured < now \<and> (\<forall>c' n. CrossDagSatisfied c' d n \<in> set out \<longrightarrow> n = captured)"
    if "UpstreamModified c d captured now \<in> set out"
  proof -
    have "remembered ob (UpstreamModified c d captured now)" by (rule bspec [OF all that])
    moreover have "remembered ob (CrossDagSatisfied c' d n)"
      if "CrossDagSatisfied c' d n \<in> set out" for c' n
      by (rule bspec [OF all that])
    ultimately show ?thesis by auto
  qed
  with inv show ?thesis by (simp add: once_def)
qed

text \<open>A run with one node waiting on another run's node, and two ledgers of that run.\<close>

definition waiting_graph :: graph where
  "waiting_graph = from_plan
     \<lparr> schema_version = plan_schema_version, goal = None, plan_name = None,
       plan_concurrency = 1,
       tasks = [blank_node\<lparr> node_id := ''deploy'', deps := [''run:nightly#build''] \<rparr>],
       export_edges = [] \<rparr>"

definition settled_line :: "str \<Rightarrow> node_status \<Rightarrow> ledger_line option" where
  "settled_line k s = Some \<lparr> line_kind = Some node_settled_word, line_node = Some k,
     line_status = Some (status_as_str s) \<rparr>"

definition one_ledger :: "ledger \<Rightarrow> str \<Rightarrow> ledger option" where
  "one_ledger ls run = (if run = ''nightly'' then Some ls else None)"

lemma waiting_graph_ok [simp]: "graph_ok waiting_graph"
  by (simp add: waiting_graph_def graph_ok_from_plan)

definition three_passes :: "pass list" where
  "three_passes = map (\<lambda>ls. (\<lambda>_. True, one_ledger ls, one_ledger ls, waiting_graph))
     [[settled_line ''build'' Done], [settled_line ''build'' Done, None],
      [settled_line ''build'' Done, None, None]]"

definition two_reports :: "cross_event list" where
  "two_reports = [CrossDagSatisfied ''deploy'' ''run:nightly#build'' 1,
     UpstreamModified ''deploy'' ''run:nightly#build'' 1 2]"

theorem observer_reports_once_witness:
  "snd (observe three_passes new_observer []) = two_reports \<and>
   distinct (List.map_filter modified_edge two_reports)"
proof -
  have out: "snd (observe three_passes new_observer []) = two_reports" by code_simp
  then have "observe three_passes new_observer []
      = (fst (observe three_passes new_observer []), two_reports)"
    by (metis prod.collapse)
  from observer_reports_once [OF this] out show ?thesis by simp
qed

end
