(* ===== verification/Cycle_Search.thy ===== *)
theory Cycle_Search
  imports Cross_Dag
begin

text \<open>
  The dependency-cycle search of \<open>src/src/graph.rs\<close> (\<open>find_cycle\<close>): an iterative depth-first
  walk with its marks, its path from the root and its stack of (node, next child) pairs. It is
  proved to end, to answer a real cycle where it answers one, and to answer none exactly on
  an acyclic relation.
\<close>

section \<open>The search\<close>

datatype mark = Open | Closed

definition cycle_deps :: "node list \<Rightarrow> str list bmap" where
  "cycle_deps ns =
     bcollect (map (\<lambda>n. (node_id n, filter (\<lambda>dep. \<not> is_cross_dag dep) (deps n))) ns)"

definition children :: "str list bmap \<Rightarrow> str \<Rightarrow> str list" where
  "children m v = (case bget m v of None \<Rightarrow> [] | Some cs \<Rightarrow> cs)"

text \<open>The path from where it first reaches \<open>c\<close>, then \<open>c\<close> again.\<close>

definition around :: "str list \<Rightarrow> str \<Rightarrow> str list" where
  "around path c = dropWhile (\<lambda>n. n \<noteq> c) path @ [c]"

text \<open>Every node the walk can meet: the keys of the map and everything they list.\<close>

definition universe :: "str list bmap \<Rightarrow> str list" where
  "universe m = remdups (concat (map (\<lambda>(k, cs). k # cs) m))"

definition walk_size :: "str list bmap \<Rightarrow> mark bmap \<Rightarrow> (str \<times> nat) list \<Rightarrow> nat" where
  "walk_size m marks stack =
     (\<Sum>v \<in> {v \<in> set (universe m). bget marks v = None}. length (children m v) + 2)
     + (\<Sum>(v, i) \<leftarrow> stack. Suc (length (children m v) - i))"

lemma children_universe: "c \<in> set (children m v) \<Longrightarrow> c \<in> set (universe m)"
proof (cases "bget m v")
  case (Some cs)
  assume "c \<in> set (children m v)"
  with Some have "(v, cs) \<in> set m" "c \<in> set cs"
    by (simp_all add: map_of_SomeD children_def)
  then show ?thesis by (auto simp: universe_def)
qed (simp add: children_def)

lemma walk_size_mark:
  assumes "c \<in> set (universe m)" "bget marks c = None"
  shows "walk_size m marks stack =
    walk_size m (bput c x marks) stack + (length (children m c) + 2)"
proof -
  let ?f = "\<lambda>v. length (children m v) + 2"
  let ?U = "{v \<in> set (universe m). bget marks v = None}"
  have "{v \<in> set (universe m). bget (bput c x marks) v = None} = ?U - {c}" by auto
  moreover have "sum ?f ?U = ?f c + sum ?f (?U - {c})"
    using assms by (intro sum.remove) auto
  ultimately show ?thesis by (simp add: walk_size_def)
qed

lemma walk_size_remark:
  "bget marks c \<noteq> None \<or> c \<notin> set (universe m) \<Longrightarrow>
     walk_size m (bput c x marks) stack = walk_size m marks stack"
proof -
  assume "bget marks c \<noteq> None \<or> c \<notin> set (universe m)"
  then have "{v \<in> set (universe m). bget (bput c x marks) v = None} =
      {v \<in> set (universe m). bget marks v = None}" by auto
  then show ?thesis by (simp add: walk_size_def)
qed

lemma walk_size_mark_le: "walk_size m (bput c x marks) stack \<le> walk_size m marks stack"
proof (cases "bget marks c = None \<and> c \<in> set (universe m)")
  case True
  then show ?thesis using walk_size_mark [of c m marks stack x] by simp
next
  case False
  then show ?thesis using walk_size_remark [of marks c m x stack] by simp
qed

lemma walk_size_Cons:
  "walk_size m marks ((v, i) # stack) = Suc (length (children m v) - i) + walk_size m marks stack"
  by (simp add: walk_size_def)

function cycle_walk ::
    "str list bmap \<Rightarrow> mark bmap \<Rightarrow> str list \<Rightarrow> (str \<times> nat) list \<Rightarrow>
     str list + mark bmap \<times> str list" where
  "cycle_walk m marks path [] = Inr (marks, path)"
| "cycle_walk m marks path ((v, i) # stack) =
     (if i < length (children m v)
      then (case bget marks (children m v ! i) of
              Some Open \<Rightarrow> Inl (around path (children m v ! i))
            | Some Closed \<Rightarrow> cycle_walk m marks path ((v, Suc i) # stack)
            | None \<Rightarrow>
                cycle_walk m (bput (children m v ! i) Open marks) (path @ [children m v ! i])
                  ((children m v ! i, 0) # (v, Suc i) # stack))
      else cycle_walk m (bput v Closed marks) (butlast path) stack)"
  by pat_completeness auto
termination
proof (relation "measure (\<lambda>(m, marks, path, stack). walk_size m marks stack)", goal_cases)
  case (3 m marks path v i stack x2)
  then show ?case by (simp add: walk_size_Cons)
next
  case (2 m marks path v i stack)
  then have "children m v ! i \<in> set (universe m)" by (intro children_universe [of _ m v] nth_mem)
  with 2 show ?case
    using walk_size_mark [of "children m v ! i" m marks stack Open] by (simp add: walk_size_Cons)
next
  case (4 m marks path v i stack)
  show ?case using walk_size_mark_le [of m v Closed marks stack] by (simp add: walk_size_Cons)
qed simp

declare cycle_walk.simps(2) [simp del]

fun cycle_roots ::
    "str list bmap \<Rightarrow> mark bmap \<Rightarrow> str list \<Rightarrow> str list \<Rightarrow> str list option" where
  "cycle_roots m marks path [] = None"
| "cycle_roots m marks path (r # rs) =
     (if bget marks r \<noteq> None then cycle_roots m marks path rs
      else (case cycle_walk m (bput r Open marks) (path @ [r]) [(r, 0)] of
              Inl c \<Rightarrow> Some c
            | Inr (marks', path') \<Rightarrow> cycle_roots m marks' path' rs))"

definition cycle_path :: "node list \<Rightarrow> str list option" where
  "cycle_path ns = cycle_roots (cycle_deps ns) [] [] (map node_id ns)"

fun join :: "str \<Rightarrow> str list \<Rightarrow> str" where
  "join sep [] = []"
| "join sep [w] = w"
| "join sep (w # x # ws) = w @ sep @ join sep (x # ws)"

definition find_cycle :: "node list \<Rightarrow> str option" where
  "find_cycle ns = map_option (join '' -> '') (cycle_path ns)"

section \<open>What the walk keeps\<close>

definition edges_of :: "str list bmap \<Rightarrow> (str \<times> str) set" where
  "edges_of m = {(v, c). c \<in> set (children m v)}"

definition is_closed :: "mark bmap \<Rightarrow> str \<Rightarrow> bool" where
  "is_closed marks v \<longleftrightarrow> bget marks v = Some Closed"

text \<open>The frames under the top one: each is at the child the frame above it is exploring.\<close>

fun frames_below :: "str list bmap \<Rightarrow> mark bmap \<Rightarrow> str \<Rightarrow> (str \<times> nat) list \<Rightarrow> bool" where
  "frames_below m marks child [] \<longleftrightarrow> True"
| "frames_below m marks child ((v, i) # stack) \<longleftrightarrow>
     0 < i \<and> i \<le> length (children m v) \<and> children m v ! (i - 1) = child \<and>
     (\<forall>j < i - 1. is_closed marks (children m v ! j)) \<and> frames_below m marks v stack"

fun frames_ok :: "str list bmap \<Rightarrow> mark bmap \<Rightarrow> (str \<times> nat) list \<Rightarrow> bool" where
  "frames_ok m marks [] \<longleftrightarrow> True"
| "frames_ok m marks ((v, i) # stack) \<longleftrightarrow>
     i \<le> length (children m v) \<and> (\<forall>j < i. is_closed marks (children m v ! j)) \<and>
     frames_below m marks v stack"

definition closed_part :: "str list bmap \<Rightarrow> mark bmap \<Rightarrow> bool" where
  "closed_part m marks \<longleftrightarrow>
     (\<forall>v c. is_closed marks v \<longrightarrow> (v, c) \<in> edges_of m \<longrightarrow> is_closed marks c) \<and>
     (\<forall>v. is_closed marks v \<longrightarrow> (v, v) \<notin> (edges_of m)\<^sup>+)"

definition walk_inv :: "str list bmap \<Rightarrow> mark bmap \<Rightarrow> str list \<Rightarrow> (str \<times> nat) list \<Rightarrow> bool" where
  "walk_inv m marks path stack \<longleftrightarrow>
     path = rev (map fst stack) \<and> distinct path \<and>
     (\<forall>v. bget marks v = Some Open \<longleftrightarrow> v \<in> set path) \<and>
     frames_ok m marks stack \<and> closed_part m marks"

lemma frames_below_mono:
  "frames_below m marks c stack \<Longrightarrow> (\<And>v. is_closed marks v \<Longrightarrow> is_closed marks' v) \<Longrightarrow>
     frames_below m marks' c stack"
  by (induction m marks c stack rule: frames_below.induct) auto

lemma closed_reach:
  assumes "closed_part m marks" "is_closed marks v" "(v, c) \<in> (edges_of m)\<^sup>*"
  shows "is_closed marks c"
  using assms(3,2)
proof (induction rule: rtrancl_induct)
  case (step y z)
  with assms(1) show ?case unfolding closed_part_def by blast
qed

lemma closed_part_close:
  assumes part: "closed_part m marks" and opn: "bget marks v = Some Open"
    and all: "\<And>c. (v, c) \<in> edges_of m \<Longrightarrow> is_closed marks c"
  shows "closed_part m (bput v Closed marks)"
proof -
  have not_closed: "\<not> is_closed marks v" using opn by (simp add: is_closed_def)
  have new: "is_closed (bput v Closed marks) w \<longleftrightarrow> w = v \<or> is_closed marks w" for w
    by (simp add: is_closed_def)
  have "(v, v) \<notin> (edges_of m)\<^sup>+"
  proof
    assume "(v, v) \<in> (edges_of m)\<^sup>+"
    then obtain c where "(v, c) \<in> edges_of m" "(c, v) \<in> (edges_of m)\<^sup>*" by (meson tranclD)
    with all closed_reach [OF part] not_closed show False by blast
  qed
  with part all show ?thesis unfolding closed_part_def new by blast
qed

lemma edges_of_nth: "(v, c) \<in> edges_of m \<longleftrightarrow> (\<exists>j < length (children m v). children m v ! j = c)"
  by (simp add: edges_of_def in_set_conv_nth)

lemma walk_invD:
  assumes "walk_inv m marks path stack"
  shows "path = rev (map fst stack)" and "distinct path"
    and "\<And>v. bget marks v = Some Open \<longleftrightarrow> v \<in> set path"
    and "frames_ok m marks stack" and "closed_part m marks"
  using assms unfolding walk_inv_def by blast+

lemma walk_invI:
  "path = rev (map fst stack) \<Longrightarrow> distinct path \<Longrightarrow>
     (\<And>v. bget marks v = Some Open \<longleftrightarrow> v \<in> set path) \<Longrightarrow>
     frames_ok m marks stack \<Longrightarrow> closed_part m marks \<Longrightarrow> walk_inv m marks path stack"
  unfolding walk_inv_def by blast

text \<open>The three moves of the walk keep the invariant.\<close>

lemma walk_inv_skip:
  assumes inv: "walk_inv m marks path ((v, i) # stack)" and i: "i < length (children m v)"
    and closed: "bget marks (children m v ! i) = Some Closed"
  shows "walk_inv m marks path ((v, Suc i) # stack)"
proof -
  have "frames_ok m marks ((v, Suc i) # stack)"
    using walk_invD(4) [OF inv] i closed by (auto simp: is_closed_def less_Suc_eq)
  then show ?thesis
    using walk_invD [OF inv] by (intro walk_invI) simp_all
qed

lemma walk_inv_push:
  assumes inv: "walk_inv m marks path ((v, i) # stack)" and i: "i < length (children m v)"
    and fresh: "bget marks (children m v ! i) = None"
  shows "walk_inv m (bput (children m v ! i) Open marks) (path @ [children m v ! i])
           ((children m v ! i, 0) # (v, Suc i) # stack)"
proof -
  let ?c = "children m v ! i"
  let ?marks = "bput ?c Open marks"
  have closed: "is_closed ?marks w \<longleftrightarrow> is_closed marks w" for w
    using fresh by (simp add: is_closed_def)
  note opn = walk_invD(3) [OF inv]
  have "?c \<notin> set path" using opn [of ?c] fresh by simp
  moreover from this have "distinct (path @ [?c])" using walk_invD(2) [OF inv] by simp
  moreover have "bget ?marks w = Some Open \<longleftrightarrow> w \<in> set (path @ [?c])" for w
    using opn [of w] by simp
  moreover have "closed_part m ?marks"
    using walk_invD(5) [OF inv] unfolding closed_part_def closed by simp
  moreover have "frames_ok m ?marks ((?c, 0) # (v, Suc i) # stack)"
    using walk_invD(4) [OF inv] i by (auto simp: closed intro: frames_below_mono)
  moreover have "path @ [?c] = rev (map fst ((?c, 0) # (v, Suc i) # stack))"
    using walk_invD(1) [OF inv] by simp
  ultimately show ?thesis by (intro walk_invI)
qed

lemma walk_inv_pop:
  assumes inv: "walk_inv m marks path ((v, i) # stack)" and i: "\<not> i < length (children m v)"
  shows "walk_inv m (bput v Closed marks) (butlast path) stack"
proof -
  let ?marks = "bput v Closed marks"
  have path: "path = rev (map fst stack) @ [v]" and dist: "distinct path"
    and opn: "\<And>w. bget marks w = Some Open \<longleftrightarrow> w \<in> set path"
    and frames: "frames_ok m marks ((v, i) # stack)" and part: "closed_part m marks"
    using walk_invD [OF inv] by simp_all
  have grow: "is_closed marks w \<Longrightarrow> is_closed ?marks w" for w by (simp add: is_closed_def)
  have "bget marks v = Some Open" using opn path by simp
  moreover have "is_closed marks c" if "(v, c) \<in> edges_of m" for c
    using that frames i by (auto simp: edges_of_nth)
  ultimately have "closed_part m ?marks" by (rule closed_part_close [OF part])
  moreover have "frames_ok m ?marks stack"
  proof (cases stack)
    case (Cons f rest)
    obtain u k where f: "f = (u, k)" by (cases f)
    have below: "0 < k" "k \<le> length (children m u)" "children m u ! (k - 1) = v"
      "\<forall>j < k - 1. is_closed marks (children m u ! j)" "frames_below m marks u rest"
      using frames Cons f by auto
    have "is_closed ?marks (children m u ! j)" if "j < k" for j
    proof (cases "j = k - 1")
      case True
      with below(3) show ?thesis by (simp add: is_closed_def)
    next
      case False
      with that below(4) grow show ?thesis by simp
    qed
    with Cons f below(2) frames_below_mono [OF below(5) grow] show ?thesis by simp
  qed simp
  moreover have "butlast path = rev (map fst stack)" using path by simp
  moreover have "distinct (butlast path)" using dist by (simp add: distinct_butlast)
  moreover have "bget ?marks w = Some Open \<longleftrightarrow> w \<in> set (butlast path)" for w
    using opn [of w] path dist by auto
  ultimately show ?thesis by (intro walk_invI)
qed

section \<open>What the search answers\<close>

text \<open>A list of nodes each of which has the next as a child.\<close>

fun linked :: "str list bmap \<Rightarrow> str list \<Rightarrow> bool" where
  "linked m (x # y # zs) \<longleftrightarrow> y \<in> set (children m x) \<and> linked m (y # zs)"
| "linked m _ \<longleftrightarrow> True"

definition is_cycle :: "str list bmap \<Rightarrow> str list \<Rightarrow> bool" where
  "is_cycle m p \<longleftrightarrow> 2 \<le> length p \<and> hd p = last p \<and> linked m p"

lemma linked_append:
  "linked m (p @ [x]) \<Longrightarrow> c \<in> set (children m x) \<Longrightarrow> linked m (p @ [x, c])"
  by (induction p rule: induct_list012) (auto simp: neq_Nil_conv)

lemma linked_suffix: "linked m (p @ q) \<Longrightarrow> linked m q"
proof (induction p)
  case (Cons x p)
  then show ?case by (cases "p @ q") (auto intro: Cons.IH)
qed simp

lemma frames_below_linked:
  "frames_below m marks c stack \<Longrightarrow> linked m (rev (map fst stack) @ [c])"
proof (induction m marks c stack rule: frames_below.induct)
  case (2 m marks c v i stack)
  then have "linked m (rev (map fst stack) @ [v])" by simp
  moreover have "c \<in> set (children m v)" using 2 by (auto intro!: nth_mem)
  ultimately show ?case using linked_append by fastforce
qed simp

lemma linked_reach:
  "linked m p \<Longrightarrow> p \<noteq> [] \<Longrightarrow> (hd p, last p) \<in> (edges_of m)\<^sup>*"
proof (induction m p rule: linked.induct)
  case (1 m x y zs)
  then have "(x, y) \<in> edges_of m" "(y, last (y # zs)) \<in> (edges_of m)\<^sup>*"
    by (simp_all add: edges_of_def)
  then show ?case by (simp add: converse_rtrancl_into_rtrancl)
qed simp_all

lemma is_cycle_not_acyclic: "is_cycle m p \<Longrightarrow> \<not> acyclic (edges_of m)"
proof -
  assume cyc: "is_cycle m p"
  then obtain x y zs where p: "p = x # y # zs"
    by (cases p rule: list.exhaust; cases "tl p") (auto simp: is_cycle_def)
  with cyc have "(x, y) \<in> edges_of m" "(y, x) \<in> (edges_of m)\<^sup>*"
    using linked_reach [of m "y # zs"] by (auto simp: is_cycle_def edges_of_def)
  then have "(x, x) \<in> (edges_of m)\<^sup>+" by (rule rtrancl_into_trancl2)
  then show ?thesis by (auto simp: acyclic_def)
qed

lemma around_first: "c \<notin> set p \<Longrightarrow> around (p @ c # q) c = c # q @ [c]"
  by (induction p) (auto simp: around_def)

lemma walk_cycle:
  assumes inv: "walk_inv m marks path ((v, i) # stack)" and i: "i < length (children m v)"
    and opn: "bget marks (children m v ! i) = Some Open"
  shows "is_cycle m (around path (children m v ! i))"
proof -
  let ?c = "children m v ! i"
  have path: "path = rev (map fst stack) @ [v]" and c: "?c \<in> set path"
    and below: "frames_below m marks v stack"
    using walk_invD [OF inv] opn by simp_all
  have "linked m path" unfolding path using below by (rule frames_below_linked)
  then have long: "linked m (path @ [?c])"
    unfolding path using i by (simp add: linked_append)
  obtain p q where pq: "path = p @ ?c # q" "?c \<notin> set p" by (meson c split_list_first)
  then have "around path ?c = ?c # q @ [?c]"
    by (simp add: around_first)
  moreover have "linked m (?c # q @ [?c])"
    using long linked_suffix [of m p] pq(1) by simp
  ultimately show ?thesis by (simp add: is_cycle_def)
qed

lemma cycle_walk_step:
  "i < length (children m v) \<Longrightarrow> bget marks (children m v ! i) = Some Open \<Longrightarrow>
     cycle_walk m marks path ((v, i) # stack) = Inl (around path (children m v ! i))"
  "i < length (children m v) \<Longrightarrow> bget marks (children m v ! i) = Some Closed \<Longrightarrow>
     cycle_walk m marks path ((v, i) # stack) = cycle_walk m marks path ((v, Suc i) # stack)"
  "i < length (children m v) \<Longrightarrow> bget marks (children m v ! i) = None \<Longrightarrow>
     cycle_walk m marks path ((v, i) # stack) =
       cycle_walk m (bput (children m v ! i) Open marks) (path @ [children m v ! i])
         ((children m v ! i, 0) # (v, Suc i) # stack)"
  "\<not> i < length (children m v) \<Longrightarrow>
     cycle_walk m marks path ((v, i) # stack) =
       cycle_walk m (bput v Closed marks) (butlast path) stack"
  by (subst cycle_walk.simps(2); simp)+

lemma cycle_walk_inv:
  "walk_inv m marks path stack \<Longrightarrow>
     (case cycle_walk m marks path stack of
        Inl c \<Rightarrow> is_cycle m c
      | Inr (marks', path') \<Rightarrow> walk_inv m marks' path' [] \<and>
          (\<forall>v. bget marks v \<noteq> None \<longrightarrow> bget marks' v \<noteq> None))"
proof (induction m marks path stack rule: cycle_walk.induct)
  case (2 m marks path v i stack)
  consider (opn) "i < length (children m v)" "bget marks (children m v ! i) = Some Open"
    | (closed) "i < length (children m v)" "bget marks (children m v ! i) = Some Closed"
    | (fresh) "i < length (children m v)" "bget marks (children m v ! i) = None"
    | (pop) "\<not> i < length (children m v)"
    by (cases "bget marks (children m v ! i)") (metis mark.exhaust)+
  then show ?case
  proof cases
    case opn
    show ?thesis unfolding cycle_walk_step(1) [OF opn] using walk_cycle [OF "2.prems" opn] by simp
  next
    case closed
    show ?thesis unfolding cycle_walk_step(2) [OF closed]
      by (rule "2.IH"(2) [OF closed refl walk_inv_skip [OF "2.prems" closed]])
  next
    case fresh
    show ?thesis unfolding cycle_walk_step(3) [OF fresh]
      using "2.IH"(1) [OF fresh walk_inv_push [OF "2.prems" fresh]]
      by (auto split: sum.splits prod.splits if_splits)
  next
    case pop
    show ?thesis unfolding cycle_walk_step(4) [OF pop]
      using "2.IH"(3) [OF pop walk_inv_pop [OF "2.prems" pop]]
      by (auto split: sum.splits prod.splits if_splits)
  qed
qed simp

lemma walk_inv_done:
  assumes "walk_inv m marks path []"
  shows "path = []" and "bget marks v \<noteq> None \<longleftrightarrow> is_closed marks v"
proof -
  show path: "path = []" using walk_invD(1) [OF assms] by simp
  have "bget marks v \<noteq> Some Open" using walk_invD(3) [OF assms, of v] path by simp
  then show "bget marks v \<noteq> None \<longleftrightarrow> is_closed marks v"
    by (cases "bget marks v") (auto simp: is_closed_def intro: mark.exhaust)
qed

lemma walk_inv_root:
  assumes inv: "walk_inv m marks path []" and fresh: "bget marks r = None"
  shows "walk_inv m (bput r Open marks) (path @ [r]) [(r, 0)]"
proof (rule walk_invI)
  have path: "path = []" by (rule walk_inv_done(1) [OF inv])
  then show "path @ [r] = rev (map fst [(r, 0)])" "distinct (path @ [r])" by simp_all
  show "bget (bput r Open marks) v = Some Open \<longleftrightarrow> v \<in> set (path @ [r])" for v
    using walk_invD(3) [OF inv, of v] path by simp
  have "is_closed (bput r Open marks) w \<longleftrightarrow> is_closed marks w" for w
    using fresh by (simp add: is_closed_def)
  then show "closed_part m (bput r Open marks)"
    using walk_invD(5) [OF inv] unfolding closed_part_def by simp
qed simp

lemma cycle_roots_result:
  "walk_inv m marks path [] \<Longrightarrow>
     (case cycle_roots m marks path rs of
        Some c \<Rightarrow> is_cycle m c
      | None \<Rightarrow> \<exists>marks'. walk_inv m marks' [] [] \<and>
          (\<forall>v. bget marks v \<noteq> None \<or> v \<in> set rs \<longrightarrow> is_closed marks' v))"
proof (induction m marks path rs rule: cycle_roots.induct)
  case (1 m marks path)
  then show ?case using walk_inv_done [OF "1.prems"] by auto
next
  case (2 m marks path r rs)
  show ?case
  proof (cases "bget marks r")
    case (Some x)
    with 2 show ?thesis by (auto split: option.splits)
  next
    case None
    note walk = cycle_walk_inv [OF walk_inv_root [OF "2.prems" None]]
    show ?thesis
    proof (cases "cycle_walk m (bput r Open marks) (path @ [r]) [(r, 0)]")
      case (Inl c)
      with None walk show ?thesis by simp
    next
      case (Inr res)
      obtain marks' path' where res: "res = (marks', path')" by (cases res)
      have inv: "walk_inv m marks' path' []" and
        kept: "\<And>v. v = r \<or> bget marks v \<noteq> None \<Longrightarrow> bget marks' v \<noteq> None"
        using walk Inr res by (auto split: if_splits)
      have eq: "cycle_roots m marks path (r # rs) = cycle_roots m marks' path' rs"
        using None Inr res by simp
      have "\<not> bget marks r \<noteq> None" using None by simp
      note rest = "2.IH"(2) [OF this Inr res [symmetric] inv]
      show ?thesis
      proof (cases "cycle_roots m marks' path' rs")
        case None
        with rest obtain marks2 where "walk_inv m marks2 [] []"
          "\<And>v. bget marks' v \<noteq> None \<or> v \<in> set rs \<Longrightarrow> is_closed marks2 v"
          by (simp only: option.case) blast
        then show ?thesis
          unfolding eq None option.case
          by (intro exI [of _ marks2] conjI allI impI)
            (use kept in \<open>simp_all only: set_simps insert_iff, blast\<close>)
      next
        case (Some c)
        with rest show ?thesis unfolding eq by simp
      qed
    qed
  qed
qed

lemma empty_walk_inv: "walk_inv m [] [] []"
  by (rule walk_invI) (simp_all add: closed_part_def is_closed_def)

lemma cycle_deps_get:
  "bget (cycle_deps ns) v \<noteq> None \<Longrightarrow> v \<in> node_id ` set ns"
  unfolding cycle_deps_def bcollect_def
  by (auto simp: bm.get_collect image_iff split: option.splits dest!: map_of_SomeD)

lemma cycle_deps_node:
  assumes "distinct (map node_id ns)" "n \<in> set ns"
  shows "bget (cycle_deps ns) (node_id n) = Some (filter (\<lambda>d. \<not> is_cross_dag d) (deps n))"
proof -
  let ?kvs = "map (\<lambda>n. (node_id n, filter (\<lambda>dep. \<not> is_cross_dag dep) (deps n))) ns"
  have dist: "distinct (map fst ?kvs)" using assms(1) by (simp add: comp_def)
  have "map_of ?kvs (node_id n) = Some (filter (\<lambda>d. \<not> is_cross_dag d) (deps n))"
    using assms(2) by (intro map_of_is_SomeI [OF dist]) auto
  then show ?thesis
    unfolding cycle_deps_def bcollect_def bm.get_collect_distinct [OF dist] .
qed

lemma cycle_roots_acyclic:
  assumes none: "cycle_path ns = None"
  shows "acyclic (edges_of (cycle_deps ns))"
proof -
  let ?m = "cycle_deps ns"
  have "cycle_roots ?m [] [] (map node_id ns) = None" using none by (simp add: cycle_path_def)
  then obtain marks where inv: "walk_inv ?m marks [] []"
    and all: "\<And>v. v \<in> set (map node_id ns) \<Longrightarrow> is_closed marks v"
    using cycle_roots_result [OF empty_walk_inv, of ?m "map node_id ns"]
    by (simp only: option.case) blast
  have "(v, v) \<notin> (edges_of ?m)\<^sup>+" for v
  proof
    assume loop: "(v, v) \<in> (edges_of ?m)\<^sup>+"
    then obtain c where "(v, c) \<in> edges_of ?m" by (meson tranclD)
    then have "bget ?m v \<noteq> None" by (cases "bget ?m v") (simp_all add: edges_of_def children_def)
    then have "is_closed marks v" using cycle_deps_get [of ns v] by (intro all) simp
    with loop walk_invD(5) [OF inv] show False by (simp add: closed_part_def)
  qed
  then show ?thesis by (auto simp: acyclic_def)
qed

lemma cycle_roots_cycle: "cycle_path ns = Some p \<Longrightarrow> is_cycle (cycle_deps ns) p"
  using cycle_roots_result [OF empty_walk_inv, of "cycle_deps ns" "map node_id ns"]
  by (simp add: cycle_path_def)

text \<open>
  C19. The cycle search is exact and always ends: it answers no cycle precisely when the
  dependencies of the plan (cross-DAG ones aside) are acyclic, and a path it answers is a
  genuine cycle, a walk along dependencies that ends where it started.
\<close>

theorem cycle_search_exact:
  "(cycle_path ns = None \<longleftrightarrow> acyclic (edges_of (cycle_deps ns))) \<and>
   (cycle_path ns = Some p \<longrightarrow> is_cycle (cycle_deps ns) p)"
  using cycle_roots_acyclic [of ns] cycle_roots_cycle [of ns] is_cycle_not_acyclic
  by (cases "cycle_path ns") auto

theorem cycle_search_exact_witness:
  "is_cycle (cycle_deps [blank_node\<lparr> node_id := ''a'', deps := [''b''] \<rparr>,
      blank_node\<lparr> node_id := ''b'', deps := [''a''] \<rparr>]) [''a'', ''b'', ''a'']"
proof -
  have "cycle_path [blank_node\<lparr> node_id := ''a'', deps := [''b''] \<rparr>,
      blank_node\<lparr> node_id := ''b'', deps := [''a''] \<rparr>] = Some [''a'', ''b'', ''a'']"
    by code_simp
  then show ?thesis using cycle_search_exact by blast
qed

end
