(* ===== verification/Scheduling.thy ===== *)
theory Scheduling
  imports Cross_Dag
begin

text \<open>
  What may run now (\<open>derive\<close>, \<open>eligibility\<close>, \<open>skipped_by\<close>, \<open>state_of\<close> and
  \<open>is_terminal\<close> of \<open>src/src/graph.rs\<close>): every node's status derived from the graph and
  from what has settled. \<open>blocked\<close> and \<open>skipped\<close> are never stored, so the derivation
  fills a map of statuses, first write wins, until a pass changes nothing.
\<close>

section \<open>Filling a map, first write wins\<close>

text \<open>
  The loop of \<open>derive\<close> over any entries: a pass walks the entries in order and gives each
  one that has no value yet the value \<open>elig\<close> answers against the map so far; the passes
  repeat while one of them wrote something.
\<close>

fun fill_pass ::
    "('n \<Rightarrow> str) \<Rightarrow> ('n \<Rightarrow> 'v bmap \<Rightarrow> 'v option) \<Rightarrow> 'n list \<Rightarrow> 'v bmap \<times> bool \<Rightarrow>
     'v bmap \<times> bool" where
  "fill_pass key elig [] acc = acc"
| "fill_pass key elig (n # ns) (st, changed) =
     (if bget st (key n) \<noteq> None then fill_pass key elig ns (st, changed)
      else (case elig n st of
              None \<Rightarrow> fill_pass key elig ns (st, changed)
            | Some s \<Rightarrow> fill_pass key elig ns (bput (key n) s st, True)))"

definition unfilled :: "('n \<Rightarrow> str) \<Rightarrow> 'n list \<Rightarrow> 'v bmap \<Rightarrow> str set" where
  "unfilled key ns st = {k \<in> key ` set ns. bget st k = None}"

lemma finite_unfilled [simp]: "finite (unfilled key ns st)"
  by (simp add: unfilled_def)

lemma fill_pass_skip:
  "bget st (key n) \<noteq> None \<or> elig n st = None \<Longrightarrow>
     fill_pass key elig (n # ns) (st, ch) = fill_pass key elig ns (st, ch)"
  by auto

lemma fill_pass_write:
  "bget st (key n) = None \<Longrightarrow> elig n st = Some v \<Longrightarrow>
     fill_pass key elig (n # ns) (st, ch) = fill_pass key elig ns (bput (key n) v st, True)"
  by simp

declare fill_pass.simps(2) [simp del]

lemma fill_cases:
  obtains (skip) "bget st (key n) \<noteq> None \<or> elig n st = None"
    | (fills) v where "bget st (key n) = None" "elig n st = Some v"
  by (cases "bget st (key n)"; cases "elig n st") auto

lemma map_le_bput: "bget st k = None \<Longrightarrow> bget st \<subseteq>\<^sub>m bget (bput k v st)"
  by (simp add: map_le_def dom_def)

lemma map_le_Some: "f \<subseteq>\<^sub>m g \<Longrightarrow> f k = Some v \<Longrightarrow> g k = Some v"
  by (force simp: map_le_def dom_def)

lemma fill_pass_extends:
  "fill_pass key elig ns (st, ch) = (st', ch') \<Longrightarrow> bget st \<subseteq>\<^sub>m bget st'"
proof (induction ns arbitrary: st ch)
  case (Cons n ns)
  show ?case
  proof (cases rule: fill_cases [of st key n elig])
    case skip
    with Cons show ?thesis by (simp add: fill_pass_skip)
  next
    case (fills v)
    with Cons.prems have "bget (bput (key n) v st) \<subseteq>\<^sub>m bget st'"
      by (intro Cons.IH [of _ True]) (simp add: fill_pass_write)
    with fills show ?thesis by (blast intro: map_le_trans map_le_bput)
  qed
qed simp

lemma fill_pass_flag:
  "fill_pass key elig ns (st, True) = (st', ch') \<Longrightarrow> ch'"
proof (induction ns arbitrary: st)
  case (Cons n ns)
  then show ?case
    by (cases rule: fill_cases [of st key n elig]) (auto simp: fill_pass_skip fill_pass_write)
qed simp

lemma fill_pass_unchanged:
  assumes "fill_pass key elig ns (st, False) = (st', False)"
  shows "st' = st \<and> (\<forall>n \<in> set ns. bget st (key n) = None \<longrightarrow> elig n st = None)"
  using assms
proof (induction ns)
  case (Cons n ns)
  show ?case
  proof (cases rule: fill_cases [of st key n elig])
    case skip
    with Cons show ?thesis by (auto simp: fill_pass_skip)
  next
    case (fills v)
    with Cons.prems show ?thesis by (auto simp: fill_pass_write dest: fill_pass_flag)
  qed
qed simp

lemma fill_pass_progress:
  assumes "fill_pass key elig ns (st, False) = (st', True)"
  shows "\<exists>n \<in> set ns. bget st (key n) = None \<and> bget st' (key n) \<noteq> None"
  using assms
proof (induction ns)
  case (Cons n ns)
  show ?case
  proof (cases rule: fill_cases [of st key n elig])
    case skip
    with Cons show ?thesis by (auto simp: fill_pass_skip)
  next
    case (fills v)
    with Cons.prems have "bget (bput (key n) v st) \<subseteq>\<^sub>m bget st'"
      by (intro fill_pass_extends [of key elig ns _ True st' True]) (simp add: fill_pass_write)
    then have "bget st' (key n) = Some v"
      by (rule map_le_Some) simp
    with fills show ?thesis by auto
  qed
qed simp

function fill_loop ::
    "('n \<Rightarrow> str) \<Rightarrow> ('n \<Rightarrow> 'v bmap \<Rightarrow> 'v option) \<Rightarrow> 'n list \<Rightarrow> 'v bmap \<Rightarrow> 'v bmap" where
  "fill_loop key elig ns st =
     (case fill_pass key elig ns (st, False) of
        (st', changed) \<Rightarrow> if changed then fill_loop key elig ns st' else st')"
  by pat_completeness auto
termination
proof (relation "measure (\<lambda>(key, elig, ns, st). card (unfilled key ns st))")
  fix key :: "'n \<Rightarrow> str" and elig :: "'n \<Rightarrow> 'v bmap \<Rightarrow> 'v option" and ns st st' ch
  assume p: "(st', ch) = fill_pass key elig ns (st, False)" and ch: ch
  then have step: "fill_pass key elig ns (st, False) = (st', True)" by simp
  have "unfilled key ns st' \<subseteq> unfilled key ns st"
    using map_le_Some [OF fill_pass_extends [OF step]]
    by (auto simp: unfilled_def) (metis not_None_eq)
  moreover obtain n where n: "n \<in> set ns" "bget st (key n) = None" "bget st' (key n) \<noteq> None"
    using fill_pass_progress [OF step] by blast
  then have "key n \<in> unfilled key ns st" "key n \<notin> unfilled key ns st'"
    by (simp_all add: unfilled_def)
  ultimately have "unfilled key ns st' \<subset> unfilled key ns st" by blast
  then show "((key, elig, ns, st'), key, elig, ns, st)
      \<in> measure (\<lambda>(key, elig, ns, st). card (unfilled key ns st))"
    by (simp add: psubset_card_mono)
qed simp

declare fill_loop.simps [simp del]

text \<open>
  An entry the loop wrote was answered by \<open>elig\<close> against a map between the one the loop
  started from and the one it ended with, in which the entry had no value.
\<close>

definition justified ::
    "('n \<Rightarrow> str) \<Rightarrow> ('n \<Rightarrow> 'v bmap \<Rightarrow> 'v option) \<Rightarrow> 'n list \<Rightarrow> 'v bmap \<Rightarrow> 'v bmap \<Rightarrow> bool" where
  "justified key elig ns st st' \<longleftrightarrow>
     (\<forall>k v. bget st k = None \<longrightarrow> bget st' k = Some v \<longrightarrow>
        (\<exists>n \<in> set ns. key n = k \<and>
           (\<exists>mid. bget st \<subseteq>\<^sub>m bget mid \<and> bget mid \<subseteq>\<^sub>m bget st' \<and>
                  bget mid k = None \<and> elig n mid = Some v)))"

lemma justified_trans:
  assumes ab: "justified key elig ns a b" and bc: "justified key elig ns b c"
    and le: "bget a \<subseteq>\<^sub>m bget b" "bget b \<subseteq>\<^sub>m bget c"
  shows "justified key elig ns a c"
  unfolding justified_def
proof (intro allI impI)
  fix k v assume none: "bget a k = None" and some: "bget c k = Some v"
  show "\<exists>n \<in> set ns. key n = k \<and> (\<exists>mid. bget a \<subseteq>\<^sub>m bget mid \<and> bget mid \<subseteq>\<^sub>m bget c \<and>
          bget mid k = None \<and> elig n mid = Some v)"
  proof (cases "bget b k")
    case None
    with bc some obtain n mid where "n \<in> set ns" "key n = k" "bget b \<subseteq>\<^sub>m bget mid"
      "bget mid \<subseteq>\<^sub>m bget c" "bget mid k = None" "elig n mid = Some v"
      unfolding justified_def by metis
    with le show ?thesis by (blast intro: map_le_trans)
  next
    case (Some w)
    with le(2) some have "w = v" by (auto simp: map_le_def dom_def)
    with ab none Some obtain n mid where "n \<in> set ns" "key n = k" "bget a \<subseteq>\<^sub>m bget mid"
      "bget mid \<subseteq>\<^sub>m bget b" "bget mid k = None" "elig n mid = Some v"
      unfolding justified_def by metis
    with le show ?thesis by (blast intro: map_le_trans)
  qed
qed

lemma justified_one:
  assumes "n \<in> set ns" "bget st (key n) = None" "elig n st = Some s"
  shows "justified key elig ns st (bput (key n) s st)"
  using assms by (auto simp: justified_def map_le_def intro!: bexI [of _ n] exI [of _ st])

lemma justified_refl: "justified key elig ns st st"
  by (simp add: justified_def)

lemma fill_pass_justified:
  assumes "set ns \<subseteq> set all" "fill_pass key elig ns (st, ch) = (st', ch')"
  shows "justified key elig all st st'"
  using assms
proof (induction ns arbitrary: st ch)
  case Nil
  then show ?case by (simp add: justified_refl)
next
  case (Cons n ns)
  show ?case
  proof (cases rule: fill_cases [of st key n elig])
    case skip
    with Cons show ?thesis by (simp add: fill_pass_skip)
  next
    case (fills v)
    with Cons.prems have rest: "fill_pass key elig ns (bput (key n) v st, True) = (st', ch')"
      by (simp add: fill_pass_write)
    have "justified key elig all st (bput (key n) v st)"
      using Cons.prems fills by (intro justified_one) auto
    moreover have "justified key elig all (bput (key n) v st) st'"
      using Cons.prems rest by (intro Cons.IH [of _ True]) auto
    ultimately show ?thesis
      using map_le_bput [OF fills(1)] fill_pass_extends [OF rest] by (rule justified_trans)
  qed
qed

text \<open>What the loop ends with: an extension, justified entry by entry, that is a fixpoint.\<close>

lemma fill_loop_result:
  "bget st \<subseteq>\<^sub>m bget (fill_loop key elig ns st) \<and>
   justified key elig ns st (fill_loop key elig ns st) \<and>
   (\<forall>n \<in> set ns. bget (fill_loop key elig ns st) (key n) = None \<longrightarrow>
        elig n (fill_loop key elig ns st) = None)"
proof (induction key elig ns st rule: fill_loop.induct)
  case (1 key elig ns st)
  obtain st' ch where p: "fill_pass key elig ns (st, False) = (st', ch)"
    by (cases "fill_pass key elig ns (st, False)")
  show ?case
  proof (cases ch)
    case True
    then have eq: "fill_loop key elig ns st = fill_loop key elig ns st'"
      using p by (subst fill_loop.simps) simp
    have "bget st \<subseteq>\<^sub>m bget st'" and "justified key elig ns st st'"
      using fill_pass_extends [OF p] fill_pass_justified [OF subset_refl p] by auto
    moreover note "1.IH" [OF p [symmetric] True]
    ultimately show ?thesis
      unfolding eq by (blast intro: map_le_trans justified_trans)
  next
    case False
    then have eq: "fill_loop key elig ns st = st'"
      using p by (subst fill_loop.simps) simp
    from False p have "st' = st \<and> (\<forall>n \<in> set ns. bget st (key n) = None \<longrightarrow> elig n st = None)"
      by (intro fill_pass_unchanged) simp
    then show ?thesis unfolding eq by (simp add: justified_refl)
  qed
qed

lemma fill_loop_keeps:
  "bget st k = Some v \<Longrightarrow> bget (fill_loop key elig ns st) k = Some v"
  by (rule map_le_Some [OF conjunct1 [OF fill_loop_result]])

lemma fill_loop_fixpoint:
  "n \<in> set ns \<Longrightarrow> bget (fill_loop key elig ns st) (key n) = None \<Longrightarrow>
     elig n (fill_loop key elig ns st) = None"
  using conjunct2 [OF conjunct2 [OF fill_loop_result], of ns key elig st] by simp

lemma fill_loop_wrote:
  assumes "bget st k = None" "bget (fill_loop key elig ns st) k = Some v"
  obtains n mid where "n \<in> set ns" "key n = k"
    "bget mid \<subseteq>\<^sub>m bget (fill_loop key elig ns st)" "elig n mid = Some v"
  using conjunct1 [OF conjunct2 [OF fill_loop_result], of key elig ns st] assms
  unfolding justified_def by metis

text \<open>What holds of the map the loop starts from and is kept by one write holds at the end.\<close>

lemma fill_pass_invariant:
  assumes start: "I st"
    and step: "\<And>n st v. n \<in> set ns \<Longrightarrow> I st \<Longrightarrow> bget st (key n) = None \<Longrightarrow>
                 elig n st = Some v \<Longrightarrow> I (bput (key n) v st)"
    and run: "fill_pass key elig ns (st, ch) = (st', ch')"
  shows "I st'"
  using assms
proof (induction ns arbitrary: st ch)
  case (Cons n ns)
  show ?case
  proof (cases rule: fill_cases [of st key n elig])
    case skip
    show ?thesis
      by (rule Cons.IH [OF Cons.prems(1)])
        (use Cons.prems skip in \<open>auto simp: fill_pass_skip\<close>)
  next
    case (fills v)
    show ?thesis
      by (rule Cons.IH [of "bput (key n) v st" True])
        (use Cons.prems fills in \<open>auto simp: fill_pass_write\<close>)
  qed
qed simp

lemma fill_loop_invariant:
  assumes "I st"
    and "\<And>n st v. n \<in> set ns \<Longrightarrow> I st \<Longrightarrow> bget st (key n) = None \<Longrightarrow>
           elig n st = Some v \<Longrightarrow> I (bput (key n) v st)"
  shows "I (fill_loop key elig ns st)"
  using assms
proof (induction key elig ns st rule: fill_loop.induct)
  case (1 key elig ns st)
  obtain st' ch where p: "fill_pass key elig ns (st, False) = (st', ch)"
    by (cases "fill_pass key elig ns (st, False)")
  have inv: "I st'" by (rule fill_pass_invariant [OF "1.prems" p])
  show ?case
  proof (cases ch)
    case True
    then have eq: "fill_loop key elig ns st = fill_loop key elig ns st'"
      using p by (subst fill_loop.simps) simp
    show ?thesis
      unfolding eq by (rule "1.IH" [OF p [symmetric] True]) (fact inv, fact "1.prems"(2))
  next
    case False
    then have "fill_loop key elig ns st = st'"
      using p by (subst fill_loop.simps) simp
    with inv show ?thesis by simp
  qed
qed

lemma fill_pass_keys:
  "fill_pass key elig ns (st, ch) = (st', ch') \<Longrightarrow> k \<notin> key ` set ns \<Longrightarrow> bget st' k = bget st k"
  by (rule fill_pass_invariant [where I = "\<lambda>s. bget s k = bget st k" and ns = ns and key = key
        and elig = elig and st = st]) auto

lemma fill_pass_idle:
  "(\<And>n. n \<in> set ns \<Longrightarrow> bget st (key n) = None \<Longrightarrow> elig n st = None) \<Longrightarrow>
     fill_pass key elig ns (st, ch) = (st, ch)"
proof (induction ns)
  case (Cons n ns)
  then have "bget st (key n) \<noteq> None \<or> elig n st = None" by (meson list.set_intros(1))
  with Cons show ?case by (simp add: fill_pass_skip del: not_None_eq)
qed simp

text \<open>
  An order is topological when nothing an entry reads comes at or after it. One pass then
  reaches the fixpoint, and every entry it had to fill has exactly what \<open>elig\<close> answers
  against the finished map.
\<close>

fun topological :: "('n \<Rightarrow> str) \<Rightarrow> ('n \<Rightarrow> str set) \<Rightarrow> 'n list \<Rightarrow> bool" where
  "topological key reads [] \<longleftrightarrow> True"
| "topological key reads (n # ns) \<longleftrightarrow>
     reads n \<inter> key ` set (n # ns) = {} \<and> topological key reads ns"

lemma fill_pass_topological:
  assumes reads: "\<And>n a b. (\<And>k. k \<in> reads n \<Longrightarrow> bget a k = bget b k) \<Longrightarrow> elig n a = elig n b"
  shows "topological key reads ns \<Longrightarrow> distinct (map key ns) \<Longrightarrow>
         fill_pass key elig ns (st, ch) = (st', ch') \<Longrightarrow>
         \<forall>n \<in> set ns. bget st (key n) = None \<longrightarrow> bget st' (key n) = elig n st'"
proof (induction ns arbitrary: st ch)
  case (Cons n ns)
  obtain st1 ch1 where rest: "fill_pass key elig ns (st1, ch1) = (st', ch')"
    and st1: "st1 = (if bget st (key n) = None then
                (case elig n st of None \<Rightarrow> st | Some v \<Rightarrow> bput (key n) v st) else st)"
    using Cons.prems(3)
    by (cases rule: fill_cases [of st key n elig])
      (fastforce simp: fill_pass_skip fill_pass_write split: if_splits)+
  have other: "bget st1 k = bget st k" if "k \<noteq> key n" for k
    using that by (auto simp: st1 split: option.split)
  have later: "bget st1 (key m) = bget st (key m)" if "m \<in> set ns" for m
    using that Cons.prems(2) by (intro other) (metis distinct.simps(2) image_eqI list.simps(9) set_map)
  have "elig n st = elig n st'"
  proof (rule reads)
    fix k assume "k \<in> reads n"
    with Cons.prems(1) have "k \<noteq> key n" "k \<notin> key ` set ns" by auto
    then show "bget st k = bget st' k"
      using other fill_pass_keys [OF rest] by simp
  qed
  moreover have "bget st' (key n) = bget st1 (key n)"
    using Cons.prems(2) by (intro fill_pass_keys [OF rest]) auto
  ultimately have "bget st (key n) = None \<longrightarrow> bget st' (key n) = elig n st'"
    by (auto simp: st1 split: option.split)
  moreover have "\<forall>m \<in> set ns. bget st1 (key m) = None \<longrightarrow> bget st' (key m) = elig m st'"
    using Cons.prems by (intro Cons.IH [OF _ _ rest]) auto
  ultimately show ?case using later by simp
qed simp

lemma fill_loop_topological:
  assumes reads: "\<And>n a b. (\<And>k. k \<in> reads n \<Longrightarrow> bget a k = bget b k) \<Longrightarrow> elig n a = elig n b"
    and topo: "topological key reads ns" and dist: "distinct (map key ns)"
    and n: "n \<in> set ns" "bget st (key n) = None"
  shows "bget (fill_loop key elig ns st) (key n) = elig n (fill_loop key elig ns st)"
proof -
  obtain st' ch where p: "fill_pass key elig ns (st, False) = (st', ch)"
    by (cases "fill_pass key elig ns (st, False)")
  note exact = fill_pass_topological [OF reads topo dist p]
  have "fill_pass key elig ns (st', False) = (st', False)"
  proof (rule fill_pass_idle)
    fix m assume m: "m \<in> set ns" "bget st' (key m) = None"
    have "bget st (key m) = None"
      using m(2) map_le_Some [OF fill_pass_extends [OF p], of "key m"] by (cases "bget st (key m)") auto
    with m exact show "elig m st' = None" by simp
  qed
  then have "fill_loop key elig ns st' = st'" by (subst fill_loop.simps) simp
  then have "fill_loop key elig ns st = st'"
    using p by (subst fill_loop.simps) simp
  with exact n show ?thesis by simp
qed

section \<open>Eligibility\<close>

text \<open>What one dependency says, before its consequence for the dependent is read off.\<close>

datatype dep_view =
    Unknown_Upstream      \<comment> \<open>a cross-DAG reference nothing has answered\<close>
  | Unresolved            \<comment> \<open>a node of this graph with no status yet\<close>
  | Detached              \<comment> \<open>a node the graph no longer holds\<close>
  | Reached settled

definition reached_status :: "settled bmap \<Rightarrow> str \<Rightarrow> node_status \<Rightarrow> settled" where
  "reached_status recorded dep status =
     (case bget recorded dep of
        Some ReachedTheOrigin \<Rightarrow> if status = Failed then ReachedTheOrigin else At status
      | Some ReachedItsBase \<Rightarrow> if status = Failed then ReachedItsBase else At status
      | _ \<Rightarrow> At status)"

definition view_dep ::
    "graph \<Rightarrow> node_status bmap \<Rightarrow> settled bmap \<Rightarrow> (str \<Rightarrow> node_status option) \<Rightarrow> str \<Rightarrow> dep_view" where
  "view_dep g statuses recorded cross dep =
     (if is_cross_dag dep
      then (case cross dep of Some s \<Rightarrow> Reached (settled_at s) | None \<Rightarrow> Unknown_Upstream)
      else if graph_contains g dep
      then (case bget statuses dep of
              Some s \<Rightarrow> Reached (reached_status recorded dep s)
            | None \<Rightarrow> Unresolved)
      else Detached)"

record scan =
  all_done :: bool
  any_failed :: bool
  any_gated :: bool

definition scan_reached :: "settled \<Rightarrow> scan \<Rightarrow> scan" where
  "scan_reached r s =
     (if reached_its_base r then s
      else if settled_status_of r = Done then s
      else if holds_dependents r then s\<lparr> any_gated := True, all_done := False \<rparr>
      else if skips_dependents r then s\<lparr> any_failed := True, all_done := False \<rparr>
      else if settled_status_of r \<in> {Waiting, Blocked, Parked, Cancelled}
      then s\<lparr> any_gated := True, all_done := False \<rparr>
      else s\<lparr> all_done := False \<rparr>)"

fun scan_view :: "dep_view \<Rightarrow> scan \<Rightarrow> scan" where
  "scan_view Unknown_Upstream s = s\<lparr> all_done := False, any_gated := True \<rparr>"
| "scan_view Unresolved s = s\<lparr> all_done := False \<rparr>"
| "scan_view Detached s = s"
| "scan_view (Reached r) s = scan_reached r s"

definition eligibility ::
    "graph \<Rightarrow> node \<Rightarrow> node_status bmap \<Rightarrow> settled bmap \<Rightarrow> (str \<Rightarrow> node_status option) \<Rightarrow>
     node_status option" where
  "eligibility g n statuses recorded cross =
     (let s = fold (\<lambda>dep. scan_view (view_dep g statuses recorded cross dep)) (deps n)
                \<lparr> all_done = True, any_failed = False, any_gated = False \<rparr>
      in if any_failed s then Some Skipped
         else if any_gated s then Some Blocked
         else if \<not> all_done s then None
         else if parked n then Some Parked
         else if kind n = Human then Some Waiting
         else Some Ready)"

section \<open>The derivation\<close>

definition seed_status :: "settled bmap \<Rightarrow> node \<Rightarrow> node_status option" where
  "seed_status recorded n =
     (if parked n then Some Parked
      else (case bget recorded (node_id n) of
              None \<Rightarrow> None
            | Some r \<Rightarrow> if settled_status_of r \<in> {Blocked, Skipped} then None
                        else Some (settled_status_of r)))"

definition seed_step :: "settled bmap \<Rightarrow> node \<Rightarrow> node_status bmap \<Rightarrow> node_status bmap" where
  "seed_step recorded n st =
     (case seed_status recorded n of None \<Rightarrow> st | Some s \<Rightarrow> bput (node_id n) s st)"

definition pend_step :: "node \<Rightarrow> node_status bmap \<Rightarrow> node_status bmap" where
  "pend_step n st = (if bget st (node_id n) = None then bput (node_id n) Pending st else st)"

definition derive_filled ::
    "graph \<Rightarrow> settled bmap \<Rightarrow> (str \<Rightarrow> node_status option) \<Rightarrow> node_status bmap" where
  "derive_filled g recorded cross =
     fill_loop node_id (\<lambda>n st. eligibility g n st recorded cross) (graph_iter g)
       (fold (seed_step recorded) (graph_iter g) [])"

definition derive ::
    "graph \<Rightarrow> settled bmap \<Rightarrow> (str \<Rightarrow> node_status option) \<Rightarrow> node_status bmap" where
  "derive g recorded cross = fold pend_step (graph_iter g) (derive_filled g recorded cross)"

definition skipped_by ::
    "graph \<Rightarrow> node_status bmap \<Rightarrow> settled bmap \<Rightarrow> str \<Rightarrow> (str \<times> node_status) list" where
  "skipped_by g statuses recorded k =
     (if bget statuses k \<noteq> Some Skipped then []
      else (case graph_get g k of
              None \<Rightarrow> []
            | Some n \<Rightarrow>
                List.map_filter
                  (\<lambda>dep. case bget statuses dep of
                           None \<Rightarrow> None
                         | Some s \<Rightarrow> if skips_dependents (reached_status recorded dep s)
                                     then Some (dep, s) else None)
                  (deps n)))"

definition state_of :: "node_status bmap \<Rightarrow> graph_state" where
  "state_of statuses =
     (let vs = map snd statuses
      in if list_ex (\<lambda>s. s \<in> {Failed, Skipped}) vs then Graph_Failed
         else if list_ex (\<lambda>s. s \<in> {Waiting, Blocked, Parked, Cancelled}) vs then Graph_Waiting
         else if list_all (\<lambda>s. s = Done) vs then Graph_Complete
         else Graph_Waiting)"

definition is_terminal :: "node_status bmap \<Rightarrow> bool" where
  "is_terminal statuses \<longleftrightarrow> list_all (\<lambda>e. is_settled (snd e)) statuses"

section \<open>What one scan of the dependencies answers\<close>

definition view_clear :: "dep_view \<Rightarrow> bool" where
  "view_clear v \<longleftrightarrow>
     (case v of Detached \<Rightarrow> True | Reached r \<Rightarrow> r = ReachedItsBase \<or> r = At Done | _ \<Rightarrow> False)"

definition view_fails :: "dep_view \<Rightarrow> bool" where
  "view_fails v \<longleftrightarrow> v = Reached (At Failed) \<or> v = Reached (At Skipped)"

definition view_gates :: "dep_view \<Rightarrow> bool" where
  "view_gates v \<longleftrightarrow> v = Unknown_Upstream \<or> v = Reached ReachedTheOrigin \<or>
     v \<in> {Reached (At Waiting), Reached (At Blocked), Reached (At Parked), Reached (At Cancelled)}"

lemmas view_defs = view_clear_def view_fails_def view_gates_def

lemma scan_view_eq:
  "scan_view v s =
     \<lparr> all_done = (all_done s \<and> view_clear v), any_failed = (any_failed s \<or> view_fails v),
       any_gated = (any_gated s \<or> view_gates v) \<rparr>"
proof (cases v)
  case (Reached r)
  show ?thesis
  proof (cases r)
    case (At x)
    with Reached show ?thesis
      by (cases x)
        (simp_all add: view_defs scan_reached_def reached_its_base_def holds_dependents_def
          skips_dependents_def)
  qed (use Reached in \<open>simp_all add: view_defs scan_reached_def reached_its_base_def
          holds_dependents_def skips_dependents_def\<close>)
qed (simp_all add: view_defs)

lemma fold_scan_view:
  "fold (\<lambda>d. scan_view (f d)) ds s =
     \<lparr> all_done = (all_done s \<and> (\<forall>d \<in> set ds. view_clear (f d))),
       any_failed = (any_failed s \<or> (\<exists>d \<in> set ds. view_fails (f d))),
       any_gated = (any_gated s \<or> (\<exists>d \<in> set ds. view_gates (f d))) \<rparr>"
  by (induction ds arbitrary: s) (auto simp: scan_view_eq)

lemma eligibility_eq:
  "eligibility g n st rec cross =
     (let v = view_dep g st rec cross
      in if \<exists>d \<in> set (deps n). view_fails (v d) then Some Skipped
         else if \<exists>d \<in> set (deps n). view_gates (v d) then Some Blocked
         else if \<exists>d \<in> set (deps n). \<not> view_clear (v d) then None
         else if parked n then Some Parked
         else if kind n = Human then Some Waiting
         else Some Ready)"
  by (simp add: eligibility_def fold_scan_view Let_def)

lemma eligibility_views:
  "(\<And>d. d \<in> set (deps n) \<Longrightarrow> view_dep g a rec cross d = view_dep g b rec cross d) \<Longrightarrow>
     eligibility g n a rec cross = eligibility g n b rec cross"
  unfolding eligibility_def by (simp cong: fold_cong)

lemma eligibility_cong:
  "(\<And>d. d \<in> set (deps n) \<Longrightarrow> bget a d = bget b d) \<Longrightarrow>
     eligibility g n a rec cross = eligibility g n b rec cross"
  by (rule eligibility_views) (simp add: view_dep_def)

lemma eligibility_range:
  "eligibility g n st rec cross = Some s \<Longrightarrow> s \<in> {Skipped, Blocked, Parked, Waiting, Ready}"
  by (auto simp: eligibility_eq Let_def split: if_splits)

text \<open>A larger map changes a view only where the smaller one had none.\<close>

lemma view_dep_mono:
  "bget a \<subseteq>\<^sub>m bget b \<Longrightarrow> view_dep g a rec cross d = view_dep g b rec cross d \<or>
     view_dep g a rec cross d = Unresolved"
  by (auto simp: view_dep_def map_le_Some split: option.splits)

section \<open>The seeded map\<close>

lemma seed_step_get:
  "bget (seed_step rec n st) k =
     (if k = node_id n \<and> seed_status rec n \<noteq> None then seed_status rec n else bget st k)"
  by (auto simp: seed_step_def split: option.split)

lemma fold_seed_other:
  "k \<notin> node_id ` set ns \<Longrightarrow> bget (fold (seed_step rec) ns st) k = bget st k"
  by (induction ns arbitrary: st) (auto simp: seed_step_get)

lemma fold_seed:
  "distinct (map node_id ns) \<Longrightarrow> n \<in> set ns \<Longrightarrow> bget st (node_id n) = None \<Longrightarrow>
     bget (fold (seed_step rec) ns st) (node_id n) = seed_status rec n"
proof (induction ns arbitrary: st)
  case (Cons m ns)
  show ?case
  proof (cases "n = m")
    case True
    then have "node_id n \<notin> node_id ` set ns" using Cons.prems(1) by auto
    with True Cons.prems(3) show ?thesis
      by (simp add: fold_seed_other seed_step_get)
  next
    case False
    with Cons.prems have "n \<in> set ns" "node_id m \<noteq> node_id n" by auto
    with Cons show ?thesis by (simp add: seed_step_get)
  qed
qed simp

lemma fold_seed_ok [simp]: "bmap_ok st \<Longrightarrow> bmap_ok (fold (seed_step rec) ns st)"
  by (induction ns arbitrary: st) (auto simp: seed_step_def split: option.split)

definition seeded :: "graph \<Rightarrow> settled bmap \<Rightarrow> node_status bmap" where
  "seeded g rec = fold (seed_step rec) (graph_iter g) []"

lemma seeded_get:
  assumes "graph_ok g" "graph_get g k = Some n"
  shows "bget (seeded g rec) k = seed_status rec n"
proof -
  have "node_id n = k" "n \<in> set (graph_iter g)"
    using assms graph_ok_id in_graph_iter by blast+
  then show ?thesis
    using fold_seed [OF distinct_iter_ids [OF assms(1)], of n "[]" rec]
    by (simp add: seeded_def)
qed

lemma seeded_none:
  assumes "graph_ok g" "graph_get g k = None"
  shows "bget (seeded g rec) k = None"
proof -
  have "k \<notin> node_id ` set (graph_iter g)"
    using assms in_graph_iter by force
  then show ?thesis by (simp add: seeded_def fold_seed_other)
qed

lemma fold_pend_get:
  "bget (fold pend_step ns st) k =
     (case bget st k of Some s \<Rightarrow> Some s
      | None \<Rightarrow> if k \<in> node_id ` set ns then Some Pending else None)"
  by (induction ns arbitrary: st) (auto simp: pend_step_def split: option.splits)

lemma derive_get:
  assumes "graph_ok g"
  shows "bget (derive g rec cross) k =
     (case bget (derive_filled g rec cross) k of Some s \<Rightarrow> Some s
      | None \<Rightarrow> if graph_contains g k then Some Pending else None)"
proof -
  have "k \<in> node_id ` set (graph_iter g) \<longleftrightarrow> graph_contains g k"
    using graph_iter_ids [OF assms] graph_ok_order [OF assms] by (metis set_map)
  then show ?thesis by (simp add: derive_def fold_pend_get)
qed

lemma derive_bmap_ok: "bmap_ok (derive g rec cross)"
proof -
  have "bmap_ok (derive_filled g rec cross)"
    unfolding derive_filled_def by (rule fill_loop_invariant) simp_all
  then have "bmap_ok (fold pend_step ns (derive_filled g rec cross))" for ns
  proof (induction ns arbitrary: st rule: rev_induct)
    case (snoc n ns)
    then show ?case by (simp add: pend_step_def)
  qed simp
  then show ?thesis by (simp add: derive_def)
qed

section \<open>What the derivation fills\<close>

lemma derive_filled_alt:
  "derive_filled g rec cross =
     fill_loop node_id (\<lambda>n st. eligibility g n st rec cross) (graph_iter g) (seeded g rec)"
  by (simp add: derive_filled_def seeded_def)

lemma derive_filled_seed:
  assumes "graph_ok g" "graph_get g k = Some n" "seed_status rec n = Some s"
  shows "bget (derive_filled g rec cross) k = Some s"
proof -
  have "bget (seeded g rec) k = Some s" using seeded_get [OF assms(1,2)] assms(3) by simp
  then show ?thesis
    unfolding derive_filled_alt by (rule fill_loop_keeps)
qed

lemma derive_filled_none:
  assumes ok: "graph_ok g" and "graph_get g k = None"
  shows "bget (derive_filled g rec cross) k = None"
  unfolding derive_filled_alt
proof (rule fill_loop_invariant [where I = "\<lambda>st. bget st k = None"])
  show "bget (seeded g rec) k = None" using assms by (rule seeded_none)
  fix n v and st :: "node_status bmap"
  assume "n \<in> set (graph_iter g)" "bget st k = None"
  with assms in_graph_iter [OF ok, of n] show "bget (bput (node_id n) v st) k = None" by auto
qed

text \<open>What the loop gave a node the seeding left out, in the three ways a proof uses it.\<close>

lemma derive_filled_open:
  assumes ok: "graph_ok g" and n: "graph_get g k = Some n" and unseeded: "seed_status rec n = None"
  obtains (pending) "bget (derive_filled g rec cross) k = None"
      "eligibility g n (derive_filled g rec cross) rec cross = None"
    | (filled) mid s where "bget (derive_filled g rec cross) k = Some s"
      "bget mid \<subseteq>\<^sub>m bget (derive_filled g rec cross)"
      "eligibility g n mid rec cross = Some s"
proof (cases "bget (derive_filled g rec cross) k")
  case None
  have nk: "node_id n = k" "n \<in> set (graph_iter g)"
    using ok n graph_ok_id in_graph_iter by blast+
  from None have "eligibility g n (derive_filled g rec cross) rec cross = None"
    unfolding derive_filled_alt nk(1) [symmetric] by (rule fill_loop_fixpoint [OF nk(2)])
  with None show thesis by (rule pending)
next
  case (Some s)
  have "bget (seeded g rec) k = None" using seeded_get [OF ok n] unseeded by simp
  then obtain m mid where m: "m \<in> set (graph_iter g)" "node_id m = k"
    "bget mid \<subseteq>\<^sub>m bget (derive_filled g rec cross)" "eligibility g m mid rec cross = Some s"
    using Some unfolding derive_filled_alt by (rule fill_loop_wrote)
  have "m = n" using m(1,2) n in_graph_iter [OF ok] by auto
  with Some m show thesis by (intro filled) auto
qed

text \<open>A status the seeding alone writes: the derivation never invents \<open>done\<close> or \<open>failed\<close>.\<close>

lemma derive_filled_recorded:
  assumes ok: "graph_ok g" and s: "s \<notin> {Skipped, Blocked, Parked, Waiting, Ready}"
  shows "bget (derive_filled g rec cross) k = Some s \<longleftrightarrow>
    (\<exists>n. graph_get g k = Some n \<and> \<not> parked n \<and>
         map_option settled_status_of (bget rec k) = Some s)"
proof (cases "graph_get g k")
  case None
  with derive_filled_none [OF ok None] show ?thesis by simp
next
  case (Some n)
  have id: "node_id n = k" by (rule graph_ok_id [OF ok Some])
  have seed: "seed_status rec n = Some s \<longleftrightarrow>
      \<not> parked n \<and> map_option settled_status_of (bget rec k) = Some s"
    using s by (auto simp: seed_status_def id split: option.splits)
  show ?thesis
  proof (cases "seed_status rec n")
    case None
    have "bget (derive_filled g rec cross) k \<noteq> Some s"
    proof (rule derive_filled_open [OF ok Some None, of cross])
      fix mid s' assume "bget (derive_filled g rec cross) k = Some s'"
        and "eligibility g n mid rec cross = Some s'"
      with s eligibility_range [of g n mid rec cross s'] show ?thesis by auto
    qed simp
    with seed None Some show ?thesis by simp
  next
    case seeded: (Some s')
    then have "bget (derive_filled g rec cross) k = Some s'"
      by (rule derive_filled_seed [OF ok Some])
    with seed seeded Some show ?thesis by auto
  qed
qed

text \<open>When nothing answers \<open>Unresolved\<close> against the earlier map, nothing changed since.\<close>

lemma eligibility_settles:
  assumes le: "bget a \<subseteq>\<^sub>m bget b" and s: "s \<in> {Parked, Waiting, Ready}"
    and elig: "eligibility g n a rec cross = Some s"
  shows "eligibility g n b rec cross = Some s"
proof -
  have clear: "view_clear (view_dep g a rec cross d)" if "d \<in> set (deps n)" for d
    using elig s that by (auto simp: eligibility_eq Let_def split: if_splits)
  have "view_dep g a rec cross d = view_dep g b rec cross d" if "d \<in> set (deps n)" for d
    using view_dep_mono [OF le, of g rec cross d] clear [OF that] by (auto simp: view_clear_def)
  then have "eligibility g n a rec cross = eligibility g n b rec cross"
    by (rule eligibility_views)
  with elig show ?thesis by simp
qed

lemma eligibility_skips:
  assumes le: "bget a \<subseteq>\<^sub>m bget b" and elig: "eligibility g n a rec cross = Some Skipped"
  shows "\<exists>d \<in> set (deps n). view_fails (view_dep g b rec cross d)"
proof -
  obtain d where d: "d \<in> set (deps n)" "view_fails (view_dep g a rec cross d)"
    using elig by (auto simp: eligibility_eq Let_def split: if_splits)
  then have "view_dep g b rec cross d = view_dep g a rec cross d"
    using view_dep_mono [OF le, of g rec cross d] by (auto simp: view_fails_def)
  with d show ?thesis by (metis)
qed

section \<open>What the derivation answers\<close>

text \<open>The edges of the graph as a relation: a node to each dependency the graph holds.\<close>

definition dep_edges :: "graph \<Rightarrow> (str \<times> str) set" where
  "dep_edges g =
     {(k, d). \<exists>n. graph_get g k = Some n \<and> d \<in> set (deps n) \<and> \<not> is_cross_dag d \<and>
              graph_contains g d}"

text \<open>What a dependency must have done for its dependents to start.\<close>

definition dep_satisfied ::
    "graph \<Rightarrow> settled bmap \<Rightarrow> (str \<Rightarrow> node_status option) \<Rightarrow> str \<Rightarrow> bool" where
  "dep_satisfied g rec cross d =
     (if is_cross_dag d then cross d = Some Done
      else (case graph_get g d of
              None \<Rightarrow> True
            | Some m \<Rightarrow> \<not> parked m \<and>
                bget rec d \<in> {Some (At Done), Some ReachedItsBase}))"

text \<open>What another run's ledger answers about an edge: nothing, \<open>done\<close> or \<open>blocked\<close>.\<close>

definition cross_answers :: "(str \<Rightarrow> node_status option) \<Rightarrow> bool" where
  "cross_answers cross \<longleftrightarrow> (\<forall>d. cross d \<in> {None, Some Done, Some Blocked})"

lemma view_clear_satisfied:
  assumes ok: "graph_ok g"
  shows "view_clear (view_dep g (derive_filled g rec cross) rec cross d) \<longleftrightarrow>
         dep_satisfied g rec cross d"
proof (cases "is_cross_dag d")
  case True
  then show ?thesis
    by (auto simp: view_dep_def view_clear_def dep_satisfied_def settled_at_def split: option.split)
next
  case local: False
  show ?thesis
  proof (cases "graph_get g d")
    case None
    with local show ?thesis
      by (simp add: view_dep_def view_clear_def dep_satisfied_def graph_contains_def)
  next
    case (Some m)
    let ?st = "bget (derive_filled g rec cross) d"
    have fin: "?st = Some Done \<longleftrightarrow> \<not> parked m \<and> bget rec d = Some (At Done)"
      "?st = Some Failed \<longleftrightarrow>
         \<not> parked m \<and> map_option settled_status_of (bget rec d) = Some Failed"
      using derive_filled_recorded [OF ok, of Done rec cross d]
        derive_filled_recorded [OF ok, of Failed rec cross d] Some
      by (auto elim: settled_status_of.elims)
    have "view_clear (view_dep g (derive_filled g rec cross) rec cross d) \<longleftrightarrow>
        ?st = Some Done \<or> ?st = Some Failed \<and> bget rec d = Some ReachedItsBase"
      using local Some
      by (auto simp: view_dep_def view_clear_def graph_contains_def reached_status_def
          split: option.splits settled.splits)
    with fin local Some show ?thesis by (auto simp: dep_satisfied_def)
  qed
qed

lemma eligibility_blocks:
  assumes le: "bget a \<subseteq>\<^sub>m bget b" and elig: "eligibility g n a rec cross = Some Blocked"
  shows "\<exists>d \<in> set (deps n). view_gates (view_dep g b rec cross d)"
proof -
  obtain d where d: "d \<in> set (deps n)" "view_gates (view_dep g a rec cross d)"
    using elig by (auto simp: eligibility_eq Let_def split: if_splits)
  then have "view_dep g b rec cross d = view_dep g a rec cross d"
    using view_dep_mono [OF le, of g rec cross d] by (auto simp: view_gates_def)
  with d show ?thesis by metis
qed

lemma view_disjoint:
  "view_fails v \<Longrightarrow> \<not> view_clear v" "view_gates v \<Longrightarrow> \<not> view_clear v"
  by (auto simp: view_defs)

lemma clear_eligibility:
  "(\<forall>d \<in> set (deps n). view_clear (view_dep g st rec cross d)) \<Longrightarrow>
     eligibility g n st rec cross =
       Some (if parked n then Parked else if kind n = Human then Waiting else Ready)"
  using view_disjoint by (fastforce simp: eligibility_eq Let_def)

lemma eligibility_clear:
  "eligibility g n st rec cross = Some s \<Longrightarrow> s \<in> {Parked, Waiting, Ready} \<Longrightarrow>
     d \<in> set (deps n) \<Longrightarrow> view_clear (view_dep g st rec cross d)"
  by (auto simp: eligibility_eq Let_def split: if_splits)

section \<open>Small graphs the statements are read on\<close>

text \<open>
  Four nodes: a human action \<open>w\<close>, a node \<open>f\<close> that failed, \<open>m\<close> that depends on \<open>f\<close>, and
  \<open>n\<close> that depends on both \<open>w\<close> and \<open>m\<close>, so a failed path and a waiting one reach it at once.
\<close>

definition plain_node :: "str \<Rightarrow> str list \<Rightarrow> node" where
  "plain_node k ds = blank_node\<lparr> node_id := k, deps := ds \<rparr>"

definition plain_plan :: "node list \<Rightarrow> plan" where
  "plain_plan ns =
     \<lparr> schema_version = plan_schema_version, goal = None, plan_name = None,
       plan_concurrency = 1, tasks = ns, export_edges = [] \<rparr>"

definition forked :: "str list \<Rightarrow> graph" where
  "forked ids = from_plan (plain_plan (map (\<lambda>k.
     if k = ''w'' then (plain_node k [])\<lparr> kind := Human \<rparr>
     else if k = ''n'' then plain_node k [''w'', ''m'']
     else if k = ''m'' then plain_node k [''f'']
     else plain_node k []) ids))"

definition chained :: graph where
  "chained = from_plan (plain_plan [plain_node ''a'' [], plain_node ''b'' [''a'']])"

lemma forked_ok [simp]: "graph_ok (forked ids)"
  by (simp add: forked_def graph_ok_from_plan)

lemma chained_ok [simp]: "graph_ok chained"
  by (simp add: chained_def graph_ok_from_plan)

lemma chained_b: "graph_get chained ''b'' = Some (plain_node ''b'' [''a''])"
  by code_simp

lemma no_cross_answers [simp]: "cross_answers (\<lambda>_. None)"
  by (simp add: cross_answers_def)

lemma derive_offers_exactly:
  assumes ok: "graph_ok g" and n: "graph_get g k = Some n" and unparked: "\<not> parked n"
    and unsettled: "bget rec k \<in> {None, Some (At Blocked), Some (At Skipped)}"
  shows "bget (derive g rec cross) k = Some (if kind n = Human then Waiting else Ready)
         \<longleftrightarrow> (\<forall>d \<in> set (deps n). dep_satisfied g rec cross d)"
proof -
  let ?st = "derive_filled g rec cross" and ?go = "if kind n = Human then Waiting else Ready"
  have seed: "seed_status rec n = None"
    using unparked unsettled graph_ok_id [OF ok n] by (auto simp: seed_status_def)
  have got: "bget (derive g rec cross) k = Some ?go \<longleftrightarrow> bget ?st k = Some ?go"
    using n by (auto simp: derive_get [OF ok] split: option.split)
  have "bget ?st k = Some ?go \<longleftrightarrow> eligibility g n ?st rec cross = Some ?go"
  proof (rule derive_filled_open [OF ok n seed, of cross])
    fix mid s assume s: "bget ?st k = Some s" and le: "bget mid \<subseteq>\<^sub>m bget ?st"
      and mid: "eligibility g n mid rec cross = Some s"
    show ?thesis
    proof (cases "s \<in> {Parked, Waiting, Ready}")
      case True
      with eligibility_settles [OF le _ mid] s show ?thesis by simp
    next
      case False
      then have "s = Skipped \<or> s = Blocked" using eligibility_range [OF mid] by auto
      then obtain d where "d \<in> set (deps n)" "\<not> view_clear (view_dep g ?st rec cross d)"
        using eligibility_skips [OF le] eligibility_blocks [OF le] mid view_disjoint by metis
      then have "eligibility g n ?st rec cross \<noteq> Some ?go"
        using eligibility_clear by auto
      with s False show ?thesis by auto
    qed
  qed simp
  also have "\<dots> \<longleftrightarrow> (\<forall>d \<in> set (deps n). view_clear (view_dep g ?st rec cross d))"
    using clear_eligibility [of n g ?st rec cross] eligibility_clear [of g n ?st rec cross ?go]
      unparked by auto
  also have "\<dots> \<longleftrightarrow> (\<forall>d \<in> set (deps n). dep_satisfied g rec cross d)"
    by (simp add: view_clear_satisfied [OF ok])
  finally show ?thesis using got by simp
qed



text \<open>
  Where the plan lists every dependency before its dependents, one pass of the derivation
  is exact: the status of every unsettled node is what \<open>eligibility\<close> answers against the
  statuses the derivation ends with, and \<open>pending\<close> where it answers nothing.
\<close>

lemma derive_exact_in_order:
  assumes ok: "graph_ok g"
    and order: "topological node_id (\<lambda>n. set (deps n)) (graph_iter g)"
    and n: "graph_get g k = Some n" and unparked: "\<not> parked n"
    and unsettled: "bget rec k \<in> {None, Some (At Blocked), Some (At Skipped)}"
  shows "bget (derive g rec cross) k =
     Some (case eligibility g n (derive_filled g rec cross) rec cross of
             Some s \<Rightarrow> s | None \<Rightarrow> Pending)"
proof -
  have id: "node_id n = k" and mem: "n \<in> set (graph_iter g)"
    using ok n graph_ok_id in_graph_iter by blast+
  have "bget (seeded g rec) (node_id n) = None"
    using unparked unsettled seeded_get [OF ok n] by (auto simp: seed_status_def id)
  then have "bget (derive_filled g rec cross) (node_id n) =
      eligibility g n (derive_filled g rec cross) rec cross"
    unfolding derive_filled_alt
    by (intro fill_loop_topological [where elig = "\<lambda>n st. eligibility g n st rec cross",
            OF _ order distinct_iter_ids [OF ok] mem] eligibility_cong)
  with n show ?thesis
    by (simp add: derive_get [OF ok] id graph_contains_def split: option.split)
qed

lemma derive_filled_statuses:
  assumes ok: "graph_ok g" and "s \<noteq> Pending"
  shows "bget (derive g rec cross) k = Some s \<longleftrightarrow> bget (derive_filled g rec cross) k = Some s"
  using assms(2) by (auto simp: derive_get [OF ok] split: option.split)

lemma skipped_views:
  assumes ok: "graph_ok g" and n: "graph_get g k = Some n"
    and skip: "bget (derive_filled g rec cross) k = Some Skipped"
  shows "\<exists>d \<in> set (deps n). view_fails (view_dep g (derive_filled g rec cross) rec cross d)"
proof -
  have "seed_status rec n \<noteq> Some Skipped"
    by (auto simp: seed_status_def split: option.split)
  then have seed: "seed_status rec n = None"
    using derive_filled_seed [OF ok n, of rec _ cross] skip by (cases "seed_status rec n") auto
  show ?thesis
    by (rule derive_filled_open [OF ok n seed, of cross]) (use skip eligibility_skips in auto)
qed

lemma view_fails_local:
  assumes cross: "cross_answers cross" and fails: "view_fails (view_dep g st rec cross d)"
  shows "\<not> is_cross_dag d \<and> graph_contains g d \<and>
     (bget st d = Some Skipped \<or>
      bget st d = Some Failed \<and> bget rec d \<notin> {Some ReachedTheOrigin, Some ReachedItsBase})"
proof -
  have "\<not> is_cross_dag d"
    using cross [unfolded cross_answers_def, THEN spec, of d] fails
    by (auto simp: view_dep_def view_fails_def settled_at_def)
  with fails show ?thesis
    by (auto simp: view_dep_def view_fails_def reached_status_def
        split: option.splits if_splits settled.splits)
qed

lemma skips_reached:
  "skips_dependents (reached_status rec d s) \<longleftrightarrow>
     s = Skipped \<or> s = Failed \<and> bget rec d \<notin> {Some ReachedTheOrigin, Some ReachedItsBase}"
  by (auto simp: reached_status_def skips_dependents_def split: option.split settled.split)

lemma in_skipped_by:
  "(d, s) \<in> set (skipped_by g st rec k) \<longleftrightarrow>
     bget st k = Some Skipped \<and> bget st d = Some s \<and>
     skips_dependents (reached_status rec d s) \<and>
     (\<exists>n. graph_get g k = Some n \<and> d \<in> set (deps n))"
  by (force simp: skipped_by_def List.map_filter_def split: option.splits if_splits)

text \<open>
  A skip always has a cause the run can name: a node that derived \<open>skipped\<close> has a
  dependency \<open>skipped_by\<close> lists, and every one it lists is a dependency of the node whose
  own derived status is \<open>failed\<close> or \<open>skipped\<close>.
\<close>

lemma skip_names_its_cause:
  assumes ok: "graph_ok g" and cross: "cross_answers cross"
    and skip: "bget (derive g rec cross) k = Some Skipped"
  shows "skipped_by g (derive g rec cross) rec k \<noteq> [] \<and>
    (\<forall>(d, s) \<in> set (skipped_by g (derive g rec cross) rec k).
       s \<in> {Failed, Skipped} \<and> bget (derive g rec cross) d = Some s \<and>
       (\<exists>n. graph_get g k = Some n \<and> d \<in> set (deps n)))"
proof -
  let ?st = "derive g rec cross"
  have filled: "bget (derive_filled g rec cross) k = Some Skipped"
    using skip by (simp add: derive_filled_statuses [OF ok])
  then obtain n where n: "graph_get g k = Some n"
    using derive_filled_none [OF ok, of k] by (cases "graph_get g k") auto
  obtain d where d: "d \<in> set (deps n)" and
    fails: "view_fails (view_dep g (derive_filled g rec cross) rec cross d)"
    using skipped_views [OF ok n filled] by blast
  from view_fails_local [OF cross fails]
  have "bget ?st d = Some Skipped \<or>
      bget ?st d = Some Failed \<and> bget rec d \<notin> {Some ReachedTheOrigin, Some ReachedItsBase}"
    by (simp add: derive_filled_statuses [OF ok])
  then obtain s where "bget ?st d = Some s" "skips_dependents (reached_status rec d s)"
    by (auto simp: skips_reached)
  then have "(d, s) \<in> set (skipped_by g ?st rec k)"
    unfolding in_skipped_by using skip n d by simp
  then have "skipped_by g ?st rec k \<noteq> []" by (metis empty_iff empty_set)
  moreover have "s \<in> {Failed, Skipped} \<and> bget ?st d = Some s \<and>
      (\<exists>n. graph_get g k = Some n \<and> d \<in> set (deps n))"
    if "(d, s) \<in> set (skipped_by g ?st rec k)" for d s
    using that unfolding in_skipped_by skips_reached by (simp, blast)
  ultimately show ?thesis by blast
qed

text \<open>A settlement that is a failure with no qualifier, on a node no park holds.\<close>

definition failed_outright :: "graph \<Rightarrow> settled bmap \<Rightarrow> str \<Rightarrow> bool" where
  "failed_outright g rec k \<longleftrightarrow>
     (\<exists>n. graph_get g k = Some n \<and> \<not> parked n) \<and> bget rec k = Some (At Failed)"

lemma failed_outright_derived:
  assumes ok: "graph_ok g" and "bget (derive_filled g rec cross) d = Some Failed"
    and "bget rec d \<notin> {Some ReachedTheOrigin, Some ReachedItsBase}"
  shows "failed_outright g rec d"
  using derive_filled_recorded [OF ok, of Failed rec cross d] assms(2,3)
  by (auto simp: failed_outright_def elim: settled_status_of.elims)

lemma skipped_edges:
  assumes ok: "graph_ok g" and cross: "cross_answers cross"
    and n: "n \<in> set (graph_iter g)" and elig: "eligibility g n st rec cross = Some Skipped"
  shows "\<exists>d. (node_id n, d) \<in> dep_edges g \<and>
    (bget st d = Some Skipped \<or>
     bget st d = Some Failed \<and> bget rec d \<notin> {Some ReachedTheOrigin, Some ReachedItsBase})"
proof -
  obtain d where d: "d \<in> set (deps n)" "view_fails (view_dep g st rec cross d)"
    using elig by (auto simp: eligibility_eq Let_def split: if_splits)
  have "graph_get g (node_id n) = Some n" using n in_graph_iter [OF ok] by simp
  then have "\<not> is_cross_dag d \<Longrightarrow> graph_contains g d \<Longrightarrow> (node_id n, d) \<in> dep_edges g"
    using d(1) by (auto simp: dep_edges_def)
  with view_fails_local [OF cross d(2)] show ?thesis by blast
qed

text \<open>
  C18. Nothing is skipped without a failure behind it: from every node that derived \<open>skipped\<close>
  a chain of dependencies inside the graph leads to an unparked node whose recorded
  settlement is an outright failure (not a publication that reached the origin).
\<close>

theorem skip_reaches_a_failure:
  assumes ok: "graph_ok g" and cross: "cross_answers cross"
    and skip: "bget (derive g rec cross) k = Some Skipped"
  shows "\<exists>f. (k, f) \<in> (dep_edges g)\<^sup>+ \<and> failed_outright g rec f"
proof -
  define I where "I = (\<lambda>st :: node_status bmap. \<forall>k.
    (bget st k = Some Failed \<longrightarrow> bget rec k \<notin> {Some ReachedTheOrigin, Some ReachedItsBase} \<longrightarrow>
       failed_outright g rec k) \<and>
    (bget st k = Some Skipped \<longrightarrow> (\<exists>f. (k, f) \<in> (dep_edges g)\<^sup>+ \<and> failed_outright g rec f)))"
  have "I (derive_filled g rec cross)"
    unfolding derive_filled_alt
  proof (rule fill_loop_invariant)
    have "failed_outright g rec k"
      if "bget (seeded g rec) k = Some Failed"
        "bget rec k \<notin> {Some ReachedTheOrigin, Some ReachedItsBase}" for k
    proof (rule failed_outright_derived [OF ok _ that(2)])
      show "bget (derive_filled g rec cross) k = Some Failed"
        unfolding derive_filled_alt by (rule fill_loop_keeps) (rule that(1))
    qed
    moreover have "bget (seeded g rec) k \<noteq> Some Skipped" for k
      using seeded_get [OF ok, of k _ rec] seeded_none [OF ok, of k rec]
      by (cases "graph_get g k") (auto simp: seed_status_def split: option.split)
    ultimately show "I (seeded g rec)" unfolding I_def by blast
  next
    fix n st v
    assume n: "n \<in> set (graph_iter g)" and inv: "I st"
      and elig: "eligibility g n st rec cross = Some v"
    have "v \<noteq> Failed" using eligibility_range [OF elig] by auto
    moreover have "\<exists>f. (node_id n, f) \<in> (dep_edges g)\<^sup>+ \<and> failed_outright g rec f"
      if "v = Skipped"
    proof -
      have "eligibility g n st rec cross = Some Skipped" using elig that by simp
      from skipped_edges [OF ok cross n this]
      obtain d where edge: "(node_id n, d) \<in> dep_edges g" and st: "bget st d = Some Skipped \<or>
          bget st d = Some Failed \<and> bget rec d \<notin> {Some ReachedTheOrigin, Some ReachedItsBase}"
        by (elim exE conjE)
      then have "failed_outright g rec d \<or> (\<exists>f. (d, f) \<in> (dep_edges g)\<^sup>+ \<and> failed_outright g rec f)"
        using inv unfolding I_def by blast
      with edge show ?thesis by (blast intro: r_into_trancl trancl_into_trancl2)
    qed
    ultimately show "I (bput (node_id n) v st)"
      using inv unfolding I_def by simp
  qed
  then show ?thesis
    using skip unfolding derive_filled_statuses [OF ok, of Skipped, simplified] I_def by blast
qed

theorem skip_reaches_a_failure_witness:
  "\<exists>f. (''b'', f) \<in> (dep_edges chained)\<^sup>+ \<and> failed_outright chained [(''a'', At Failed)] f"
proof (rule skip_reaches_a_failure [OF chained_ok no_cross_answers])
  show "bget (derive chained [(''a'', At Failed)] (\<lambda>_. None)) ''b'' = Some Skipped" by code_simp
qed

section \<open>Progress and the outcome of a run\<close>

text \<open>A plan that lists dependencies before dependents has no cycle.\<close>

definition position :: "str list \<Rightarrow> str \<Rightarrow> nat" where
  "position ks k = length (takeWhile (\<lambda>j. j \<noteq> k) ks)"

lemma topological_position:
  "topological key reads ns \<Longrightarrow> distinct (map key ns) \<Longrightarrow> n \<in> set ns \<Longrightarrow> d \<in> reads n \<Longrightarrow>
     d \<in> key ` set ns \<Longrightarrow> position (map key ns) d < position (map key ns) (key n)"
  by (induction ns) (auto simp: position_def)

lemma ordered_acyclic:
  assumes ok: "graph_ok g" and topo: "topological node_id (\<lambda>n. set (deps n)) (graph_iter g)"
  shows "acyclic (dep_edges g)"
proof -
  let ?pos = "position (map node_id (graph_iter g))"
  have "?pos d < ?pos k" if "(k, d) \<in> dep_edges g" for k d
  proof -
    from that obtain n where n: "graph_get g k = Some n" "d \<in> set (deps n)" "graph_contains g d"
      by (auto simp: dep_edges_def)
    have "n \<in> set (graph_iter g)" "node_id n = k"
      using n(1) ok in_graph_iter graph_ok_id by blast+
    moreover have "d \<in> node_id ` set (graph_iter g)"
      using n(3) graph_ok_order [OF ok] graph_iter_ids [OF ok] by (metis set_map)
    ultimately show ?thesis using topological_position [OF topo distinct_iter_ids [OF ok]] n(2) by blast
  qed
  then have "(dep_edges g)\<inverse> \<subseteq> inv_image less_than ?pos" by auto
  then have "acyclic ((dep_edges g)\<inverse>)"
    by (rule acyclic_subset [rotated]) (simp add: wf_acyclic)
  then show ?thesis by simp
qed

text \<open>A node the run still has to move: the dispatcher's, or awaiting its release.\<close>

definition movable :: "node_status \<Rightarrow> bool" where
  "movable s \<longleftrightarrow> s = Ready \<or> s = Running \<or> awaits_release s"

lemma finite_dep_edges: "graph_ok g \<Longrightarrow> finite (dep_edges g)"
proof -
  assume ok: "graph_ok g"
  have "dep_edges g \<subseteq> set (order_ids g) \<times> set (order_ids g)"
    using graph_ok_order [OF ok] by (auto simp: dep_edges_def graph_contains_def)
  then show ?thesis by (rule finite_subset) simp
qed

lemma pending_edge:
  assumes ok: "graph_ok g" and cross: "cross_answers cross"
    and n: "graph_get g k = Some n"
    and elig: "eligibility g n st rec cross = None"
  shows "\<exists>d. (k, d) \<in> dep_edges g \<and>
    (bget st d = None \<or> (\<exists>s. bget st d = Some s \<and> (s = Pending \<or> movable s)))"
proof -
  obtain d where d: "d \<in> set (deps n)" and v: "\<not> view_clear (view_dep g st rec cross d)"
    "\<not> view_gates (view_dep g st rec cross d)" "\<not> view_fails (view_dep g st rec cross d)"
    using elig by (auto simp: eligibility_eq Let_def split: if_splits)
  have "cross d \<in> {None, Some Done, Some Blocked}" using cross by (simp add: cross_answers_def)
  with v have local: "\<not> is_cross_dag d" "graph_contains g d"
    by (auto simp: view_dep_def view_defs settled_at_def split: if_splits)
  with d n have edge: "(k, d) \<in> dep_edges g" by (auto simp: dep_edges_def)
  have "bget st d = None \<or> (\<exists>s. bget st d = Some s \<and> (s = Pending \<or> movable s))"
  proof (cases "bget st d")
    case (Some s)
    with v local show ?thesis
      by (cases s)
        (auto simp: view_dep_def view_defs movable_def awaits_release_def reached_status_def
          split: option.splits settled.splits)
  qed simp
  with edge show ?thesis by blast
qed

text \<open>
  Over an acyclic graph whose journal recorded no node as \<open>pending\<close>, a derivation that is not
  terminal has a node that is ready, running, or complete and awaiting its release.
\<close>

lemma unsettled_graph_can_move:
  assumes ok: "graph_ok g" and acyc: "acyclic (dep_edges g)" and cross: "cross_answers cross"
    and recorded: "At Pending \<notin> snd ` set rec"
    and unsettled: "\<not> is_terminal (derive g rec cross)"
  shows "\<exists>k s. bget (derive g rec cross) k = Some s \<and> movable s"
proof -
  let ?st = "derive_filled g rec cross"
  have wf: "wf ((dep_edges g)\<inverse>)"
    using finite_dep_edges [OF ok] acyc by (simp add: finite_acyclic_wf_converse)
  have no_pending: "bget ?st d \<noteq> Some Pending" for d
    using derive_filled_recorded [OF ok, of Pending rec cross d] recorded
    by (force elim: settled_status_of.elims dest: map_of_SomeD)
  have chain: "graph_contains g k \<Longrightarrow> bget ?st k = None \<Longrightarrow> \<exists>j s. bget ?st j = Some s \<and> movable s" for k
  proof (induction k rule: wf_induct_rule [OF wf])
    case (1 k)
    then obtain n where n: "graph_get g k = Some n" by (auto simp: graph_contains_def)
    have seed: "seed_status rec n = None"
      using derive_filled_seed [OF ok n, of rec _ cross] "1.prems"(2) by (cases "seed_status rec n") auto
    have "eligibility g n ?st rec cross = None"
      by (rule derive_filled_open [OF ok n seed, of cross]) (use "1.prems" in auto)
    from pending_edge [OF ok cross n this] no_pending
    obtain d where d: "(k, d) \<in> dep_edges g"
      "bget ?st d = None \<or> (\<exists>s. bget ?st d = Some s \<and> movable s)" by metis
    then have "graph_contains g d" by (auto simp: dep_edges_def)
    with d "1.IH" [of d] show ?case by auto
  qed
  obtain k s where ks: "(k, s) \<in> set (derive g rec cross)" "\<not> is_settled s"
    using unsettled by (auto simp: is_terminal_def list_all_iff)
  have "bmap_ok (derive g rec cross)" by (rule derive_bmap_ok)
  with ks have got: "bget (derive g rec cross) k = Some s" by (intro bmap_ok_in_bget)
  show ?thesis
  proof (cases "bget ?st k")
    case None
    with got have "graph_contains g k" by (auto simp: derive_get [OF ok] split: if_splits)
    from chain [OF this None] obtain j s' where "bget ?st j = Some s'" "movable s'" by blast
    then have "bget (derive g rec cross) j = Some s'" by (simp add: derive_get [OF ok])
    with \<open>movable s'\<close> show ?thesis by blast
  next
    case (Some s')
    with got have "bget ?st k = Some s" by (simp add: derive_get [OF ok])
    with no_pending [of k] ks(2) have "movable s"
      by (auto simp: unsettled_statuses movable_def)
    with got show ?thesis by blast
  qed
qed

lemma state_complete_iff:
  "state_of st = Graph_Complete \<longleftrightarrow> (\<forall>s \<in> snd ` set st. s = Done)"
proof -
  have "list_all (\<lambda>s. s = Done) vs \<Longrightarrow> \<not> list_ex (\<lambda>s. s \<in> {Failed, Skipped}) vs \<and>
      \<not> list_ex (\<lambda>s. s \<in> {Waiting, Blocked, Parked, Cancelled}) vs" for vs
    by (induction vs) auto
  then show ?thesis by (simp add: state_of_def Let_def list_all_iff)
qed

text \<open>
  The exit status is an honest summary: a settled graph exits 0 exactly when every node
  of it is unparked and recorded \<open>done\<close>; anything else, a failure the derivation inferred
  included, exits 1.
\<close>

lemma exit_zero_iff_all_done:
  assumes ok: "graph_ok g"
  shows "graph_exit_code (state_of (derive g rec cross)) = 0 \<longleftrightarrow>
    (\<forall>k n. graph_get g k = Some n \<longrightarrow> \<not> parked n \<and> bget rec k = Some (At Done))"
proof -
  have dom: "bget (derive g rec cross) k = None \<longleftrightarrow> graph_get g k = None" for k
    using derive_filled_none [OF ok, of k rec cross]
    by (auto simp: derive_get [OF ok] graph_contains_def split: option.split)
  have is_done: "bget (derive g rec cross) k = Some Done \<longleftrightarrow>
      (\<exists>n. graph_get g k = Some n \<and> \<not> parked n \<and> bget rec k = Some (At Done))" for k
    unfolding derive_filled_statuses [OF ok node_status.distinct(13) [symmetric]]
    using derive_filled_recorded [OF ok, of Done rec cross k]
    by (auto elim: settled_status_of.elims)
  have "graph_exit_code (state_of (derive g rec cross)) = 0 \<longleftrightarrow>
      (\<forall>(k, s) \<in> set (derive g rec cross). s = Done)"
    by (force simp: graph_exit_code_def state_complete_iff)
  also have "\<dots> \<longleftrightarrow> (\<forall>k s. bget (derive g rec cross) k = Some s \<longrightarrow> s = Done)"
    using bmap_ok_in_bget [OF derive_bmap_ok] bget_Some_in by fast
  also have "\<dots> \<longleftrightarrow> (\<forall>k. graph_get g k \<noteq> None \<longrightarrow> bget (derive g rec cross) k = Some Done)"
    using dom by (metis not_None_eq option.inject)
  also have "\<dots> \<longleftrightarrow>
      (\<forall>k n. graph_get g k = Some n \<longrightarrow> \<not> parked n \<and> bget rec k = Some (At Done))"
    unfolding is_done by (metis not_None_eq option.inject)
  finally show ?thesis .
qed

text \<open>
  The derived status of a node depends on the order the plan lists the nodes in: a
  descendant of a failure that is also behind a waiting path is \<open>skipped\<close> when its failed
  branch is listed before it and \<open>blocked\<close> when it is listed after, because \<open>eligibility\<close>
  answers \<open>blocked\<close> while the failed branch has no status yet and no later pass revises it.
\<close>

lemma failure_precedence_depends_on_order:
  "bget (derive (forked [''w'', ''m'', ''n'', ''f'']) [(''f'', At Failed)] (\<lambda>_. None)) ''n''
     = Some Skipped \<and>
   bget (derive (forked [''w'', ''n'', ''m'', ''f'']) [(''f'', At Failed)] (\<lambda>_. None)) ''n''
     = Some Blocked"
  by code_simp

end
