(* ===== verification/Task_Text.thy ===== *)
theory Task_Text
  imports Plan_Model
begin

text \<open>
  The task prose a dispatch is handed (\<open>src/src/plan.rs\<close>): the acceptance-criteria rule C6b a
  plan's tasks are held to, and the rendering of a node's amendment into the criteria section
  its judge reads. Byte offsets into a task are character offsets here.
\<close>

section \<open>Lines\<close>

definition nl :: char where "nl = CHR 0x0A"
definition cr :: char where "cr = CHR 0x0D"

text \<open>\<open>str::split_inclusive('\<backslash>n')\<close> and \<open>str::lines\<close>.\<close>

fun split_inclusive :: "str \<Rightarrow> str list" where
  "split_inclusive [] = []"
| "split_inclusive (x # xs) =
     (if x = nl then [x] # split_inclusive xs
      else (case split_inclusive xs of
              [] \<Rightarrow> [[x]]
            | w # ws \<Rightarrow> (x # w) # ws))"

definition strip_newline :: "str \<Rightarrow> str" where
  "strip_newline l =
     (case strip_suffix [nl] l of
        None \<Rightarrow> l
      | Some m \<Rightarrow> (case strip_suffix [cr] m of None \<Rightarrow> m | Some n \<Rightarrow> n))"

definition text_lines :: "str \<Rightarrow> str list" where
  "text_lines s = map strip_newline (split_inclusive s)"

section \<open>The acceptance-criteria rule\<close>

definition criteria_heading :: str where
  "criteria_heading = ''## Acceptance criteria''"

definition additional_info_heading :: str where
  "additional_info_heading = ''## Additional info''"

datatype criteria_rule = NoSection | Repeated | NoneListed

fun criteria_rule_as_str :: "criteria_rule \<Rightarrow> str" where
  "criteria_rule_as_str NoSection = ''no criteria section''"
| "criteria_rule_as_str Repeated = ''criteria section repeated''"
| "criteria_rule_as_str NoneListed = ''no criteria listed''"

definition or_else :: "'a option \<Rightarrow> 'a option \<Rightarrow> 'a option" where
  "or_else a b = (case a of None \<Rightarrow> b | Some x \<Rightarrow> Some x)"

definition criterion_listed :: "str \<Rightarrow> bool" where
  "criterion_listed line =
     (let digits = length (takeWhile is_ascii_digit line);
          text = or_else (strip_prefix ''- '' line)
                   (or_else (strip_prefix ''* '' line)
                     (if 0 < digits then strip_prefix ''. '' (drop digits line) else None))
      in (case text of None \<Rightarrow> False | Some t \<Rightarrow> \<not> blank t))"

definition check_criteria :: "str \<Rightarrow> criteria_rule + unit" where
  "check_criteria prose =
     (case dropWhile (\<lambda>l. l \<noteq> criteria_heading) (map trim_end (text_lines prose)) of
        [] \<Rightarrow> Inl NoSection
      | _ # rest \<Rightarrow>
          if criteria_heading \<in> set rest then Inl Repeated
          else if list_ex (\<lambda>l. criterion_listed (trim_start l))
                    (takeWhile (\<lambda>l. \<not> starts_with ''## '' l) rest)
          then Inr () else Inl NoneListed)"

section \<open>Amendments\<close>

definition amendment_heading :: str where
  "amendment_heading = ''### Amendment''"

definition is_section_heading :: "str \<Rightarrow> bool" where
  "is_section_heading line \<longleftrightarrow> starts_with ''##'' line \<and> \<not> starts_with ''###'' line"

text \<open>The line a section ends before; \<open>inside\<close> says whether its heading was met.\<close>

fun section_end :: "bool \<Rightarrow> nat \<Rightarrow> str list \<Rightarrow> nat option" where
  "section_end inside at [] = (if inside then Some at else None)"
| "section_end inside at (l # ls) =
     (let trimmed = trim_end l
      in if inside \<and> is_section_heading trimmed then Some at
         else section_end (inside \<or> trimmed = criteria_heading) (at + length l) ls)"

definition criteria_section_end :: "str \<Rightarrow> nat option" where
  "criteria_section_end prose = section_end False 0 (split_inclusive prose)"

fun line_at :: "(str \<Rightarrow> bool) \<Rightarrow> nat \<Rightarrow> str list \<Rightarrow> nat option" where
  "line_at p at [] = None"
| "line_at p at (l # ls) = (if p l then Some at else line_at p (at + length l) ls)"

definition additional_info_at :: "str \<Rightarrow> nat option" where
  "additional_info_at prose =
     line_at (\<lambda>l. trim_end l = additional_info_heading) 0 (split_inclusive prose)"

definition heading_text :: "str \<Rightarrow> str option" where
  "heading_text line =
     (let t = dropWhile (\<lambda>c. c = CHR ''#'') line
      in if length t = length line then None
         else if t = [] \<or> starts_with '' '' t then Some (trim t) else None)"

definition list_item :: "str \<Rightarrow> str option" where
  "list_item line =
     (case or_else (strip_prefix ''- '' line)
             (or_else (strip_prefix ''* '' line) (strip_prefix ''+ '' line)) of
        Some item \<Rightarrow> Some (trim item)
      | None \<Rightarrow>
          (let digits = length (takeWhile is_ascii_digit line); rest = drop digits line
           in if digits = 0 then None
              else map_option trim
                     (or_else (strip_prefix ''. '' rest) (strip_prefix '') '' rest))))"

text \<open>The clauses of an amendment as lines: what is open, and what is already closed.\<close>

definition close_clause :: "str option \<Rightarrow> str list \<Rightarrow> str list" where
  "close_clause opn ls = (case opn of None \<Rightarrow> ls | Some c \<Rightarrow> ls @ [''- '' @ c])"

fun clause_lines :: "str list \<Rightarrow> str option \<Rightarrow> str list \<Rightarrow> str list" where
  "clause_lines [] opn ls = close_clause opn ls"
| "clause_lines (x # xs) opn ls =
     (let t = trim x
      in if t = [] then clause_lines xs None (close_clause opn ls)
         else (case heading_text t of
                 Some h \<Rightarrow>
                   (let ls' = close_clause opn ls
                    in clause_lines xs None
                         (if h = [] then ls' else ls' @ [[], ''**'' @ h @ ''**'', []]))
               | None \<Rightarrow>
                   (case list_item t of
                      Some item \<Rightarrow> clause_lines xs (Some item) (close_clause opn ls)
                    | None \<Rightarrow>
                        (case opn of
                           Some c \<Rightarrow> clause_lines xs (Some (c @ '' '' @ t)) ls
                         | None \<Rightarrow> clause_lines xs (Some t) ls))))"

fun render_clauses :: "bool \<Rightarrow> str list \<Rightarrow> str" where
  "render_clauses was_blank [] = []"
| "render_clauses was_blank (l # ls) =
     (if l = [] then (if was_blank then [] else [nl]) @ render_clauses True ls
      else l @ [nl] @ render_clauses False ls)"

definition amendment_clauses :: "str \<Rightarrow> str" where
  "amendment_clauses ruling = render_clauses True (clause_lines (text_lines ruling) None [])"

definition amendment_precedence :: str where
  "amendment_precedence =
     ''This node'' @ [CHR 0x27] @ ''s manager amended its bar. Every clause '' @
     ''below is an acceptance criterion of this node and takes precedence over the whole '' @
     ''task: where a clause here contradicts a criterion above it, anything the task says '' @
     ''elsewhere, or an operational note below, the clause here wins and the contradicted '' @
     ''one no longer binds.''"

definition amended :: "str \<Rightarrow> str \<Rightarrow> str" where
  "amended prose ruling =
     (let block = amendment_heading @ [nl] @ amendment_precedence @ [nl, nl] @ amendment_clauses ruling
      in case criteria_section_end prose of
           Some e \<Rightarrow>
             (let bar = take e prose; rest = drop e prose
              in if blank rest then trim_end bar @ [nl, nl] @ block
                 else trim_end bar @ [nl, nl] @ block @ [nl] @ rest)
         | None \<Rightarrow>
             (let block' = criteria_heading @ [nl, nl] @ block
              in case additional_info_at prose of
                   Some at \<Rightarrow> trim_end (take at prose) @ [nl, nl] @ block' @ [nl] @ drop at prose
                 | None \<Rightarrow> trim_end prose @ [nl, nl] @ block'))"

end
