(* ===== verification/Plan_Check.thy ===== *)
theory Plan_Check
  imports Cycle_Search Scheduling Task_Text
begin

text \<open>
  The checks a plan passes before the engine executes it (\<open>src/src/graph.rs\<close>, with
  \<open>controls.rs\<close>, \<open>refusal.rs\<close>, the export-edge shape of \<open>boundary.rs\<close> and the qualified ids of
  \<open>taskgraph.rs\<close>): each check is a function that answers the first refusal in the order the
  source reads the plan, or nothing. A refusal is about a node, names a field, and says one
  of a closed set of sentences; the wording of a sentence is its constructor.
\<close>

section \<open>Refusals\<close>

datatype (plugins only: code) sentence =
    Needs_A_Node
  | Version_Not_Read u32
  | Concurrency_Zero
  | Goal_Blank
  | Id_Blank
  | Duplicate_Node str
  | Delivered_Twice str str str          \<comment> \<open>first node, this node, ticket\<close>
  | Depends_On_Itself str
  | Malformed_Reference str str
  | Not_In_The_Plan str str
  | Depends_On_Preserved str str
  | Dependency_Cycle str
  | Identities_Unread str str str str
  | Base_Conflict str
  | Separate_Chains str "str list"
  | Field_Is_Newer str u32
  | Title_Required
  | Criteria criteria_rule
  | Step_Criteria str criteria_rule
  | Bad_Set_Entry str
  | Sets_Need_A_Dispatch
  | Reserved_Persona
  | Reserved_Reply_Persona
  | Preserve_Needs_A_Branch str
  | Preserve_Beside_Draft
  | Bad_Ticket str
  | Title_Blank
  | Title_Too_Long nat
  | Title_Is_Not_A_Subject str
  | Amendment_Blank
  | Consumes_No_Dep str
  | Human_Id_Has_Separator
  | Task_Missing str                     \<comment> \<open>for which shape of node\<close>
  | Human_Has_No_Dispatch
  | Human_Has_No_Execution
  | Human_Has_No_Note
  | No_Diff_Has_No_Dispatch
  | No_Diff_Has_No_Steps
  | Zero_Turns
  | Steps_Need_A_Repo
  | Persona_Missing str
  | Steps_Own_The_Task
  | Steps_Empty
  | Step_Says str sentence
  | Step_Id_Blank
  | Duplicate_Step str
  | Step_Depends_On_Itself
  | Step_Depends_Outside str
  | Bad_Accepted_Opaque nat
  | Edge_Dangling nat str
  | Edge_Twice nat nat
  | Consumer_Ambiguous nat nat
  | Edge_Path nat str
  | Edge_Not_A_Dependency nat
  | Export_Producer nat
  | Export_Consumer nat
  | Export_Context nat
  | Beside_An_Export nat
  | Ordinary_Private_Dep nat
  | Export_Not_Neutral nat

record refusal =
  rf_node :: "str option"
  rf_field :: "str option"
  rf_says :: sentence

definition plain_refusal :: "sentence \<Rightarrow> refusal" where
  "plain_refusal m = \<lparr> rf_node = None, rf_field = None, rf_says = m \<rparr>"

definition refusal_about :: "str \<Rightarrow> sentence \<Rightarrow> refusal" where
  "refusal_about k m = \<lparr> rf_node = Some k, rf_field = None, rf_says = m \<rparr>"

definition in_field :: "str \<Rightarrow> refusal \<Rightarrow> refusal" where
  "in_field f r = r\<lparr> rf_field := Some f \<rparr>"

type_synonym checked = "refusal + unit"

text \<open>The two guards the checks are made of: \<open>if bad { return Err(..) }\<close>, and checks in order.\<close>

definition refuse_if :: "bool \<Rightarrow> refusal \<Rightarrow> checked" where
  "refuse_if bad r = (if bad then Inl r else Inr ())"

definition check_all :: "('a \<Rightarrow> checked) \<Rightarrow> 'a list \<Rightarrow> checked" where
  "check_all f xs = first_refusal (map f xs)"

lemma refuse_if_Inr [simp]: "refuse_if bad r = Inr u \<longleftrightarrow> \<not> bad"
  by (simp add: refuse_if_def)

lemma check_all_Inr [simp]: "check_all f xs = Inr u \<longleftrightarrow> (\<forall>x \<in> set xs. f x = Inr ())"
  by (auto simp: check_all_def)

section \<open>Controls\<close>

text \<open>
  \<open>NodeControls\<close>: the turn budget narrowed to one a dispatch could run under, and the
  \<open>--set\<close> overrides it renders to. The one control is always appliable, so rendering what a
  narrowed budget declares never refuses.
\<close>

definition turn_budget :: "u32 option \<Rightarrow> sentence + u32 option" where
  "turn_budget declared =
     (case declared of
        None \<Rightarrow> Inr None
      | Some b \<Rightarrow> if b = 0 then Inl Zero_Turns else Inr (Some b))"

fun digits_of :: "nat \<Rightarrow> str" where
  "digits_of n =
     (if n < 10 then [char_of (48 + n)] else digits_of (n div 10) @ [char_of (48 + n mod 10)])"

declare digits_of.simps [simp del]

definition control_overrides :: "u32 option \<Rightarrow> str list" where
  "control_overrides budget =
     (case budget of
        None \<Rightarrow> []
      | Some b \<Rightarrow> [''members.worker.max_turns='' @ digits_of (unat b)])"

definition controls_of :: "u32 option \<Rightarrow> sentence + str list" where
  "controls_of declared = map_sum id control_overrides (turn_budget declared)"

text \<open>\<open>dispatch_sets\<close>: the run's overrides, the persona, the controls, then the node's own.\<close>

definition dispatch_sets ::
    "str list \<Rightarrow> str option \<Rightarrow> u32 option \<Rightarrow> str list \<Rightarrow> str list" where
  "dispatch_sets run_sets who budget node_sets =
     run_sets
     @ (case who of None \<Rightarrow> [] | Some p \<Rightarrow> [''members.worker.persona='' @ p])
     @ control_overrides budget
     @ node_sets"

section \<open>Tickets and titles\<close>

text \<open>\<open>QualifiedId::try_from\<close>: a source name, a colon, and something after it.\<close>

definition qualified_id_ok :: "siblings \<Rightarrow> str \<Rightarrow> bool" where
  "qualified_id_ok sib whole =
     (case split_once (CHR 0x3A) whole of
        None \<Rightarrow> False
      | Some (source, native) \<Rightarrow> native \<noteq> [] \<and> source_name_ok sib source)"

definition validate_title :: "siblings \<Rightarrow> str \<Rightarrow> sentence + unit" where
  "validate_title sib t =
     (let trimmed = trim t
      in if trimmed = [] then Inl Title_Blank
         else if subject_limit sib < byte_len trimmed then Inl (Title_Too_Long (byte_len trimmed))
         else Inr ())"

text \<open>\<open>str::split_once(": ")\<close>.\<close>

fun split_colon_space :: "str \<Rightarrow> (str \<times> str) option" where
  "split_colon_space (a # b # rest) =
     (if a = CHR 0x3A \<and> b = CHR 0x20 then Some ([], rest)
      else map_option (\<lambda>(h, d). (a # h, d)) (split_colon_space (b # rest)))"
| "split_colon_space _ = None"

definition kind_word_ok :: "str \<Rightarrow> bool" where
  "kind_word_ok w \<longleftrightarrow>
     w \<noteq> [] \<and> list_all (\<lambda>c. is_ascii_lower c \<or> is_ascii_digit c \<or> c = CHR ''-'') w"

definition validate_subject :: "siblings \<Rightarrow> str \<Rightarrow> sentence + unit" where
  "validate_subject sib t =
     and_then (validate_title sib t) (\<lambda>_.
       let trimmed = trim t
       in if list_ex is_control trimmed then Inl (Title_Is_Not_A_Subject ''one line'')
          else (case split_colon_space trimmed of
                  None \<Rightarrow> Inl (Title_Is_Not_A_Subject ''separator'')
                | Some (head0, _) \<Rightarrow>
                    let head1 = (case strip_suffix ''!'' head0 of None \<Rightarrow> head0 | Some h \<Rightarrow> h)
                    in (case split_once (CHR ''('') head1 of
                          None \<Rightarrow>
                            if \<not> kind_word_ok head1 then Inl (Title_Is_Not_A_Subject ''type'')
                            else Inr ()
                        | Some (word, rest) \<Rightarrow>
                            (case strip_suffix '')'' rest of
                               None \<Rightarrow> Inl (Title_Is_Not_A_Subject ''scope'')
                             | Some scope \<Rightarrow>
                                 if \<not> kind_word_ok word then Inl (Title_Is_Not_A_Subject ''type'')
                                 else if blank scope \<or> CHR ''('' \<in> set scope \<or> CHR '')'' \<in> set scope
                                 then Inl (Title_Is_Not_A_Subject ''empty scope'')
                                 else Inr ()))))"

section \<open>One node's shape\<close>

definition task_blank :: "str option \<Rightarrow> bool" where
  "task_blank t \<longleftrightarrow> (case t of None \<Rightarrow> True | Some p \<Rightarrow> blank p)"

definition pr_author_persona :: str where "pr_author_persona = ''pr-author''"
definition review_reply_persona :: str where "review_reply_persona = ''review-reply''"
definition step_separator :: char where "step_separator = CHR ''/''"

definition check_step :: "str \<Rightarrow> step \<Rightarrow> checked" where
  "check_step k s =
     (let named = (\<lambda>m. in_field ''steps'' (refusal_about k m)); of_step = Step_Says (step_id s)
      in first_refusal
        ((if step_kind s = Human then
            [refuse_if (step_separator \<in> set (step_id s)) (named (of_step Human_Id_Has_Separator)),
             refuse_if (step_persona s \<noteq> None \<or> step_max_turns s \<noteq> None \<or> step_expects_no_diff s)
               (named (of_step Human_Has_No_Dispatch))]
          else if step_expects_no_diff s then
            [refuse_if (step_persona s \<noteq> None \<or> step_max_turns s \<noteq> None)
               (named (of_step No_Diff_Has_No_Dispatch))]
          else
            [refuse_if (step_persona s = None) (named (of_step (Persona_Missing ''agent step''))),
             refuse_if (step_persona s = Some pr_author_persona) (named (of_step Reserved_Persona)),
             refuse_if (step_persona s = Some review_reply_persona)
               (named (of_step Reserved_Reply_Persona)),
             map_err (\<lambda>why. named (of_step why)) (map_sum id (\<lambda>_. ()) (controls_of (step_max_turns s)))])
         @ [refuse_if (task_blank (step_task s)) (named (of_step (Task_Missing ''step'')))]))"

fun check_step_list :: "str \<Rightarrow> str list \<Rightarrow> step list \<Rightarrow> checked" where
  "check_step_list k seen [] = Inr ()"
| "check_step_list k seen (s # ss) =
     (let named = (\<lambda>m. in_field ''steps'' (refusal_about k m))
      in and_then (refuse_if (blank (step_id s)) (named Step_Id_Blank)) (\<lambda>_.
         and_then (refuse_if (step_id s \<in> set seen) (named (Duplicate_Step (step_id s)))) (\<lambda>_.
         and_then (check_step k s) (\<lambda>_. check_step_list k (step_id s # seen) ss))))"

definition check_step_deps :: "str \<Rightarrow> str list \<Rightarrow> step \<Rightarrow> checked" where
  "check_step_deps k ids s =
     (let named = (\<lambda>m. in_field ''steps'' (refusal_about k (Step_Says (step_id s) m)))
      in check_all (\<lambda>dep. first_refusal
           [refuse_if (dep = step_id s) (named Step_Depends_On_Itself),
            refuse_if (dep \<notin> set ids) (named (Step_Depends_Outside dep))]) (step_deps s))"

definition check_steps :: "str \<Rightarrow> step list \<Rightarrow> checked" where
  "check_steps k ss =
     first_refusal
       [refuse_if (ss = []) (in_field ''steps'' (refusal_about k Steps_Empty)),
        check_step_list k [] ss,
        check_all (check_step_deps k (map step_id ss)) ss]"

text \<open>The rules of each kind of node, after those every node is held to.\<close>

definition check_human :: "node \<Rightarrow> checked" where
  "check_human n =
     (let named = (\<lambda>m. refusal_about (node_id n) m)
      in first_refusal
       [refuse_if (step_separator \<in> set (node_id n)) (in_field ''id'' (named Human_Id_Has_Separator)),
        refuse_if (task_blank (task n)) (in_field ''task'' (named (Task_Missing ''human''))),
        refuse_if (persona n \<noteq> None \<or> max_turns n \<noteq> None)
          (in_field (if persona n \<noteq> None then ''persona'' else ''max_turns'')
             (named Human_Has_No_Dispatch)),
        refuse_if (repo n \<noteq> None \<or> steps n \<noteq> None \<or> expects_no_diff n)
          (in_field (if repo n \<noteq> None then ''repo''
                     else if steps n \<noteq> None then ''steps'' else ''expects_no_diff'')
             (named Human_Has_No_Execution)),
        refuse_if (planner_context n \<noteq> None) (in_field ''context'' (named Human_Has_No_Note))])"

definition check_no_diff :: "node \<Rightarrow> checked" where
  "check_no_diff n =
     (let named = (\<lambda>m. refusal_about (node_id n) m)
      in first_refusal
       [refuse_if (task_blank (task n)) (in_field ''task'' (named (Task_Missing ''expects_no_diff''))),
        refuse_if (persona n \<noteq> None \<or> max_turns n \<noteq> None)
          (in_field (if persona n \<noteq> None then ''persona'' else ''max_turns'')
             (named No_Diff_Has_No_Dispatch)),
        refuse_if (steps n \<noteq> None) (in_field ''steps'' (named No_Diff_Has_No_Steps))])"

definition check_agent :: "node \<Rightarrow> checked" where
  "check_agent n =
     (let named = (\<lambda>m. refusal_about (node_id n) m)
      in and_then (map_err (\<lambda>why. in_field ''max_turns'' (named why))
                     (map_sum id (\<lambda>_. ()) (controls_of (max_turns n)))) (\<lambda>_.
        (case (repo n, steps n) of
           (None, Some _) \<Rightarrow> Inl (in_field ''repo'' (named Steps_Need_A_Repo))
         | (None, None) \<Rightarrow> first_refusal
             [refuse_if (persona n = None) (in_field ''persona'' (named (Persona_Missing ''direct''))),
              refuse_if (task_blank (task n)) (in_field ''task'' (named (Task_Missing ''direct'')))]
         | (Some _, Some ss) \<Rightarrow>
             and_then (refuse_if (persona n \<noteq> None \<or> task n \<noteq> None \<or> max_turns n \<noteq> None)
               (in_field (if persona n \<noteq> None then ''persona''
                          else if task n \<noteq> None then ''task'' else ''max_turns'')
                  (named Steps_Own_The_Task)))
               (\<lambda>_. check_steps (node_id n) ss)
         | (Some _, None) \<Rightarrow> first_refusal
             [refuse_if (persona n = None) (in_field ''persona'' (named (Persona_Missing ''lifecycle''))),
              refuse_if (task_blank (task n)) (in_field ''task'' (named (Task_Missing ''lifecycle'')))])))"

definition keeps_nothing :: "node \<Rightarrow> str option" where
  "keeps_nothing n =
     (if kind n = Human then Some ''human''
      else if expects_no_diff n then Some ''expects_no_diff''
      else if repo n = None then Some ''direct''
      else None)"

definition check_node :: "siblings \<Rightarrow> node \<Rightarrow> checked" where
  "check_node sib n =
     (let named = (\<lambda>m. refusal_about (node_id n) m)
      in first_refusal
       [check_all (\<lambda>e. refuse_if (\<not> parse_set_ok sib e) (in_field ''sets'' (named (Bad_Set_Entry e))))
          (sets n),
        refuse_if (sets n \<noteq> [] \<and> (kind n = Human \<or> expects_no_diff n))
          (in_field ''sets'' (named Sets_Need_A_Dispatch)),
        refuse_if (persona n = Some pr_author_persona) (in_field ''persona'' (named Reserved_Persona)),
        refuse_if (persona n = Some review_reply_persona)
          (in_field ''persona'' (named Reserved_Reply_Persona)),
        (if publish n = Preserve
         then (case keeps_nothing n of
                 Some what \<Rightarrow> Inl (in_field ''publish'' (named (Preserve_Needs_A_Branch what)))
               | None \<Rightarrow> refuse_if (draft n) (in_field ''publish'' (named Preserve_Beside_Draft)))
         else Inr ()),
        check_all (\<lambda>e. refuse_if (\<not> qualified_id_ok sib e) (in_field ''delivers'' (named (Bad_Ticket e))))
          (delivers n),
        (case (repo n, title n) of
           (Some _, Some t) \<Rightarrow> map_err (\<lambda>why. in_field ''title'' (named why)) (validate_title sib t)
         | _ \<Rightarrow> Inr ()),
        refuse_if (case amendment n of None \<Rightarrow> False | Some a \<Rightarrow> blank a)
          (in_field ''amendment'' (named Amendment_Blank)),
        check_all (\<lambda>k. refuse_if (k \<notin> set (deps n)) (in_field ''consumes'' (named (Consumes_No_Dep k))))
          (map fst (consumes n)),
        (if kind n = Human then check_human n
         else if expects_no_diff n then check_no_diff n
         else check_agent n)])"

section \<open>The task's criteria and the declared version\<close>

definition check_node_criteria :: "node \<Rightarrow> checked" where
  "check_node_criteria n =
     (if kind n = Human then Inr ()
      else first_refusal
        [(case task n of
            None \<Rightarrow> Inr ()
          | Some t \<Rightarrow> map_err (\<lambda>rule. in_field ''task'' (refusal_about (node_id n) (Criteria rule)))
                        (Task_Text.check_criteria t)),
         check_all (\<lambda>s. if step_kind s = Human then Inr ()
             else (case step_task s of
                     None \<Rightarrow> Inr ()
                   | Some t \<Rightarrow> map_err (\<lambda>rule. in_field ''steps''
                         (refusal_about (node_id n) (Step_Criteria (step_id s) rule)))
                       (Task_Text.check_criteria t)))
           (case steps n of None \<Rightarrow> [] | Some ss \<Rightarrow> ss)])"

definition check_node_version :: "u32 \<Rightarrow> node \<Rightarrow> checked" where
  "check_node_version v n =
     (let older = v < plan_schema_version;
          newer = (\<lambda>f. in_field f (refusal_about (node_id n) (Field_Is_Newer f v)))
      in first_refusal
       [refuse_if (body n \<noteq> None \<and> older) (newer ''body''),
        refuse_if (draft n \<and> older) (newer ''draft''),
        refuse_if (\<not> is_land (publish n) \<and> older) (newer ''publish''),
        refuse_if (pool n \<noteq> None \<and> older) (newer ''pool''),
        refuse_if (overflow n \<noteq> None \<and> older) (newer ''overflow''),
        refuse_if (sets n \<noteq> [] \<and> older) (newer ''sets''),
        refuse_if (plan_schema_version \<le> v \<and> repo n \<noteq> None \<and> title n = None)
          (in_field ''title'' (refusal_about (node_id n) Title_Required))])"

definition check_declared_version :: "plan \<Rightarrow> checked" where
  "check_declared_version p = check_all (check_node_version (schema_version p)) (tasks p)"

section \<open>Export edges\<close>

definition backslash :: char where "backslash = CHR 0x5C"

definition normalized :: "str \<Rightarrow> bool" where
  "normalized directory \<longleftrightarrow>
     directory \<noteq> [] \<and> \<not> starts_with ''/'' directory \<and> backslash \<notin> set directory \<and>
     list_all (\<lambda>w. w \<notin> {[], ''.'', ''..''} \<and> w \<noteq> ''.git'') (split_at_char (CHR ''/'') directory)"

definition is_export :: "plan \<Rightarrow> str \<Rightarrow> str \<Rightarrow> bool" where
  "is_export p dep k \<longleftrightarrow> list_ex (\<lambda>e. edge_from e = dep \<and> edge_to e = k) (export_edges p)"

definition consumed_by :: "plan \<Rightarrow> str \<Rightarrow> export_edge option" where
  "consumed_by p k = find (\<lambda>e. edge_to e = k) (export_edges p)"

definition edge_refusal :: "sentence \<Rightarrow> refusal" where
  "edge_refusal m = in_field ''export_edges'' (plain_refusal m)"

text \<open>\<open>seen\<close> and \<open>into\<close> are the edges and the consumers met, with the number each was met at.\<close>

fun check_edge_shapes ::
    "siblings \<Rightarrow> str list \<Rightarrow> nat \<Rightarrow> ((str \<times> str) \<times> nat) list \<Rightarrow> (str \<times> nat) list \<Rightarrow>
     export_edge list \<Rightarrow> checked" where
  "check_edge_shapes sib ids number seen into [] = Inr ()"
| "check_edge_shapes sib ids number seen into (e # es) =
     and_then (first_refusal
       [refuse_if (\<not> accepted_opaque_ok sib (accepted_opaque e)) (edge_refusal (Bad_Accepted_Opaque number)),
        refuse_if (edge_from e \<notin> set ids) (edge_refusal (Edge_Dangling number ''from'')),
        refuse_if (edge_to e \<notin> set ids)
          (edge_refusal (Edge_Dangling number (if edge_to e = edge_from e then ''from'' else ''to''))),
        (case map_of seen (edge_from e, edge_to e) of
           Some first \<Rightarrow> Inl (edge_refusal (Edge_Twice number first)) | None \<Rightarrow> Inr ()),
        (case map_of into (edge_to e) of
           Some first \<Rightarrow> Inl (edge_refusal (Consumer_Ambiguous first number)) | None \<Rightarrow> Inr ()),
        refuse_if (\<not> normalized (source_directory e)) (edge_refusal (Edge_Path number ''source_directory'')),
        refuse_if (\<not> normalized (target_directory e)) (edge_refusal (Edge_Path number ''target_directory''))])
     (\<lambda>_. check_edge_shapes sib ids (Suc number) (((edge_from e, edge_to e), number) # seen)
            ((edge_to e, number) # into) es)"

fun check_edge_deps :: "node list \<Rightarrow> nat \<Rightarrow> export_edge list \<Rightarrow> checked" where
  "check_edge_deps ns number [] = Inr ()"
| "check_edge_deps ns number (e # es) =
     (case find (\<lambda>n. node_id n = edge_to e) ns of
        None \<Rightarrow> Inl (edge_refusal (Edge_Dangling number ''to''))  \<comment> \<open>every end was found above\<close>
      | Some consumer \<Rightarrow>
          if edge_from e \<notin> set (deps consumer)
          then Inl (in_field ''deps'' (plain_refusal (Edge_Not_A_Dependency number)))
          else check_edge_deps ns (Suc number) es)"

definition check_edges :: "siblings \<Rightarrow> plan \<Rightarrow> checked" where
  "check_edges sib p =
     and_then (check_edge_shapes sib (map node_id (tasks p)) 1 [] [] (export_edges p))
       (\<lambda>_. check_edge_deps (tasks p) 1 (export_edges p))"

section \<open>Where kept work starts from\<close>

text \<open>
  \<open>stacking_bases\<close>: which kept branch each \<open>publish: "preserve"\<close> node starts from. A node is
  resolved after the candidates it could start from, and starts from the one whose own chain
  of bases holds every other. \<open>fuel\<close> bounds the depth of the recursion, which the visited
  nodes do in the source; \<open>None\<close> is running out, and \<open>stacking_fuel\<close> shows it never does.
\<close>

fun base_candidates :: "siblings \<Rightarrow> node bmap \<Rightarrow> node \<Rightarrow> str list \<Rightarrow> refusal + node list" where
  "base_candidates sib ns n [] = Inr []"
| "base_candidates sib ns n (d # ds) =
     (case bget ns d of
        None \<Rightarrow> base_candidates sib ns n ds
      | Some dep \<Rightarrow>
          if publish dep \<noteq> Preserve then base_candidates sib ns n ds
          else (case (repo n, repo dep) of
                  (Some mine, Some other) \<Rightarrow>
                    if mine = other
                    then map_sum id (Cons dep) (base_candidates sib ns n ds)
                    else (case (repo_identity sib mine, repo_identity sib other) of
                            (Some a, Some b) \<Rightarrow>
                              if a = b then map_sum id (Cons dep) (base_candidates sib ns n ds)
                              else base_candidates sib ns n ds
                          | _ \<Rightarrow> Inl (in_field ''repo''
                                   (refusal_about (node_id n)
                                     (Identities_Unread (node_id n) (node_id dep) mine other))))
                | _ \<Rightarrow> base_candidates sib ns n ds))"

text \<open>Whether following bases from \<open>k\<close> meets \<open>other\<close>; the bases are finitely many.\<close>

fun chain_holds :: "nat \<Rightarrow> str bmap \<Rightarrow> str \<Rightarrow> str \<Rightarrow> bool" where
  "chain_holds 0 bases k other = (k = other)"
| "chain_holds (Suc fuel) bases k other =
     (k = other \<or>
      (case bget bases k of None \<Rightarrow> False | Some b \<Rightarrow> chain_holds fuel bases b other))"

definition choose_base :: "str bmap \<Rightarrow> node list \<Rightarrow> node option" where
  "choose_base bases cs =
     find (\<lambda>c. list_all (\<lambda>other. chain_holds (length bases) bases (node_id c) (node_id other)) cs) cs"

type_synonym stacking = "str bmap \<times> str list"   \<comment> \<open>bases and visited\<close>

fun resolve_base ::
    "siblings \<Rightarrow> node bmap \<Rightarrow> nat \<Rightarrow> node \<Rightarrow> stacking \<Rightarrow> (refusal + stacking) option"
and resolve_each ::
    "siblings \<Rightarrow> node bmap \<Rightarrow> nat \<Rightarrow> node list \<Rightarrow> stacking \<Rightarrow> (refusal + stacking) option" where
  "resolve_base sib ns 0 n st = None"
| "resolve_base sib ns (Suc fuel) n (bases, visited) =
     (if node_id n \<in> set visited then Some (Inr (bases, visited))
      else if publish n \<noteq> Preserve then Some (Inr (bases, node_id n # visited))
      else (case base_candidates sib ns n (deps n) of
              Inl r \<Rightarrow> Some (Inl r)
            | Inr [] \<Rightarrow> Some (Inr (bases, node_id n # visited))
            | Inr (c # cs) \<Rightarrow>
                if base_branch n \<noteq> None
                then Some (Inl (in_field ''base_branch''
                       (refusal_about (node_id n) (Base_Conflict (node_id n)))))
                else (case resolve_each sib ns fuel (c # cs) (bases, node_id n # visited) of
                        None \<Rightarrow> None
                      | Some (Inl r) \<Rightarrow> Some (Inl r)
                      | Some (Inr (bases', visited')) \<Rightarrow>
                          (case choose_base bases' (c # cs) of
                             Some b \<Rightarrow> Some (Inr (bput (node_id n) (node_id b) bases', visited'))
                           | None \<Rightarrow> Some (Inl (in_field ''deps''
                               (refusal_about (node_id n)
                                 (Separate_Chains (node_id n) (map node_id (c # cs))))))))))"
| "resolve_each sib ns fuel [] st = Some (Inr st)"
| "resolve_each sib ns fuel (n # rest) st =
     (case resolve_base sib ns fuel n st of
        None \<Rightarrow> None
      | Some (Inl r) \<Rightarrow> Some (Inl r)
      | Some (Inr st') \<Rightarrow> resolve_each sib ns fuel rest st')"

definition stacking_bases :: "siblings \<Rightarrow> node bmap \<Rightarrow> (refusal + str bmap) option" where
  "stacking_bases sib ns =
     map_option (map_sum id fst) (resolve_each sib ns (Suc (length ns)) (map snd ns) ([], []))"

section \<open>The whole plan\<close>

fun claim_tickets :: "str \<Rightarrow> str list \<Rightarrow> str bmap \<Rightarrow> refusal + str bmap" where
  "claim_tickets k [] delivered = Inr delivered"
| "claim_tickets k (t # ts) delivered =
     (case bget delivered t of
        Some first \<Rightarrow>
          if first \<noteq> k
          then Inl (in_field ''delivers'' (refusal_about k (Delivered_Twice first k t)))
          else claim_tickets k ts (bput t k delivered)
      | None \<Rightarrow> claim_tickets k ts (bput t k delivered))"

fun check_nodes ::
    "siblings \<Rightarrow> str list \<Rightarrow> str bmap \<Rightarrow> node list \<Rightarrow> checked" where
  "check_nodes sib seen delivered [] = Inr ()"
| "check_nodes sib seen delivered (n # ns) =
     and_then (first_refusal
       [refuse_if (blank (node_id n)) (in_field ''id'' (plain_refusal Id_Blank)),
        refuse_if (node_id n \<in> set seen)
          (in_field ''id'' (refusal_about (node_id n) (Duplicate_Node (node_id n)))),
        check_node sib n])
     (\<lambda>_. and_then (claim_tickets (node_id n) (delivers n) delivered)
       (\<lambda>delivered'. check_nodes sib (node_id n # seen) delivered' ns))"

definition preserved_ids :: "plan \<Rightarrow> str list" where
  "preserved_ids p = map node_id (filter (\<lambda>n. publish n = Preserve) (tasks p))"

definition check_dep :: "plan \<Rightarrow> node \<Rightarrow> str \<Rightarrow> checked" where
  "check_dep p n dep =
     (let about = (\<lambda>m. in_field ''deps'' (refusal_about (node_id n) m))
      in if dep = node_id n then Inl (about (Depends_On_Itself (node_id n)))
         else if is_cross_dag dep then Inr ()
         else if is_malformed dep then Inl (about (Malformed_Reference (node_id n) dep))
         else if dep \<notin> set (map node_id (tasks p)) then Inl (about (Not_In_The_Plan (node_id n) dep))
         else refuse_if (dep \<in> set (preserved_ids p) \<and> publish n \<noteq> Preserve \<and>
                         \<not> is_export p dep (node_id n))
                (about (Depends_On_Preserved (node_id n) dep)))"

definition plan_nodes :: "plan \<Rightarrow> node bmap" where
  "plan_nodes p = bcollect (map (\<lambda>n. (node_id n, n)) (tasks p))"

definition check_stacking :: "siblings \<Rightarrow> plan \<Rightarrow> checked" where
  "check_stacking sib p =
     (case stacking_bases sib (plan_nodes p) of
        Some (Inl r) \<Rightarrow> Inl r | _ \<Rightarrow> Inr ())"

definition check_edited :: "siblings \<Rightarrow> plan \<Rightarrow> checked" where
  "check_edited sib p =
     first_refusal
       [refuse_if (schema_version p \<notin> set plan_schema_versions_read)
          (in_field ''schema_version'' (plain_refusal (Version_Not_Read (schema_version p)))),
        refuse_if (plan_concurrency p = 0) (in_field ''concurrency'' (plain_refusal Concurrency_Zero)),
        refuse_if (case goal p of None \<Rightarrow> False | Some t \<Rightarrow> blank t)
          (in_field ''goal'' (plain_refusal Goal_Blank)),
        check_nodes sib [] [] (tasks p),
        check_edges sib p,
        check_all (\<lambda>n. check_all (check_dep p n) (deps n)) (tasks p),
        (case find_cycle (tasks p) of
           Some c \<Rightarrow> Inl (in_field ''deps'' (plain_refusal (Dependency_Cycle c))) | None \<Rightarrow> Inr ()),
        check_stacking sib p]"

text \<open>\<open>graph::check\<close>, what a launch runs.\<close>

definition check_plan :: "siblings \<Rightarrow> plan \<Rightarrow> checked" where
  "check_plan sib p =
     first_refusal
       [refuse_if (tasks p = []) (in_field ''tasks'' (plain_refusal Needs_A_Node)),
        check_edited sib p,
        check_declared_version p,
        check_all check_node_criteria (tasks p)]"

end
