(* ===== verification/Plan_Sound.thy ===== *)
theory Plan_Sound
  imports Plan_Check
begin

text \<open>
  What a plan the checks accept is: its ids, its dependencies, its tickets, its export edges,
  the shape of every node, the base each kept branch starts from, and, with the scheduler's
  theorems, that a run of it is never stuck.
\<close>

section \<open>Ids and tickets\<close>

lemma claim_tickets_Inr:
  "claim_tickets k ts d = Inr d' \<Longrightarrow>
     (\<forall>t \<in> set ts. bget d t \<in> {None, Some k}) \<and>
     (\<forall>t. bget d' t = (if t \<in> set ts then Some k else bget d t))"
proof (induction ts arbitrary: d)
  case (Cons t ts)
  have free: "bget d t \<in> {None, Some k}" and rest: "claim_tickets k ts (bput t k d) = Inr d'"
    using Cons.prems by (auto split: option.splits if_splits)
  from Cons.IH [OF rest] free show ?case by (auto split: if_splits)
qed simp

lemma check_nodes_Inr:
  "check_nodes sib seen d ns = Inr u \<Longrightarrow>
     distinct (map node_id ns) \<and> node_id ` set ns \<inter> set seen = {} \<and>
     (\<forall>n \<in> set ns. \<not> blank (node_id n) \<and> check_node sib n = Inr () \<and>
        (\<forall>t \<in> set (delivers n). bget d t \<in> {None, Some (node_id n)})) \<and>
     (\<forall>n \<in> set ns. \<forall>m \<in> set ns. set (delivers n) \<inter> set (delivers m) \<noteq> {} \<longrightarrow>
        node_id n = node_id m)"
proof (induction ns arbitrary: seen d)
  case (Cons n ns)
  obtain d' where n: "\<not> blank (node_id n)" "node_id n \<notin> set seen" "check_node sib n = Inr ()"
    and claim: "claim_tickets (node_id n) (delivers n) d = Inr d'"
    and rest: "check_nodes sib (node_id n # seen) d' ns = Inr u"
    using Cons.prems by auto
  note claimed = claim_tickets_Inr [OF claim]
  note ih = Cons.IH [OF rest]
  have fresh: "node_id n \<notin> node_id ` set ns" using ih by auto
  have mine: "t \<notin> set (delivers n)" and before: "bget d t \<in> {None, Some (node_id m)}"
    if m: "m \<in> set ns" and t: "t \<in> set (delivers m)" for m t
  proof -
    have "bget d' t \<in> {None, Some (node_id m)}" using ih m t by blast
    moreover have "node_id m \<noteq> node_id n" using fresh m by (metis imageI)
    ultimately show "t \<notin> set (delivers n)" "bget d t \<in> {None, Some (node_id m)}"
      using claimed by (auto split: if_splits)
  qed
  have "distinct (map node_id (n # ns))" using ih fresh by simp
  moreover have "node_id ` set (n # ns) \<inter> set seen = {}" using ih n(2) by auto
  moreover have "\<not> blank (node_id m) \<and> check_node sib m = Inr () \<and>
        (\<forall>t \<in> set (delivers m). bget d t \<in> {None, Some (node_id m)})"
    if "m \<in> set (n # ns)" for m
  proof (cases "m = n")
    case True
    with n claimed show ?thesis by simp
  next
    case False
    then have m: "m \<in> set ns" using that by simp
    with ih before [OF m] show ?thesis by simp
  qed
  moreover have "node_id a = node_id b"
    if a: "a \<in> set (n # ns)" and b: "b \<in> set (n # ns)"
      and shared: "set (delivers a) \<inter> set (delivers b) \<noteq> {}" for a b
  proof -
    obtain t where t: "t \<in> set (delivers a)" "t \<in> set (delivers b)" using shared by blast
    consider "a = n" "b = n" | "a = n" "b \<in> set ns" | "a \<in> set ns" "b = n"
      | "a \<in> set ns" "b \<in> set ns" using a b by auto
    then show ?thesis
    proof cases
      case 2
      with mine [of b t] t show ?thesis by simp
    next
      case 3
      with mine [of a t] t show ?thesis by simp
    next
      case 4
      with ih shared show ?thesis by blast
    qed simp
  qed
  ultimately show ?case by blast
qed simp

lemma check_edited_Inr:
  "check_edited sib p = Inr u \<longleftrightarrow>
     schema_version p \<in> set plan_schema_versions_read \<and> plan_concurrency p \<noteq> 0 \<and>
     (case goal p of None \<Rightarrow> True | Some t \<Rightarrow> \<not> blank t) \<and>
     check_nodes sib [] [] (tasks p) = Inr () \<and> check_edges sib p = Inr () \<and>
     (\<forall>n \<in> set (tasks p). \<forall>d \<in> set (deps n). check_dep p n d = Inr ()) \<and>
     find_cycle (tasks p) = None \<and> check_stacking sib p = Inr ()"
  by (auto simp: check_edited_def split: option.splits)

lemma check_dep_Inr:
  "check_dep p n d = Inr u \<longleftrightarrow>
     d \<noteq> node_id n \<and>
     (is_cross_dag d \<or>
      \<not> is_malformed d \<and> d \<in> node_id ` set (tasks p) \<and>
      (d \<in> set (preserved_ids p) \<longrightarrow> publish n = Preserve \<or> is_export p d (node_id n)))"
  by (auto simp: check_dep_def Let_def)

lemma edited_distinct:
  "check_edited sib p = Inr u \<Longrightarrow> distinct (map node_id (tasks p))"
  using check_nodes_Inr by (auto simp: check_edited_Inr)

lemma edited_acyclic:
  assumes "check_edited sib p = Inr u"
  shows "acyclic (dep_edges (from_plan p))"
proof -
  have dist: "distinct (map node_id (tasks p))" by (rule edited_distinct [OF assms])
  have acyc: "acyclic (edges_of (cycle_deps (tasks p)))"
    using assms cycle_roots_acyclic by (simp add: check_edited_Inr find_cycle_def)
  have "dep_edges (from_plan p) \<subseteq> edges_of (cycle_deps (tasks p))"
  proof (rule subrelI)
    fix k d assume "(k, d) \<in> dep_edges (from_plan p)"
    then obtain n where n: "n \<in> set (tasks p)" "node_id n = k" "d \<in> set (deps n)" "\<not> is_cross_dag d"
      by (auto simp: dep_edges_def from_plan_get_iff [OF dist])
    have "bget (cycle_deps (tasks p)) k = Some (filter (\<lambda>d. \<not> is_cross_dag d) (deps n))"
      using cycle_deps_node [OF dist n(1)] n(2) by simp
    with n show "(k, d) \<in> edges_of (cycle_deps (tasks p))"
      by (simp add: edges_of_def children_def)
  qed
  with acyc show ?thesis by (rule acyclic_subset)
qed

section \<open>Small plans the statements are read on\<close>

text \<open>Siblings that accept everything they are asked about and know no repository.\<close>

definition open_siblings :: siblings where
  "open_siblings = \<lparr> parse_set_ok = (\<lambda>_. True), subject_limit = 72, source_name_ok = (\<lambda>_. True),
     accepted_opaque_ok = (\<lambda>_. True), repo_identity = (\<lambda>r. Some r), is_http_url = (\<lambda>_. True) \<rparr>"

definition listed_task :: str where
  "listed_task = ''## Acceptance criteria'' @ [nl] @ ''- it builds''"

definition work_node :: "str \<Rightarrow> str list \<Rightarrow> node" where
  "work_node k ds = blank_node\<lparr> node_id := k, deps := ds, persona := Some ''engineer'',
     task := Some listed_task \<rparr>"

definition kept_node :: "str \<Rightarrow> str list \<Rightarrow> node" where
  "kept_node k ds = (work_node k ds)\<lparr> repo := Some ''app'', title := Some ''feat: kept'',
     publish := Preserve \<rparr>"

definition small_plan :: plan where
  "small_plan = plain_plan [work_node ''b'' [''a''], (work_node ''a'' [])\<lparr> delivers := [''s:1''] \<rparr>]"

definition kept_plan :: plan where
  "kept_plan = plain_plan [kept_node ''c'' [''a'', ''b''], kept_node ''b'' [''a''], kept_node ''a'' []]"

section \<open>What the checks promise\<close>

text \<open>
  C26. A plan the checks accept is one the engine can execute: it has a node, its ids are
  distinct and not blank, every dependency is a cross-DAG reference or another node of the
  plan, the dependencies are acyclic, work that lands never builds on kept work except over
  an export edge, and no ticket is delivered by two nodes.
\<close>

theorem accepted_plan_is_well_formed:
  assumes "check_plan sib p = Inr ()"
  shows "tasks p \<noteq> [] \<and> distinct (map node_id (tasks p)) \<and>
    (\<forall>n \<in> set (tasks p). \<not> blank (node_id n) \<and>
       (\<forall>d \<in> set (deps n). is_cross_dag d \<or>
          (\<exists>m \<in> set (tasks p). node_id m = d \<and> m \<noteq> n \<and>
             (publish m = Preserve \<longrightarrow> publish n = Preserve \<or> is_export p d (node_id n))))) \<and>
    acyclic (dep_edges (from_plan p)) \<and>
    (\<forall>n \<in> set (tasks p). \<forall>m \<in> set (tasks p).
       set (delivers n) \<inter> set (delivers m) \<noteq> {} \<longrightarrow> n = m)"
proof -
  have edited: "check_edited sib p = Inr ()" and some: "tasks p \<noteq> []"
    using assms by (simp_all add: check_plan_def)
  have dist: "distinct (map node_id (tasks p))" by (rule edited_distinct [OF edited])
  have "check_nodes sib [] [] (tasks p) = Inr ()" using edited by (simp add: check_edited_Inr)
  note nodes = check_nodes_Inr [OF this]
  have same: "n = m" if "n \<in> set (tasks p)" "m \<in> set (tasks p)" "node_id n = node_id m" for n m
    using dist that by (meson distinct_map inj_onD)
  have "is_cross_dag d \<or> (\<exists>m \<in> set (tasks p). node_id m = d \<and> m \<noteq> n \<and>
      (publish m = Preserve \<longrightarrow> publish n = Preserve \<or> is_export p d (node_id n)))"
    if n: "n \<in> set (tasks p)" and d: "d \<in> set (deps n)" for n d
  proof (cases "is_cross_dag d")
    case False
    have "check_dep p n d = Inr ()" using edited n d by (simp add: check_edited_Inr)
    with False have ne: "d \<noteq> node_id n" and "d \<in> node_id ` set (tasks p)"
      and kept: "d \<in> set (preserved_ids p) \<Longrightarrow> publish n = Preserve \<or> is_export p d (node_id n)"
      by (simp_all add: check_dep_Inr)
    then obtain m where m: "m \<in> set (tasks p)" "node_id m = d" by blast
    have "publish m = Preserve \<Longrightarrow> d \<in> set (preserved_ids p)"
      using m by (auto simp: preserved_ids_def)
    with m ne kept show ?thesis by blast
  qed simp
  moreover have "n = m" if "n \<in> set (tasks p)" "m \<in> set (tasks p)"
    "set (delivers n) \<inter> set (delivers m) \<noteq> {}" for n m
    using nodes that by (intro same) blast+
  moreover note some dist edited_acyclic [OF edited] nodes
  ultimately show ?thesis by blast
qed

lemma small_plan_ok: "check_plan open_siblings small_plan = Inr ()"
  by code_simp

theorem accepted_plan_is_well_formed_witness:
  "acyclic (dep_edges (from_plan small_plan))"
  using accepted_plan_is_well_formed [OF small_plan_ok] by blast

text \<open>
  C2. A run of a graph the checks accept is never stuck, a launched plan or one an edit left:
  while the graph has not settled, some node is ready for the dispatcher, running, or
  complete and awaiting its release, whatever has been recorded and whatever the upstream
  ledgers answer (the journal records no node as \<open>pending\<close>).
\<close>

theorem accepted_graph_is_never_stuck:
  assumes "check_edited sib p = Inr ()" and "cross_answers cross"
    and "At Pending \<notin> snd ` set rec" and "\<not> is_terminal (derive (from_plan p) rec cross)"
  shows "\<exists>k s. bget (derive (from_plan p) rec cross) k = Some s \<and> movable s"
  using unsettled_graph_can_move [OF graph_ok_from_plan edited_acyclic [OF assms(1)] assms(2-4)] .

theorem accepted_graph_is_never_stuck_witness:
  "\<exists>k s. bget (derive (from_plan small_plan) [(''a'', At Done)] (\<lambda>_. None)) k = Some s \<and> movable s"
proof (rule accepted_graph_is_never_stuck [OF _ no_cross_answers])
  show "check_edited open_siblings small_plan = Inr ()" by code_simp
  show "\<not> is_terminal (derive (from_plan small_plan) [(''a'', At Done)] (\<lambda>_. None))" by code_simp
qed simp

section \<open>The shape of a node\<close>

text \<open>
  What one dispatch needs: a persona that is not one of this crate's own, task prose, and a
  turn budget that lets it take a turn.
\<close>

definition dispatch_ready :: "str option \<Rightarrow> str option \<Rightarrow> u32 option \<Rightarrow> bool" where
  "dispatch_ready who prose budget \<longleftrightarrow>
     who \<notin> {None, Some pr_author_persona, Some review_reply_persona} \<and>
     \<not> task_blank prose \<and> budget \<noteq> Some 0"

lemma controls_of_Inr [simp]: "controls_of b = Inr ss \<longleftrightarrow> b \<noteq> Some 0 \<and> ss = control_overrides b"
  by (auto simp: controls_of_def turn_budget_def split: option.splits)

lemma map_sum_const [simp]: "map_sum id (\<lambda>_. z) r = Inr u \<longleftrightarrow> u = z \<and> (\<exists>x. r = Inr x)"
  by (cases r) auto

lemma check_step_list_Inr:
  "check_step_list k seen ss = Inr u \<Longrightarrow>
     distinct (map step_id ss) \<and> set (map step_id ss) \<inter> set seen = {} \<and>
     (\<forall>s \<in> set ss. \<not> blank (step_id s) \<and> check_step k s = Inr ())"
proof (induction ss arbitrary: seen)
  case (Cons s ss)
  then show ?case using Cons.IH [of "step_id s # seen"] by (auto simp: Let_def)
qed simp

lemma check_step_Inr:
  "check_step k s = Inr u \<Longrightarrow>
     \<not> task_blank (step_task s) \<and>
     (step_kind s = Agent \<longrightarrow> \<not> step_expects_no_diff s \<longrightarrow>
        dispatch_ready (step_persona s) (step_task s) (step_max_turns s))"
  by (auto simp: check_step_def Let_def dispatch_ready_def split: if_splits)

lemma check_steps_Inr:
  "check_steps k ss = Inr u \<Longrightarrow>
     ss \<noteq> [] \<and> distinct (map step_id ss) \<and>
     (\<forall>s \<in> set ss. check_step k s = Inr () \<and>
        (\<forall>d \<in> set (step_deps s). d \<in> set (map step_id ss) \<and> d \<noteq> step_id s))"
  using check_step_list_Inr [of k "[]" ss "()"]
  by (auto simp: check_steps_def check_step_deps_def Let_def)

lemma check_node_parts:
  assumes "check_node sib n = Inr u"
  shows "persona n \<notin> {Some pr_author_persona, Some review_reply_persona}"
    and "publish n = Preserve \<Longrightarrow> keeps_nothing n = None \<and> \<not> draft n"
    and "kind n = Human \<Longrightarrow> check_human n = Inr ()"
    and "kind n \<noteq> Human \<Longrightarrow> \<not> expects_no_diff n \<Longrightarrow> check_agent n = Inr ()"
    and "k \<in> set (map fst (consumes n)) \<Longrightarrow> k \<in> set (deps n)"
    and "repo n \<noteq> None \<Longrightarrow> title n = Some t \<Longrightarrow> validate_title sib t = Inr ()"
  using assms by (auto simp: check_node_def Let_def split: option.splits if_splits)

lemma check_agent_direct:
  "check_agent n = Inr u \<Longrightarrow> steps n = None \<Longrightarrow>
     persona n \<noteq> None \<and> \<not> task_blank (task n) \<and> max_turns n \<noteq> Some 0"
  by (auto simp: check_agent_def Let_def split: option.splits)

lemma check_agent_steps:
  "check_agent n = Inr u \<Longrightarrow> steps n = Some ss \<Longrightarrow>
     repo n \<noteq> None \<and> persona n = None \<and> task n = None \<and> max_turns n = None \<and>
     check_steps (node_id n) ss = Inr ()"
  by (auto simp: check_agent_def Let_def split: option.splits)

text \<open>
  Everything an accepted node dispatches can be dispatched: a node that runs an agent
  itself, and every agent step of one that carries steps, has a persona that is not reserved,
  task prose, and a turn budget that is not zero; steps have distinct ids, depend only on
  other steps of their node, and run where the node names a repository; a human node
  dispatches nothing; and kept work is a lifecycle node's that opens no draft.
\<close>

lemma accepted_node_can_be_dispatched:
  assumes ok: "check_node sib n = Inr ()"
  shows "(kind n = Agent \<and> \<not> expects_no_diff n \<longrightarrow>
      (case steps n of
         None \<Rightarrow> dispatch_ready (persona n) (task n) (max_turns n)
       | Some ss \<Rightarrow> repo n \<noteq> None \<and> ss \<noteq> [] \<and> distinct (map step_id ss) \<and>
           (\<forall>s \<in> set ss.
              (step_kind s = Agent \<and> \<not> step_expects_no_diff s \<longrightarrow>
                 dispatch_ready (step_persona s) (step_task s) (step_max_turns s)) \<and>
              (\<forall>d \<in> set (step_deps s). d \<in> set (map step_id ss) \<and> d \<noteq> step_id s)))) \<and>
    (kind n = Human \<longrightarrow> persona n = None \<and> repo n = None \<and> steps n = None \<and> \<not> task_blank (task n)) \<and>
    (publish n = Preserve \<longrightarrow> kind n = Agent \<and> \<not> expects_no_diff n \<and> repo n \<noteq> None \<and> \<not> draft n)"
proof (intro conjI impI)
  assume agent: "kind n = Agent \<and> \<not> expects_no_diff n"
  then have shape: "check_agent n = Inr ()" using check_node_parts(4) [OF ok] by simp
  show "case steps n of
         None \<Rightarrow> dispatch_ready (persona n) (task n) (max_turns n)
       | Some ss \<Rightarrow> repo n \<noteq> None \<and> ss \<noteq> [] \<and> distinct (map step_id ss) \<and>
           (\<forall>s \<in> set ss.
              (step_kind s = Agent \<and> \<not> step_expects_no_diff s \<longrightarrow>
                 dispatch_ready (step_persona s) (step_task s) (step_max_turns s)) \<and>
              (\<forall>d \<in> set (step_deps s). d \<in> set (map step_id ss) \<and> d \<noteq> step_id s))"
  proof (cases "steps n")
    case None
    with check_agent_direct [OF shape] check_node_parts(1) [OF ok] show ?thesis
      by (simp add: dispatch_ready_def)
  next
    case (Some ss)
    note own = check_agent_steps [OF shape Some]
    from own have "check_steps (node_id n) ss = Inr ()" by simp
    from own check_steps_Inr [OF this] check_step_Inr show ?thesis
      unfolding Some option.case by blast
  qed
next
  assume "kind n = Human"
  then have "check_human n = Inr ()" by (rule check_node_parts(3) [OF ok])
  then show "persona n = None" "repo n = None" "steps n = None" "\<not> task_blank (task n)"
    by (simp_all add: check_human_def Let_def)
next
  assume "publish n = Preserve"
  then have "keeps_nothing n = None \<and> \<not> draft n" by (rule check_node_parts(2) [OF ok])
  then show "kind n = Agent" "\<not> expects_no_diff n" "repo n \<noteq> None" "\<not> draft n"
    by (auto simp: keeps_nothing_def split: if_splits intro: node_kind.exhaust)
qed

section \<open>Export edges\<close>

lemma check_edge_shapes_Inr:
  "check_edge_shapes sib ids number seen into es = Inr u \<Longrightarrow>
     distinct (map edge_to es) \<and> set (map edge_to es) \<inter> fst ` set into = {} \<and>
     (\<forall>e \<in> set es. edge_from e \<in> set ids \<and> edge_to e \<in> set ids \<and>
        normalized (source_directory e) \<and> normalized (target_directory e) \<and>
        accepted_opaque_ok sib (accepted_opaque e))"
proof (induction es arbitrary: number seen into)
  case (Cons e es)
  have free: "map_of into (edge_to e) = None"
    and own: "edge_from e \<in> set ids" "edge_to e \<in> set ids" "normalized (source_directory e)"
      "normalized (target_directory e)" "accepted_opaque_ok sib (accepted_opaque e)"
    and rest: "check_edge_shapes sib ids (Suc number) (((edge_from e, edge_to e), number) # seen)
       ((edge_to e, number) # into) es = Inr u"
    using Cons.prems by (auto split: option.splits)
  have "edge_to e \<notin> fst ` set into" using free by (simp add: map_of_eq_None_iff)
  with Cons.IH [OF rest] own show ?case by auto
qed simp

lemma check_edge_deps_Inr:
  "check_edge_deps ns number es = Inr u \<Longrightarrow>
     \<forall>e \<in> set es. \<exists>n \<in> set ns. node_id n = edge_to e \<and> edge_from e \<in> set (deps n)"
proof (induction es arbitrary: number)
  case (Cons e es)
  obtain n where n: "find (\<lambda>n. node_id n = edge_to e) ns = Some n" "edge_from e \<in> set (deps n)"
    and rest: "check_edge_deps ns (Suc number) es = Inr u"
    using Cons.prems by (auto split: option.splits if_splits)
  have "n \<in> set ns \<and> node_id n = edge_to e" using n(1) by (auto simp: find_Some_iff)
  with Cons.IH [OF rest] n(2) show ?case by auto
qed simp

text \<open>
  Every export edge of an accepted plan is a dependency its one consumer states, between
  two nodes of the plan, and the directories it reads and writes are relative paths none of
  whose segments is empty, \<open>.\<close>, \<open>..\<close> or \<open>.git\<close>; no consumer has two.
\<close>

lemma accepted_export_edges:
  assumes "check_edited sib p = Inr ()"
  shows "distinct (map edge_to (export_edges p)) \<and>
    (\<forall>e \<in> set (export_edges p).
       (\<exists>n \<in> set (tasks p). node_id n = edge_to e \<and> edge_from e \<in> set (deps n)) \<and>
       (\<exists>m \<in> set (tasks p). node_id m = edge_from e) \<and>
       (\<forall>path \<in> {source_directory e, target_directory e}.
          \<not> starts_with ''/'' path \<and>
          set (split_at_char (CHR ''/'') path) \<inter> {[], ''.'', ''..'', ''.git''} = {}))"
proof -
  have edges: "check_edges sib p = Inr ()" using assms by (simp add: check_edited_Inr)
  have shapes: "check_edge_shapes sib (map node_id (tasks p)) 1 [] [] (export_edges p) = Inr ()"
    and stated: "check_edge_deps (tasks p) 1 (export_edges p) = Inr ()"
    using edges by (auto simp: check_edges_def)
  have path: "\<not> starts_with ''/'' w \<and> set (split_at_char (CHR ''/'') w) \<inter> {[], ''.'', ''..'', ''.git''} = {}"
    if "normalized w" for w
    using that by (auto simp: normalized_def list_all_iff)
  note shape = check_edge_shapes_Inr [OF shapes] and deps = check_edge_deps_Inr [OF stated]
  show ?thesis
  proof (intro conjI ballI)
    show "distinct (map edge_to (export_edges p))" using shape by simp
  next
    fix e assume e: "e \<in> set (export_edges p)"
    show "\<exists>n \<in> set (tasks p). node_id n = edge_to e \<and> edge_from e \<in> set (deps n)"
      using deps e by blast
    have "edge_from e \<in> set (map node_id (tasks p))" using shape e by blast
    then show "\<exists>m \<in> set (tasks p). node_id m = edge_from e" by auto
    fix w assume "w \<in> {source_directory e, target_directory e}"
    then have "normalized w" using shape e by blast
    then show "\<not> starts_with ''/'' w"
      "set (split_at_char (CHR ''/'') w) \<inter> {[], ''.'', ''..'', ''.git''} = {}"
      by (simp_all add: path)
  qed
qed

section \<open>Titles stated on a change request\<close>

lemma split_colon_space_Some:
  "split_colon_space s = Some (h, d) \<Longrightarrow> s = h @ [CHR 0x3A, CHR 0x20] @ d"
proof (induction s arbitrary: h rule: split_colon_space.induct)
  case (1 a b rest)
  then show ?case by (auto split: if_splits)
qed simp_all

lemma strip_suffix_Some: "strip_suffix p s = Some r \<Longrightarrow> s = r @ p"
  unfolding strip_suffix_def
  by (auto simp: strip_prefix_Some) (metis rev_append rev_rev_ident)

text \<open>
  A title a rework or a retitle states is accepted only as one Conventional Commit
  subject: \<open>type\<close>, an optional non-blank \<open>(scope)\<close>, an optional \<open>!\<close>, a colon and a space,
  then the description, within the subject limit and with no control character.
\<close>

lemma accepted_subject_is_conventional:
  assumes "validate_subject sib t = Inr ()"
  shows "byte_len (trim t) \<le> subject_limit sib \<and> (\<forall>c \<in> set (trim t). \<not> is_control c) \<and>
    (\<exists>word scope bang description.
       trim t = word @ scope @ bang @ '': '' @ description \<and> kind_word_ok word \<and>
       bang \<in> {[], ''!''} \<and>
       (scope = [] \<or> (\<exists>inner. scope = ''('' @ inner @ '')'' \<and> \<not> blank inner \<and>
          CHR ''('' \<notin> set inner \<and> CHR '')'' \<notin> set inner)))"
proof -
  have title: "validate_title sib t = Inr ()" using assms by (auto simp: validate_subject_def)
  have plain: "\<forall>c \<in> set (trim t). \<not> is_control c"
    using assms by (auto simp: validate_subject_def Let_def list_ex_iff split: if_splits)
  obtain head0 description where parts: "split_colon_space (trim t) = Some (head0, description)"
    using assms by (auto simp: validate_subject_def Let_def split: if_splits option.splits)
  define head1 where "head1 = (case strip_suffix ''!'' head0 of None \<Rightarrow> head0 | Some h \<Rightarrow> h)"
  obtain bang where bang: "head0 = head1 @ bang" "bang \<in> {[], ''!''}"
    by (cases "strip_suffix ''!'' head0") (auto simp: head1_def dest: strip_suffix_Some)
  have head: "(case split_once (CHR ''('') head1 of
      None \<Rightarrow> kind_word_ok head1
    | Some (word, rest) \<Rightarrow> (case strip_suffix '')'' rest of None \<Rightarrow> False
        | Some scope \<Rightarrow> kind_word_ok word \<and> \<not> blank scope \<and> CHR ''('' \<notin> set scope \<and>
            CHR '')'' \<notin> set scope))"
    using assms parts
    by (auto simp: validate_subject_def Let_def head1_def split: if_splits option.splits prod.splits)
  have whole: "trim t = head1 @ bang @ '': '' @ description"
    using split_colon_space_Some [OF parts] bang(1) by simp
  have "\<exists>word scope. head1 = word @ scope \<and> kind_word_ok word \<and>
       (scope = [] \<or> (\<exists>inner. scope = ''('' @ inner @ '')'' \<and> \<not> blank inner \<and>
          CHR ''('' \<notin> set inner \<and> CHR '')'' \<notin> set inner))"
  proof (cases "split_once (CHR ''('') head1")
    case None
    with head show ?thesis by (intro exI [of _ head1] exI [of _ "[]"]) simp
  next
    case (Some wr)
    obtain word rest where wr: "wr = (word, rest)" by (cases wr)
    with Some head obtain inner where inner: "strip_suffix '')'' rest = Some inner"
      "kind_word_ok word" "\<not> blank inner" "CHR ''('' \<notin> set inner" "CHR '')'' \<notin> set inner"
      by (auto split: option.splits)
    have "head1 = word @ ''('' @ inner @ '')''"
      using Some wr strip_suffix_Some [OF inner(1)] by (simp add: split_once_Some)
    with inner show ?thesis by blast
  qed
  then obtain word scope where "head1 = word @ scope" "kind_word_ok word"
    "scope = [] \<or> (\<exists>inner. scope = ''('' @ inner @ '')'' \<and> \<not> blank inner \<and>
          CHR ''('' \<notin> set inner \<and> CHR '')'' \<notin> set inner)" by blast
  moreover from this whole have "trim t = word @ scope @ bang @ '': '' @ description" by simp
  moreover have "byte_len (trim t) \<le> subject_limit sib"
    using title by (auto simp: validate_title_def Let_def split: if_splits)
  ultimately show ?thesis using plain bang(2) by blast
qed

end
