(* ===== verification/Stacking.thy ===== *)
theory Stacking
  imports Plan_Sound
begin

text \<open>
  The base each kept branch starts from (\<open>stacking_bases\<close> of \<open>src/src/graph.rs\<close>): the fuel is
  enough, the walk up a chain decides reachability, and a plan the checks accept gives every
  kept node one base whose chain holds every other branch it builds on.
\<close>

section \<open>Following bases\<close>

definition base_rel :: "str bmap \<Rightarrow> (str \<times> str) set" where
  "base_rel bases = {(k, b). bget bases k = Some b}"

lemma base_rel_finite: "finite (base_rel bases)" "card (base_rel bases) \<le> length bases"
proof -
  have sub: "base_rel bases \<subseteq> set bases" by (auto simp: base_rel_def dest: map_of_SomeD)
  then show "finite (base_rel bases)" by (rule finite_subset) simp
  show "card (base_rel bases) \<le> length bases"
    using card_mono [OF _ sub] card_length [of bases] by simp
qed

lemma relpow_Suc_left: "R ^^ Suc n = R O R ^^ n"
  by (simp add: relpow_commute)

lemma ex_le_Suc: "(\<exists>n \<le> Suc f. P n) \<longleftrightarrow> P 0 \<or> (\<exists>n \<le> f. P (Suc n))"
  by (metis Suc_le_mono le0 not0_implies_Suc)

lemma chain_holds_relpow:
  "chain_holds fuel bases k other \<longleftrightarrow> (\<exists>n \<le> fuel. (k, other) \<in> base_rel bases ^^ n)"
proof (induction fuel bases k other rule: chain_holds.induct)
  case (2 fuel bases k other)
  show ?case
    unfolding ex_le_Suc relpow_Suc_left
    using "2.IH" by (auto simp: base_rel_def relcomp_unfold split: option.splits)
qed simp

lemma chain_holds_reach:
  "chain_holds (length bases) bases k other \<longleftrightarrow> (k, other) \<in> (base_rel bases)\<^sup>*"
proof -
  have "(k, other) \<in> (base_rel bases)\<^sup>* \<Longrightarrow> \<exists>n \<le> length bases. (k, other) \<in> base_rel bases ^^ n"
    using base_rel_finite unfolding rtrancl_finite_eq_relpow [OF base_rel_finite(1)]
    by (auto intro: le_trans)
  then show ?thesis
    unfolding chain_holds_relpow by (auto simp: rtrancl_power)
qed

section \<open>The fuel is enough\<close>

definition keyed :: "node bmap \<Rightarrow> bool" where
  "keyed ns \<longleftrightarrow> (\<forall>k n. bget ns k = Some n \<longrightarrow> node_id n = k)"

definition unvisited :: "node bmap \<Rightarrow> str list \<Rightarrow> str set" where
  "unvisited ns visited = dom (bget ns) - set visited"

lemma finite_unvisited [simp]: "finite (unvisited ns visited)"
  by (simp add: unvisited_def finite_dom_map_of)

lemma base_candidates_in:
  "base_candidates sib ns n ds = Inr cs \<Longrightarrow> c \<in> set cs \<Longrightarrow> \<exists>d \<in> set ds. bget ns d = Some c"
proof (induction ds arbitrary: cs)
  case (Cons d ds)
  have "(\<exists>cs'. base_candidates sib ns n ds = Inr cs' \<and>
      (cs = cs' \<or> (\<exists>dep. bget ns d = Some dep \<and> cs = dep # cs')))"
    using Cons.prems(1)
    by (cases "base_candidates sib ns n ds") (auto split: option.splits if_splits)
  with Cons show ?case by auto
qed simp

text \<open>Enough depth for the nodes not visited yet, and a visit is never undone.\<close>

lemma stacking_runs:
  "keyed ns \<Longrightarrow> bget ns (node_id n) = Some n \<Longrightarrow> card (unvisited ns (snd st)) < fuel \<Longrightarrow>
     resolve_base sib ns fuel n st \<noteq> None \<and>
     (\<forall>st'. resolve_base sib ns fuel n st = Some (Inr st') \<longrightarrow>
        set (snd st) \<subseteq> set (snd st') \<and> node_id n \<in> set (snd st'))"
  "keyed ns \<Longrightarrow> (\<forall>c \<in> set cs. bget ns (node_id c) = Some c) \<Longrightarrow>
     card (unvisited ns (snd st)) < fuel \<Longrightarrow>
     resolve_each sib ns fuel cs st \<noteq> None \<and>
     (\<forall>st'. resolve_each sib ns fuel cs st = Some (Inr st') \<longrightarrow>
        set (snd st) \<subseteq> set (snd st') \<and> set (map node_id cs) \<subseteq> set (snd st'))"
proof (induction sib ns fuel n st and sib ns fuel cs st rule: resolve_base_resolve_each.induct)
  case (2 sib ns fuel n bases visited)
  show ?case
  proof (cases "node_id n \<in> set visited \<or> publish n \<noteq> Preserve")
    case True
    then show ?thesis by auto
  next
    case False
    have less: "card (unvisited ns (node_id n # visited)) < card (unvisited ns visited)"
      using False "2.prems"(2) by (intro psubset_card_mono finite_unvisited) (auto simp: unvisited_def)
    show ?thesis
    proof (cases "base_candidates sib ns n (deps n)")
      case (Inl r)
      with False show ?thesis by auto
    next
      case (Inr all)
      show ?thesis
      proof (cases all)
        case Nil
        with Inr False show ?thesis by auto
      next
        case (Cons c cs)
        show ?thesis
        proof (cases "base_branch n = None")
          case False
          with Inr Cons \<open>\<not> (node_id n \<in> set visited \<or> publish n \<noteq> Preserve)\<close>
          show ?thesis by auto
        next
          case True
          have keys: "\<forall>d \<in> set (c # cs). bget ns (node_id d) = Some d"
            using base_candidates_in [OF Inr] Cons "2.prems"(1) unfolding keyed_def by metis
          have "card (unvisited ns (snd (bases, node_id n # visited))) < fuel"
            using less "2.prems"(3) by simp
          note ih = "2.IH" [OF _ _ Inr Cons _ "2.prems"(1) keys this]
          have each: "resolve_each sib ns fuel (c # cs) (bases, node_id n # visited) \<noteq> None"
            and grow: "\<And>b' v'. resolve_each sib ns fuel (c # cs) (bases, node_id n # visited)
                = Some (Inr (b', v')) \<Longrightarrow> set (node_id n # visited) \<subseteq> set v'"
            using ih False True by auto
          with False Inr Cons True show ?thesis
            by (auto split: option.splits sum.splits prod.splits simp del: resolve_each.simps)
        qed
      qed
    qed
  qed
next
  case (4 sib ns fuel n rest st)
  have n: "bget ns (node_id n) = Some n" using "4.prems"(2) by simp
  note first = "4.IH"(1) [OF "4.prems"(1) n "4.prems"(3)]
  show ?case
  proof (cases "resolve_base sib ns fuel n st")
    case None
    with first show ?thesis by simp
  next
    case (Some r)
    show ?thesis
    proof (cases r)
      case (Inl e)
      with Some show ?thesis by simp
    next
      case (Inr st')
      have grow: "set (snd st) \<subseteq> set (snd st')" "node_id n \<in> set (snd st')"
        using first Some Inr by auto
      have "unvisited ns (snd st') \<subseteq> unvisited ns (snd st)"
        using grow(1) by (auto simp: unvisited_def)
      then have "card (unvisited ns (snd st')) < fuel"
        using "4.prems"(3) card_mono [OF finite_unvisited] by (meson le_less_trans)
      from "4.IH"(2) [OF Some Inr "4.prems"(1) _ this] "4.prems"(2) grow show ?thesis
        using Some Inr by auto
    qed
  qed
qed simp_all

section \<open>Every kept node is placed\<close>

definition placed :: "siblings \<Rightarrow> node bmap \<Rightarrow> str bmap \<Rightarrow> node \<Rightarrow> bool" where
  "placed sib ns bases n \<longleftrightarrow>
     (publish n = Preserve \<longrightarrow>
       (\<exists>cs. base_candidates sib ns n (deps n) = Inr cs \<and>
          (cs \<noteq> [] \<longrightarrow> base_branch n = None \<and>
             (\<exists>b \<in> set cs. bget bases (node_id n) = Some (node_id b) \<and>
                (\<forall>c \<in> set cs. (node_id b, node_id c) \<in> (base_rel bases)\<^sup>*)))))"

definition stack_inv :: "siblings \<Rightarrow> node bmap \<Rightarrow> str set \<Rightarrow> stacking \<Rightarrow> bool" where
  "stack_inv sib ns opn st \<longleftrightarrow>
     (\<forall>k n. k \<in> set (snd st) - opn \<longrightarrow> bget ns k = Some n \<longrightarrow> placed sib ns (fst st) n) \<and>
     (\<forall>k. bget (fst st) k \<noteq> None \<longrightarrow> k \<in> set (snd st) - opn)"

lemma base_rel_bput:
  "bget bases k = None \<Longrightarrow> base_rel bases \<subseteq> base_rel (bput k b bases)"
  by (auto simp: base_rel_def)

lemma placed_bput:
  assumes "placed sib ns bases n" "bget bases k = None" "node_id n \<noteq> k"
  shows "placed sib ns (bput k b bases) n"
  using assms rtrancl_mono [OF base_rel_bput [OF assms(2)]] unfolding placed_def
  by simp blast

lemma choose_base_Some:
  assumes "choose_base bases cs = Some b"
  shows "b \<in> set cs \<and> (\<forall>c \<in> set cs. (node_id b, node_id c) \<in> (base_rel bases)\<^sup>*)"
  using assms unfolding choose_base_def chain_holds_reach [symmetric]
  by (auto simp: find_Some_iff list_all_iff)

lemma stack_inv_place:
  assumes inv: "stack_inv sib ns (insert (node_id n) opn) (bases, visited)"
    and n: "bget ns (node_id n) = Some n" "node_id n \<in> set visited" "node_id n \<notin> opn"
    and keyed: "keyed ns"
    and cs: "base_candidates sib ns n (deps n) = Inr cs" "base_branch n = None"
    and b: "choose_base bases cs = Some b"
  shows "stack_inv sib ns opn (bput (node_id n) (node_id b) bases, visited)"
proof -
  let ?bases = "bput (node_id n) (node_id b) bases"
  have none: "bget bases (node_id n) = None" using inv unfolding stack_inv_def by auto
  have "placed sib ns ?bases n"
    using choose_base_Some [OF b] cs rtrancl_mono [OF base_rel_bput [OF none]]
    unfolding placed_def by auto
  moreover have "placed sib ns ?bases m"
    if "k \<in> set visited - insert (node_id n) opn" "bget ns k = Some m" for k m
  proof (rule placed_bput [OF _ none])
    show "placed sib ns bases m" using inv that unfolding stack_inv_def by auto
    show "node_id m \<noteq> node_id n" using that keyed unfolding keyed_def by auto
  qed
  ultimately have "placed sib ns ?bases m" if "k \<in> set visited - opn" "bget ns k = Some m" for k m
    using that n(1) by (cases "k = node_id n") auto
  moreover have "k \<in> set visited - opn" if "bget ?bases k \<noteq> None" for k
    using that n(2,3) inv unfolding stack_inv_def by (auto split: if_splits)
  ultimately show ?thesis unfolding stack_inv_def by auto
qed

lemma stack_inv_visit:
  assumes inv: "stack_inv sib ns opn (bases, visited)" and n: "placed sib ns bases n"
    "bget ns (node_id n) = Some n" "node_id n \<notin> opn"
  shows "stack_inv sib ns opn (bases, node_id n # visited)"
  unfolding stack_inv_def
proof (intro conjI allI impI)
  fix k m assume k: "k \<in> set (snd (bases, node_id n # visited)) - opn" and m: "bget ns k = Some m"
  show "placed sib ns (fst (bases, node_id n # visited)) m"
  proof (cases "k = node_id n")
    case True
    with n m show ?thesis by simp
  next
    case False
    with k m inv show ?thesis by (simp add: stack_inv_def)
  qed
next
  fix k assume "bget (fst (bases, node_id n # visited)) k \<noteq> None"
  with inv show "k \<in> set (snd (bases, node_id n # visited)) - opn" by (simp add: stack_inv_def)
qed

lemma stack_inv_open:
  "stack_inv sib ns opn (bases, visited) \<Longrightarrow> node_id n \<notin> set visited \<Longrightarrow>
     stack_inv sib ns (insert (node_id n) opn) (bases, node_id n # visited)"
  unfolding stack_inv_def by auto

lemma resolve_base_kept:
  assumes "node_id n \<notin> set visited" "publish n = Preserve"
    and cs: "base_candidates sib ns n (deps n) = Inr (c # rest)"
    and run: "resolve_base sib ns (Suc fuel) n (bases, visited) = Some (Inr st')"
  shows "\<exists>bases' visited' b. base_branch n = None \<and>
    resolve_each sib ns fuel (c # rest) (bases, node_id n # visited) = Some (Inr (bases', visited')) \<and>
    choose_base bases' (c # rest) = Some b \<and>
    st' = (bput (node_id n) (node_id b) bases', visited')"
proof (cases "base_branch n")
  case (Some x)
  with assms show ?thesis by simp
next
  case free: None
  let ?each = "resolve_each sib ns fuel (c # rest) (bases, node_id n # visited)"
  have eq: "resolve_base sib ns (Suc fuel) n (bases, visited) =
      (case ?each of None \<Rightarrow> None | Some (Inl r) \<Rightarrow> Some (Inl r)
       | Some (Inr (bases', visited')) \<Rightarrow>
           (case choose_base bases' (c # rest) of
              Some b \<Rightarrow> Some (Inr (bput (node_id n) (node_id b) bases', visited'))
            | None \<Rightarrow> Some (Inl (in_field ''deps''
                (refusal_about (node_id n) (Separate_Chains (node_id n) (map node_id (c # rest))))))))"
    using assms(1,2) cs free by (simp del: resolve_each.simps)
  show ?thesis
  proof (cases ?each)
    case None
    with run show ?thesis unfolding eq by simp
  next
    case (Some r)
    show ?thesis
    proof (cases r)
      case (Inl e)
      with Some run show ?thesis unfolding eq by simp
    next
      case (Inr placing)
      obtain bases' visited' where each: "?each = Some (Inr (bases', visited'))"
        using Some Inr by (cases placing) simp
      show ?thesis
        using run free unfolding eq each
        by (cases "choose_base bases' (c # rest)") simp_all
    qed
  qed
qed

lemma stacking_places:
  "keyed ns \<Longrightarrow> bget ns (node_id n) = Some n \<Longrightarrow> stack_inv sib ns opn st \<Longrightarrow> opn \<subseteq> set (snd st) \<Longrightarrow>
     resolve_base sib ns fuel n st = Some (Inr st') \<Longrightarrow>
     stack_inv sib ns opn st' \<and> set (snd st) \<subseteq> set (snd st')"
  "keyed ns \<Longrightarrow> (\<forall>c \<in> set cs. bget ns (node_id c) = Some c) \<Longrightarrow> stack_inv sib ns opn st \<Longrightarrow>
     opn \<subseteq> set (snd st) \<Longrightarrow> resolve_each sib ns fuel cs st = Some (Inr st') \<Longrightarrow>
     stack_inv sib ns opn st' \<and> set (snd st) \<subseteq> set (snd st')"
proof (induction sib ns fuel n st and sib ns fuel cs st arbitrary: opn st' and opn st'
    rule: resolve_base_resolve_each.induct)
  case (2 sib ns fuel n bases visited)
  note inv = "2.prems"(3)
  show ?case
  proof (cases "node_id n \<in> set visited")
    case True
    with "2.prems" show ?thesis by simp
  next
    case new: False
    then have out: "node_id n \<notin> opn" using "2.prems"(4) by auto
    show ?thesis
    proof (cases "publish n = Preserve")
      case False
      then have "placed sib ns bases n" by (simp add: placed_def)
      from stack_inv_visit [OF inv this "2.prems"(2) out] False new "2.prems"(5)
      show ?thesis by auto
    next
      case True
      then obtain cs where cs: "base_candidates sib ns n (deps n) = Inr cs"
        using "2.prems"(5) new by (cases "base_candidates sib ns n (deps n)") auto
      show ?thesis
      proof (cases cs)
        case Nil
        with cs have "placed sib ns bases n" by (simp add: placed_def)
        from stack_inv_visit [OF inv this "2.prems"(2) out] Nil cs True new "2.prems"(5)
        show ?thesis by auto
      next
        case (Cons c rest)
        obtain bases' visited' b where free: "base_branch n = None"
          and run: "resolve_each sib ns fuel (c # rest) (bases, node_id n # visited)
                      = Some (Inr (bases', visited'))"
          and b: "choose_base bases' (c # rest) = Some b"
          and st': "st' = (bput (node_id n) (node_id b) bases', visited')"
          using resolve_base_kept [OF new True cs [unfolded Cons] "2.prems"(5)] by blast
        have keys: "\<forall>d \<in> set (c # rest). bget ns (node_id d) = Some d"
          using base_candidates_in [OF cs] Cons "2.prems"(1) unfolding keyed_def by metis
        have "insert (node_id n) opn \<subseteq> set (snd (bases, node_id n # visited))"
          using "2.prems"(4) by auto
        from "2.IH" [OF new _ cs Cons _ "2.prems"(1) keys stack_inv_open [OF inv new] this run]
        have inner: "stack_inv sib ns (insert (node_id n) opn) (bases', visited')"
          and grow: "set (node_id n # visited) \<subseteq> set visited'"
          using True free by auto
        have "stack_inv sib ns opn st'"
          unfolding st'
          by (rule stack_inv_place [OF inner "2.prems"(2) _ out "2.prems"(1) cs free])
            (use grow b Cons in auto)
        with grow st' show ?thesis by auto
      qed
    qed
  qed
next
  case (4 sib ns fuel n rest st)
  obtain st1 where first: "resolve_base sib ns fuel n st = Some (Inr st1)"
    and rest: "resolve_each sib ns fuel rest st1 = Some (Inr st')"
    using "4.prems"(5) by (auto split: option.splits sum.splits)
  have n: "bget ns (node_id n) = Some n" using "4.prems"(2) by simp
  have one: "stack_inv sib ns opn st1" "set (snd st) \<subseteq> set (snd st1)"
    using "4.IH"(1) [OF "4.prems"(1) n "4.prems"(3,4) first] by auto
  with "4.prems"(4) have "opn \<subseteq> set (snd st1)" by auto
  from "4.IH"(2) [OF first refl "4.prems"(1) _ one(1) this rest] "4.prems"(2) one(2)
  show ?case by auto
qed simp_all

section \<open>What an accepted plan's placement is\<close>

lemma plan_nodes_from_plan: "plan_nodes p = nodes (from_plan p)"
  by (simp add: plan_nodes_def bcollect_def from_plan_def fold_insert_nodes with_concurrency_def)

lemma plan_nodes_ok: "bmap_ok (plan_nodes p)"
  using graph_ok_from_plan [of p] by (simp add: plan_nodes_from_plan graph_ok_def)

lemma plan_nodes_get:
  "distinct (map node_id (tasks p)) \<Longrightarrow>
     bget (plan_nodes p) k = Some n \<longleftrightarrow> n \<in> set (tasks p) \<and> node_id n = k"
  using from_plan_get_iff [of p k n] by (simp add: plan_nodes_from_plan graph_get_def)

lemma stacking_bases_result:
  assumes keyed: "keyed ns" and ok: "bmap_ok ns"
  shows "\<exists>r. stacking_bases sib ns = Some r \<and>
    (\<forall>bases. r = Inr bases \<longrightarrow>
       (\<forall>k n. bget ns k = Some n \<longrightarrow> placed sib ns bases n))"
proof -
  have listed: "\<forall>c \<in> set (map snd ns). bget ns (node_id c) = Some c"
  proof
    fix c assume "c \<in> set (map snd ns)"
    then obtain k where "(k, c) \<in> set ns" by auto
    then have "bget ns k = Some c" by (rule bmap_ok_in_bget [OF ok])
    moreover from this keyed have "node_id c = k" by (simp add: keyed_def)
    ultimately show "bget ns (node_id c) = Some c" by simp
  qed
  have "unvisited ns (snd ([] :: str bmap, [])) \<subseteq> fst ` set ns"
    by (auto simp: unvisited_def dom_map_of_conv_image_fst)
  then have "card (unvisited ns (snd ([] :: str bmap, []))) < Suc (length ns)"
    using card_mono [OF finite_imageI [OF finite_set]] card_image_le [OF finite_set, of fst ns]
      card_length [of ns] by (meson le_imp_less_Suc le_trans)
  note runs = stacking_runs(2) [OF keyed listed this, of sib]
  then obtain r where r: "resolve_each sib ns (Suc (length ns)) (map snd ns) ([], []) = Some r"
    by (cases "resolve_each sib ns (Suc (length ns)) (map snd ns) ([], [])") simp_all
  have "placed sib ns bases n"
    if eq: "r = Inr (bases, visited)" and n: "bget ns k = Some n" for bases visited k n
  proof -
    have run: "resolve_each sib ns (Suc (length ns)) (map snd ns) ([], []) = Some (Inr (bases, visited))"
      using r eq by simp
    have "stack_inv sib ns {} ([], [])" by (simp add: stack_inv_def)
    from stacking_places(2) [OF keyed listed this _ run]
    have "stack_inv sib ns {} (bases, visited)" by simp
    moreover have "n \<in> set (map snd ns)" using bget_Some_in [OF n] by force
    then have "node_id n \<in> set visited" using runs run by auto
    moreover have "node_id n = k" using n keyed by (simp add: keyed_def)
    ultimately show ?thesis using n by (auto simp: stack_inv_def)
  qed
  then show ?thesis
    unfolding stacking_bases_def r by (cases r) (auto)
qed



end
