(* ===== verification/Boundary.thy ===== *)
theory Boundary
  imports Plan_Sound
begin

text \<open>
  The public boundary of a plan (\<open>src/src/boundary.rs\<close>): which nodes are private, by their own
  classification, by a repository they name, or by what a node naming none depends on; and
  the check that private work reaches a public destination only over an export edge. What
  \<open>onevcs\<close> answers of a repository and of a text is the record \<open>boundary_oracle\<close>, an argument.
\<close>

section \<open>Clearances\<close>

datatype clearance = Public | Private

text \<open>The derived order of the Rust enum: \<open>Public\<close> before \<open>Private\<close>.\<close>

fun max_clearance :: "clearance \<Rightarrow> clearance \<Rightarrow> clearance" where
  "max_clearance Public c = c"
| "max_clearance Private c = Private"

record boundary_input =
  input_text :: "str list"
  input_paths :: "str list"
  input_metadata :: "str list"
  input_scope :: "str list"

record boundary_oracle =
  repository_clearance :: "str \<Rightarrow> clearance"
  repository_scope :: "str \<Rightarrow> str"         \<comment> \<open>\<open>Identity::into_scope\<close>\<close>
  passes :: "boundary_input \<Rightarrow> bool"

definition repositories_of :: "node \<Rightarrow> str list" where
  "repositories_of n =
     (let named = (case repo n of None \<Rightarrow> [] | Some r \<Rightarrow> [r])
      in fold (\<lambda>r acc. if r \<in> set acc then acc else acc @ [r])
           (case task_record n of None \<Rightarrow> [] | Some t \<Rightarrow> repositories t) named)"

text \<open>What a node's own task and repositories say, before anything is inherited.\<close>

definition own_clearance :: "boundary_oracle \<Rightarrow> node \<Rightarrow> clearance option" where
  "own_clearance orc n =
     (let named = repositories_of n;
          start = (if classification n = Private_Task then Some Private
                   else if named \<noteq> [] then Some Public else None)
      in fold (\<lambda>r c. if repository_clearance orc r = Private then Some Private else c) named start)"

record resolved =
  clearances :: "clearance bmap"
  public_destinations :: "str set"
  scope :: "str list"

definition own_clearances :: "boundary_oracle \<Rightarrow> plan \<Rightarrow> clearance option bmap" where
  "own_clearances orc p = bcollect (map (\<lambda>n. (node_id n, own_clearance orc n)) (tasks p))"

definition ordinary_deps :: "plan \<Rightarrow> str list bmap" where
  "ordinary_deps p =
     bcollect (map (\<lambda>n. (node_id n, filter (\<lambda>d. \<not> is_export p d (node_id n)) (deps n))) (tasks p))"

definition private_scope :: "boundary_oracle \<Rightarrow> plan \<Rightarrow> str list" where
  "private_scope orc p =
     sort (remdups (map (repository_scope orc)
       (filter (\<lambda>r. repository_clearance orc r = Private) (concat (map repositories_of (tasks p))))))"

text \<open>
  \<open>inherit\<close>: a node with no clearance of its own takes the strictest of what it depends on.
  \<open>known\<close> is the \<open>own\<close> map, \<open>ds\<close> the dependencies; \<open>fuel\<close> bounds the depth, which the nodes
  being visited do in the source, and \<open>None\<close> is running out.
\<close>

definition settled_own :: "clearance option bmap \<Rightarrow> str \<Rightarrow> clearance option" where
  "settled_own known k = (case bget known k of None \<Rightarrow> None | Some c \<Rightarrow> c)"

definition followed :: "clearance option bmap \<Rightarrow> str list bmap \<Rightarrow> str \<Rightarrow> str list" where
  "followed known ds k = filter (\<lambda>d. bget known d \<noteq> None) (children ds k)"

fun inherit ::
    "clearance option bmap \<Rightarrow> str list bmap \<Rightarrow> nat \<Rightarrow> str set \<Rightarrow> str \<Rightarrow> clearance bmap \<Rightarrow>
     (clearance \<times> clearance bmap) option"
and inherit_each ::
    "clearance option bmap \<Rightarrow> str list bmap \<Rightarrow> nat \<Rightarrow> str set \<Rightarrow> str list \<Rightarrow> clearance bmap \<Rightarrow>
     (clearance \<times> clearance bmap) option" where
  "inherit known ds 0 visiting k seen = None"
| "inherit known ds (Suc fuel) visiting k seen =
     (case bget seen k of
        Some c \<Rightarrow> Some (c, seen)
      | None \<Rightarrow>
          (case settled_own known k of
             Some c \<Rightarrow> Some (c, bput k c seen)
           | None \<Rightarrow>
               if k \<in> visiting then Some (Public, bput k Public seen)
               else map_option (\<lambda>(c, seen'). (c, bput k c seen'))
                      (inherit_each known ds fuel (insert k visiting) (followed known ds k) seen)))"
| "inherit_each known ds fuel visiting [] seen = Some (Public, seen)"
| "inherit_each known ds fuel visiting (d # rest) seen =
     (case inherit known ds fuel visiting d seen of
        None \<Rightarrow> None
      | Some (c, seen') \<Rightarrow>
          map_option (\<lambda>(c', seen''). (max_clearance c c', seen''))
            (inherit_each known ds fuel visiting rest seen'))"

fun inherit_all ::
    "clearance option bmap \<Rightarrow> str list bmap \<Rightarrow> nat \<Rightarrow> str list \<Rightarrow> clearance bmap \<Rightarrow> clearance bmap \<Rightarrow>
     clearance bmap option" where
  "inherit_all known ds fuel [] seen out = Some out"
| "inherit_all known ds fuel (k # ks) seen out =
     (case inherit known ds fuel {} k seen of
        None \<Rightarrow> None
      | Some (c, seen') \<Rightarrow> inherit_all known ds fuel ks seen' (bput k c out))"

definition resolve_boundary :: "boundary_oracle \<Rightarrow> plan \<Rightarrow> resolved option" where
  "resolve_boundary orc p =
     (let known = own_clearances orc p; ds = ordinary_deps p
      in map_option
           (\<lambda>cs. \<lparr> clearances = cs,
                   public_destinations =
                     set (map node_id (filter (\<lambda>n. own_clearance orc n = Some Public) (tasks p))),
                   scope = private_scope orc p \<rparr>)
           (inherit_all known ds (Suc (length known)) (map node_id (tasks p)) [] []))"

definition clearance_of :: "resolved \<Rightarrow> str \<Rightarrow> clearance" where
  "clearance_of r k = (case bget (clearances r) k of None \<Rightarrow> Private | Some c \<Rightarrow> c)"

definition mixed :: "resolved \<Rightarrow> bool" where
  "mixed r \<longleftrightarrow> public_destinations r \<noteq> {} \<and> list_ex (\<lambda>e. snd e = Private) (clearances r)"

section \<open>The check\<close>

datatype stage = Load | Edit

definition position_of :: "plan \<Rightarrow> str \<Rightarrow> nat" where
  "position_of p k = Suc (length (takeWhile (\<lambda>n. node_id n \<noteq> k) (tasks p)))"

definition check_export :: "stage \<Rightarrow> plan \<Rightarrow> resolved \<Rightarrow> nat \<Rightarrow> export_edge \<Rightarrow> checked" where
  "check_export stg p r number e =
     (case (bget (plan_nodes p) (edge_from e), bget (plan_nodes p) (edge_to e)) of
        (Some producer, Some consumer) \<Rightarrow>
          first_refusal
            [refuse_if (clearance_of r (node_id producer) \<noteq> Private \<or> repo producer = None \<or>
                        publish producer \<noteq> Preserve) (plain_refusal (Export_Producer number)),
             refuse_if (clearance_of r (node_id consumer) \<noteq> Public \<or>
                        node_id consumer \<notin> public_destinations r)
               (plain_refusal (Export_Consumer number)),
             refuse_if (base_branch consumer \<noteq> None \<or>
                        stg = Load \<and> (branch consumer \<noteq> None \<or> resume consumer \<noteq> None))
               (plain_refusal (Export_Context number))]
      | _ \<Rightarrow> Inl (edge_refusal (Edge_Dangling number ''from'')))"

definition check_ordinary_dep :: "plan \<Rightarrow> resolved \<Rightarrow> node \<Rightarrow> str \<Rightarrow> checked" where
  "check_ordinary_dep p r n dep =
     (if dep \<notin> set (map node_id (tasks p)) then Inr ()
      else if clearance_of r dep \<noteq> Private \<or> is_export p dep (node_id n) then Inr ()
      else Inl (in_field ''deps'' (plain_refusal
        (if consumed_by p (node_id n) \<noteq> None then Beside_An_Export (position_of p (node_id n))
         else Ordinary_Private_Dep (position_of p (node_id n))))))"

definition public_input :: "resolved \<Rightarrow> node \<Rightarrow> export_edge \<Rightarrow> boundary_input" where
  "public_input r n e =
     \<lparr> input_text = List.map_filter id [task n, body n, amendment n, planner_context n],
       input_paths = [source_directory e, target_directory e],
       input_metadata = node_id n # List.map_filter id [title n],
       input_scope = scope r \<rparr>"

definition check_neutral :: "boundary_oracle \<Rightarrow> plan \<Rightarrow> resolved \<Rightarrow> nat \<Rightarrow> export_edge \<Rightarrow> checked" where
  "check_neutral orc p r number e =
     (case bget (plan_nodes p) (edge_to e) of
        None \<Rightarrow> Inr ()
      | Some consumer \<Rightarrow>
          refuse_if (\<not> passes orc (public_input r consumer e)) (plain_refusal (Export_Not_Neutral number)))"

fun numbered :: "nat \<Rightarrow> 'a list \<Rightarrow> (nat \<times> 'a) list" where
  "numbered i [] = []"
| "numbered i (x # xs) = (i, x) # numbered (Suc i) xs"

definition check_boundary ::
    "siblings \<Rightarrow> boundary_oracle \<Rightarrow> stage \<Rightarrow> plan \<Rightarrow> (refusal + resolved) option" where
  "check_boundary sib orc stg p =
     map_option
       (\<lambda>r. map_sum id (\<lambda>_. r) (first_refusal
         [check_edges sib p,
          check_all (\<lambda>(i, e). check_export stg p r i e) (numbered 1 (export_edges p)),
          check_all (\<lambda>n. if node_id n \<notin> public_destinations r then Inr ()
                         else check_all (check_ordinary_dep p r n) (deps n)) (tasks p),
          check_all (\<lambda>(i, e). check_neutral orc p r i e) (numbered 1 (export_edges p))]))
       (resolve_boundary orc p)"

section \<open>What the resolution answers\<close>

lemma followed_known: "d \<in> set (followed known ds k) \<Longrightarrow> d \<in> dom (bget known)"
  by (auto simp: followed_def)

lemma inherit_runs:
  "k \<in> dom (bget known) \<Longrightarrow> card (dom (bget known) - visiting) < fuel \<Longrightarrow>
     inherit known ds fuel visiting k seen \<noteq> None"
  "set ks \<subseteq> dom (bget known) \<Longrightarrow> card (dom (bget known) - visiting) < fuel \<Longrightarrow>
     inherit_each known ds fuel visiting ks seen \<noteq> None"
proof (induction known ds fuel visiting k seen and known ds fuel visiting ks seen
    rule: inherit_inherit_each.induct)
  case (2 known ds fuel visiting k seen)
  show ?case
  proof (cases "bget seen k = None \<and> settled_own known k = None \<and> k \<notin> visiting")
    case True
    have "card (dom (bget known) - insert k visiting) < card (dom (bget known) - visiting)"
      using True "2.prems"(1) by (intro psubset_card_mono finite_Diff finite_dom_map_of) auto
    then have "card (dom (bget known) - insert k visiting) < fuel" using "2.prems"(2) by simp
    moreover have "set (followed known ds k) \<subseteq> dom (bget known)" using followed_known by blast
    ultimately show ?thesis using "2.IH" True by simp
  next
    case False
    then show ?thesis by (auto split: option.splits)
  qed
next
  case (4 known ds fuel visiting d rest seen)
  then obtain c seen' where first: "inherit known ds fuel visiting d seen = Some (c, seen')"
    by (cases "inherit known ds fuel visiting d seen") auto
  have "set rest \<subseteq> dom (bget known)" using "4.prems"(1) by simp
  from "4.IH"(2) [OF first refl this "4.prems"(2)] first show ?case by simp
qed simp_all

text \<open>
  A node is tainted when it is private itself, or names no repository and follows, through
  ordinary dependencies, to one that is.
\<close>

inductive tainted :: "clearance option bmap \<Rightarrow> str list bmap \<Rightarrow> str \<Rightarrow> bool"
  for known ds where
  own: "settled_own known k = Some Private \<Longrightarrow> tainted known ds k"
| inherited: "settled_own known k = None \<Longrightarrow> d \<in> set (followed known ds k) \<Longrightarrow>
    tainted known ds d \<Longrightarrow> tainted known ds k"

inductive_simps tainted_unfold: "tainted known ds k"

definition follows :: "clearance option bmap \<Rightarrow> str list bmap \<Rightarrow> (str \<times> str) set" where
  "follows known ds = {(k, d). d \<in> set (followed known ds k)}"

definition rightly_seen :: "clearance option bmap \<Rightarrow> str list bmap \<Rightarrow> clearance bmap \<Rightarrow> bool" where
  "rightly_seen known ds seen \<longleftrightarrow>
     (\<forall>k c. bget seen k = Some c \<longrightarrow> (c = Private \<longleftrightarrow> tainted known ds k))"

lemma max_private: "max_clearance a b = Private \<longleftrightarrow> a = Private \<or> b = Private"
  by (cases a) auto

lemma rightly_seen_bput:
  "rightly_seen known ds seen \<Longrightarrow> (c = Private \<longleftrightarrow> tainted known ds k) \<Longrightarrow>
     rightly_seen known ds (bput k c seen)"
  by (simp add: rightly_seen_def)

lemma inherit_right:
  "acyclic (follows known ds) \<Longrightarrow> inherit known ds fuel visiting k seen = Some (c, seen') \<Longrightarrow>
     rightly_seen known ds seen \<Longrightarrow> (\<forall>v \<in> visiting. (v, k) \<in> (follows known ds)\<^sup>+) \<Longrightarrow>
     rightly_seen known ds seen' \<and> (c = Private \<longleftrightarrow> tainted known ds k)"
  "acyclic (follows known ds) \<Longrightarrow> inherit_each known ds fuel visiting ks seen = Some (c, seen') \<Longrightarrow>
     rightly_seen known ds seen \<Longrightarrow>
     (\<forall>v \<in> visiting. \<forall>d \<in> set ks. (v, d) \<in> (follows known ds)\<^sup>+) \<Longrightarrow>
     rightly_seen known ds seen' \<and> (c = Private \<longleftrightarrow> (\<exists>d \<in> set ks. tainted known ds d))"
proof (induction known ds fuel visiting k seen and known ds fuel visiting ks seen
    arbitrary: c seen' and c seen' rule: inherit_inherit_each.induct)
  case (2 known ds fuel visiting k seen)
  show ?case
  proof (cases "bget seen k")
    case (Some x)
    with "2.prems" show ?thesis by (simp add: rightly_seen_def)
  next
    case fresh: None
    show ?thesis
    proof (cases "settled_own known k")
      case (Some x)
      have "x = Private \<longleftrightarrow> tainted known ds k" using Some by (simp add: tainted_unfold [of known ds k])
      with "2.prems" fresh Some rightly_seen_bput show ?thesis by auto
    next
      case None
      have "k \<notin> visiting" using "2.prems"(1,4) by (auto simp: acyclic_def)
      then obtain seen1 where each:
        "inherit_each known ds fuel (insert k visiting) (followed known ds k) seen = Some (c, seen1)"
        and seen': "seen' = bput k c seen1"
        using "2.prems"(2) fresh None by auto
      have "\<forall>v \<in> insert k visiting. \<forall>d \<in> set (followed known ds k). (v, d) \<in> (follows known ds)\<^sup>+"
        using "2.prems"(4) by (auto simp: follows_def intro: trancl_into_trancl)
      from "2.IH" [OF fresh None \<open>k \<notin> visiting\<close> "2.prems"(1) each "2.prems"(3) this]
      have right: "rightly_seen known ds seen1"
        and c: "c = Private \<longleftrightarrow> (\<exists>d \<in> set (followed known ds k). tainted known ds d)" by auto
      from c None have "c = Private \<longleftrightarrow> tainted known ds k"
        by (simp add: tainted_unfold [of known ds k]) blast
      with right rightly_seen_bput seen' show ?thesis by blast
    qed
  qed
next
  case (4 known ds fuel visiting d rest seen)
  obtain c1 seen1 c2 where first: "inherit known ds fuel visiting d seen = Some (c1, seen1)"
    and more: "inherit_each known ds fuel visiting rest seen1 = Some (c2, seen')"
    and c: "c = max_clearance c1 c2"
    using "4.prems"(2) by (auto split: option.splits)
  have one: "rightly_seen known ds seen1 \<and> (c1 = Private \<longleftrightarrow> tainted known ds d)"
    using "4.IH"(1) [OF "4.prems"(1) first "4.prems"(3)] "4.prems"(4) by simp
  have "rightly_seen known ds seen' \<and> (c2 = Private \<longleftrightarrow> (\<exists>d \<in> set rest. tainted known ds d))"
    by (rule "4.IH"(2) [OF first refl "4.prems"(1) more]) (use one "4.prems"(4) in auto)
  with one c show ?case by (auto simp: max_private)
qed simp_all

lemma inherit_all_right:
  "acyclic (follows known ds) \<Longrightarrow> inherit_all known ds fuel ks seen out = Some out' \<Longrightarrow>
     rightly_seen known ds seen \<Longrightarrow> rightly_seen known ds out \<Longrightarrow>
     rightly_seen known ds out' \<and> set ks \<union> dom (bget out) \<subseteq> dom (bget out')"
proof (induction known ds fuel ks seen out rule: inherit_all.induct)
  case (2 known ds fuel k ks seen out)
  obtain c seen1 where k: "inherit known ds fuel {} k seen = Some (c, seen1)"
    and rest: "inherit_all known ds fuel ks seen1 (bput k c out) = Some out'"
    using "2.prems"(2) by (auto split: option.splits)
  have one: "rightly_seen known ds seen1" "c = Private \<longleftrightarrow> tainted known ds k"
    using inherit_right(1) [OF "2.prems"(1) k "2.prems"(3)] by auto
  have "dom (bget out) \<subseteq> dom (bget (bput k c out))" "k \<in> dom (bget (bput k c out))" by auto
  with "2.IH" [OF k refl "2.prems"(1) rest one(1) rightly_seen_bput [OF "2.prems"(4) one(2)]]
  show ?case by (simp del: bget_bput) blast
qed simp

lemma inherit_all_runs:
  "set ks \<subseteq> dom (bget known) \<Longrightarrow> card (dom (bget known)) < fuel \<Longrightarrow>
     inherit_all known ds fuel ks seen out \<noteq> None"
proof (induction known ds fuel ks seen out rule: inherit_all.induct)
  case (2 known ds fuel k ks seen out)
  have "inherit known ds fuel {} k seen \<noteq> None"
    using "2.prems" by (intro inherit_runs) simp_all
  with 2 show ?case by (auto split: option.splits)
qed simp

lemma bcollect_keys: "fst ` set (bcollect kvs) = fst ` set kvs"
proof -
  have "fst ` set (fold (\<lambda>(k, v). bput k v) kvs m) = fst ` set kvs \<union> fst ` set m" for m
  proof (induction kvs arbitrary: m)
    case (Cons e kvs)
    then show ?case by (cases e) simp
  qed simp
  then show ?thesis by (simp add: bcollect_def)
qed

lemma own_clearances_keys: "dom (bget (own_clearances orc p)) = node_id ` set (tasks p)"
  unfolding own_clearances_def dom_map_of_conv_image_fst bcollect_keys by force

lemma bcollect_get:
  "distinct (map fst kvs) \<Longrightarrow> bget (bcollect kvs) k = map_of kvs k"
  unfolding bcollect_def by (rule bm.get_collect_distinct)

lemma own_clearances_get:
  assumes "distinct (map node_id (tasks p))" "n \<in> set (tasks p)"
  shows "settled_own (own_clearances orc p) (node_id n) = own_clearance orc n"
proof -
  have dist: "distinct (map fst (map (\<lambda>n. (node_id n, own_clearance orc n)) (tasks p)))"
    using assms(1) by (simp add: comp_def)
  have "bget (own_clearances orc p) (node_id n) = Some (own_clearance orc n)"
    unfolding own_clearances_def bcollect_get [OF dist]
    using assms(2) by (intro map_of_is_SomeI [OF dist]) force
  then show ?thesis by (simp add: settled_own_def)
qed

lemma ordinary_deps_get:
  assumes "distinct (map node_id (tasks p))" "n \<in> set (tasks p)"
  shows "children (ordinary_deps p) (node_id n) =
    filter (\<lambda>d. \<not> is_export p d (node_id n)) (deps n)"
proof -
  let ?kvs = "map (\<lambda>n. (node_id n, filter (\<lambda>d. \<not> is_export p d (node_id n)) (deps n))) (tasks p)"
  have dist: "distinct (map fst ?kvs)" using assms(1) by (simp add: comp_def)
  have "bget (ordinary_deps p) (node_id n) = Some (filter (\<lambda>d. \<not> is_export p d (node_id n)) (deps n))"
    unfolding ordinary_deps_def bcollect_get [OF dist]
    using assms(2) by (intro map_of_is_SomeI [OF dist]) force
  then show ?thesis by (simp add: children_def)
qed

text \<open>
  The same over the plan itself: private by classification or by a repository it names, or
  naming no repository and depending, not over an export edge, on a node of the plan that is.
\<close>

inductive carries_private :: "boundary_oracle \<Rightarrow> plan \<Rightarrow> node \<Rightarrow> bool" for orc p where
  itself: "n \<in> set (tasks p) \<Longrightarrow> classification n = Private_Task \<or>
      (\<exists>r \<in> set (repositories_of n). repository_clearance orc r = Private) \<Longrightarrow>
      carries_private orc p n"
| through: "n \<in> set (tasks p) \<Longrightarrow> repositories_of n = [] \<Longrightarrow> m \<in> set (tasks p) \<Longrightarrow>
      node_id m \<in> set (deps n) \<Longrightarrow> \<not> is_export p (node_id m) (node_id n) \<Longrightarrow>
      carries_private orc p m \<Longrightarrow> carries_private orc p n"

lemma fold_private:
  "fold (\<lambda>r c. if repository_clearance orc r = Private then Some Private else c) rs start =
     (if \<exists>r \<in> set rs. repository_clearance orc r = Private then Some Private else start)"
  by (induction rs arbitrary: start) auto

lemma own_clearance_eq:
  "own_clearance orc n =
     (if classification n = Private_Task \<or>
         (\<exists>r \<in> set (repositories_of n). repository_clearance orc r = Private) then Some Private
      else if repositories_of n \<noteq> [] then Some Public else None)"
  unfolding own_clearance_def fold_private Let_def by simp

lemma carries_private_tainted:
  assumes dist: "distinct (map node_id (tasks p))"
  shows "carries_private orc p n \<Longrightarrow>
    n \<in> set (tasks p) \<and> tainted (own_clearances orc p) (ordinary_deps p) (node_id n)"
proof (induction rule: carries_private.induct)
  case (itself n)
  then have "settled_own (own_clearances orc p) (node_id n) = Some Private"
    by (simp add: own_clearances_get [OF dist] own_clearance_eq)
  with itself(1) show ?case by (blast intro: tainted.own)
next
  case (through n m)
  have "node_id m \<in> dom (bget (own_clearances orc p))"
    using through(3) unfolding own_clearances_keys by blast
  then have "node_id m \<in> set (followed (own_clearances orc p) (ordinary_deps p) (node_id n))"
    using through by (auto simp: followed_def ordinary_deps_get [OF dist])
  then have "settled_own (own_clearances orc p) (node_id n) = None \<Longrightarrow>
      tainted (own_clearances orc p) (ordinary_deps p) (node_id n)"
    using through.IH by (blast intro: tainted.inherited)
  moreover have "settled_own (own_clearances orc p) (node_id n) = Some c \<Longrightarrow>
      tainted (own_clearances orc p) (ordinary_deps p) (node_id n)" for c
    using through(1,2) tainted.own
    by (auto simp: own_clearances_get [OF dist] own_clearance_eq split: if_splits)
  ultimately show ?case using through(1)
    by (cases "settled_own (own_clearances orc p) (node_id n)") auto
qed

lemma resolve_boundary_right:
  assumes acyc: "acyclic (follows (own_clearances orc p) (ordinary_deps p))"
    and run: "resolve_boundary orc p = Some r" and k: "k \<in> node_id ` set (tasks p)"
  shows "clearance_of r k = Private \<longleftrightarrow> tainted (own_clearances orc p) (ordinary_deps p) k"
proof -
  have all: "inherit_all (own_clearances orc p) (ordinary_deps p)
      (Suc (length (own_clearances orc p))) (map node_id (tasks p)) [] [] = Some (clearances r)"
    using run by (auto simp: resolve_boundary_def Let_def)
  have empty: "rightly_seen (own_clearances orc p) (ordinary_deps p) []"
    by (simp add: rightly_seen_def)
  from inherit_all_right [OF acyc all empty empty] k
  show ?thesis by (auto simp: rightly_seen_def clearance_of_def split: option.splits)
qed

lemma follows_acyclic:
  assumes edited: "check_edited sib p = Inr ()"
    and local: "\<forall>n \<in> set (tasks p). \<not> is_cross_dag (node_id n)"
  shows "acyclic (follows (own_clearances orc p) (ordinary_deps p))"
proof (rule acyclic_subset [OF edited_acyclic [OF edited]])
  have dist: "distinct (map node_id (tasks p))" by (rule edited_distinct [OF edited])
  show "follows (own_clearances orc p) (ordinary_deps p) \<subseteq> dep_edges (from_plan p)"
  proof (rule subrelI)
    fix k d assume kd: "(k, d) \<in> follows (own_clearances orc p) (ordinary_deps p)"
    then have "d \<in> node_id ` set (tasks p)"
      using followed_known own_clearances_keys unfolding follows_def by blast
    then obtain m where m: "m \<in> set (tasks p)" "node_id m = d" by blast
    have listed: "d \<in> set (children (ordinary_deps p) k)"
      using kd by (simp add: follows_def followed_def)
    then have "bget (ordinary_deps p) k \<noteq> None" by (cases "bget (ordinary_deps p) k") (auto simp: children_def)
    then have "k \<in> fst ` set (ordinary_deps p)" by (simp add: bget_dom)
    then obtain n where n: "n \<in> set (tasks p)" "node_id n = k"
      unfolding ordinary_deps_def bcollect_keys by auto
    have "d \<in> set (deps n)" using listed ordinary_deps_get [OF dist n(1)] n(2) by simp
    then show "(k, d) \<in> dep_edges (from_plan p)"
      using n m local by (auto simp: dep_edges_def graph_contains_def from_plan_get_iff [OF dist])
  qed
qed

lemma resolve_boundary_runs: "resolve_boundary orc p \<noteq> None"
proof -
  have "card (dom (bget (own_clearances orc p))) \<le> length (own_clearances orc p)"
    unfolding dom_map_of_conv_image_fst
    by (metis card_length length_map list.set_map)
  then have "inherit_all (own_clearances orc p) (ordinary_deps p)
      (Suc (length (own_clearances orc p))) (map node_id (tasks p)) [] [] \<noteq> None"
    by (intro inherit_all_runs) (simp_all add: own_clearances_keys)
  then show ?thesis by (simp add: resolve_boundary_def Let_def)
qed

lemma in_numbered: "x \<in> set xs \<Longrightarrow> \<exists>j. (j, x) \<in> set (numbered i xs)"
proof (induction xs arbitrary: i)
  case (Cons y ys)
  then show ?case by (cases "x = y") (auto dest: Cons.IH [of "Suc i"])
qed simp

text \<open>
  C5. No private work reaches public output over an ordinary dependency: where the boundary
  accepts a plan, a node that is a public destination (public itself, naming repositories that
  are all public) depends on nothing that carries private work, through any depth of nodes
  naming no repository, except over an export edge; an export's producer keeps its branch
  and its consumer is a public destination that names no base branch. The check always ends.
\<close>

theorem no_private_work_in_public_output:
  assumes edited: "check_edited sib p = Inr ()"
    and local: "\<forall>n \<in> set (tasks p). \<not> is_cross_dag (node_id n)"
  shows "check_boundary sib orc stg p \<noteq> None \<and>
    (check_boundary sib orc stg p = Some (Inr r) \<longrightarrow>
      (\<forall>n \<in> set (tasks p). \<forall>m \<in> set (tasks p).
         own_clearance orc n = Some Public \<longrightarrow> node_id m \<in> set (deps n) \<longrightarrow>
         carries_private orc p m \<longrightarrow> is_export p (node_id m) (node_id n)) \<and>
      (\<forall>e \<in> set (export_edges p). \<exists>producer \<in> set (tasks p). \<exists>consumer \<in> set (tasks p).
         node_id producer = edge_from e \<and> node_id consumer = edge_to e \<and>
         publish producer = Preserve \<and> own_clearance orc consumer = Some Public \<and>
         base_branch consumer = None))"
proof (intro conjI impI)
  show "check_boundary sib orc stg p \<noteq> None"
    using resolve_boundary_runs by (simp add: check_boundary_def)
next
  assume "check_boundary sib orc stg p = Some (Inr r)"
  then have run: "resolve_boundary orc p = Some r"
    and exports: "\<forall>(i, e) \<in> set (numbered 1 (export_edges p)). check_export stg p r i e = Inr ()"
    and deps_ok: "\<forall>n \<in> set (tasks p). node_id n \<in> public_destinations r \<longrightarrow>
        (\<forall>d \<in> set (deps n). check_ordinary_dep p r n d = Inr ())"
    by (auto simp: check_boundary_def split: if_splits)
  have dist: "distinct (map node_id (tasks p))" by (rule edited_distinct [OF edited])
  have same: "n = m" if "n \<in> set (tasks p)" "m \<in> set (tasks p)" "node_id n = node_id m" for n m
    using dist that by (meson distinct_map inj_onD)
  have dests: "public_destinations r = node_id ` {n \<in> set (tasks p). own_clearance orc n = Some Public}"
    using run by (auto simp: resolve_boundary_def Let_def)
  note right = resolve_boundary_right [OF follows_acyclic [OF edited local] run]
  show "\<forall>n \<in> set (tasks p). \<forall>m \<in> set (tasks p).
         own_clearance orc n = Some Public \<longrightarrow> node_id m \<in> set (deps n) \<longrightarrow>
         carries_private orc p m \<longrightarrow> is_export p (node_id m) (node_id n)"
  proof (intro ballI impI)
    fix n m assume n: "n \<in> set (tasks p)" "own_clearance orc n = Some Public"
      and m: "m \<in> set (tasks p)" "node_id m \<in> set (deps n)" "carries_private orc p m"
    have "check_ordinary_dep p r n (node_id m) = Inr ()" using deps_ok n m(2) dests by blast
    moreover have "clearance_of r (node_id m) = Private"
      using right carries_private_tainted [OF dist m(3)] by blast
    ultimately show "is_export p (node_id m) (node_id n)"
      using m(1) by (auto simp: check_ordinary_dep_def split: if_splits)
  qed
  show "\<forall>e \<in> set (export_edges p). \<exists>producer \<in> set (tasks p). \<exists>consumer \<in> set (tasks p).
         node_id producer = edge_from e \<and> node_id consumer = edge_to e \<and>
         publish producer = Preserve \<and> own_clearance orc consumer = Some Public \<and>
         base_branch consumer = None"
  proof
    fix e assume "e \<in> set (export_edges p)"
    then obtain i where "(i, e) \<in> set (numbered 1 (export_edges p))" using in_numbered by metis
    then have "check_export stg p r i e = Inr ()" using exports by blast
    then obtain a b where a: "bget (plan_nodes p) (edge_from e) = Some a" "publish a = Preserve"
      and b: "bget (plan_nodes p) (edge_to e) = Some b" "node_id b \<in> public_destinations r"
        "base_branch b = None"
      by (auto simp: check_export_def split: option.splits)
    have ab: "a \<in> set (tasks p)" "node_id a = edge_from e" "b \<in> set (tasks p)" "node_id b = edge_to e"
      using a(1) b(1) unfolding plan_nodes_def
      by (auto simp: bcollect_get comp_def dist dest!: map_of_SomeD)
    moreover have "own_clearance orc b = Some Public"
      using b(2) ab(3) dests same by auto
    ultimately show "\<exists>producer \<in> set (tasks p). \<exists>consumer \<in> set (tasks p).
         node_id producer = edge_from e \<and> node_id consumer = edge_to e \<and>
         publish producer = Preserve \<and> own_clearance orc consumer = Some Public \<and>
         base_branch consumer = None"
      using a(2) b(3) by blast
  qed
qed

text \<open>A mixed plan: a private node that keeps its branch, exported to a public one.\<close>

definition exporting_plan :: plan where
  "exporting_plan = (plain_plan
     [(kept_node ''general'' [])\<lparr> classification := Private_Task \<rparr>,
      (work_node ''public'' [''general''])\<lparr> repo := Some ''site'', title := Some ''feat: x'' \<rparr>])
     \<lparr> export_edges := [\<lparr> edge_from = ''general'', edge_to = ''public'', source_directory = ''out'',
        target_directory = ''in'', accepted_opaque = [] \<rparr>] \<rparr>"

definition site_is_public :: boundary_oracle where
  "site_is_public = \<lparr> repository_clearance = (\<lambda>r. if r = ''site'' then Public else Private),
     repository_scope = id, passes = (\<lambda>_. True) \<rparr>"

theorem no_private_work_in_public_output_witness:
  "\<exists>r. check_boundary open_siblings site_is_public Load exporting_plan = Some (Inr r) \<and>
     is_export exporting_plan ''general'' ''public''"
proof -
  have edited: "check_edited open_siblings exporting_plan = Inr ()" by code_simp
  have local: "\<forall>n \<in> set (tasks exporting_plan). \<not> is_cross_dag (node_id n)" by code_simp
  have "(case check_boundary open_siblings site_is_public Load exporting_plan of
      Some (Inr r) \<Rightarrow> True | _ \<Rightarrow> False)" by code_simp
  then obtain r where r: "check_boundary open_siblings site_is_public Load exporting_plan = Some (Inr r)"
    by (auto split: option.splits sum.splits)
  note safe = conjunct1 [OF mp [OF conjunct2 [OF
    no_private_work_in_public_output [OF edited local, of site_is_public Load r]] r]]
  let ?private = "(kept_node ''general'' [])\<lparr> classification := Private_Task \<rparr>"
  let ?public = "(work_node ''public'' [''general''])\<lparr> repo := Some ''site'', title := Some ''feat: x'' \<rparr>"
  have ts: "?private \<in> set (tasks exporting_plan)" "?public \<in> set (tasks exporting_plan)"
    by (simp_all add: exporting_plan_def plain_plan_def)
  have "carries_private site_is_public exporting_plan ?private"
    using ts(1) by (rule carries_private.itself) simp
  moreover have "own_clearance site_is_public ?public = Some Public" by code_simp
  moreover have ids: "node_id ?private = ''general''" "node_id ?public = ''public''"
    "deps ?public = [''general'']" by (simp_all add: kept_node_def work_node_def)
  ultimately have "is_export exporting_plan ''general'' ''public''"
    using safe ts by (metis list.set_intros(1))
  with r show ?thesis by blast
qed

end
