(* ===== verification/Note_Carry.thy ===== *)
theory Note_Carry
  imports Task_Text Cycle_Search
begin

text \<open>
  Planner notes no running turn took (\<open>src/src/note.rs\<close>): a carried note becomes an entry of
  its node's planner context, and a withdrawn one is taken out of it again. The entries of a
  context are the parts of one text between blank lines; \<open>entry_of\<close> keeps a note's own blank
  lines from reading as that separator.
\<close>

section \<open>Entries\<close>

definition carried_separator :: str where
  "carried_separator = [nl, nl]"

text \<open>\<open>str::contains\<close>, \<open>str::replace\<close> and \<open>str::split\<close> at the separator.\<close>

fun occurs :: "str \<Rightarrow> str \<Rightarrow> bool" where
  "occurs p [] \<longleftrightarrow> p = []"
| "occurs p (x # xs) \<longleftrightarrow> starts_with p (x # xs) \<or> occurs p xs"

fun replace_pairs :: "str \<Rightarrow> str" where
  "replace_pairs (x # y # r) =
     (if x = nl \<and> y = nl then nl # CHR '' '' # nl # replace_pairs r
      else x # replace_pairs (y # r))"
| "replace_pairs s = s"

fun split_entries :: "str \<Rightarrow> str list" where
  "split_entries (x # y # r) =
     (if x = nl \<and> y = nl then [] # split_entries r
      else (case split_entries (y # r) of
              [] \<Rightarrow> [[x]]
            | w # ws \<Rightarrow> (x # w) # ws))"
| "split_entries s = [s]"

fun nl_pairs :: "str \<Rightarrow> nat" where
  "nl_pairs (x # y # r) = (if x = nl \<and> y = nl then 1 else 0) + nl_pairs (y # r)"
| "nl_pairs s = 0"

lemma occurs_Cons2 [simp]:
  "occurs carried_separator (x # y # r) \<longleftrightarrow>
     (x = nl \<and> y = nl) \<or> occurs carried_separator (y # r)"
  by (auto simp: carried_separator_def starts_with_def)

lemma occurs_short [simp]:
  "\<not> occurs carried_separator []" "\<not> occurs carried_separator [x]"
  by (simp_all add: carried_separator_def starts_with_def)

declare occurs.simps [simp del]

lemma space_not_nl [simp]: "CHR '' '' \<noteq> nl" "nl \<noteq> CHR '' ''"
  by (simp_all add: nl_def)

lemma nl_pairs_space [simp]:
  "nl_pairs (CHR '' '' # s) = nl_pairs s"
  by (cases s) simp_all

lemma nl_pairs_Cons_le: "nl_pairs s \<le> nl_pairs (x # s)"
  by (cases s) simp_all

lemma nl_pairs_nl_Cons: "nl_pairs (nl # s) \<le> Suc (nl_pairs s)"
  by (cases s) simp_all

lemma hd_replace_pairs: "hd (replace_pairs (y # r)) = y"
  by (cases r) simp_all

lemma replace_pairs_Cons: "\<exists>t. replace_pairs (y # r) = y # t"
  by (cases r) simp_all

lemma nl_pairs_replace_le: "nl_pairs (replace_pairs s) \<le> nl_pairs s"
proof (induction s rule: replace_pairs.induct)
  case (1 x y r)
  obtain t where t: "replace_pairs (y # r) = y # t" using replace_pairs_Cons by blast
  show ?case
  proof (cases "x = nl \<and> y = nl")
    case True
    have "nl_pairs (nl # replace_pairs r) \<le> Suc (nl_pairs r)"
      using nl_pairs_nl_Cons 1(1) [OF True] by (meson Suc_le_mono le_trans)
    with True nl_pairs_Cons_le [of r nl] show ?thesis by simp
  next
    case False
    with 1(2) [OF False] t show ?thesis by auto
  qed
qed simp_all

lemma nl_pairs_replace_less:
  "occurs carried_separator s \<Longrightarrow> nl_pairs (replace_pairs s) < nl_pairs s"
proof (induction s rule: replace_pairs.induct)
  case (1 x y r)
  show ?case
  proof (cases "x = nl \<and> y = nl")
    case True
    show ?thesis
    proof (cases r)
      case (Cons z q)
      obtain t where t: "replace_pairs r = z # t" using replace_pairs_Cons Cons by blast
      have "nl_pairs (z # t) \<le> nl_pairs r" using nl_pairs_replace_le [of r] t by simp
      with True Cons t show ?thesis by simp
    qed (use True in simp)
  next
    case False
    obtain t where t: "replace_pairs (y # r) = y # t" using replace_pairs_Cons by blast
    with 1(2) [OF False] 1(3) False show ?thesis by auto
  qed
qed simp_all

function close_blanks :: "str \<Rightarrow> str" where
  "close_blanks s =
     (if occurs carried_separator s then close_blanks (replace_pairs s) else s)"
  by auto
termination
  by (relation "measure nl_pairs") (simp_all add: nl_pairs_replace_less)

declare close_blanks.simps [simp del]

definition entry_of :: "str \<Rightarrow> str" where
  "entry_of t = close_blanks (trim t)"

definition reads_alike :: "str \<Rightarrow> str \<Rightarrow> bool" where
  "reads_alike one other \<longleftrightarrow> entry_of one = entry_of other"

section \<open>Carrying and withdrawing\<close>

definition with_carried :: "str option \<Rightarrow> str \<Rightarrow> str" where
  "with_carried held t =
     (case held of
        Some c \<Rightarrow> if blank c then entry_of t else c @ carried_separator @ entry_of t
      | None \<Rightarrow> entry_of t)"

text \<open>The positions of the entries reading as \<open>e\<close>, in order.\<close>

fun alike_at :: "nat \<Rightarrow> str \<Rightarrow> str list \<Rightarrow> nat list" where
  "alike_at i e [] = []"
| "alike_at i e (x # xs) = (if x = e then [i] else []) @ alike_at (Suc i) e xs"

definition without_carried :: "str \<Rightarrow> str \<Rightarrow> u32 \<Rightarrow> str option" where
  "without_carried c t alike_after =
     (let e = entry_of t; entries = split_entries c; alike = rev (alike_at 0 e entries)
      in if unat alike_after < length alike
         then (let at = alike ! unat alike_after;
                   left = join carried_separator (take at entries @ drop (Suc at) entries)
               in if blank left then None else Some left)
         else Some c)"

section \<open>What an entry is\<close>

lemma close_blanks_no_pair: "\<not> occurs carried_separator (close_blanks s)"
proof (induction s rule: close_blanks.induct)
  case (1 s)
  then show ?case by (subst close_blanks.simps) auto
qed

lemma last_replace_pairs: "last (replace_pairs s) = last s"
proof (induction s rule: replace_pairs.induct)
  case (1 x y r)
  then show ?case
  proof (cases "x = nl \<and> y = nl")
    case True
    show ?thesis
    proof (cases r)
      case (Cons z q)
      obtain t where "replace_pairs r = z # t" using replace_pairs_Cons Cons by blast
      with 1(1) [OF True] True Cons show ?thesis by simp
    qed (use True in simp)
  next
    case False
    obtain t where "replace_pairs (y # r) = y # t" using replace_pairs_Cons by blast
    with 1(2) [OF False] False show ?thesis by auto
  qed
qed simp_all

lemma replace_pairs_Nil [simp]: "replace_pairs s = [] \<longleftrightarrow> s = []"
  by (cases s rule: replace_pairs.cases) auto

lemma close_blanks_last: "last (close_blanks s) = last s"
proof (induction s rule: close_blanks.induct)
  case (1 s)
  then show ?case by (subst close_blanks.simps) (simp add: last_replace_pairs)
qed

lemma close_blanks_Nil [simp]: "close_blanks s = [] \<longleftrightarrow> s = []"
proof (induction s rule: close_blanks.induct)
  case (1 s)
  then show ?case by (subst close_blanks.simps) auto
qed

lemma close_blanks_hd: "hd (close_blanks s) = hd s"
proof (induction s rule: close_blanks.induct)
  case (1 s)
  have "hd (replace_pairs s) = hd s" by (cases s rule: replace_pairs.cases) auto
  with 1 show ?case by (subst close_blanks.simps) auto
qed

lemma trim_last: "\<not> blank t \<Longrightarrow> \<not> is_space (last (trim t))"
proof -
  assume "\<not> blank t"
  then have some: "dropWhile is_space (rev (trim_start t)) \<noteq> []"
    by (simp only: blank_def trim_def trim_end_def rev_is_Nil_conv not_False_eq_True)
  from hd_dropWhile [OF some] some show ?thesis
    by (simp only: trim_def trim_end_def last_rev not_False_eq_True)
qed

lemma nl_is_space [simp]: "is_space nl"
  by (simp add: is_space_def nl_def code_point_def)

lemma entry_of_ends: "\<not> blank t \<Longrightarrow> entry_of t \<noteq> [] \<and> \<not> is_space (last (entry_of t))"
  using trim_last by (simp add: entry_of_def close_blanks_last) (simp add: blank_def)

lemma entry_not_blank: "\<not> blank t \<Longrightarrow> \<not> blank (entry_of t)"
  using entry_of_ends [of t] last_in_set by (auto simp: blank_iff_all_space)

lemma entry_no_pair [simp]: "\<not> occurs carried_separator (entry_of t)"
  by (simp add: entry_of_def close_blanks_no_pair)

section \<open>Splitting and joining\<close>

lemma split_entries_nonempty [simp]: "split_entries s \<noteq> []"
  by (cases s rule: split_entries.cases) (auto split: list.split)

lemma split_no_pair: "\<not> occurs carried_separator s \<Longrightarrow> split_entries s = [s]"
  by (induction s rule: split_entries.induct) auto

lemma join_split: "join carried_separator (split_entries s) = s"
proof (induction s rule: split_entries.induct)
  case (1 x y r)
  show ?case
  proof (cases "x = nl \<and> y = nl")
    case True
    from 1(1) [OF True] obtain w ws where "split_entries r = w # ws" by (cases "split_entries r") auto
    with True 1(1) [OF True] show ?thesis by (simp add: carried_separator_def)
  next
    case False
    obtain w ws where w: "split_entries (y # r) = w # ws"
      by (cases "split_entries (y # r)") auto
    with False 1(2) [OF False] show ?thesis by (cases ws) auto
  qed
qed simp_all

lemma split_carried:
  assumes "c \<noteq> []" "last c \<noteq> nl"
  shows "split_entries (c @ carried_separator @ e) = split_entries c @ split_entries e"
  using assms
proof (induction c rule: split_entries.induct)
  case (1 x y r)
  show ?case
  proof (cases "x = nl \<and> y = nl")
    case True
    with "1.prems" have "r \<noteq> []" "last r \<noteq> nl" by (auto split: if_splits)
    with True 1(1) [OF True] show ?thesis by simp
  next
    case False
    obtain w ws where w: "split_entries (y # r) = w # ws"
      by (cases "split_entries (y # r)") auto
    have "split_entries (y # r @ carried_separator @ e) = (w # ws) @ split_entries e"
      using 1(2) [OF False] "1.prems" w by simp
    with False w show ?thesis by auto
  qed
qed (simp_all add: carried_separator_def split: list.split)

lemma alike_at_append:
  "alike_at i e (xs @ ys) = alike_at i e xs @ alike_at (i + length xs) e ys"
  by (induction xs arbitrary: i) auto

lemma length_alike_at: "length (alike_at i e xs) = length (filter (\<lambda>x. x = e) xs)"
  by (induction xs arbitrary: i) auto

lemma alike_at_nth:
  assumes "k = length (filter (\<lambda>x. x = e) ys)"
  shows "k < length (rev (alike_at 0 e (xs @ e # ys)))"
    "rev (alike_at 0 e (xs @ e # ys)) ! k = length xs"
  using assms by (simp_all add: alike_at_append length_alike_at nth_append)

section \<open>A withdrawal undoes a carrying\<close>

text \<open>
  A context a carried note can be told from: nothing, or a text that is not blank and does
  not end in a newline. Every context this module writes is one.
\<close>

definition separable :: "str option \<Rightarrow> bool" where
  "separable held \<longleftrightarrow> (case held of None \<Rightarrow> True | Some c \<Rightarrow> \<not> blank c \<and> last c \<noteq> nl)"

definition entries_of :: "str option \<Rightarrow> str list" where
  "entries_of held = (case held of None \<Rightarrow> [] | Some c \<Rightarrow> split_entries c)"

definition carry :: "str \<Rightarrow> str option \<Rightarrow> str option" where
  "carry t held = Some (with_carried held t)"

lemma carry_step:
  assumes "separable held" "\<not> blank t"
  shows "separable (carry t held)" "entries_of (carry t held) = entries_of held @ [entry_of t]"
proof -
  have e: "entry_of t \<noteq> []" "last (entry_of t) \<noteq> nl" "\<not> blank (entry_of t)"
    using entry_of_ends [OF assms(2)] entry_not_blank [OF assms(2)] nl_is_space by metis+
  show "separable (carry t held)"
    using assms e by (cases held) (auto simp: separable_def carry_def with_carried_def blank_iff_all_space)
  show "entries_of (carry t held) = entries_of held @ [entry_of t]"
  proof (cases held)
    case (Some c)
    with assms have "c \<noteq> []" "last c \<noteq> nl" "\<not> blank c" by (auto simp: separable_def)
    with Some split_carried [of c "entry_of t"] show ?thesis
      by (simp add: carry_def entries_of_def with_carried_def split_no_pair)
  qed (simp add: carry_def entries_of_def with_carried_def split_no_pair)
qed

lemma carries_entries:
  assumes "separable held" "\<forall>t \<in> set ts. \<not> blank t"
  shows "separable (fold carry ts held)"
    "entries_of (fold carry ts held) = entries_of held @ map entry_of ts"
proof -
  have "separable (fold carry ts held) \<and>
      entries_of (fold carry ts held) = entries_of held @ map entry_of ts"
    using assms
  proof (induction ts arbitrary: held)
    case (Cons t ts)
    then show ?case using carry_step [of held t] by simp
  qed simp
  then show "separable (fold carry ts held)"
    "entries_of (fold carry ts held) = entries_of held @ map entry_of ts" by blast+
qed

lemma context_of_entries:
  "separable held \<Longrightarrow>
     (let left = join carried_separator (entries_of held)
      in if blank left then None else Some left) = held"
  by (cases held) (auto simp: entries_of_def separable_def join_split Let_def)

lemma withdrawn_from_carried:
  assumes "separable held" "\<forall>t \<in> set (before @ t # after). \<not> blank t"
    and "fold carry (before @ t # after) held = Some c"
    and "unat alike_after = length (filter (reads_alike t) after)"
  shows "without_carried c t alike_after = fold carry (before @ after) held"
proof -
  define E where "E = entries_of held @ map entry_of before"
  have entries: "split_entries c = E @ entry_of t # map entry_of after"
    using carries_entries(2) [OF assms(1,2)] assms(3) by (simp add: entries_of_def E_def)
  have "unat alike_after = length (filter (\<lambda>x. x = entry_of t) (map entry_of after))"
    unfolding assms(4) by (induction after) (auto simp: reads_alike_def)
  note at = alike_at_nth [OF this, of E]
  have rest: "\<forall>t \<in> set (before @ after). \<not> blank t" using assms(2) by auto
  have "without_carried c t alike_after =
      (let left = join carried_separator (E @ map entry_of after)
       in if blank left then None else Some left)"
    unfolding without_carried_def Let_def entries using at by simp
  also have "E @ map entry_of after = entries_of (fold carry (before @ after) held)"
    using carries_entries(2) [OF assms(1) rest] by (simp add: E_def)
  finally show ?thesis
    using context_of_entries [OF carries_entries(1) [OF assms(1) rest]] by simp
qed

text \<open>
  However many notes were carried onto a node, before it and since, withdrawing one of
  them, with \<open>alike_after\<close> counting the later notes that read the same, leaves exactly the
  planner context the node would have had were that note never carried.
\<close>

lemma withdrawal_undoes_the_carrying:
  assumes "separable held" "\<forall>t \<in> set (before @ t # after). \<not> blank t"
    and "fold carry (before @ t # after) held = Some c"
    and "unat alike_after = length (filter (reads_alike t) after)"
  shows "without_carried c t alike_after = fold carry (before @ after) held"
  using assms by (rule withdrawn_from_carried)

text \<open>
  A note carried onto a context that ends in a newline, as a block scalar of a plan does,
  is not found again: the separator is read one character early, so the withdrawal leaves the
  context, with the withdrawn note in it, unchanged.
\<close>

lemma withdrawal_misses_after_newline:
  "without_carried (with_carried (Some (''seen'' @ [nl])) ''note'') ''note'' 0 =
     Some (with_carried (Some (''seen'' @ [nl])) ''note'')"
  by code_simp

end
