(* ===== verification/Edit_Ops.thy ===== *)
theory Edit_Ops
  imports Note_Carry Boundary
begin

text \<open>
  The operations a live edit is journalled as (\<open>src/src/edits.rs\<close>): what each does to the graph
  (\<open>apply\<close>) and to what a compile reads of the run (\<open>advance\<close> over a \<open>frontier\<close>), with the
  vocabularies of \<open>channel.rs\<close> and \<open>note.rs\<close> they carry and the export edges of \<open>boundary.rs\<close>
  read through a retry.

  A node's JSON form is serde's, derived from the struct's attributes, and is not modelled:
  the two directions are fields of \<open>edit_world\<close>, the record of everything outside the sources
  an edit consults.
\<close>

section \<open>JSON documents\<close>

text \<open>\<open>serde_json::Value\<close>; a number is the text it is written as.\<close>

datatype json =
    JNull | JBool bool | JNumber str | JString str | JArray "json list" | JObject "(str \<times> json) list"

definition retired_fields :: "str list" where
  "retired_fields = [''done_when'', ''verify_via_ci'']"

text \<open>\<open>retired_field_refusal\<close>: the first retired field a document names, and whose it is.\<close>

fun retired_field :: "json \<Rightarrow> (str option \<times> str) option"
  and retired_in_values :: "(str \<times> json) list \<Rightarrow> (str option \<times> str) option"
  and retired_in_items :: "json list \<Rightarrow> (str option \<times> str) option" where
  "retired_field (JObject m) =
     (case find (\<lambda>f. bget m f \<noteq> None) retired_fields of
        Some f \<Rightarrow> Some (case bget m ''id'' of Some (JString k) \<Rightarrow> Some k | _ \<Rightarrow> None, f)
      | None \<Rightarrow> retired_in_values m)"
| "retired_field (JArray items) = retired_in_items items"
| "retired_field _ = None"
| "retired_in_values [] = None"
| "retired_in_values ((_, v) # m) = or_else (retired_field v) (retired_in_values m)"
| "retired_in_items [] = None"
| "retired_in_items (v # vs) = or_else (retired_field v) (retired_in_items vs)"

section \<open>Vocabularies\<close>

type_synonym u64 = "64 word"

text \<open>\<open>channel::Author\<close>: a word; the planner is one of them and the default.\<close>

type_synonym author = str

definition author_planner :: author where
  "author_planner = ''planner''"

definition is_planner :: "author \<Rightarrow> bool" where
  "is_planner a \<longleftrightarrow> a = author_planner"

definition author_word_ok :: "str \<Rightarrow> bool" where
  "author_word_ok w \<longleftrightarrow>
     1 \<le> byte_len w \<and> byte_len w \<le> 64 \<and> (case w of [] \<Rightarrow> False | c # _ \<Rightarrow> is_ascii_lower c) \<and>
     list_all (\<lambda>c. is_ascii_lower c \<or> is_ascii_digit c \<or> c = CHR ''-'') w"

datatype dependents = Drop_Dependents | Detach

datatype settle_outcome = Settle_Done | Settle_Failed

fun settle_outcome_word :: "settle_outcome \<Rightarrow> str" where
  "settle_outcome_word Settle_Done = ''done''"
| "settle_outcome_word Settle_Failed = ''failed''"

record rework_comment =
  comment_id :: str
  comment_url :: str

record stated_release =
  release_target :: str
  release_version :: str

datatype delivery = Live_Delivery | Deferred

datatype party = Worker | Supervisor

datatype note_turn = Interrupted | TurnEnd

datatype reached =
    Queued
  | ReachedWorker "note_turn option"
  | ReachedSupervisor "note_turn option"
  | JudgedWith str
  | CarriedOver "str option"

fun shown_at_delivery :: "reached \<Rightarrow> party list" where
  "shown_at_delivery (ReachedSupervisor _) = [Supervisor]"
| "shown_at_delivery (JudgedWith _) = [Supervisor]"
| "shown_at_delivery _ = []"

fun routed_to :: "reached \<Rightarrow> party list" where
  "routed_to (ReachedWorker _) = [Worker, Supervisor]"
| "routed_to Queued = [Worker, Supervisor]"
| "routed_to (ReachedSupervisor _) = [Worker]"
| "routed_to _ = []"

datatype withdrawn_from = From_Live | From_Carried

section \<open>Landings a settle states\<close>

datatype stated_landing = Commit str | ChangeRequest str

text \<open>\<open>vcs::usable\<close>; \<open>limit\<close> is \<open>onemessagebus\<close>'s \<open>MAX_PAYLOAD_TEXT_BYTES\<close>.\<close>

definition usable :: "nat \<Rightarrow> str \<Rightarrow> str option" where
  "usable limit v =
     (if v = [] \<or> limit \<le> byte_len v then None
      else if list_ex (\<lambda>c. is_space c \<or> is_control c) v then None
      else Some v)"

definition is_object_name :: "str \<Rightarrow> bool" where
  "is_object_name l \<longleftrightarrow> 7 \<le> byte_len l \<and> byte_len l \<le> 64 \<and> list_all is_ascii_hexdigit l"

definition parse_landing :: "nat \<Rightarrow> (str \<Rightarrow> bool) \<Rightarrow> str \<Rightarrow> stated_landing option" where
  "parse_landing limit is_url l =
     (case usable limit l of
        None \<Rightarrow> None
      | Some u \<Rightarrow> if is_object_name u then Some (Commit u)
                  else if is_url u then Some (ChangeRequest u) else None)"

fun landing_reference :: "stated_landing \<Rightarrow> str" where
  "landing_reference (Commit r) = r"
| "landing_reference (ChangeRequest r) = r"

fun landing_tier :: "stated_landing \<Rightarrow> str" where
  "landing_tier (Commit _) = ''stated-commit''"
| "landing_tier (ChangeRequest _) = ''stated-change-request''"

section \<open>Operations\<close>

datatype (plugins only: code) operation =
    NodeSetsReplaced str "str list"
  | RunNodeSetsReplaced "str list"
  | NodeAdded node "str option"                \<comment> \<open>the node, and what it retries\<close>
  | EdgeAdded str str "str option"             \<comment> \<open>from, to, target\<close>
  | EdgeRemoved str str                        \<comment> \<open>from, to\<close>
  | NodeDropped str dependents
  | Reparent str "str list" "str list"         \<comment> \<open>node, from, to\<close>
  | RetryRequested str str "str list"          \<comment> \<open>node, replacement, reset\<close>
  | NodeParked str author "str option"
  | NodeRequeued str "json bmap option"
  | HumanAttested str
  | CompletionRequested str
  | FindingRaised "str option" str bool
  | SettledFromEvidence str settle_outcome str
  | LandingFromEvidence str str
  | TaskAmended str str
  | ContextAdded str str delivery
  | NoteDelivered str str str "str option" reached "party list" "party list" "u64 option" "u32 option"
  | NoteWithdrawn str u64 u32 str withdrawn_from str u32
  | ReworkRequested str str str str "rework_comment list" "str option"
  | Retitled str "str option" str str          \<comment> \<open>node, from, to, reason\<close>
  | DeclineApplied str "rework_comment list" str "str list"

fun operation_kind :: "operation \<Rightarrow> str" where
  "operation_kind (NodeSetsReplaced _ _) = ''node-sets-replaced''"
| "operation_kind (RunNodeSetsReplaced _) = ''run-node-sets-replaced''"
| "operation_kind (NodeAdded _ _) = ''node-added''"
| "operation_kind (EdgeAdded _ _ _) = ''edge-added''"
| "operation_kind (EdgeRemoved _ _) = ''edge-removed''"
| "operation_kind (NodeDropped _ _) = ''node-dropped''"
| "operation_kind (Reparent _ _ _) = ''reparent''"
| "operation_kind (RetryRequested _ _ _) = ''retry-requested''"
| "operation_kind (NodeParked _ _ _) = ''node-parked''"
| "operation_kind (NodeRequeued _ _) = ''node-requeued''"
| "operation_kind (HumanAttested _) = ''human-attested''"
| "operation_kind (CompletionRequested _) = ''completion-requested''"
| "operation_kind (FindingRaised _ _ _) = ''finding-raised''"
| "operation_kind (SettledFromEvidence _ _ _) = ''settled-from-evidence''"
| "operation_kind (LandingFromEvidence _ _) = ''landing-from-evidence''"
| "operation_kind (TaskAmended _ _) = ''task-amended''"
| "operation_kind (ContextAdded _ _ _) = ''context-added''"
| "operation_kind (NoteDelivered _ _ _ _ _ _ _ _ _) = ''note-delivered''"
| "operation_kind (NoteWithdrawn _ _ _ _ _ _ _) = ''note-withdrawn''"
| "operation_kind (ReworkRequested _ _ _ _ _ _) = ''rework-requested''"
| "operation_kind (Retitled _ _ _ _) = ''retitled''"
| "operation_kind (DeclineApplied _ _ _ _) = ''decline-applied''"

fun commits_a_change :: "operation \<Rightarrow> bool" where
  "commits_a_change (FindingRaised _ _ _) = False"
| "commits_a_change (CompletionRequested _) = False"
| "commits_a_change _ = True"

section \<open>What an edit consults\<close>

text \<open>
  \<open>node_to_json\<close> and \<open>node_of_json\<close> are serde's two directions; \<open>can_open\<close> is opening a file;
  \<open>assets_ok\<close> is the task store answering \<open>task_assets\<close>; \<open>graph_sets_ok\<close> is the
  \<open>oneagentgraph\<close> loader accepting a graph under a list of overrides; \<open>judge\<close> is the node
  validator hook's verdict.
\<close>

datatype verdict = Pass | Refuse_Verdict | Unjudged

record edit_world =
  w_siblings :: siblings
  w_boundary :: boundary_oracle
  payload_limit :: nat
  node_to_json :: "node \<Rightarrow> json bmap"
  node_of_json :: "json bmap \<Rightarrow> node option"
  can_open :: "str \<Rightarrow> bool"
  assets_ok :: "str \<Rightarrow> bool"
  graph_sets_ok :: "str \<Rightarrow> str list \<Rightarrow> bool"
  judge :: "str \<Rightarrow> str \<Rightarrow> node \<Rightarrow> verdict"

definition strictest :: "classification \<Rightarrow> classification \<Rightarrow> classification" where
  "strictest a b = (if a = Private_Task \<or> b = Private_Task then Private_Task else Public_Task)"

section \<open>Applying an operation to the graph\<close>

text \<open>Assigning \<open>BTreeMap::retain\<close> and \<open>Vec::retain\<close> through \<open>get_mut\<close>.\<close>

definition retain_consumed :: "str list \<Rightarrow> str bmap \<Rightarrow> str bmap" where
  "retain_consumed ds m = filter (\<lambda>(d, _). d \<in> set ds) m"

definition set_deps :: "str list \<Rightarrow> node \<Rightarrow> node" where
  "set_deps ds n = n\<lparr> deps := ds, consumes := retain_consumed ds (consumes n) \<rparr>"

definition remove_dep :: "str \<Rightarrow> node \<Rightarrow> node" where
  "remove_dep d n = n\<lparr> deps := filter (\<lambda>e. e \<noteq> d) (deps n) \<rparr>"

definition add_dep :: "str \<Rightarrow> str option \<Rightarrow> node \<Rightarrow> node" where
  "add_dep d target n =
     n\<lparr> deps := (if d \<in> set (deps n) then deps n else deps n @ [d]),
        consumes := (case target of None \<Rightarrow> consumes n | Some t \<Rightarrow> bput d t (consumes n)) \<rparr>"

definition forget_consumed :: "str \<Rightarrow> node \<Rightarrow> node" where
  "forget_consumed d n = n\<lparr> consumes := bdel d (consumes n) \<rparr>"

definition merge_amend :: "json bmap \<Rightarrow> json bmap \<Rightarrow> json bmap" where
  "merge_amend amend object = fold (\<lambda>(k, v). bput k v) amend object"

definition requeued_node :: "edit_world \<Rightarrow> json bmap option \<Rightarrow> node \<Rightarrow> node option" where
  "requeued_node w amend n =
     map_option (\<lambda>a. a\<lparr> classification := strictest (classification a) (classification n) \<rparr>)
       (node_of_json w
         (merge_amend (case amend of None \<Rightarrow> [] | Some a \<Rightarrow> a)
           (bdel ''parked'' (node_to_json w n))))"

fun apply_op :: "edit_world \<Rightarrow> operation \<Rightarrow> graph \<Rightarrow> graph" where
  "apply_op w (NodeSetsReplaced k s) g = graph_modify k (\<lambda>n. n\<lparr> sets := s \<rparr>) g"
| "apply_op w (NodeAdded n _) g = graph_insert n g"
| "apply_op w (NodeDropped k _) g =
     (let g' = graph_remove k g
      in fold (\<lambda>j. graph_modify j (forget_consumed k)) (order_ids g') g')"
| "apply_op w (Reparent k _ to) g = graph_modify k (set_deps to) g"
| "apply_op w (EdgeRemoved from to) g = graph_modify to (remove_dep from) g"
| "apply_op w (EdgeAdded from to target) g = graph_modify to (add_dep from target) g"
| "apply_op w (NodeParked k _ _) g = graph_modify k (\<lambda>n. n\<lparr> parked := True \<rparr>) g"
| "apply_op w (SettledFromEvidence k _ _) g = graph_modify k (\<lambda>n. n\<lparr> parked := False \<rparr>) g"
| "apply_op w (NodeRequeued k amend) g =
     (case graph_get g k of
        None \<Rightarrow> g
      | Some n \<Rightarrow> (case requeued_node w amend n of None \<Rightarrow> g | Some a \<Rightarrow> graph_insert a g))"
| "apply_op w (TaskAmended k t) g = graph_modify k (\<lambda>n. n\<lparr> amendment := Some t \<rparr>) g"
| "apply_op w (ContextAdded k note d) g =
     (if d = Deferred then graph_modify k (\<lambda>n. n\<lparr> planner_context := Some note \<rparr>) g else g)"
| "apply_op w (NoteWithdrawn k _ _ _ from t alike_after) g =
     (if from = From_Carried
      then graph_modify k (\<lambda>n. n\<lparr> planner_context :=
             (case planner_context n of None \<Rightarrow> None | Some c \<Rightarrow> without_carried c t alike_after) \<rparr>) g
      else g)"
| "apply_op w (NoteDelivered k _ t _ how _ _ _ _) g =
     (case how of
        CarriedOver _ \<Rightarrow>
          graph_modify k (\<lambda>n. n\<lparr> planner_context := Some (with_carried (planner_context n) t) \<rparr>) g
      | _ \<Rightarrow> g)"
| "apply_op w (Retitled k _ to _) g = graph_modify k (\<lambda>n. n\<lparr> title := Some to \<rparr>) g"
| "apply_op w _ g = g"

section \<open>What a compile reads of the run\<close>

record park =
  parked_by :: author
  park_reason :: "str option"

definition default_park :: park where
  "default_park = \<lparr> parked_by = author_planner, park_reason = None \<rparr>"

definition park_of :: "author \<Rightarrow> str option \<Rightarrow> park" where
  "park_of a reason =
     \<lparr> parked_by = a,
       park_reason = (case reason of None \<Rightarrow> None | Some r \<Rightarrow> if blank r then None else Some r) \<rparr>"

record live_dispatch =
  graph_run :: "str option"
  running_for_seconds :: u64

record graph_validation =
  default_graph :: str
  launch_node_sets :: "str list"
  launch_dir :: str

record frontier =
  f_recorded :: "node_status bmap"
  f_attestations :: "str set"
  f_parks :: "park bmap"
  f_in_flight :: "live_dispatch bmap"
  f_node_validator :: "str option"
  f_run_node_sets :: "str list option"
  f_graph_validation :: "graph_validation option"
  f_export_edges :: "export_edge list"
  f_stated_landings :: "stated_landing bmap"
  f_landings :: "landing bmap"
  f_branches :: "str bmap"
  f_change_urls :: "str bmap"
  f_superseded :: "str bmap"
  f_restacking :: "str set"
  f_absorbed :: "str bmap"

definition settled_status :: "settle_outcome \<Rightarrow> node_status" where
  "settled_status s = (if s = Settle_Done then Done else Failed)"

text \<open>
  \<open>edges_now\<close>: an export edge is read at the node that stands for its ends now, following
  every supersession; a cycle of them stops at the first id met twice.
\<close>

lemma latest_measure:
  assumes "bget m k = Some next" "k \<notin> set seen"
  shows "card (fst ` set m - insert k (set seen)) < card (fst ` set m - set seen)"
proof -
  have "k \<in> fst ` set m" using bget_dom [of m k] assms(1) by fastforce
  with assms(2) show ?thesis by (intro psubset_card_mono) auto
qed

function latest :: "str bmap \<Rightarrow> str list \<Rightarrow> str \<Rightarrow> str" where
  "latest m seen k =
     (case bget m k of
        None \<Rightarrow> k
      | Some next \<Rightarrow> if k \<in> set seen then k else latest m (k # seen) next)"
  by auto
termination
  by (relation "measure (\<lambda>(m, seen, k). card (fst ` set m - set seen))")
    (simp_all add: latest_measure)

declare latest.simps [simp del]

definition edges_now :: "export_edge list \<Rightarrow> str bmap \<Rightarrow> export_edge list" where
  "edges_now es m =
     map (\<lambda>e. e\<lparr> edge_from := latest m [] (edge_from e), edge_to := latest m [] (edge_to e) \<rparr>) es"

fun advance_step :: "edit_world \<Rightarrow> operation \<Rightarrow> frontier \<Rightarrow> frontier" where
  "advance_step w (RunNodeSetsReplaced s) f = f\<lparr> f_run_node_sets := Some s \<rparr>"
| "advance_step w (NodeParked k by reason) f =
     f\<lparr> f_parks := bput k (park_of by reason) (f_parks f) \<rparr>"
| "advance_step w (NodeRequeued k _) f =
     f\<lparr> f_parks := bdel k (f_parks f), f_recorded := bdel k (f_recorded f) \<rparr>"
| "advance_step w (Reparent k _ _) f =
     (if bget (f_recorded f) k = Some Waiting
      then f\<lparr> f_recorded := bdel k (f_recorded f) \<rparr> else f)"
| "advance_step w (HumanAttested k) f =
     f\<lparr> f_attestations := insert k (f_attestations f), f_recorded := bput k Done (f_recorded f) \<rparr>"
| "advance_step w (SettledFromEvidence k s _) f =
     f\<lparr> f_recorded := bput k (settled_status s) (f_recorded f), f_parks := bdel k (f_parks f) \<rparr>"
| "advance_step w (LandingFromEvidence k l) f =
     (case parse_landing (payload_limit w) (is_http_url (w_siblings w)) l of
        None \<Rightarrow> f
      | Some stated \<Rightarrow> f\<lparr> f_stated_landings := bput k stated (f_stated_landings f) \<rparr>)"
| "advance_step w (RetryRequested k r _) f =
     f\<lparr> f_superseded := bput k r (f_superseded f),
        f_export_edges := edges_now (f_export_edges f) [(k, r)] \<rparr>"
| "advance_step w _ f = f"

definition advance :: "edit_world \<Rightarrow> operation list \<Rightarrow> frontier \<Rightarrow> frontier" where
  "advance w ops f = fold (advance_step w) ops f"

text \<open>\<open>lineage_root\<close>: the id a chain of replacements started from.\<close>

lemma lineage_measure:
  assumes "find (\<lambda>(_, r). r = at) m = Some (b, r)" "b \<notin> set seen"
  shows "card (fst ` set m - insert b (set seen)) < card (fst ` set m - set seen)"
proof -
  have "(b, r) \<in> set m" using assms(1) by (auto simp: find_Some_iff) (metis nth_mem)
  then have "b \<in> fst ` set m" by force
  with assms(2) show ?thesis by (intro psubset_card_mono) auto
qed

function lineage_up :: "str bmap \<Rightarrow> str list \<Rightarrow> str \<Rightarrow> str" where
  "lineage_up m seen at =
     (case find (\<lambda>(_, r). r = at) m of
        None \<Rightarrow> at
      | Some (before, _) \<Rightarrow> if before \<in> set seen then at else lineage_up m (before # seen) before)"
  by auto
termination
  by (relation "measure (\<lambda>(m, seen, k). card (fst ` set m - set seen))")
    (auto intro: lineage_measure)

declare lineage_up.simps [simp del]

definition lineage_root :: "frontier \<Rightarrow> str \<Rightarrow> str" where
  "lineage_root f k = lineage_up (f_superseded f) [] k"

text \<open>The ids from \<open>lineage_root\<close> down, following \<open>superseded\<close>, each once.\<close>

lemma lineage_down_measure:
  assumes "bget m k = Some next" "next \<notin> set line"
  shows "card (snd ` set m - insert next (set line)) < card (snd ` set m - set line)"
proof -
  have "next \<in> snd ` set m" using bget_Some_in [OF assms(1)] by force
  with assms(2) show ?thesis by (intro psubset_card_mono) auto
qed

function lineage_down :: "str bmap \<Rightarrow> str list \<Rightarrow> str \<Rightarrow> str list" where
  "lineage_down m line at =
     (case bget m at of
        None \<Rightarrow> line
      | Some next \<Rightarrow> if next \<in> set line then line else lineage_down m (line @ [next]) next)"
  by auto
termination
  by (relation "measure (\<lambda>(m, line, at). card (snd ` set m - set line))")
    (simp_all add: lineage_down_measure)

declare lineage_down.simps [simp del]

end
