(* ===== verification/Edit_Command.thy ===== *)
theory Edit_Command
  imports Edit_Ops
begin

text \<open>
  The commands of a live edit (\<open>Command\<close> of \<open>src/src/channel.rs\<close>), the refusals compiling one may
  answer, and the two walks over a node's dependents that drops, retries and reworks make
  (\<open>src/src/edits.rs\<close>). A refusal is \<open>Error::Refused\<close>: its sentence is the constructor and what
  the sentence names are its arguments.
\<close>

section \<open>Commands\<close>

datatype deliver = Deliver_Live | Deliver_TurnEnd | Deliver_Next

datatype (plugins only: code) command =
    Cmd_Review
  | Cmd_Readjust
  | Cmd_SetNodeSets str "str list"
  | Cmd_SetRunNodeSets "str list"
  | Cmd_Add node
  | Cmd_Drop str dependents "str option"
  | Cmd_Reparent str "str list"
  | Cmd_Retry str node
  | Cmd_Cancel str "str option"
  | Cmd_Requeue str "json bmap option"
  | Cmd_Attest str
  | Cmd_Complete str
  | Cmd_Amend str str
  | Cmd_Note str str str "str option" deliver bool "u64 option"
  | Cmd_WithdrawNote str u32 str
  | Cmd_Finding str bool "str option"
  | Cmd_Settle str settle_outcome str "str option" "stated_release option"
  | Cmd_Rework str str str "rework_comment list" "str option" "str option"
      \<comment> \<open>id, reason, instruction, comments, title, replacement\<close>
  | Cmd_Retitle str str str
  | Cmd_Decline str "rework_comment list" str

fun op_of :: "command \<Rightarrow> str" where
  "op_of Cmd_Review = ''review''"
| "op_of Cmd_Readjust = ''readjust''"
| "op_of (Cmd_SetNodeSets _ _) = ''set-node-sets''"
| "op_of (Cmd_SetRunNodeSets _) = ''set-run-node-sets''"
| "op_of (Cmd_Add _) = ''add''"
| "op_of (Cmd_Drop _ _ _) = ''drop''"
| "op_of (Cmd_Reparent _ _) = ''reparent''"
| "op_of (Cmd_Retry _ _) = ''retry''"
| "op_of (Cmd_Cancel _ _) = ''cancel''"
| "op_of (Cmd_Requeue _ _) = ''requeue''"
| "op_of (Cmd_Attest _) = ''attest''"
| "op_of (Cmd_Complete _) = ''complete''"
| "op_of (Cmd_Amend _ _) = ''amend''"
| "op_of (Cmd_Note _ _ _ _ _ _ _) = ''note''"
| "op_of (Cmd_WithdrawNote _ _ _) = ''withdraw-note''"
| "op_of (Cmd_Finding _ _ _) = ''finding''"
| "op_of (Cmd_Settle _ _ _ _ _) = ''settle''"
| "op_of (Cmd_Rework _ _ _ _ _ _) = ''rework''"
| "op_of (Cmd_Retitle _ _ _) = ''retitle''"
| "op_of (Cmd_Decline _ _ _) = ''decline''"

section \<open>Refusals\<close>

datatype busy = Restacking str str | Dispatching str str live_dispatch   \<comment> \<open>whose, node\<close>

datatype (plugins only: code) edit_refusal =
    Needs_Validation_Context
  | Graph_Reference_Blank str
  | Graph_Unreadable str
  | Assets_Unreadable str
  | No_Node str str                        \<comment> \<open>op, id\<close>
  | Node_Settled str
  | Invalid_Entry str
  | Requested_Alone str
  | Already_Exists str
  | States_Task_Record str str             \<comment> \<open>op, id\<close>
  | Breaks_The_Plan refusal
  | Crosses_The_Boundary refusal
  | Already_Started str
  | Empty_Reason str str                   \<comment> \<open>op, id\<close>
  | Last_Anchor
  | Not_Retryable str
  | Replacement_Unnamed str                \<comment> \<open>op\<close>
  | Replacement_Not_New str str            \<comment> \<open>op, id\<close>
  | Two_Branches str
  | Already_Parked str
  | Not_Cancellable str node_status
  | Not_Parked str
  | Parked_By_Another str park
  | Still_In_Flight str str live_dispatch  \<comment> \<open>op, id\<close>
  | Cannot_Amend str "str list"
  | Names_A_Retired_Field "str option" str
  | Amended_Invalid str
  | Landing_Unreadable str str
  | Version_Not_A_Word str str
  | Release_Without_Landing str
  | No_Evidence str
  | Settles_Nothing str
  | Message_Empty
  | Already_Attested str
  | Not_Attestable str
  | Deadline_Zero str
  | Deadline_Waits_On_None str
  | Reaches_Nobody str
  | Amendment_Is_Blank str
  | Settled_Done str str                   \<comment> \<open>op, id\<close>
  | Not_A_Lifecycle_Node str str           \<comment> \<open>op, id\<close>
  | Busy_Around str busy
  | Not_Settled_Done str "node_status option"
  | Change_Landed str
  | Merged_Into str str
  | No_Branch_Recorded str
  | Field_Blank str str str                \<comment> \<open>op, id, field\<close>
  | Title_Refused str str sentence         \<comment> \<open>op, id\<close>
  | No_Open_Change str str                 \<comment> \<open>op, id\<close>
  | No_Comment_Named str
  | Not_A_Comment str
  | Comment_Named_Twice str str
  | No_Agent_Step_For_Sets str
  | Sets_Refused str
  | Turns_Refused sentence
  | Validator_Refused str str              \<comment> \<open>op, id\<close>
  | Validator_Gave_No_Verdict str str      \<comment> \<open>op, id\<close>

type_synonym compiled = "edit_refusal + graph \<times> operation list"

definition refused_when :: "bool \<Rightarrow> edit_refusal \<Rightarrow> edit_refusal + unit" where
  "refused_when b e = (if b then Inl e else Inr ())"

lemma refused_when_Inr [simp]: "refused_when b e = Inr u \<longleftrightarrow> \<not> b"
  by (simp add: refused_when_def)

abbreviation guarded :: "(edit_refusal + unit) list \<Rightarrow> edit_refusal + 'a \<Rightarrow> edit_refusal + 'a" where
  "guarded gs r \<equiv> and_then (first_refusal gs) (\<lambda>_. r)"

definition settled_for_sets :: "frontier \<Rightarrow> str \<Rightarrow> bool" where
  "settled_for_sets f k \<longleftrightarrow>
     (case bget (f_recorded f) k of None \<Rightarrow> False | Some s \<Rightarrow> s \<in> {Done, Failed, Skipped})"

section \<open>Walking the dependents\<close>

definition listed_ids :: "graph \<Rightarrow> str set" where
  "listed_ids g = set (map node_id (graph_iter g))"

lemma dependents_listed: "set (dependents_of g k) \<subseteq> listed_ids g"
  by (auto simp: dependents_of_def listed_ids_def)

lemma finite_listed [simp]: "finite (listed_ids g)"
  by (simp add: listed_ids_def)

text \<open>
  \<open>while let Some(next) = pending.pop()\<close>: a stack, its top first here, of ids to visit; one not
  seen before is remembered and its dependents are pushed.
\<close>

lemma visit_measure:
  assumes "c \<notin> set seen"
  shows "card ((listed_ids g \<union> (set (dependents_of g c) \<union> set rest)) - insert c (set seen))
       < card ((listed_ids g \<union> insert c (set rest)) - set seen)"
  using assms dependents_listed [of g c] by (intro psubset_card_mono) auto

function visit_dependents :: "graph \<Rightarrow> str list \<Rightarrow> str list \<Rightarrow> str list" where
  "visit_dependents g seen [] = seen"
| "visit_dependents g seen (c # rest) =
     (if c \<in> set seen then visit_dependents g seen rest
      else visit_dependents g (seen @ [c]) (rev (dependents_of g c) @ rest))"
  by pat_completeness auto
termination
proof (relation "measures [\<lambda>(g, seen, pending). card ((listed_ids g \<union> set pending) - set seen),
                           \<lambda>(g, seen, pending). length pending]", goal_cases)
  case (2 g seen c rest)
  have "(listed_ids g \<union> set rest) - set seen = (listed_ids g \<union> set (c # rest)) - set seen"
    using 2 by auto
  then show ?case by simp
next
  case (3 g seen c rest)
  then show ?case using visit_measure [OF 3, of g rest] by simp
qed simp

declare visit_dependents.simps(2) [simp del]

text \<open>The retry's walk: an id is remembered when it is pushed.\<close>

fun push_new :: "str list \<Rightarrow> str list \<times> str list \<Rightarrow> str list \<times> str list" where
  "push_new [] st = st"
| "push_new (d # ds) (reset, pending) =
     push_new ds (if d \<in> set reset then (reset, pending) else (reset @ [d], d # pending))"

lemma push_new_grows: "push_new ds (reset, pending) = (reset', pending') \<Longrightarrow> set reset' = set reset \<union> set ds"
  by (induction ds arbitrary: reset pending) (auto split: if_splits)

lemma push_new_same:
  "push_new ds (reset, pending) = (reset', pending') \<Longrightarrow> set ds \<subseteq> set reset \<Longrightarrow>
     reset' = reset \<and> pending' = pending"
  by (induction ds arbitrary: reset pending) auto

lemma push_new_measure:
  assumes "push_new (dependents_of g p) (reset, rest) = (reset', pending')"
  shows "card (listed_ids g - set reset') < card (listed_ids g - set reset)
       \<or> (reset' = reset \<and> pending' = rest)"
proof (cases "set (dependents_of g p) \<subseteq> set reset")
  case True
  with push_new_same [OF assms] show ?thesis by simp
next
  case False
  then obtain d where "d \<in> set (dependents_of g p)" "d \<notin> set reset" by blast
  then have "listed_ids g - set reset' \<subset> listed_ids g - set reset"
    using push_new_grows [OF assms] dependents_listed [of g p] by blast
  then have "card (listed_ids g - set reset') < card (listed_ids g - set reset)"
    by (rule psubset_card_mono [rotated]) simp
  then show ?thesis ..
qed

function reset_dependents :: "graph \<Rightarrow> str list \<Rightarrow> str list \<Rightarrow> str list" where
  "reset_dependents g reset [] = reset"
| "reset_dependents g reset (p # rest) =
     (case push_new (dependents_of g p) (reset, rest) of
        (reset', pending') \<Rightarrow> reset_dependents g reset' pending')"
  by pat_completeness auto
termination
proof (relation "measures [\<lambda>(g, reset, pending). card (listed_ids g - set reset),
                           \<lambda>(g, reset, pending). length pending]", goal_cases)
  case (2 g reset p rest reset' pending')
  then have "push_new (dependents_of g p) (reset, rest) = (reset', pending')" by (simp add: eq_commute)
  from push_new_measure [OF this] show ?case by auto
qed simp

declare reset_dependents.simps(2) [simp del]

end
