(* ===== verification/Edit_Compile.thy ===== *)
theory Edit_Compile
  imports Edit_Command
begin

text \<open>
  Compiling a live-edit command against the current graph (\<open>src/src/edits.rs\<close>): one definition
  per command, in the source's order. Each takes the graph and answers the changed graph with
  the operations the journal keeps, or the refusal; \<open>compile\<close> is the whole of an edit, with
  the checks the edited graph passes before the change is kept.
\<close>

section \<open>Guards several commands share\<close>

definition refuse_stated_record :: "str \<Rightarrow> node \<Rightarrow> edit_refusal + unit" where
  "refuse_stated_record op n = refused_when (task_record n \<noteq> None) (States_Task_Record op (node_id n))"

definition refuse_breaking_c6b :: "node \<Rightarrow> edit_refusal + unit" where
  "refuse_breaking_c6b n = map_err Breaks_The_Plan (check_node_criteria n)"

definition valid_node :: "edit_world \<Rightarrow> node \<Rightarrow> edit_refusal + unit" where
  "valid_node w n = map_err Breaks_The_Plan (check_node (w_siblings w) n)"

definition awaits_attestation :: "node \<Rightarrow> frontier \<Rightarrow> bool" where
  "awaits_attestation n f \<longleftrightarrow>
     kind n = Human \<and> bget (f_recorded f) (node_id n) = Some Waiting \<and> node_id n \<notin> f_attestations f"

definition edge_ops :: "str \<Rightarrow> str bmap \<Rightarrow> str list \<Rightarrow> operation list" where
  "edge_ops k consumed ds = map (\<lambda>d. EdgeAdded d k (bget consumed d)) ds"

text \<open>The text a node's dispatch receives, with no release references and no manager notes.\<close>

definition planner_context_heading :: str where
  "planner_context_heading = ''## Planner context''"

definition observed_state :: str where
  "observed_state = ''This reports observed state and adds no acceptance criteria.''"

definition render_task :: "str \<Rightarrow> str option \<Rightarrow> str option \<Rightarrow> str" where
  "render_task t amend note =
     (let t' = (case amend of
                  None \<Rightarrow> t
                | Some a \<Rightarrow> if trim a = [] then t else amended t (trim a))
      in case note of
           None \<Rightarrow> t'
         | Some c \<Rightarrow> if trim c = [] then t'
             else trim_end t' @ [nl, nl] @ planner_context_heading @ [nl] @ observed_state
                  @ [nl, nl] @ trim c @ [nl])"

definition rendered_task :: "node \<Rightarrow> str" where
  "rendered_task n =
     render_task (case task n of None \<Rightarrow> [] | Some t \<Rightarrow> t) (amendment n) (planner_context n)"

section \<open>Adding, dropping and reparenting\<close>

definition compile_add :: "edit_world \<Rightarrow> graph \<Rightarrow> node \<Rightarrow> compiled" where
  "compile_add w g n =
     guarded
       [refused_when (graph_contains g (node_id n)) (Already_Exists (node_id n)),
        refuse_stated_record ''add'' n,
        valid_node w n,
        refuse_breaking_c6b n]
       (Inr (graph_insert n g,
             NodeAdded n None # edge_ops (node_id n) (consumes n) (deps n)))"

definition compile_reparent :: "graph \<Rightarrow> frontier \<Rightarrow> str \<Rightarrow> str list \<Rightarrow> compiled" where
  "compile_reparent g f k ds =
     (case graph_get g k of
        None \<Rightarrow> Inl (No_Node ''reparent'' k)
      | Some n \<Rightarrow>
          guarded [refused_when (bget (f_recorded f) k \<noteq> None \<and> \<not> awaits_attestation n f)
                     (Already_Started k)]
            (Inr (graph_modify k (set_deps ds) g,
                  map (\<lambda>d. EdgeRemoved d k) (deps n) @ edge_ops k (consumes n) ds
                  @ [Reparent k (deps n) ds])))"

definition last_anchor :: "graph \<Rightarrow> frontier \<Rightarrow> str \<Rightarrow> node \<Rightarrow> bool" where
  "last_anchor g f k target \<longleftrightarrow>
     (case repo target of
        None \<Rightarrow> False
      | Some r \<Rightarrow>
          list_ex (\<lambda>d. (case graph_get g d of None \<Rightarrow> None | Some n \<Rightarrow> repo n) = Some r \<and>
                       bget (f_recorded f) d \<noteq> Some Done) (dependents_of g k) \<and>
          \<not> list_ex (\<lambda>n. node_id n \<noteq> k \<and> repo n = Some r \<and>
                         bget (f_recorded f) (node_id n) = Some Done) (graph_iter g))"

definition detach_dep :: "str \<Rightarrow> node \<Rightarrow> node" where
  "detach_dep k n = forget_consumed k (remove_dep k n)"

text \<open>\<open>removed\<close> is a \<open>BTreeSet\<close>: its ids in order.\<close>

definition in_order :: "str list \<Rightarrow> str list" where
  "in_order ks = sort (remdups ks)"

definition compile_drop ::
    "graph \<Rightarrow> frontier \<Rightarrow> str \<Rightarrow> dependents \<Rightarrow> str option \<Rightarrow> compiled" where
  "compile_drop g f k ds reason =
     guarded [refused_when (case reason of None \<Rightarrow> False | Some r \<Rightarrow> blank r) (Empty_Reason ''drop'' k)]
       (case graph_get g k of
          None \<Rightarrow> Inl (No_Node ''drop'' k)
        | Some target \<Rightarrow>
            guarded [refused_when (last_anchor g f k target) Last_Anchor]
              (let direct = dependents_of g k;
                   removed = in_order (if ds = Drop_Dependents
                                       then visit_dependents g [k] (rev direct) else [k]);
                   detached = (if ds = Detach then direct else []);
                   g' = fold (\<lambda>d. graph_modify d (detach_dep k)) detached g
               in Inr (fold graph_remove removed g',
                       map (EdgeRemoved k) detached @ map (\<lambda>d. NodeDropped d ds) removed)))"

section \<open>Retrying\<close>

text \<open>Repointing a dependent: its dependency and what it consumes, moved onto the replacement.\<close>

definition repoint :: "str \<Rightarrow> str \<Rightarrow> node \<Rightarrow> node" where
  "repoint k r n =
     n\<lparr> deps := map (\<lambda>d. if d = k then r else d) (deps n),
        consumes := (case bget (consumes n) k of
                       None \<Rightarrow> bdel k (consumes n)
                     | Some t \<Rightarrow> bput r t (bdel k (consumes n))) \<rparr>"

definition repoint_ops :: "graph \<Rightarrow> str \<Rightarrow> str \<Rightarrow> str \<Rightarrow> operation list" where
  "repoint_ops g k r d =
     [EdgeRemoved k d,
      EdgeAdded r d (case graph_get g d of None \<Rightarrow> None | Some n \<Rightarrow> bget (consumes n) k)]"

text \<open>What a retry and a rework both do to the graph, once the replacement is decided.\<close>

definition repoint_each :: "str \<Rightarrow> str \<Rightarrow> str list \<Rightarrow> graph \<Rightarrow> graph" where
  "repoint_each k r ds g = fold (\<lambda>d. graph_modify d (repoint k r)) ds g"

definition replaced :: "graph \<Rightarrow> str \<Rightarrow> node \<Rightarrow> graph \<times> operation list" where
  "replaced g k r =
     (let direct = dependents_of g k; g1 = graph_insert r g
      in (graph_remove k (repoint_each k (node_id r) direct g1),
          NodeAdded r (Some k) # edge_ops (node_id r) (consumes r) (deps r)
          @ concat (map (repoint_ops g1 k (node_id r)) direct)
          @ [NodeDropped k Detach]))"

definition retry_pin_conflict :: "node \<Rightarrow> bool" where
  "retry_pin_conflict n \<longleftrightarrow>
     (case (branch n, resume n) of
        (Some b, Some r) \<Rightarrow> resume_branch r \<noteq> b | _ \<Rightarrow> False)"

definition inherit_preserved_branch :: "node \<Rightarrow> node \<Rightarrow> node" where
  "inherit_preserved_branch n superseded =
     (if branch n \<noteq> None \<or> resume n \<noteq> None then n
      else n\<lparr> branch := branch superseded, resume := resume superseded \<rparr>)"

definition pin_retry_branch :: "node \<Rightarrow> node" where
  "pin_retry_branch n =
     (case (branch n, resume n) of
        (None, Some r) \<Rightarrow> if resume_branch r \<noteq> [] then n\<lparr> branch := Some (resume_branch r) \<rparr> else n
      | _ \<Rightarrow> n)"

text \<open>What a retry's replacement takes from the node it supersedes, after it was checked.\<close>

definition inherit_from :: "node \<Rightarrow> node \<Rightarrow> node" where
  "inherit_from target r =
     (let r1 = (if deps r = [] then r\<lparr> deps := deps target, consumes := consumes target \<rparr> else r);
          r2 = (if delivers r1 = [] then r1\<lparr> delivers := delivers target \<rparr> else r1);
          r3 = (if task_record r2 = None then r2\<lparr> task_record := task_record target \<rparr> else r2)
      in r3\<lparr> classification := strictest (classification r3) (classification target) \<rparr>)"

definition compile_retry ::
    "edit_world \<Rightarrow> graph \<Rightarrow> frontier \<Rightarrow> str \<Rightarrow> node \<Rightarrow> compiled" where
  "compile_retry w g f k r =
     (case graph_get g k of
        None \<Rightarrow> Inl (No_Node ''retry'' k)
      | Some target \<Rightarrow>
          guarded
            [refused_when (case bget (f_recorded f) k of
                             Some s \<Rightarrow> s \<notin> {Running, Failed, Cancelled} | None \<Rightarrow> True) (Not_Retryable k),
             refused_when (blank (node_id r)) (Replacement_Unnamed ''retry''),
             refused_when (graph_contains g (node_id r)) (Replacement_Not_New ''retry'' (node_id r)),
             refuse_stated_record ''retry'' r,
             refused_when (retry_pin_conflict r) (Two_Branches (node_id r))]
            (let pinned = (if list_ex (\<lambda>e. edge_to e = k) (f_export_edges f) then r
                           else pin_retry_branch (inherit_preserved_branch r target))
             in guarded [valid_node w pinned, refuse_breaking_c6b pinned]
                  (let new = inherit_from target pinned; direct = dependents_of g k;
                       (g', ops) = replaced g k new
                   in Inr (g', RetryRequested k (node_id new)
                                 (in_order (reset_dependents g (remdups direct) (rev direct))) # ops))))"

section \<open>Parking and requeueing\<close>

definition compile_cancel ::
    "graph \<Rightarrow> frontier \<Rightarrow> author \<Rightarrow> str \<Rightarrow> str option \<Rightarrow> compiled" where
  "compile_cancel g f a k reason =
     guarded [refused_when (case reason of None \<Rightarrow> False | Some r \<Rightarrow> blank r) (Empty_Reason ''cancel'' k)]
       (case graph_get g k of
          None \<Rightarrow> Inl (No_Node ''cancel'' k)
        | Some n \<Rightarrow>
            guarded
              [refused_when (parked n) (Already_Parked k),
               (case bget (f_recorded f) k of
                  None \<Rightarrow> Inr ()
                | Some s \<Rightarrow> refused_when (s \<noteq> Running) (Not_Cancellable k s))]
              (Inr (graph_modify k (\<lambda>n. n\<lparr> parked := True \<rparr>) g, [NodeParked k a reason])))"

definition amend_names :: "json bmap option \<Rightarrow> str \<Rightarrow> bool" where
  "amend_names amend key \<longleftrightarrow> (case amend of None \<Rightarrow> False | Some m \<Rightarrow> bget m key \<noteq> None)"

definition amend_fields :: "json bmap option \<Rightarrow> json bmap" where
  "amend_fields amend = (case amend of None \<Rightarrow> [] | Some m \<Rightarrow> m)"

definition compile_requeue ::
    "edit_world \<Rightarrow> graph \<Rightarrow> frontier \<Rightarrow> author \<Rightarrow> str \<Rightarrow> json bmap option \<Rightarrow> compiled" where
  "compile_requeue w g f a k amend =
     (case graph_get g k of
        None \<Rightarrow> Inl (No_Node ''requeue'' k)
      | Some n \<Rightarrow>
          let park = (case bget (f_parks f) k of None \<Rightarrow> default_park | Some p \<Rightarrow> p);
              forbidden = filter (amend_names amend) [''id'', ''deps'']
          in guarded
            [refused_when (\<not> parked n) (Not_Parked k),
             refused_when (\<not> is_planner a \<and> parked_by park \<noteq> a) (Parked_By_Another k park),
             (case bget (f_in_flight f) k of
                None \<Rightarrow> Inr () | Some live \<Rightarrow> Inl (Still_In_Flight ''requeue'' k live)),
             refused_when (forbidden \<noteq> []) (Cannot_Amend k forbidden),
             refused_when (amend_names amend ''assets_from'') (Cannot_Amend k [''assets_from'']),
             refused_when (amend_names amend ''task_record'') (Cannot_Amend k [''task_record''])]
            (let merged = bdel ''parked'' (merge_amend (amend_fields amend) (node_to_json w n))
             in guarded
                  [(case retired_field (JObject merged) of
                      None \<Rightarrow> Inr () | Some (whose, field) \<Rightarrow> Inl (Names_A_Retired_Field whose field))]
                  (case node_of_json w merged of
                     None \<Rightarrow> Inl (Amended_Invalid k)
                   | Some read \<Rightarrow>
                       let new = read\<lparr> classification :=
                                   strictest (classification read) (classification n) \<rparr>
                       in guarded
                            [valid_node w new,
                             (if list_ex (amend_names amend) [''task'', ''steps'', ''kind'']
                              then refuse_breaking_c6b new else Inr ())]
                            (Inr (graph_insert new g,
                                  [NodeRequeued k (if amend_fields amend = [] then None else amend)])))))"

section \<open>Settling, attesting and finding\<close>

datatype stated_at = Unstated | Stated_Landing stated_landing | Released stated_landing

fun stated_at_landing :: "stated_at \<Rightarrow> stated_landing option" where
  "stated_at_landing Unstated = None"
| "stated_at_landing (Stated_Landing l) = Some l"
| "stated_at_landing (Released l) = Some l"

definition read_landing :: "edit_world \<Rightarrow> str \<Rightarrow> str \<Rightarrow> edit_refusal + stated_landing" where
  "read_landing w k named =
     (case parse_landing (payload_limit w) (is_http_url (w_siblings w)) named of
        None \<Rightarrow> Inl (Landing_Unreadable k named)
      | Some l \<Rightarrow> Inr l)"

definition one_word_version :: "edit_world \<Rightarrow> str \<Rightarrow> stated_release \<Rightarrow> edit_refusal + unit" where
  "one_word_version w k r =
     refused_when (usable (payload_limit w) (release_version r) \<noteq> Some (release_version r))
       (Version_Not_A_Word k (release_version r))"

definition stated_of ::
    "edit_world \<Rightarrow> str \<Rightarrow> str option \<Rightarrow> stated_release option \<Rightarrow> edit_refusal + stated_at" where
  "stated_of w k landing release =
     (case (landing, release) of
        (None, None) \<Rightarrow> Inr Unstated
      | (Some l, None) \<Rightarrow> map_sum id Stated_Landing (read_landing w k l)
      | (Some l, Some r) \<Rightarrow>
          and_then (read_landing w k l) (\<lambda>at. and_then (one_word_version w k r) (\<lambda>_. Inr (Released at)))
      | (None, Some r) \<Rightarrow> Inl (Release_Without_Landing k))"

definition compile_settle ::
    "graph \<Rightarrow> frontier \<Rightarrow> str \<Rightarrow> settle_outcome \<Rightarrow> str \<Rightarrow> stated_at \<Rightarrow> compiled" where
  "compile_settle g f k outcome evidence stated =
     (let landing = stated_at_landing stated;
          corrects = ((case stated of Released _ \<Rightarrow> True | _ \<Rightarrow> False) \<or>
                      (case landing of None \<Rightarrow> False | Some l \<Rightarrow> bget (f_stated_landings f) k \<noteq> Some l))
      in guarded
           [refused_when (blank evidence) (No_Evidence k),
            refused_when (\<not> graph_contains g k) (No_Node ''settle'' k),
            refused_when (bget (f_recorded f) k = Some (settled_status outcome) \<and> \<not> corrects)
              (Settles_Nothing k),
            (case bget (f_in_flight f) k of
               None \<Rightarrow> Inr () | Some live \<Rightarrow> Inl (Still_In_Flight ''settle'' k live))]
           (Inr (graph_modify k (\<lambda>n. n\<lparr> parked := False \<rparr>) g,
                 SettledFromEvidence k outcome evidence
                 # (case landing of None \<Rightarrow> [] | Some l \<Rightarrow> [LandingFromEvidence k (landing_reference l)]))))"

definition compile_finding :: "graph \<Rightarrow> str option \<Rightarrow> str \<Rightarrow> bool \<Rightarrow> compiled" where
  "compile_finding g about message blocking =
     guarded
       [refused_when (blank message) Message_Empty,
        (case about of None \<Rightarrow> Inr ()
         | Some k \<Rightarrow> refused_when (\<not> graph_contains g k) (No_Node ''finding'' k))]
       (Inr (g, [FindingRaised about message blocking]))"

definition compile_attest :: "graph \<Rightarrow> frontier \<Rightarrow> str \<Rightarrow> compiled" where
  "compile_attest g f k =
     guarded
       [refused_when (k \<in> f_attestations f) (Already_Attested k),
        refused_when (bget (f_recorded f) k \<noteq> Some Waiting \<and> bget (f_recorded f) k \<noteq> Some Failed)
          (Not_Attestable k)]
       (Inr (g, [HumanAttested k]))"

section \<open>Notes and amendments\<close>

text \<open>
  \<open>note::Reach::of\<close>: how far a note reaches, with the deadline its envelope states. A live
  reach carries whether the running turn is interrupted.
\<close>

datatype live = Live bool "u64 option"     \<comment> \<open>interrupts, deadline in seconds\<close>

datatype reach = LiveOnly live | LiveThenNext live | NextOnly

definition deadline_of :: "str \<Rightarrow> deliver \<Rightarrow> u64 option \<Rightarrow> edit_refusal + u64 option" where
  "deadline_of k d seconds =
     (case seconds of
        None \<Rightarrow> Inr None
      | Some s \<Rightarrow> if s = 0 then Inl (Deadline_Zero k)
                  else if d = Deliver_Next then Inl (Deadline_Waits_On_None k)
                  else Inr (Some s))"

definition reach_of :: "str \<Rightarrow> deliver \<Rightarrow> bool \<Rightarrow> u64 option \<Rightarrow> edit_refusal + reach" where
  "reach_of k d persist seconds =
     and_then (deadline_of k d seconds) (\<lambda>deadline.
       case (d, persist) of
         (Deliver_Live, False) \<Rightarrow> Inr (LiveOnly (Live True deadline))
       | (Deliver_Live, True) \<Rightarrow> Inr (LiveThenNext (Live True deadline))
       | (Deliver_TurnEnd, False) \<Rightarrow> Inr (LiveOnly (Live False deadline))
       | (Deliver_TurnEnd, True) \<Rightarrow> Inr (LiveThenNext (Live False deadline))
       | (Deliver_Next, True) \<Rightarrow> Inr NextOnly
       | (Deliver_Next, False) \<Rightarrow> Inl (Reaches_Nobody k))"

fun reach_live :: "reach \<Rightarrow> live option" where
  "reach_live (LiveOnly l) = Some l"
| "reach_live (LiveThenNext l) = Some l"
| "reach_live NextOnly = None"

definition attempts_a_live_turn :: "reach \<Rightarrow> bool" where
  "attempts_a_live_turn r \<longleftrightarrow> reach_live r \<noteq> None"

definition composes_forward :: "reach \<Rightarrow> bool" where
  "composes_forward r \<longleftrightarrow> (case r of LiveOnly _ \<Rightarrow> False | _ \<Rightarrow> True)"

definition compile_note :: "graph \<Rightarrow> frontier \<Rightarrow> str \<Rightarrow> edit_refusal + reach \<Rightarrow> compiled" where
  "compile_note g f k how =
     guarded [refused_when (\<not> graph_contains g k) (No_Node ''note'' k)]
       (and_then how (\<lambda>r.
          guarded [refused_when (\<not> attempts_a_live_turn r \<and> bget (f_recorded f) k = Some Done)
                     (Reaches_Nobody k)]
            (Inr (g, []))))"

definition compile_amend :: "graph \<Rightarrow> frontier \<Rightarrow> str \<Rightarrow> str \<Rightarrow> compiled" where
  "compile_amend g f k t =
     guarded
       [refused_when (\<not> graph_contains g k) (No_Node ''amend'' k),
        refused_when (blank t) (Amendment_Is_Blank k),
        refused_when (bget (f_recorded f) k = Some Done) (Settled_Done ''amend'' k)]
       (Inr (graph_modify k (\<lambda>n. n\<lparr> amendment := Some t \<rparr>) g, [TaskAmended k t]))"

section \<open>Reworking\<close>

definition used :: "graph \<Rightarrow> frontier \<Rightarrow> str \<Rightarrow> bool" where
  "used g f k \<longleftrightarrow>
     graph_contains g k \<or> bget (f_recorded f) k \<noteq> None \<or> bget (f_superseded f) k \<noteq> None \<or>
     k \<in> snd ` set (f_superseded f)"

definition rework_id :: "str \<Rightarrow> nat \<Rightarrow> str" where
  "rework_id root n = root @ ''-rework-'' @ digits_of n"

lemma finite_used: "finite {k. used g f k}"
proof -
  have "{k. used g f k} \<subseteq> fst ` set (nodes g) \<union> fst ` set (f_recorded f)
      \<union> fst ` set (f_superseded f) \<union> snd ` set (f_superseded f)"
    by (auto simp: used_def graph_contains_def graph_get_def bget_dom)
  then show ?thesis by (rule finite_subset) simp
qed

text \<open>Decimal numerals tell numbers apart, so some numbered id is free.\<close>

definition numeral_value :: "str \<Rightarrow> nat" where
  "numeral_value s = foldl (\<lambda>v c. 10 * v + (code_point c - 48)) 0 s"

lemma numeral_value_digits: "numeral_value (digits_of n) = n"
proof (induction n rule: digits_of.induct)
  case (1 n)
  show ?case
  proof (cases "n < 10")
    case True
    then show ?thesis by (subst digits_of.simps) (simp add: numeral_value_def code_point_def)
  next
    case False
    have "digits_of n = digits_of (n div 10) @ [char_of (48 + n mod 10)]"
      using False by (subst digits_of.simps) simp
    with 1 False show ?thesis
      by (simp add: numeral_value_def code_point_def take_bit_eq_mod)
  qed
qed

lemma rework_id_inj: "inj (rework_id root)"
proof (rule injI)
  fix x y
  assume "rework_id root x = rework_id root y"
  then have "digits_of x = digits_of y" by (simp add: rework_id_def)
  from arg_cong [OF this, of numeral_value] show "x = y" by (simp only: numeral_value_digits)
qed

lemma rework_id_measure:
  assumes "used g f (rework_id root n)"
  shows "card {m. Suc n \<le> m \<and> used g f (rework_id root m)}
       < card {m. n \<le> m \<and> used g f (rework_id root m)}"
proof (rule psubset_card_mono)
  have "finite {m. used g f (rework_id root m)}"
    using finite_vimageI [OF finite_used rework_id_inj] by (simp add: vimage_def)
  then show "finite {m. n \<le> m \<and> used g f (rework_id root m)}"
    by (rule finite_subset [rotated]) auto
  show "{m. Suc n \<le> m \<and> used g f (rework_id root m)} \<subset> {m. n \<le> m \<and> used g f (rework_id root m)}"
    using assms by (auto simp: Suc_le_eq intro: less_imp_le)
qed

function free_rework_id :: "graph \<Rightarrow> frontier \<Rightarrow> str \<Rightarrow> nat \<Rightarrow> str" where
  "free_rework_id g f root n =
     (if used g f (rework_id root n) then free_rework_id g f root (Suc n) else rework_id root n)"
  by auto
termination
proof (relation "measure (\<lambda>(g, f, root, n). card {m. n \<le> m \<and> used g f (rework_id root m)})",
    goal_cases)
  case (2 g f root n)
  then show ?case unfolding in_measure case_prod_conv by (rule rework_id_measure)
qed (rule wf_measure)

declare free_rework_id.simps [simp del]

record rework =
  rework_node :: str
  rework_reason :: str
  rework_instruction :: str
  rework_comments :: "rework_comment list"
  rework_title :: "str option"
  rework_replacement :: "str option"

definition busy_one :: "frontier \<Rightarrow> str \<Rightarrow> str \<Rightarrow> busy option" where
  "busy_one f whose k =
     (if k \<in> f_restacking f then Some (Restacking whose k)
      else map_option (Dispatching whose k) (bget (f_in_flight f) k))"

fun busy_first :: "frontier \<Rightarrow> (str \<Rightarrow> str) \<Rightarrow> str list \<Rightarrow> busy option" where
  "busy_first f whose [] = None"
| "busy_first f whose (k # ks) = or_else (busy_one f (whose k) k) (busy_first f whose ks)"

definition lineage_of :: "frontier \<Rightarrow> str \<Rightarrow> str list" where
  "lineage_of f k = lineage_down (f_superseded f) [lineage_root f k] (lineage_root f k)"

definition drafts_above :: "graph \<Rightarrow> str \<Rightarrow> str list" where
  "drafts_above g k = visit_dependents g [] (rev (dependents_of g k))"

definition busy_around :: "graph \<Rightarrow> frontier \<Rightarrow> str \<Rightarrow> busy option" where
  "busy_around g f k =
     or_else
       (busy_first f (\<lambda>j. if j = k then ''node'' else ''its lineage's node'') (lineage_of f k))
       (busy_first f (\<lambda>_. ''the draft stacked above it'') (drafts_above g k))"

definition rework_heading :: str where
  "rework_heading = ''## Rework''"

fun comment_lines :: "rework_comment list \<Rightarrow> str" where
  "comment_lines [] = []"
| "comment_lines (c # cs) = ''- '' @ comment_url c @ [nl] @ comment_lines cs"

definition rework_section :: "rework \<Rightarrow> str" where
  "rework_section r =
     rework_heading @ [nl, nl]
     @ ''This node's change request is in review, and this dispatch reworks ''
     @ ''it in place: its branch already carries the work below, so build on those commits ''
     @ ''rather than redoing them.'' @ [nl, nl]
     @ ''Reason: '' @ trim (rework_reason r) @ [nl, nl]
     @ ''Instruction: '' @ trim (rework_instruction r) @ [nl]
     @ (if rework_comments r = [] then []
        else [nl] @ ''The review comments it answers:'' @ [nl] @ comment_lines (rework_comments r))"

definition rework_replacement_id :: "graph \<Rightarrow> frontier \<Rightarrow> rework \<Rightarrow> edit_refusal + str" where
  "rework_replacement_id g f r =
     (case rework_replacement r of
        Some named \<Rightarrow>
          if blank named then Inl (Replacement_Unnamed ''rework'')
          else if used g f named then Inl (Replacement_Not_New ''rework'' named)
          else Inr named
      | None \<Rightarrow> Inr (free_rework_id g f (lineage_root f (rework_node r)) 1))"

definition reworked :: "rework \<Rightarrow> str \<Rightarrow> str \<Rightarrow> node \<Rightarrow> node" where
  "reworked r new_id kept target =
     target\<lparr> node_id := new_id, branch := Some kept, resume := None, parked := False,
             title := (case rework_title r of None \<Rightarrow> title target | Some t \<Rightarrow> Some (trim t)),
             task := Some (trim_end (rendered_task target) @ [nl, nl] @ rework_section r),
             amendment := None, planner_context := None \<rparr>"

definition compile_rework :: "edit_world \<Rightarrow> graph \<Rightarrow> frontier \<Rightarrow> rework \<Rightarrow> compiled" where
  "compile_rework w g f r =
     (let k = rework_node r
      in case graph_get g k of
           None \<Rightarrow> Inl (No_Node ''rework'' k)
         | Some target \<Rightarrow>
             guarded
               [refused_when (repo target = None) (Not_A_Lifecycle_Node ''rework'' k),
                (case busy_around g f k of None \<Rightarrow> Inr () | Some b \<Rightarrow> Inl (Busy_Around k b)),
                refused_when (bget (f_recorded f) k \<noteq> Some Done)
                  (Not_Settled_Done k (bget (f_recorded f) k)),
                refused_when (bget (f_landings f) k = Some Landed) (Change_Landed k),
                (case bget (f_absorbed f) k of None \<Rightarrow> Inr () | Some into \<Rightarrow> Inl (Merged_Into k into)),
                refused_when (bget (f_branches f) k = None) (No_Branch_Recorded k),
                refused_when (blank (rework_reason r)) (Field_Blank ''rework'' k ''reason''),
                refused_when (blank (rework_instruction r)) (Field_Blank ''rework'' k ''instruction''),
                (case rework_title r of None \<Rightarrow> Inr ()
                 | Some t \<Rightarrow> map_err (Title_Refused ''rework'' k) (validate_subject (w_siblings w) t))]
               (and_then (rework_replacement_id g f r) (\<lambda>new_id.
                  let new = reworked r new_id (case bget (f_branches f) k of None \<Rightarrow> [] | Some b \<Rightarrow> b) target;
                      (g', ops) = replaced g k new
                  in guarded [valid_node w new]
                       (Inr (g', ReworkRequested k new_id (trim (rework_reason r))
                                   (trim (rework_instruction r)) (rework_comments r)
                                   (map_option trim (rework_title r)) # ops)))))"

section \<open>Retitling and declining\<close>

definition has_open_change :: "frontier \<Rightarrow> str \<Rightarrow> bool" where
  "has_open_change f k \<longleftrightarrow>
     bget (f_change_urls f) k \<noteq> None \<and> bget (f_landings f) k \<noteq> Some Landed"

definition compile_retitle ::
    "edit_world \<Rightarrow> graph \<Rightarrow> frontier \<Rightarrow> str \<Rightarrow> str \<Rightarrow> str \<Rightarrow> compiled" where
  "compile_retitle w g f k t reason =
     (case graph_get g k of
        None \<Rightarrow> Inl (No_Node ''retitle'' k)
      | Some n \<Rightarrow>
          guarded
            [refused_when (repo n = None) (Not_A_Lifecycle_Node ''retitle'' k),
             refused_when (\<not> has_open_change f k) (No_Open_Change ''retitle'' k),
             map_err (Title_Refused ''retitle'' k) (validate_subject (w_siblings w) t),
             refused_when (blank reason) (Field_Blank ''retitle'' k ''reason'')]
            (Inr (graph_modify k (\<lambda>n. n\<lparr> title := Some (trim t) \<rparr>) g,
                  [Retitled k None (trim t) (trim reason)])))"

fun check_comments ::
    "edit_world \<Rightarrow> str \<Rightarrow> str list \<Rightarrow> rework_comment list \<Rightarrow> edit_refusal + unit" where
  "check_comments w k named [] = Inr ()"
| "check_comments w k named (c # cs) =
     (if blank (comment_id c) \<or> list_ex is_control (comment_id c) \<or>
         \<not> is_http_url (w_siblings w) (comment_url c)
      then Inl (Not_A_Comment k)
      else if comment_id c \<in> set named then Inl (Comment_Named_Twice k (comment_id c))
      else check_comments w k (comment_id c # named) cs)"

definition compile_decline ::
    "edit_world \<Rightarrow> graph \<Rightarrow> frontier \<Rightarrow> str \<Rightarrow> rework_comment list \<Rightarrow> str \<Rightarrow> compiled" where
  "compile_decline w g f k comments reason =
     (case graph_get g k of
        None \<Rightarrow> Inl (No_Node ''decline'' k)
      | Some n \<Rightarrow>
          guarded
            [refused_when (repo n = None) (Not_A_Lifecycle_Node ''decline'' k),
             refused_when (\<not> has_open_change f k) (No_Open_Change ''decline'' k),
             refused_when (comments = []) (No_Comment_Named k),
             check_comments w k [] comments]
            (Inr (g, [DeclineApplied k comments reason []])))"

section \<open>One command against the graph\<close>

fun check_entries :: "edit_world \<Rightarrow> str list \<Rightarrow> edit_refusal + unit" where
  "check_entries w [] = Inr ()"
| "check_entries w (e # es) =
     (if parse_set_ok (w_siblings w) e then check_entries w es else Inl (Invalid_Entry e))"

fun compile_into ::
    "edit_world \<Rightarrow> graph \<Rightarrow> frontier \<Rightarrow> author \<Rightarrow> command \<Rightarrow> compiled" where
  "compile_into w g f a (Cmd_SetNodeSets k s) =
     guarded
       [refused_when (\<not> graph_contains g k) (No_Node ''set-node-sets'' k),
        refused_when (settled_for_sets f k) (Node_Settled k)]
       (Inr (graph_modify k (\<lambda>n. n\<lparr> sets := s \<rparr>) g, [NodeSetsReplaced k s]))"
| "compile_into w g f a (Cmd_SetRunNodeSets s) =
     guarded [check_entries w s] (Inr (g, [RunNodeSetsReplaced s]))"
| "compile_into w g f a Cmd_Review = Inl (Requested_Alone ''review'')"
| "compile_into w g f a Cmd_Readjust = Inl (Requested_Alone ''readjust'')"
| "compile_into w g f a (Cmd_Add n) = compile_add w g n"
| "compile_into w g f a (Cmd_Drop k ds reason) = compile_drop g f k ds reason"
| "compile_into w g f a (Cmd_Reparent k ds) = compile_reparent g f k ds"
| "compile_into w g f a (Cmd_Retry k n) = compile_retry w g f k n"
| "compile_into w g f a (Cmd_Cancel k reason) = compile_cancel g f a k reason"
| "compile_into w g f a (Cmd_Requeue k amend) = compile_requeue w g f a k amend"
| "compile_into w g f a (Cmd_Settle k outcome evidence l r) =
     and_then (stated_of w k l r) (\<lambda>stated. compile_settle g f k outcome evidence stated)"
| "compile_into w g f a (Cmd_Attest k) = compile_attest g f k"
| "compile_into w g f a (Cmd_Complete reason) = Inr (g, [CompletionRequested reason])"
| "compile_into w g f a (Cmd_Amend k t) = compile_amend g f k t"
| "compile_into w g f a (Cmd_Note k _ _ _ d persist seconds) =
     compile_note g f k (reach_of k d persist seconds)"
| "compile_into w g f a (Cmd_WithdrawNote _ _ _) = Inr (g, [])"
| "compile_into w g f a (Cmd_Finding message blocking about) = compile_finding g about message blocking"
| "compile_into w g f a (Cmd_Rework k reason instruction comments t named) =
     compile_rework w g f \<lparr> rework_node = k, rework_reason = reason,
       rework_instruction = instruction, rework_comments = comments, rework_title = t,
       rework_replacement = named \<rparr>"
| "compile_into w g f a (Cmd_Retitle k t reason) = compile_retitle w g f k t reason"
| "compile_into w g f a (Cmd_Decline k comments reason) = compile_decline w g f k comments reason"

section \<open>Graph references and overrides\<close>

text \<open>\<open>driver::resolve_graph\<close>; \<open>path_join\<close> is \<open>Path::join\<close> of a reference that is not absolute.\<close>

definition path_join :: "str \<Rightarrow> str \<Rightarrow> str" where
  "path_join base r =
     (if base = [] \<or> last base = CHR 0x2F then base @ r else base @ [CHR 0x2F] @ r)"

definition resolve_graph :: "edit_world \<Rightarrow> str \<Rightarrow> str \<Rightarrow> edit_refusal + str" where
  "resolve_graph w base r =
     (if blank r then Inl (Graph_Reference_Blank r)
      else if starts_with ''https://'' r \<or> starts_with ''/'' r then Inr r
      else if can_open w (path_join base r) then Inr (path_join base r)
      else Inl (Graph_Unreadable r))"

definition resolve_opt :: "edit_world \<Rightarrow> str \<Rightarrow> str option \<Rightarrow> edit_refusal + str option" where
  "resolve_opt w base r =
     (case r of None \<Rightarrow> Inr None | Some t \<Rightarrow> map_sum id Some (resolve_graph w base t))"

fun resolve_steps :: "edit_world \<Rightarrow> str \<Rightarrow> step list \<Rightarrow> edit_refusal + step list" where
  "resolve_steps w base [] = Inr []"
| "resolve_steps w base (s # ss) =
     and_then (resolve_opt w base (step_agent_graph s)) (\<lambda>r.
       map_sum id (\<lambda>rest. s\<lparr> step_agent_graph := r \<rparr> # rest) (resolve_steps w base ss))"

definition resolve_node_graphs :: "edit_world \<Rightarrow> str \<Rightarrow> node \<Rightarrow> edit_refusal + node" where
  "resolve_node_graphs w base n =
     and_then (resolve_opt w base (agent_graph n)) (\<lambda>r.
       case steps n of
         None \<Rightarrow> Inr (n\<lparr> agent_graph := r \<rparr>)
       | Some ss \<Rightarrow> map_sum id (\<lambda>ss'. n\<lparr> agent_graph := r, steps := Some ss' \<rparr>)
                      (resolve_steps w base ss))"

definition resolve_json :: "edit_world \<Rightarrow> str \<Rightarrow> json \<Rightarrow> edit_refusal + json" where
  "resolve_json w base v =
     (case v of JString r \<Rightarrow> map_sum id JString (resolve_graph w base r) | _ \<Rightarrow> Inr v)"

definition resolve_key :: "edit_world \<Rightarrow> str \<Rightarrow> json bmap \<Rightarrow> edit_refusal + json bmap" where
  "resolve_key w base m =
     (case bget m ''agent_graph'' of
        None \<Rightarrow> Inr m
      | Some v \<Rightarrow> map_sum id (\<lambda>v'. bput ''agent_graph'' v' m) (resolve_json w base v))"

fun resolve_items :: "edit_world \<Rightarrow> str \<Rightarrow> json list \<Rightarrow> edit_refusal + json list" where
  "resolve_items w base [] = Inr []"
| "resolve_items w base (v # vs) =
     and_then (case v of JObject m \<Rightarrow> map_sum id JObject (resolve_key w base m) | _ \<Rightarrow> Inr v) (\<lambda>v'.
       map_sum id (\<lambda>rest. v' # rest) (resolve_items w base vs))"

definition resolve_amended_graphs :: "edit_world \<Rightarrow> str \<Rightarrow> json bmap \<Rightarrow> edit_refusal + json bmap" where
  "resolve_amended_graphs w base amend =
     and_then (resolve_key w base amend) (\<lambda>m.
       case bget m ''steps'' of
         Some (JArray items) \<Rightarrow> map_sum id (\<lambda>vs. bput ''steps'' (JArray vs) m) (resolve_items w base items)
       | _ \<Rightarrow> Inr m)"

definition resolved_command :: "edit_world \<Rightarrow> frontier \<Rightarrow> command \<Rightarrow> edit_refusal + command" where
  "resolved_command w f c =
     (case f_graph_validation f of
        None \<Rightarrow> Inr c
      | Some context \<Rightarrow>
          (case c of
             Cmd_Add n \<Rightarrow> map_sum id Cmd_Add (resolve_node_graphs w (launch_dir context) n)
           | Cmd_Retry k n \<Rightarrow> map_sum id (Cmd_Retry k) (resolve_node_graphs w (launch_dir context) n)
           | Cmd_Requeue k (Some amend) \<Rightarrow>
               map_sum id (\<lambda>m. Cmd_Requeue k (Some m)) (resolve_amended_graphs w (launch_dir context) amend)
           | _ \<Rightarrow> Inr c))"

definition node_sets_graph :: "node \<Rightarrow> bool" where
  "node_sets_graph n \<longleftrightarrow>
     sets n \<noteq> [] \<or> agent_graph n \<noteq> None \<or>
     (case steps n of None \<Rightarrow> False | Some ss \<Rightarrow> list_ex (\<lambda>s. step_agent_graph s \<noteq> None) ss)"

fun graph_setting_requires_validation :: "command \<Rightarrow> bool" where
  "graph_setting_requires_validation (Cmd_SetNodeSets _ _) = True"
| "graph_setting_requires_validation (Cmd_SetRunNodeSets _) = True"
| "graph_setting_requires_validation (Cmd_Add n) = node_sets_graph n"
| "graph_setting_requires_validation (Cmd_Retry _ n) = node_sets_graph n"
| "graph_setting_requires_validation (Cmd_Requeue _ amend) =
     list_ex (amend_names amend) [''sets'', ''agent_graph'', ''steps'']"
| "graph_setting_requires_validation _ = False"

definition assets_readable :: "edit_world \<Rightarrow> frontier \<Rightarrow> command \<Rightarrow> edit_refusal + unit" where
  "assets_readable w f c =
     (case (case c of Cmd_Add n \<Rightarrow> assets_from n | Cmd_Retry _ n \<Rightarrow> assets_from n | _ \<Rightarrow> None) of
        None \<Rightarrow> Inr ()
      | Some t \<Rightarrow>
          first_refusal
            [refused_when (f_graph_validation f = None) Needs_Validation_Context,
             refused_when (\<not> assets_ok w t) (Assets_Unreadable t)])"

text \<open>\<open>graph::validate_dispatch_sets\<close>: the overrides each dispatch of a node would run under.\<close>

definition check_dispatch ::
    "edit_world \<Rightarrow> node \<Rightarrow> str \<Rightarrow> str list \<Rightarrow> str option \<Rightarrow> str option \<Rightarrow> u32 option \<Rightarrow> edit_refusal + unit"
where
  "check_dispatch w n fallback run_sets own who turns =
     and_then (map_err Turns_Refused (turn_budget turns)) (\<lambda>budget.
       let reference = (case own of Some r \<Rightarrow> r
                        | None \<Rightarrow> (case agent_graph n of Some r \<Rightarrow> r | None \<Rightarrow> fallback))
       in refused_when (\<not> graph_sets_ok w reference (dispatch_sets run_sets who budget (sets n)))
            (Sets_Refused (node_id n)))"

definition validate_dispatch_sets ::
    "edit_world \<Rightarrow> node \<Rightarrow> str \<Rightarrow> str list \<Rightarrow> edit_refusal + unit" where
  "validate_dispatch_sets w n fallback run_sets =
     (if kind n = Human \<or> expects_no_diff n \<or> (run_sets = [] \<and> sets n = []) then Inr ()
      else (case steps n of
              Some ss \<Rightarrow>
                (let agents = filter (\<lambda>s. step_kind s = Agent \<and> \<not> step_expects_no_diff s) ss
                 in first_refusal
                      (refused_when (agents = [] \<and> sets n \<noteq> []) (No_Agent_Step_For_Sets (node_id n))
                       # map (\<lambda>s. check_dispatch w n fallback run_sets (step_agent_graph s)
                                     (step_persona s) (step_max_turns s)) agents))
            | None \<Rightarrow> check_dispatch w n fallback run_sets None (persona n) (max_turns n)))"

section \<open>The whole of an edit\<close>

fun edges_after :: "command \<Rightarrow> export_edge list \<Rightarrow> export_edge list" where
  "edges_after (Cmd_Retry k n) es = edges_now es [(k, node_id n)]"
| "edges_after _ es = es"

fun keeps_the_plan :: "command \<Rightarrow> bool" where
  "keeps_the_plan (Cmd_Complete _) = True"
| "keeps_the_plan (Cmd_Attest _) = True"
| "keeps_the_plan (Cmd_Finding _ _ _) = True"
| "keeps_the_plan (Cmd_Settle _ _ _ _ _) = True"
| "keeps_the_plan _ = False"

definition plan_of_edit :: "graph \<Rightarrow> export_edge list \<Rightarrow> plan" where
  "plan_of_edit g es =
     to_plan g \<lparr> schema_version = plan_schema_version, goal = None, plan_name = None,
       plan_concurrency = concurrency g, tasks = [], export_edges = es \<rparr>"

definition edited_boundary :: "edit_world \<Rightarrow> frontier \<Rightarrow> plan \<Rightarrow> edit_refusal + unit" where
  "edited_boundary w f p =
     (if f_graph_validation f = None then Inr ()
      else (case check_boundary (w_siblings w) (w_boundary w) Edit p of
              Some (Inl r) \<Rightarrow> Inl (Crosses_The_Boundary r) | _ \<Rightarrow> Inr ()))"

text \<open>A plan refused for its shape is still refused by the boundary first, where it is.\<close>

definition edited_plan_ok :: "edit_world \<Rightarrow> frontier \<Rightarrow> plan \<Rightarrow> edit_refusal + unit" where
  "edited_plan_ok w f p =
     (case check_edited (w_siblings w) p of
        Inl r \<Rightarrow> and_then (edited_boundary w f p) (\<lambda>_. Inl (Breaks_The_Plan r))
      | Inr _ \<Rightarrow> edited_boundary w f p)"

fun affected_by :: "command \<Rightarrow> str \<Rightarrow> bool" where
  "affected_by (Cmd_SetNodeSets k _) j \<longleftrightarrow> j = k"
| "affected_by (Cmd_Requeue k _) j \<longleftrightarrow> j = k"
| "affected_by (Cmd_Add n) j \<longleftrightarrow> j = node_id n"
| "affected_by (Cmd_Retry _ n) j \<longleftrightarrow> j = node_id n"
| "affected_by (Cmd_SetRunNodeSets _) j \<longleftrightarrow> True"
| "affected_by _ j \<longleftrightarrow> False"

definition run_sets_after :: "frontier \<Rightarrow> graph_validation \<Rightarrow> command \<Rightarrow> str list" where
  "run_sets_after f context c =
     (case c of
        Cmd_SetRunNodeSets s \<Rightarrow> s
      | _ \<Rightarrow> (case f_run_node_sets f of Some s \<Rightarrow> s | None \<Rightarrow> launch_node_sets context))"

definition edited_sets_ok :: "edit_world \<Rightarrow> frontier \<Rightarrow> command \<Rightarrow> graph \<Rightarrow> edit_refusal + unit" where
  "edited_sets_ok w f c g =
     (case f_graph_validation f of
        None \<Rightarrow> Inr ()
      | Some context \<Rightarrow>
          first_refusal
            (map (\<lambda>n. validate_dispatch_sets w n (default_graph context) (run_sets_after f context c))
              (filter (\<lambda>n. affected_by c (node_id n) \<and> \<not> settled_for_sets f (node_id n)) (graph_iter g))))"

text \<open>The node whose task the command wrote, where the command writes one.\<close>

fun node_whose_task_is_new :: "command \<Rightarrow> graph \<Rightarrow> node option" where
  "node_whose_task_is_new (Cmd_Add n) g = graph_get g (node_id n)"
| "node_whose_task_is_new (Cmd_Retry _ n) g = graph_get g (node_id n)"
| "node_whose_task_is_new (Cmd_Amend k _) g = graph_get g k"
| "node_whose_task_is_new (Cmd_Requeue k amend) g =
     (if amend_names amend ''task'' then graph_get g k else None)"
| "node_whose_task_is_new _ g = None"

fun node_the_command_changes :: "command \<Rightarrow> graph \<Rightarrow> node option" where
  "node_the_command_changes (Cmd_Add n) g = graph_get g (node_id n)"
| "node_the_command_changes (Cmd_Retry _ n) g = graph_get g (node_id n)"
| "node_the_command_changes (Cmd_Amend k _) g = graph_get g k"
| "node_the_command_changes (Cmd_Reparent k _) g = graph_get g k"
| "node_the_command_changes (Cmd_Requeue k amend) g = (if amend = None then None else graph_get g k)"
| "node_the_command_changes _ g = None"

definition offer_to_validator :: "edit_world \<Rightarrow> frontier \<Rightarrow> command \<Rightarrow> graph \<Rightarrow> edit_refusal + unit" where
  "offer_to_validator w f c g =
     (case node_whose_task_is_new c g of
        None \<Rightarrow> Inr ()
      | Some n \<Rightarrow>
          (case f_node_validator f of
             None \<Rightarrow> Inr ()
           | Some v \<Rightarrow>
               if blank v then Inr ()
               else (case judge w v (op_of c) n of
                       Pass \<Rightarrow> Inr ()
                     | Refuse_Verdict \<Rightarrow> Inl (Validator_Refused (op_of c) (node_id n))
                     | Unjudged \<Rightarrow> Inl (Validator_Gave_No_Verdict (op_of c) (node_id n)))))"

definition compile ::
    "edit_world \<Rightarrow> graph \<Rightarrow> frontier \<Rightarrow> author \<Rightarrow> command \<Rightarrow> compiled" where
  "compile w g f a c =
     guarded [refused_when (graph_setting_requires_validation c \<and> f_graph_validation f = None)
                Needs_Validation_Context]
       (and_then (resolved_command w f c) (\<lambda>c'.
          guarded [assets_readable w f c']
            (and_then (compile_into w g f a c') (\<lambda>(g', ops).
               guarded
                 [(if keeps_the_plan c then Inr ()
                   else edited_plan_ok w f (plan_of_edit g' (edges_after c (f_export_edges f)))),
                  edited_sets_ok w f c g',
                  offer_to_validator w f c g']
                 (Inr (g', ops))))))"

end
