(* ===== verification/Edit_Replay.thy ===== *)
theory Edit_Replay
  imports Edit_Compile
begin

text \<open>
  Replay against compilation: folding the operations an edit recorded over the graph it was
  compiled against rebuilds the graph the edit left. The lemmas say what each operation does
  to a lookup, what the walks over dependents reach, and when re-adding an edge is nothing.
\<close>

section \<open>Every operation keeps the graph well formed\<close>

lemma update_ids [simp]:
  "node_id (set_deps ds n) = node_id n" "node_id (remove_dep d n) = node_id n"
  "node_id (add_dep d t n) = node_id n" "node_id (forget_consumed d n) = node_id n"
  "node_id (detach_dep d n) = node_id n" "node_id (repoint k r n) = node_id n"
  by (simp_all add: set_deps_def remove_dep_def add_dep_def forget_consumed_def detach_dep_def
      repoint_def)

lemma graph_ok_modifies:
  assumes "\<And>d n. node_id (f d n) = node_id n"
  shows "graph_ok g \<Longrightarrow> graph_ok (fold (\<lambda>d. graph_modify d (f d)) ds g)"
proof (induction ds arbitrary: g)
  case (Cons d ds)
  then show ?case using graph_ok_modify [OF Cons.prems, of "f d" d] assms by simp
qed simp

lemma graph_ok_removes: "graph_ok g \<Longrightarrow> graph_ok (fold graph_remove ks g)"
  by (induction ks arbitrary: g) auto

lemma apply_op_ok: "graph_ok g \<Longrightarrow> graph_ok (apply_op w op g)"
  by (cases op)
    (auto simp: Let_def intro: graph_ok_modify graph_ok_modifies [where f = "\<lambda>_. forget_consumed _", simplified]
      split: option.splits reached.splits)

interpretation replay: preserving_fold "apply_op w" graph_ok
  by unfold_locales (rule apply_op_ok)

section \<open>Lookups\<close>

lemma get_modifies:
  "distinct ds \<Longrightarrow> graph_get (fold (\<lambda>d. graph_modify d (f d)) ds g) j =
     (if j \<in> set ds then map_option (f j) (graph_get g j) else graph_get g j)"
  by (induction ds arbitrary: g) auto

lemma order_modifies [simp]:
  "order_ids (fold (\<lambda>d. graph_modify d (f d)) ds g) = order_ids g"
  "concurrency (fold (\<lambda>d. graph_modify d (f d)) ds g) = concurrency g"
  by (induction ds arbitrary: g) simp_all

lemma get_removes:
  "graph_get (fold graph_remove ks g) j = (if j \<in> set ks then None else graph_get g j)"
  by (induction ks arbitrary: g) auto

lemma order_removes [simp]:
  "order_ids (fold graph_remove ks g) = filter (\<lambda>j. j \<notin> set ks) (order_ids g)"
  "concurrency (fold graph_remove ks g) = concurrency g"
  by (induction ks arbitrary: g) (auto intro: filter_cong)

lemma dropped_get:
  assumes "graph_ok g"
  shows "graph_get (apply_op w (NodeDropped k ds) g) j =
    (if j = k then None else map_option (forget_consumed k) (graph_get g j))"
proof -
  have ok: "graph_ok (graph_remove k g)" using assms by simp
  then have "distinct (order_ids (graph_remove k g))" by (simp only: graph_ok_def)
  from get_modifies [OF this, of "\<lambda>_. forget_consumed k"] graph_ok_order [OF assms, of j]
  show ?thesis by (auto simp: Let_def graph_contains_def)
qed

lemma dropped_order [simp]:
  "order_ids (apply_op w (NodeDropped k ds) g) = filter (\<lambda>j. j \<noteq> k) (order_ids g)"
  "concurrency (apply_op w (NodeDropped k ds) g) = concurrency g"
  by (simp_all add: Let_def)

lemma drops_get:
  assumes "graph_ok g"
  shows "graph_get (fold (apply_op w) (map (\<lambda>k. NodeDropped k ds) ks) g) j =
    (if j \<in> set ks then None else map_option (fold forget_consumed ks) (graph_get g j))"
  using assms
proof (induction ks arbitrary: g)
  case Nil
  then show ?case by (simp add: option.map_ident id_def)
next
  case (Cons k ks)
  from Cons.IH [OF apply_op_ok [OF Cons.prems], of w "NodeDropped k ds"]
  show ?case
    by (cases "graph_get g j") (simp_all add: dropped_get [OF Cons.prems] del: apply_op.simps)
qed

lemma drops_order:
  "order_ids (fold (apply_op w) (map (\<lambda>k. NodeDropped k ds) ks) g) =
     filter (\<lambda>j. j \<notin> set ks) (order_ids g)"
  "concurrency (fold (apply_op w) (map (\<lambda>k. NodeDropped k ds) ks) g) = concurrency g"
  by (induction ks arbitrary: g) (auto simp del: apply_op.simps intro: filter_cong)

section \<open>Re-adding what is there\<close>

text \<open>What a node consumes is a map over its own dependencies.\<close>

definition consumes_ok :: "node \<Rightarrow> bool" where
  "consumes_ok n \<longleftrightarrow> bmap_ok (consumes n) \<and> fst ` set (consumes n) \<subseteq> set (deps n)"

lemma forget_absent: "d \<notin> fst ` set (consumes n) \<Longrightarrow> forget_consumed d n = n"
  by (auto simp: forget_consumed_def bdel_def intro!: node.equality filter_id_conv [THEN iffD2])

lemma forget_all_absent:
  "set ds \<inter> fst ` set (consumes n) = {} \<Longrightarrow> fold forget_consumed ds n = n"
  by (induction ds) (auto simp: forget_absent)

lemma add_dep_present:
  assumes "bmap_ok (consumes n)" "d \<in> set (deps n)"
  shows "add_dep d (bget (consumes n) d) n = n"
  using assms bm.put_same [OF assms(1), of d]
  by (auto simp: add_dep_def split: option.split intro!: node.equality)

lemma add_deps_present:
  assumes "bmap_ok (consumes n)" "set ds \<subseteq> set (deps n)"
  shows "fold (\<lambda>d. add_dep d (bget (consumes n) d)) ds n = n"
  using assms(2) by (induction ds) (auto simp: add_dep_present [OF assms(1)])

lemma modify_id:
  assumes "graph_ok g" "\<And>n. graph_get g k = Some n \<Longrightarrow> f n = n"
  shows "graph_modify k f g = g"
proof -
  have "bmodify k f (nodes g) = nodes g"
    unfolding bmodify_def
  proof (rule map_idI, clarify)
    fix a n
    assume "(a, n) \<in> set (nodes g)"
    then have "graph_get g a = Some n"
      using assms(1) bmap_ok_in_bget by (fastforce simp: graph_ok_def graph_get_def)
    with assms(2) show "(if a = k then (a, f n) else (a, n)) = (a, n)" by auto
  qed
  then show ?thesis by (simp add: graph_modify_def)
qed

lemma modify_modify: "graph_modify k f (graph_modify k h g) = graph_modify k (\<lambda>n. f (h n)) g"
  by (auto simp: graph_modify_def bmodify_def comp_def intro!: graph.equality map_cong)

lemma edge_ops_fold:
  "fold (apply_op w) (edge_ops k m ds) g =
     graph_modify k (fold (\<lambda>d. add_dep d (bget m d)) ds) g"
proof (induction ds arbitrary: g)
  case Nil
  then show ?case by (simp add: edge_ops_def graph_modify_def bmodify_def)
next
  case (Cons d ds)
  then show ?case by (simp add: edge_ops_def modify_modify comp_def)
qed

lemma edge_removals_fold:
  "fold (apply_op w) (map (\<lambda>d. EdgeRemoved d k) ds) g = graph_modify k (fold remove_dep ds) g"
proof (induction ds arbitrary: g)
  case Nil
  then show ?case by (simp add: graph_modify_def bmodify_def)
next
  case (Cons d ds)
  then show ?case by (simp add: modify_modify comp_def)
qed

section \<open>What the walks reach\<close>

definition dependent_rel :: "graph \<Rightarrow> (str \<times> str) set" where
  "dependent_rel g = {(a, b). b \<in> set (dependents_of g a)}"

lemma subset_grow: "A \<subseteq> set (s @ [c]) \<union> Y \<Longrightarrow> Y \<subseteq> X \<Longrightarrow> c \<in> X \<Longrightarrow> A \<subseteq> set s \<union> X"
  by auto

lemma visit_covers: "set seen \<union> set pending \<subseteq> set (visit_dependents g seen pending)"
  by (induction g seen pending rule: visit_dependents.induct)
    (auto simp: visit_dependents.simps split: if_splits)

lemma visit_reached:
  "set (visit_dependents g seen pending) \<subseteq> set seen \<union> (dependent_rel g)\<^sup>* `` set pending"
proof (induction g seen pending rule: visit_dependents.induct)
  case (2 g seen c rest)
  show ?case
  proof (cases "c \<in> set seen")
    case True
    with 2(1) show ?thesis by (subst visit_dependents.simps) auto
  next
    case False
    have "(dependent_rel g)\<^sup>* `` set (rev (dependents_of g c) @ rest)
        \<subseteq> (dependent_rel g)\<^sup>* `` set (c # rest)"
      by (auto simp: dependent_rel_def intro: converse_rtrancl_into_rtrancl)
    moreover have "c \<in> (dependent_rel g)\<^sup>* `` set (c # rest)" by auto
    moreover have "set (visit_dependents g seen (c # rest)) \<subseteq>
        set (seen @ [c]) \<union> (dependent_rel g)\<^sup>* `` set (rev (dependents_of g c) @ rest)"
      using False 2(2) [OF False] by (simp only: visit_dependents.simps if_False)
    ultimately show ?thesis using subset_grow by metis
  qed
qed simp

lemma visit_closed:
  "\<forall>a \<in> set seen. set (dependents_of g a) \<subseteq> set seen \<union> set pending \<Longrightarrow>
     \<forall>a \<in> set (visit_dependents g seen pending).
       set (dependents_of g a) \<subseteq> set (visit_dependents g seen pending)"
proof (induction g seen pending rule: visit_dependents.induct)
  case (2 g seen c rest)
  show ?case
  proof (cases "c \<in> set seen")
    case True
    then have "\<forall>a \<in> set seen. set (dependents_of g a) \<subseteq> set seen \<union> set rest" using 2(3) by auto
    with 2(1) True show ?thesis by (subst (1 2) visit_dependents.simps) simp
  next
    case False
    have "\<forall>a \<in> set (seen @ [c]). set (dependents_of g a) \<subseteq>
        set (seen @ [c]) \<union> set (rev (dependents_of g c) @ rest)" using 2(3) by auto
    with 2(2) False show ?thesis by (subst (1 2) visit_dependents.simps) simp
  qed
qed simp

lemma closed_rtrancl:
  assumes "\<forall>a \<in> R. set (dependents_of g a) \<subseteq> R" "a \<in> R" "(a, b) \<in> (dependent_rel g)\<^sup>*"
  shows "b \<in> R"
  using assms(3) by (induction rule: rtrancl_induct) (use assms(1,2) in \<open>auto simp: dependent_rel_def\<close>)

lemma rel_plus_closed:
  assumes "\<forall>a \<in> R. set (dependents_of g a) \<subseteq> R" "set (dependents_of g k) \<subseteq> R"
  shows "(dependent_rel g)\<^sup>+ `` {k} \<subseteq> R"
proof
  fix b
  assume "b \<in> (dependent_rel g)\<^sup>+ `` {k}"
  then obtain z where "(k, z) \<in> dependent_rel g" "(z, b) \<in> (dependent_rel g)\<^sup>*"
    by (auto dest: tranclD)
  with assms(2) have "z \<in> R" by (auto simp: dependent_rel_def)
  from closed_rtrancl [OF assms(1) this] show "b \<in> R" using \<open>(z, b) \<in> _\<close> .
qed

text \<open>The walk from a node's dependents, the node seen already, reaches its whole closure.\<close>

lemma visit_exact:
  "set (visit_dependents g [k] (rev (dependents_of g k))) = (dependent_rel g)\<^sup>* `` {k}"
proof
  let ?R = "set (visit_dependents g [k] (rev (dependents_of g k)))"
  have "?R \<subseteq> set [k] \<union> (dependent_rel g)\<^sup>* `` set (rev (dependents_of g k))" by (rule visit_reached)
  also have "\<dots> \<subseteq> (dependent_rel g)\<^sup>* `` {k}"
    by (auto simp: dependent_rel_def intro: converse_rtrancl_into_rtrancl)
  finally show "?R \<subseteq> (dependent_rel g)\<^sup>* `` {k}" .
  have "k \<in> ?R" using visit_covers by fastforce
  moreover have "\<forall>a \<in> ?R. set (dependents_of g a) \<subseteq> ?R" by (rule visit_closed) auto
  ultimately show "(dependent_rel g)\<^sup>* `` {k} \<subseteq> ?R" using closed_rtrancl by blast
qed

text \<open>The walk of a rework reaches everything strictly above the node.\<close>

lemma above_exact: "set (drafts_above g k) = (dependent_rel g)\<^sup>+ `` {k}"
proof
  let ?R = "set (drafts_above g k)"
  have "?R \<subseteq> set [] \<union> (dependent_rel g)\<^sup>* `` set (rev (dependents_of g k))"
    unfolding drafts_above_def by (rule visit_reached)
  also have "\<dots> \<subseteq> (dependent_rel g)\<^sup>+ `` {k}"
    by (auto simp: dependent_rel_def intro: rtrancl_into_trancl2)
  finally show "?R \<subseteq> (dependent_rel g)\<^sup>+ `` {k}" .
  have start: "set (dependents_of g k) \<subseteq> ?R"
    using visit_covers [of "[]" "rev (dependents_of g k)" g] by (simp add: drafts_above_def)
  have "\<forall>a \<in> ?R. set (dependents_of g a) \<subseteq> ?R"
    unfolding drafts_above_def by (rule visit_closed) simp
  from rel_plus_closed [OF this start] show "(dependent_rel g)\<^sup>+ `` {k} \<subseteq> ?R" .
qed

text \<open>What a retry resets is everything strictly above the node it replaces.\<close>

lemma reset_covers: "set reset \<subseteq> set (reset_dependents g reset pending)"
proof (induction g reset pending rule: reset_dependents.induct)
  case (2 g reset p rest)
  obtain r' p' where p: "push_new (dependents_of g p) (reset, rest) = (r', p')" by force
  with 2 [OF p [symmetric]] push_new_grows [OF p] show ?case
    by (simp add: reset_dependents.simps)
qed simp

lemma push_new_pending:
  "push_new ds (reset, pending) = (reset', pending') \<Longrightarrow>
     set pending' = set pending \<union> (set ds - set reset)"
  by (induction ds arbitrary: reset pending) (auto split: if_splits)

lemma reset_reached:
  "set (reset_dependents g reset pending) \<subseteq> set reset \<union> (dependent_rel g)\<^sup>+ `` set pending"
proof (induction g reset pending rule: reset_dependents.induct)
  case (2 g reset p rest)
  obtain r' p' where p: "push_new (dependents_of g p) (reset, rest) = (r', p')" by force
  have step: "set (dependents_of g p) \<subseteq> (dependent_rel g)\<^sup>+ `` set (p # rest)"
    by (auto simp: dependent_rel_def)
  then have "(dependent_rel g)\<^sup>+ `` set p' \<subseteq> (dependent_rel g)\<^sup>+ `` set (p # rest)"
    unfolding push_new_pending [OF p] by (auto intro: trancl_trans)
  with step 2 [OF p [symmetric]] push_new_grows [OF p] show ?case
    by (simp only: reset_dependents.simps p prod.case) blast
qed simp

lemma reset_closed:
  "\<forall>a \<in> set reset. a \<in> set pending \<or> set (dependents_of g a) \<subseteq> set reset \<Longrightarrow>
     \<forall>a \<in> set (reset_dependents g reset pending).
       set (dependents_of g a) \<subseteq> set (reset_dependents g reset pending)"
proof (induction g reset pending rule: reset_dependents.induct)
  case (2 g reset p rest)
  obtain r' p' where p: "push_new (dependents_of g p) (reset, rest) = (r', p')" by force
  have "\<forall>a \<in> set r'. a \<in> set p' \<or> set (dependents_of g a) \<subseteq> set r'"
    unfolding push_new_pending [OF p] push_new_grows [OF p] using 2(2) by auto
  from 2(1) [OF p [symmetric] this] show ?case
    by (simp only: reset_dependents.simps p prod.case)
qed simp

lemma reset_exact:
  "set (reset_dependents g (remdups (dependents_of g k)) (rev (dependents_of g k)))
     = (dependent_rel g)\<^sup>+ `` {k}"
proof
  let ?R = "set (reset_dependents g (remdups (dependents_of g k)) (rev (dependents_of g k)))"
  have "?R \<subseteq> set (dependents_of g k) \<union> (dependent_rel g)\<^sup>+ `` set (dependents_of g k)"
    using reset_reached [of g "remdups (dependents_of g k)" "rev (dependents_of g k)"] by simp
  also have "\<dots> \<subseteq> (dependent_rel g)\<^sup>+ `` {k}"
    by (auto simp: dependent_rel_def intro: trancl_into_trancl2)
  finally show "?R \<subseteq> (dependent_rel g)\<^sup>+ `` {k}" .
  have start: "set (dependents_of g k) \<subseteq> ?R"
    using reset_covers [of "remdups (dependents_of g k)" g "rev (dependents_of g k)"] by simp
  have "\<forall>a \<in> ?R. set (dependents_of g a) \<subseteq> ?R" by (rule reset_closed) simp
  from rel_plus_closed [OF this start] show "(dependent_rel g)\<^sup>+ `` {k} \<subseteq> ?R" .
qed

section \<open>Commands that replay exactly\<close>

text \<open>What a graph must satisfy for its edits to replay: the representation, no node that
  depends on itself, and what each node consumes keyed by its own dependencies.\<close>

definition editable :: "graph \<Rightarrow> bool" where
  "editable g \<longleftrightarrow>
     graph_ok g \<and> (\<forall>k n. graph_get g k = Some n \<longrightarrow> consumes_ok n \<and> k \<notin> set (deps n))"

lemma editable_ok: "editable g \<Longrightarrow> graph_ok g"
  by (simp add: editable_def)

lemma editable_node:
  "editable g \<Longrightarrow> graph_get g k = Some n \<Longrightarrow> consumes_ok n \<and> k \<notin> set (deps n)"
  by (simp add: editable_def)

lemma distinct_dependents: "graph_ok g \<Longrightarrow> distinct (dependents_of g k)"
  using distinct_iter_ids [of g] by (simp add: dependents_of_def distinct_map_filter)

lemma add_deps_keep_consumes:
  assumes "\<forall>d \<in> set ds. bget m d = None \<or> bget m d = bget (consumes n) d" "bmap_ok (consumes n)"
  shows "consumes (fold (\<lambda>d. add_dep d (bget m d)) ds n) = consumes n"
  using assms
proof (induction ds arbitrary: n)
  case (Cons d ds)
  have "consumes (add_dep d (bget m d) n) = consumes n"
    using Cons.prems bm.put_same [OF Cons.prems(2), of d]
    by (auto simp: add_dep_def split: option.split)
  with Cons.IH [of "add_dep d (bget m d) n"] Cons.prems show ?case by simp
qed simp

lemma removes_keep_consumes: "consumes (fold remove_dep ds n) = consumes n"
  by (induction ds arbitrary: n) (simp_all add: remove_dep_def)

definition same_but_edges :: "node \<Rightarrow> node \<Rightarrow> bool" where
  "same_but_edges n m \<longleftrightarrow>
     n\<lparr> deps := [], consumes := [] \<rparr> = m\<lparr> deps := [], consumes := [] \<rparr>"

lemma add_deps_same: "same_but_edges (fold (\<lambda>d. add_dep d (bget m d)) ds n) n"
  by (induction ds arbitrary: n) (auto simp: same_but_edges_def add_dep_def)

lemma removes_same: "same_but_edges (fold remove_dep ds n) n"
  by (induction ds arbitrary: n) (auto simp: same_but_edges_def remove_dep_def)

lemma set_deps_cong:
  assumes "same_but_edges n m" "consumes n = consumes m"
  shows "set_deps ds n = set_deps ds m"
  using assms by (cases n; cases m) (simp add: same_but_edges_def set_deps_def)

lemma modify_cong:
  assumes "\<And>n. graph_get g k = Some n \<Longrightarrow> f n = h n" "graph_ok g"
  shows "graph_modify k f g = graph_modify k h g"
proof -
  have "bmodify k f (nodes g) = bmodify k h (nodes g)"
    unfolding bmodify_def
  proof (rule map_cong [OF refl], clarify)
    fix a n
    assume "(a, n) \<in> set (nodes g)"
    then have "graph_get g a = Some n"
      using assms(2) bmap_ok_in_bget by (fastforce simp: graph_ok_def graph_get_def)
    with assms(1) show "(if a = k then (a, f n) else (a, n)) = (if a = k then (a, h n) else (a, n))"
      by auto
  qed
  then show ?thesis by (simp add: graph_modify_def)
qed

lemma replay_add:
  assumes "graph_ok g" "consumes_ok n" "compile_add w g n = Inr (g', ops)"
  shows "fold (apply_op w) ops g = g'"
proof -
  have ops: "ops = NodeAdded n None # edge_ops (node_id n) (consumes n) (deps n)"
    and g': "g' = graph_insert n g" using assms(3) by (auto simp: compile_add_def)
  have "graph_modify (node_id n) (fold (\<lambda>d. add_dep d (bget (consumes n) d)) (deps n)) (graph_insert n g)
      = graph_insert n g"
    using assms(1,2) by (intro modify_id) (auto simp: consumes_ok_def intro: add_deps_present)
  then show ?thesis by (simp add: ops g' edge_ops_fold)
qed

lemma replay_reparent:
  assumes "editable g" "compile_reparent g f k ds = Inr (g', ops)"
  shows "fold (apply_op w) ops g = g'"
proof -
  obtain n where n: "graph_get g k = Some n" and g': "g' = graph_modify k (set_deps ds) g"
    and ops: "ops = map (\<lambda>d. EdgeRemoved d k) (deps n) @ edge_ops k (consumes n) ds
                    @ [Reparent k (deps n) ds]"
    using assms(2) by (auto simp: compile_reparent_def split: option.splits)
  let ?rm = "fold remove_dep (deps n)" and ?ad = "fold (\<lambda>d. add_dep d (bget (consumes n) d)) ds"
  have "set_deps ds (?ad (?rm n)) = set_deps ds n"
  proof (rule set_deps_cong)
    show "same_but_edges (?ad (?rm n)) n"
      using add_deps_same removes_same unfolding same_but_edges_def by metis
    have "bmap_ok (consumes n)" using editable_node [OF assms(1) n] by (simp add: consumes_ok_def)
    then show "consumes (?ad (?rm n)) = consumes n"
      by (simp add: add_deps_keep_consumes removes_keep_consumes)
  qed
  then have "graph_modify k (\<lambda>m. set_deps ds (?ad (?rm m))) g = graph_modify k (set_deps ds) g"
    using n editable_ok [OF assms(1)] by (intro modify_cong) simp_all
  then show ?thesis by (simp add: ops g' edge_removals_fold edge_ops_fold modify_modify)
qed

lemma drop_removed_survivor:
  assumes "editable g" "graph_get g j = Some n" "j \<notin> (dependent_rel g)\<^sup>* `` {k}"
  shows "(dependent_rel g)\<^sup>* `` {k} \<inter> set (deps n) = {}"
proof -
  have "j \<in> (dependent_rel g)\<^sup>* `` {k}" if "d \<in> (dependent_rel g)\<^sup>* `` {k}" "d \<in> set (deps n)" for d
    using that assms(2) in_dependents_of [OF editable_ok [OF assms(1)], of j d]
    by (auto simp: dependent_rel_def intro: rtrancl_into_rtrancl)
  with assms(3) show ?thesis by blast
qed

lemma replay_drop:
  assumes ed: "editable g" and c: "compile_drop g f k ds reason = Inr (g', ops)"
  shows "fold (apply_op w) ops g = g'"
proof -
  note ok = editable_ok [OF ed]
  define removed where "removed = in_order (if ds = Drop_Dependents
      then visit_dependents g [k] (rev (dependents_of g k)) else [k])"
  define detached where "detached = (if ds = Detach then dependents_of g k else [])"
  define g1 where "g1 = fold (\<lambda>d. graph_modify d (remove_dep k)) detached g"
  define g2 where "g2 = fold (\<lambda>d. graph_modify d (detach_dep k)) detached g"
  have g': "g' = fold graph_remove removed g2"
    and ops: "ops = map (EdgeRemoved k) detached @ map (\<lambda>d. NodeDropped d ds) removed"
    using c by (auto simp: compile_drop_def removed_def detached_def g2_def Let_def split: option.splits)
  have dist: "distinct detached" using distinct_dependents [OF ok] by (simp add: detached_def)
  have "fold (apply_op w) (map (EdgeRemoved k) detached) g = g1"
    unfolding g1_def by (induction detached arbitrary: g) simp_all
  moreover have "fold (apply_op w) (map (\<lambda>d. NodeDropped d ds) removed) g1 = fold graph_remove removed g2"
  proof (rule graph_eqI)
    have ok1: "graph_ok g1" unfolding g1_def by (rule graph_ok_modifies) (simp_all add: ok)
    then show "graph_ok (fold (apply_op w) (map (\<lambda>d. NodeDropped d ds) removed) g1)"
      by (rule replay.fold_inv)
    show "graph_ok (fold graph_remove removed g2)"
      unfolding g2_def by (intro graph_ok_removes graph_ok_modifies) (simp_all add: ok)
    show "order_ids (fold (apply_op w) (map (\<lambda>d. NodeDropped d ds) removed) g1)
        = order_ids (fold graph_remove removed g2)"
      by (simp add: drops_order g1_def g2_def)
    show "concurrency (fold (apply_op w) (map (\<lambda>d. NodeDropped d ds) removed) g1)
        = concurrency (fold graph_remove removed g2)"
      by (simp add: drops_order g1_def g2_def)
    fix j
    have survivor: "fold forget_consumed removed (if j \<in> set detached then remove_dep k n else n)
        = (if j \<in> set detached then detach_dep k n else n)"
      if n: "graph_get g j = Some n" and "j \<notin> set removed" for n
    proof -
      have keys: "fst ` set (consumes n) \<subseteq> set (deps n)" "bmap_ok (consumes n)"
        using editable_node [OF ed n] by (simp_all add: consumes_ok_def)
      show ?thesis
      proof (cases ds)
        case Detach
        then have r: "removed = [k]" by (simp add: removed_def in_order_def)
        have "forget_consumed k n = n" if "k \<notin> set (deps n)"
          using keys that by (intro forget_absent) blast
        with n Detach r show ?thesis
          by (auto simp: detached_def detach_dep_def in_dependents_of [OF ok])
      next
        case Drop_Dependents
        then have r: "set removed = (dependent_rel g)\<^sup>* `` {k}"
          by (simp add: removed_def in_order_def visit_exact)
        have "set removed \<inter> set (deps n) = {}"
          using drop_removed_survivor [OF ed n] that(2) r by blast
        with keys have "fold forget_consumed removed n = n" by (intro forget_all_absent) blast
        with Drop_Dependents show ?thesis by (simp add: detached_def)
      qed
    qed
    then show "graph_get (fold (apply_op w) (map (\<lambda>d. NodeDropped d ds) removed) g1) j
        = graph_get (fold graph_remove removed g2) j"
      unfolding drops_get [OF ok1] get_removes
      by (cases "graph_get g j") (auto simp: g1_def g2_def get_modifies [OF dist])
  qed
  ultimately show ?thesis by (simp add: ops g')
qed

end
