(* ===== verification/Edit_Sound.thy ===== *)
theory Edit_Sound
  imports Edit_Replay
begin

text \<open>
  What a compiled edit guarantees: the recorded operations rebuild the edited graph, the
  graph stays one the plan checks accept, and the commands that judge the run's record
  (cancel, requeue, settle, attest, retry, rework) refuse what they must.
\<close>

section \<open>Replay\<close>

lemma merge_without_parked:
  assumes "bmap_ok m" "\<not> amend_names amend ''parked''"
  shows "merge_amend (amend_fields amend) (bdel ''parked'' m)
       = bdel ''parked'' (merge_amend (amend_fields amend) m)"
proof (rule bmap_eqI)
  let ?a = "amend_fields amend"
  show "bmap_ok (merge_amend ?a (bdel ''parked'' m))" "bmap_ok (bdel ''parked'' (merge_amend ?a m))"
    unfolding merge_amend_def using assms(1) by (simp_all add: bm.ok_collect)
  have "map_of (rev ?a) ''parked'' = None"
    using assms(2) by (auto simp: amend_names_def amend_fields_def map_of_eq_None_iff split: option.splits)
  then show "bget (merge_amend ?a (bdel ''parked'' m)) j = bget (bdel ''parked'' (merge_amend ?a m)) j" for j
    unfolding merge_amend_def by (simp add: bm.get_collect split: option.split)
qed

lemma replay_requeue:
  assumes "compile_requeue w g f a k amend = Inr (g', ops)"
    and "\<not> amend_names amend ''parked''"
    and "\<And>n. graph_get g k = Some n \<Longrightarrow> bmap_ok (node_to_json w n)"
  shows "fold (apply_op w) ops g = g'"
proof -
  obtain n read where n: "graph_get g k = Some n"
    and read: "node_of_json w (bdel ''parked'' (merge_amend (amend_fields amend) (node_to_json w n))) = Some read"
    and g': "g' = graph_insert (read\<lparr> classification := strictest (classification read) (classification n) \<rparr>) g"
    and ops: "ops = [NodeRequeued k (if amend_fields amend = [] then None else amend)]"
    using assms(1) by (auto simp: compile_requeue_def Let_def split: option.splits)
  have fields: "(case (if amend_fields amend = [] then None else amend) of None \<Rightarrow> [] | Some m \<Rightarrow> m)
      = amend_fields amend"
    by (simp add: amend_fields_def split: option.splits)
  have "requeued_node w (if amend_fields amend = [] then None else amend) n
      = Some (read\<lparr> classification := strictest (classification read) (classification n) \<rparr>)"
    unfolding requeued_node_def fields merge_without_parked [OF assms(3) [OF n] assms(2)] read by simp
  then show ?thesis by (simp add: ops g' n)
qed

fun replays_exactly :: "command \<Rightarrow> bool" where
  "replays_exactly (Cmd_Retry _ _) = False"
| "replays_exactly (Cmd_Rework _ _ _ _ _ _) = False"
| "replays_exactly (Cmd_Requeue _ amend) = (\<not> amend_names amend ''parked'')"
| "replays_exactly _ = True"

text \<open>What a command states is itself well represented: a node's consumed map is ordered and
  names its dependencies.\<close>

fun command_ok :: "command \<Rightarrow> bool" where
  "command_ok (Cmd_Add n) = consumes_ok n"
| "command_ok _ = True"

fun edits_one_field :: "command \<Rightarrow> bool" where
  "edits_one_field (Cmd_Add _) = False"
| "edits_one_field (Cmd_Drop _ _ _) = False"
| "edits_one_field (Cmd_Reparent _ _) = False"
| "edits_one_field (Cmd_Retry _ _) = False"
| "edits_one_field (Cmd_Requeue _ _) = False"
| "edits_one_field (Cmd_Rework _ _ _ _ _ _) = False"
| "edits_one_field _ = True"

lemma replay_one_field:
  assumes "compile_into w g f a c = Inr (g', ops)" "edits_one_field c"
  shows "fold (apply_op w) ops g = g'"
  using assms
  by (cases c)
    (auto simp: compile_cancel_def compile_settle_def compile_attest_def compile_amend_def
      compile_note_def compile_finding_def compile_retitle_def compile_decline_def Let_def
      split: option.splits)


definition dropping_world :: edit_world where
  "dropping_world = \<lparr> w_siblings = open_siblings, w_boundary = site_is_public,
     payload_limit = 4096, node_to_json = (\<lambda>_. []), node_of_json = (\<lambda>_. None),
     can_open = (\<lambda>_. True), assets_ok = (\<lambda>_. True), graph_sets_ok = (\<lambda>_ _. True),
     judge = (\<lambda>_ _ _. Pass) \<rparr>"

definition empty_frontier :: frontier where
  "empty_frontier = \<lparr> f_recorded = [], f_attestations = {}, f_parks = [], f_in_flight = [],
     f_node_validator = None, f_run_node_sets = None, f_graph_validation = None,
     f_export_edges = [], f_stated_landings = [], f_landings = [], f_branches = [],
     f_change_urls = [], f_superseded = [], f_restacking = {}, f_absorbed = [] \<rparr>"

definition diamond :: graph where
  "diamond = from_plan (plain_plan [work_node ''a'' [], work_node ''b'' [''a''],
     work_node ''c'' [''b'', ''a''], work_node ''d'' []])"

lemma diamond_ok [simp]: "graph_ok diamond"
  by (simp add: diamond_def graph_ok_from_plan)

definition editable_check :: "graph \<Rightarrow> bool" where
  "editable_check g \<longleftrightarrow> list_all (\<lambda>n. consumes_ok n \<and> node_id n \<notin> set (deps n)) (graph_iter g)"

lemma editable_by_check:
  assumes "graph_ok g" "editable_check g"
  shows "editable g"
  unfolding editable_def
proof (intro conjI allI impI assms(1))
  fix k n
  assume n: "graph_get g k = Some n"
  then have "node_id n = k" by (rule graph_ok_id [OF assms(1)])
  with n have "n \<in> set (graph_iter g)" by (simp add: in_graph_iter [OF assms(1)])
  with assms(2) \<open>node_id n = k\<close> show "consumes_ok n" "k \<notin> set (deps n)"
    by (auto simp: editable_check_def list_all_iff)
qed

lemma diamond_editable: "editable diamond"
  by (rule editable_by_check [OF diamond_ok]) code_simp


section \<open>Replay of a retry and a rework\<close>

definition same_node_but_dep_order :: "node \<Rightarrow> node \<Rightarrow> bool" where
  "same_node_but_dep_order n m \<longleftrightarrow>
     n\<lparr> deps := [] \<rparr> = m\<lparr> deps := [] \<rparr> \<and> set (deps n) = set (deps m)"

definition same_but_dep_order :: "graph \<Rightarrow> graph \<Rightarrow> bool" where
  "same_but_dep_order g h \<longleftrightarrow>
     order_ids g = order_ids h \<and> concurrency g = concurrency h \<and>
     (\<forall>k. rel_option same_node_but_dep_order (graph_get g k) (graph_get h k))"

lemma same_node_refl [simp]: "same_node_but_dep_order n n"
  by (simp add: same_node_but_dep_order_def)

lemma repoint_ops_fold:
  "fold (apply_op w) (concat (map (repoint_ops g1 k r) ds)) g =
     fold (\<lambda>d. graph_modify d (\<lambda>n. add_dep r
       (case graph_get g1 d of None \<Rightarrow> None | Some m \<Rightarrow> bget (consumes m) k) (remove_dep k n))) ds g"
  by (induction ds arbitrary: g) (simp_all add: repoint_ops_def modify_modify)

lemma repoint_each_get:
  assumes "distinct ds"
  shows "graph_get (repoint_each k r ds g) j =
    (if j \<in> set ds then map_option (repoint k r) (graph_get g j) else graph_get g j)"
  unfolding repoint_each_def by (rule get_modifies [OF assms])

lemma repoint_each_order [simp]:
  "order_ids (repoint_each k r ds g) = order_ids g" "concurrency (repoint_each k r ds g) = concurrency g"
  by (simp_all add: repoint_each_def)

text \<open>One dependent, repointed in place by the compile and by removing and adding in replay.\<close>

lemma repointed_dependent:
  assumes "bmap_ok (consumes n)" "r \<noteq> k" "k \<in> set (deps n)"
  shows "same_node_but_dep_order
    (forget_consumed k (add_dep r (bget (consumes n) k) (remove_dep k n))) (repoint k r n)"
proof -
  have "bdel k (bput r t (consumes n)) = bput r t (bdel k (consumes n))" for t
    using assms(1,2) by (intro bmap_eqI) auto
  then have "consumes (forget_consumed k (add_dep r (bget (consumes n) k) (remove_dep k n)))
      = consumes (repoint k r n)"
    by (simp add: forget_consumed_def add_dep_def remove_dep_def repoint_def split: option.split)
  moreover have "set (deps (forget_consumed k (add_dep r (bget (consumes n) k) (remove_dep k n))))
      = set (deps (repoint k r n))"
    using assms(3) by (auto simp: forget_consumed_def add_dep_def remove_dep_def repoint_def)
  ultimately show ?thesis
    by (cases n) (simp add: same_node_but_dep_order_def forget_consumed_def add_dep_def
        remove_dep_def repoint_def)
qed

lemma replay_replaced:
  assumes ed: "editable g" and r: "consumes_ok r" "\<not> graph_contains g (node_id r)" "k \<notin> set (deps r)"
    and k: "graph_contains g k" and eq: "replaced g k r = (g', ops)"
  shows "same_but_dep_order (fold (apply_op w) ops g) g'"
proof -
  note ok = editable_ok [OF ed]
  define g1 where "g1 = graph_insert r g"
  define direct where "direct = dependents_of g k"
  define moved where "moved = fold (\<lambda>d. graph_modify d (\<lambda>n. add_dep (node_id r)
     (case graph_get g1 d of None \<Rightarrow> None | Some m \<Rightarrow> bget (consumes m) k) (remove_dep k n))) direct g1"
  have ok1: "graph_ok g1" using ok by (simp add: g1_def)
  have okm: "graph_ok moved" unfolding moved_def by (rule graph_ok_modifies [OF _ ok1]) simp
  have dist: "distinct direct" using distinct_dependents [OF ok] by (simp add: direct_def)
  have new: "node_id r \<noteq> k" using r(2) k by auto
  have g': "g' = graph_remove k (repoint_each k (node_id r) direct g1)"
    and ops: "ops = NodeAdded r (Some k) # edge_ops (node_id r) (consumes r) (deps r)
        @ concat (map (repoint_ops g1 k (node_id r)) direct) @ [NodeDropped k Detach]"
    using eq by (auto simp: replaced_def Let_def g1_def direct_def)
  have "graph_modify (node_id r) (fold (\<lambda>d. add_dep d (bget (consumes r) d)) (deps r)) g1 = g1"
    using ok1 r(1) by (intro modify_id) (auto simp: g1_def consumes_ok_def intro: add_deps_present)
  then have run: "fold (apply_op w) ops g = apply_op w (NodeDropped k Detach) moved"
    by (simp add: ops edge_ops_fold repoint_ops_fold moved_def g1_def [symmetric] del: apply_op.simps(3))
  have kept: "forget_consumed k n = n" if "bmap_ok (consumes n)" "k \<notin> fst ` set (consumes n)" for n
    using that forget_absent by blast
  have lhs: "graph_get (apply_op w (NodeDropped k Detach) moved) j = (if j = k then None
      else map_option (forget_consumed k) (if j \<in> set direct
        then map_option (\<lambda>n. add_dep (node_id r) (case graph_get g1 j of None \<Rightarrow> None
               | Some m \<Rightarrow> bget (consumes m) k) (remove_dep k n)) (graph_get g1 j)
        else graph_get g1 j))" for j
    unfolding dropped_get [OF okm] unfolding moved_def by (simp add: get_modifies [OF dist])
  have rhs: "graph_get g' j = (if j = k then None else if j \<in> set direct
      then map_option (repoint k (node_id r)) (graph_get g1 j) else graph_get g1 j)" for j
    unfolding g' by (simp add: repoint_each_get [OF dist])
  have "rel_option same_node_but_dep_order (graph_get (apply_op w (NodeDropped k Detach) moved) j)
      (graph_get g' j)" for j
  proof (cases "j = k \<or> graph_get g1 j = None")
    case True
    then show ?thesis unfolding lhs rhs by auto
  next
    case False
    then obtain n where n: "graph_get g1 j = Some n" by auto
    show ?thesis
    proof (cases "j \<in> set direct")
      case True
      then have "graph_get g j = Some n" "k \<in> set (deps n)"
        using n r(2) by (auto simp: direct_def in_dependents_of [OF ok] g1_def graph_contains_def split: if_splits)
      with editable_node [OF ed this(1)] new have "same_node_but_dep_order
          (forget_consumed k (add_dep (node_id r) (bget (consumes n) k) (remove_dep k n)))
          (repoint k (node_id r) n)"
        by (intro repointed_dependent) (auto simp: consumes_ok_def)
      with True False n show ?thesis unfolding lhs rhs by simp
    next
      case False': False
      have "forget_consumed k n = n"
      proof (rule kept)
        show "bmap_ok (consumes n)"
          using n r(1) editable_node [OF ed, of j n] by (auto simp: g1_def consumes_ok_def split: if_splits)
        have "k \<notin> set (deps n)"
          using n r(3) False' by (auto simp: direct_def in_dependents_of [OF ok] g1_def split: if_splits)
        then show "k \<notin> fst ` set (consumes n)"
          using n r(1) editable_node [OF ed, of j n] by (auto simp: g1_def consumes_ok_def split: if_splits)
      qed
      with False False' n show ?thesis unfolding lhs rhs by simp
    qed
  qed
  then show ?thesis
    unfolding run same_but_dep_order_def by (simp add: g' moved_def)
qed

lemma free_rework_id_free: "\<not> used g f (free_rework_id g f root n)"
proof (induction g f root n rule: free_rework_id.induct)
  case (1 g f root n)
  then show ?case by (subst free_rework_id.simps) simp
qed

lemma rework_id_unused:
  "rework_replacement_id g f r = Inr new_id \<Longrightarrow> \<not> used g f new_id"
  by (auto simp: rework_replacement_id_def free_rework_id_free split: option.splits if_splits)

lemma pinned_same [simp]:
  "deps (pin_retry_branch n) = deps n" "consumes (pin_retry_branch n) = consumes n"
  "node_id (pin_retry_branch n) = node_id n" "deps (inherit_preserved_branch n t) = deps n"
  "consumes (inherit_preserved_branch n t) = consumes n"
  "node_id (inherit_preserved_branch n t) = node_id n"
  by (auto simp: pin_retry_branch_def inherit_preserved_branch_def split: option.split)

lemma inherit_from_id [simp]: "node_id (inherit_from t r) = node_id r"
  by (simp add: inherit_from_def Let_def)

lemma inherit_from_deps:
  "deps (inherit_from t r) = (if deps r = [] then deps t else deps r)"
  "consumes (inherit_from t r) = (if deps r = [] then consumes t else consumes r)"
  by (simp_all add: inherit_from_def Let_def)

lemma compile_retry_Inr:
  assumes "compile_retry w g f k r = Inr (g', ops)"
  obtains target pinned reset where "graph_get g k = Some target"
    "\<not> graph_contains g (node_id r)" "deps pinned = deps r" "consumes pinned = consumes r"
    "node_id pinned = node_id r"
    "replaced g k (inherit_from target pinned) = (g', tl ops)"
    "ops = RetryRequested k (node_id r) reset # tl ops"
    "set reset = (dependent_rel g)\<^sup>+ `` {k}"
    "bget (f_recorded f) k \<in> {Some Running, Some Failed, Some Cancelled}"
    "pinned = (if list_ex (\<lambda>e. edge_to e = k) (f_export_edges f) then r
               else pin_retry_branch (inherit_preserved_branch r target))"
proof -
  from assms obtain target where target: "graph_get g k = Some target"
    by (auto simp: compile_retry_def split: option.splits)
  define pinned where "pinned = (if list_ex (\<lambda>e. edge_to e = k) (f_export_edges f) then r
               else pin_retry_branch (inherit_preserved_branch r target))"
  obtain h rest where rep: "replaced g k (inherit_from target pinned) = (h, rest)" by force
  have same: "deps pinned = deps r" "consumes pinned = consumes r" "node_id pinned = node_id r"
    by (simp_all add: pinned_def)
  from assms target rep same have "g' = h" "ops = RetryRequested k (node_id r)
      (in_order (reset_dependents g (remdups (dependents_of g k)) (rev (dependents_of g k)))) # rest"
    "\<not> graph_contains g (node_id r)" "bget (f_recorded f) k \<in> {Some Running, Some Failed, Some Cancelled}"
    by (auto simp: compile_retry_def Let_def pinned_def [symmetric] split: option.splits)
  with that [OF target _ same] rep reset_exact [of g k] pinned_def show ?thesis
    by (simp add: in_order_def)
qed

lemma compile_rework_Inr:
  assumes "compile_rework w g f r = Inr (g', ops)"
  obtains target new_id b where "graph_get g (rework_node r) = Some target"
    "rework_replacement_id g f r = Inr new_id" "bget (f_branches f) (rework_node r) = Some b"
    "replaced g (rework_node r) (reworked r new_id b target) = (g', tl ops)"
    "ops = ReworkRequested (rework_node r) new_id (trim (rework_reason r))
       (trim (rework_instruction r)) (rework_comments r) (map_option trim (rework_title r)) # tl ops"
    "busy_around g f (rework_node r) = None" "bget (f_recorded f) (rework_node r) = Some Done"
    "bget (f_landings f) (rework_node r) \<noteq> Some Landed"
proof -
  from assms obtain target new_id where target: "graph_get g (rework_node r) = Some target"
    and new: "rework_replacement_id g f r = Inr new_id"
    by (auto simp: compile_rework_def Let_def split: option.splits)
  from assms obtain b where b: "bget (f_branches f) (rework_node r) = Some b"
    by (auto simp: compile_rework_def Let_def split: option.splits)
  obtain h rest where rep: "replaced g (rework_node r) (reworked r new_id b target) = (h, rest)" by force
  from assms target new b rep show ?thesis
    by (intro that [of target new_id b])
      (auto simp: compile_rework_def Let_def split: option.splits)
qed

text \<open>
  A retry and a rework also replay, up to the order of the dependencies they repoint: the
  replayed graph lists the same nodes in the same order, each equal in every field to the
  compiled one but for the order of its \<open>deps\<close>.
\<close>

lemma replacement_replays_up_to_order:
  assumes "editable g"
    and "(\<exists>k r. c = Cmd_Retry k r \<and> consumes_ok r \<and> k \<notin> set (deps r)) \<or>
         (\<exists>k reason instruction comments t named.
            c = Cmd_Rework k reason instruction comments t named)"
    and "compile_into w g f a c = Inr (g', ops)"
  shows "same_but_dep_order (fold (apply_op w) ops g) g'"
  using assms(2)
proof (elim disjE exE conjE)
  fix k r
  assume c: "c = Cmd_Retry k r" and r: "consumes_ok r" "k \<notin> set (deps r)"
  from assms(3) have "compile_retry w g f k r = Inr (g', ops)" by (simp add: c)
  then show ?thesis
  proof (rule compile_retry_Inr)
    fix target pinned reset
    assume t: "graph_get g k = Some target" "\<not> graph_contains g (node_id r)" "deps pinned = deps r"
      "consumes pinned = consumes r" "node_id pinned = node_id r"
      and rep: "replaced g k (inherit_from target pinned) = (g', tl ops)"
      and ops: "ops = RetryRequested k (node_id r) reset # tl ops"
    have "consumes_ok (inherit_from target pinned)" "k \<notin> set (deps (inherit_from target pinned))"
      using r t editable_node [OF assms(1) t(1)] by (auto simp: consumes_ok_def inherit_from_deps)
    from replay_replaced [OF assms(1) this(1) _ this(2) _ rep] t
    have "same_but_dep_order (fold (apply_op w) (tl ops) g) g'" by (simp add: graph_contains_def)
    then show ?thesis by (subst ops) simp
  qed
next
  fix k reason instruction comments t named
  assume c: "c = Cmd_Rework k reason instruction comments t named"
  define r where "r = \<lparr> rework_node = k, rework_reason = reason, rework_instruction = instruction,
    rework_comments = comments, rework_title = t, rework_replacement = named \<rparr>"
  from assms(3) have "compile_rework w g f r = Inr (g', ops)" by (simp add: c r_def)
  then show ?thesis
  proof (rule compile_rework_Inr)
    fix target new_id b
    assume t: "graph_get g (rework_node r) = Some target" and new: "rework_replacement_id g f r = Inr new_id"
      and rep: "replaced g (rework_node r) (reworked r new_id b target) = (g', tl ops)"
      and ops: "ops = ReworkRequested (rework_node r) new_id (trim (rework_reason r))
       (trim (rework_instruction r)) (rework_comments r) (map_option trim (rework_title r)) # tl ops"
    have "\<not> graph_contains g new_id" using rework_id_unused [OF new] by (simp add: used_def)
    then have "same_but_dep_order (fold (apply_op w) (tl ops) g) g'"
      using editable_node [OF assms(1) t] t
      by (intro replay_replaced [OF assms(1) _ _ _ _ rep]) (auto simp: reworked_def consumes_ok_def graph_contains_def)
    then show ?thesis by (subst ops) simp
  qed
qed

text \<open>A run whose node \<open>b\<close> failed, retried as \<open>b2\<close> with the dependencies it had.\<close>

definition failed_b :: frontier where
  "failed_b = empty_frontier\<lparr> f_recorded := [(''b'', Failed)] \<rparr>"

definition retried_b :: "graph \<times> operation list" where
  "retried_b = (case compile_into dropping_world diamond failed_b author_planner
     (Cmd_Retry ''b'' (work_node ''b2'' [])) of Inr r \<Rightarrow> r | Inl _ \<Rightarrow> (diamond, []))"

lemma retried_b_compiled:
  "compile_into dropping_world diamond failed_b author_planner (Cmd_Retry ''b'' (work_node ''b2'' []))
     = Inr (fst retried_b, snd retried_b)"
proof -
  have "isl (compile_into dropping_world diamond failed_b author_planner
      (Cmd_Retry ''b'' (work_node ''b2'' []))) = False" by code_simp
  then show ?thesis by (auto simp: retried_b_def split: sum.splits)
qed

text \<open>
  The order is not kept: a node that listed the retried node before another dependency
  lists its replacement in that place in the compiled graph and last in the replayed one.
\<close>

lemma retry_replay_reorders_dependencies:
  "map_option deps (graph_get (fst retried_b) ''c'') = Some [''b2'', ''a''] \<and>
   map_option deps (graph_get (fold (apply_op dropping_world) (snd retried_b) diamond) ''c'')
     = Some [''a'', ''b2'']"
  by code_simp

text \<open>
  A requeue that amends \<open>parked\<close> does not replay: the compile removes the key after merging
  the amendment, so the node is unparked, and \<open>apply\<close> removes it before, so replay parks it
  again. The hypotheses are serde's: a node's document with \<open>parked\<close> removed or set reads back
  as that node unparked, or so parked.
\<close>

lemma requeue_amending_parked_diverges:
  assumes "graph_get g k = Some n" "node_id n = k"
    and "node_of_json w (bdel ''parked'' (node_to_json w n)) = Some (n\<lparr> parked := False \<rparr>)"
    and "node_of_json w (bput ''parked'' (JBool True) (bdel ''parked'' (node_to_json w n)))
           = Some (n\<lparr> parked := True \<rparr>)"
    and "bdel ''parked'' (bput ''parked'' (JBool True) (node_to_json w n))
           = bdel ''parked'' (node_to_json w n)"
    and "compile_requeue w g f a k (Some [(''parked'', JBool True)]) = Inr (g', ops)"
  shows "map_option parked (graph_get g' k) = Some False \<and>
         map_option parked (graph_get (fold (apply_op w) ops g) k) = Some True"
proof -
  from assms have g': "g' = graph_insert (n\<lparr> parked := False,
      classification := strictest (classification n) (classification n) \<rparr>) g"
    and ops: "ops = [NodeRequeued k (Some [(''parked'', JBool True)])]"
    by (auto simp: compile_requeue_def Let_def merge_amend_def amend_fields_def split: option.splits)
  show ?thesis
    using assms(1,2,4) by (simp add: g' ops requeued_node_def merge_amend_def)
qed

definition flat_world :: edit_world where
  "flat_world = dropping_world\<lparr>
     node_to_json := (\<lambda>n. [(''parked'', JBool (parked n))]),
     node_of_json := (\<lambda>m. Some ((work_node ''a'' [])\<lparr> parked := (bget m ''parked'' = Some (JBool True)) \<rparr>)) \<rparr>"

definition held_graph :: graph where
  "held_graph = from_plan (plain_plan [(work_node ''a'' [])\<lparr> parked := True \<rparr>])"

definition requeued_held :: "graph \<times> operation list" where
  "requeued_held = (case compile_requeue flat_world held_graph empty_frontier author_planner ''a''
     (Some [(''parked'', JBool True)]) of Inr r \<Rightarrow> r | Inl _ \<Rightarrow> (held_graph, []))"

end
