(* ===== verification/Edit_Accepted.thy ===== *)
theory Edit_Accepted
  imports Edit_Sound
begin

text \<open>
  The graph a run edits stays one the plan checks accept (\<open>compile\<close> of \<open>src/src/edits.rs\<close>
  against \<open>check_edited\<close> of \<open>graph.rs\<close>), what a drop and a retry leave of it, and the one
  command that changes a node past the checks: a settle unparks it, which no check reads.
\<close>

section \<open>No plan check reads the park\<close>

definition reparked :: "(node \<Rightarrow> bool) \<Rightarrow> node \<Rightarrow> node" where
  "reparked h n = n\<lparr> parked := h n \<rparr>"

lemma reparked_fields [simp]:
  "node_id (reparked h n) = node_id n" "kind (reparked h n) = kind n" "deps (reparked h n) = deps n"
  "publish (reparked h n) = publish n" "repo (reparked h n) = repo n"
  "base_branch (reparked h n) = base_branch n" "delivers (reparked h n) = delivers n"
  "consumes (reparked h n) = consumes n"
  by (simp_all add: reparked_def)

lemma check_node_reparked [simp]: "check_node sib (reparked h n) = check_node sib n"
  by (simp add: check_node_def check_human_def check_no_diff_def check_agent_def
      keeps_nothing_def reparked_def Let_def cong: option.case_cong if_cong)

lemma check_nodes_reparked [simp]:
  "check_nodes sib seen delivered (map (reparked h) ns) = check_nodes sib seen delivered ns"
  by (induction ns arbitrary: seen delivered) simp_all

lemma check_edge_deps_reparked [simp]:
  "check_edge_deps (map (reparked h) ns) i es = check_edge_deps ns i es"
proof (induction es arbitrary: i)
  case (Cons e es)
  have "find (\<lambda>n. node_id n = edge_to e) (map (reparked h) ns)
      = map_option (reparked h) (find (\<lambda>n. node_id n = edge_to e) ns)"
    by (induction ns) auto
  with Cons show ?case by (simp split: option.split)
qed simp

lemma base_candidates_reparked:
  "base_candidates sib (map (\<lambda>(k, n). (k, reparked h n)) ns) (reparked h n) ds
     = map_sum id (map (reparked h)) (base_candidates sib ns n ds)"
  by (induction ds)
    (auto simp: map_of_map [unfolded prod.case_eq_if] map_of_map sum.map_comp comp_def split: option.split)

lemma choose_base_reparked:
  "choose_base bases (map (reparked h) cs) = map_option (reparked h) (choose_base bases cs)"
proof -
  have "find P (map (reparked h) cs) = map_option (reparked h) (find (\<lambda>c. P (reparked h c)) cs)" for P
    by (induction cs) auto
  then show ?thesis by (simp add: choose_base_def list.pred_map comp_def)
qed

lemma resolve_reparked:
  "resolve_base sib (map (\<lambda>(k, n). (k, reparked h n)) ns) fuel (reparked h n) st
     = resolve_base sib ns fuel n st"
  "resolve_each sib (map (\<lambda>(k, n). (k, reparked h n)) ns) fuel (map (reparked h) rest) st
     = resolve_each sib ns fuel rest st"
proof (induction sib ns fuel n st and sib ns fuel rest st rule: resolve_base_resolve_each.induct)
  case (2 sib ns fuel n bases visited)
  show ?case
  proof (cases "base_candidates sib ns n (deps n)")
    case (Inr cs)
    show ?thesis
    proof (cases cs)
      case (Cons c cs')
      from 2 [OF _ _ Inr Cons] Inr Cons show ?thesis
        by (auto simp: base_candidates_reparked choose_base_reparked [of _ _ "c # cs'", simplified] comp_def
            split: option.split sum.split)
    qed (use Inr in \<open>simp add: base_candidates_reparked\<close>)
  qed (simp add: base_candidates_reparked)
next
  case (4 sib ns fuel n rest st)
  then show ?case by (auto split: option.split sum.split)
qed simp_all

lemma bput_map: "bput k (f v) (map (\<lambda>(a, b). (a, f b)) m) = map (\<lambda>(a, b). (a, f b)) (bput k v m)"
  by (induction m) auto

lemma bcollect_map:
  "bcollect (map (\<lambda>n. (key n, f (val n))) ns) = map (\<lambda>(a, b). (a, f b)) (bcollect (map (\<lambda>n. (key n, val n)) ns))"
proof -
  have "fold (\<lambda>(k, v) m. bput k v m) (map (\<lambda>n. (key n, f (val n))) ns) (map (\<lambda>(a, b). (a, f b)) m)
      = map (\<lambda>(a, b). (a, f b)) (fold (\<lambda>(k, v) m. bput k v m) (map (\<lambda>n. (key n, val n)) ns) m)" for m
    by (induction ns arbitrary: m) (simp_all add: bput_map)
  from this [of "[]"] show ?thesis by (simp add: bcollect_def)
qed

lemma check_edited_reparked:
  "check_edited sib (p\<lparr> tasks := map (reparked h) (tasks p) \<rparr>) = check_edited sib p"
proof -
  let ?p = "p\<lparr> tasks := map (reparked h) (tasks p) \<rparr>"
  have "check_stacking sib ?p = check_stacking sib p"
  proof -
    have "plan_nodes ?p = map (\<lambda>(k, n). (k, reparked h n)) (plan_nodes p)"
      using bcollect_map [of node_id "reparked h" "\<lambda>n. n" "tasks p"] by (simp add: plan_nodes_def comp_def)
    moreover have "map snd (map (\<lambda>(k, n). (k, reparked h n)) ns) = map (reparked h) (map snd ns)"
      for ns :: "node bmap" by auto
    ultimately show ?thesis
      by (simp only: check_stacking_def stacking_bases_def length_map resolve_reparked)
  qed
  moreover have "find_cycle (map (reparked h) (tasks p)) = find_cycle (tasks p)"
    by (simp add: find_cycle_def cycle_path_def cycle_deps_def comp_def)
  moreover have "check_edges sib ?p = check_edges sib p"
    by (simp add: check_edges_def comp_def)
  moreover have "check_all (\<lambda>n. check_all (check_dep ?p n) (deps n)) (map (reparked h) (tasks p))
      = check_all (\<lambda>n. check_all (check_dep p n) (deps n)) (tasks p)"
  proof -
    have "check_dep ?p (reparked h n) = check_dep p n" for n
      by (rule ext) (simp add: check_dep_def Let_def comp_def is_export_def preserved_ids_def filter_map cong: if_cong)
    then show ?thesis by (simp add: check_all_def comp_def)
  qed
  ultimately show ?thesis by (simp add: check_edited_def)
qed

lemma iter_modify_parked:
  assumes "graph_ok g"
  shows "graph_iter (graph_modify k (\<lambda>n. n\<lparr> parked := b \<rparr>) g)
       = map (reparked (\<lambda>n. if node_id n = k then b else parked n)) (graph_iter g)"
proof -
  let ?h = "\<lambda>n. if node_id n = k then b else parked n"
  have "graph_get (graph_modify k (\<lambda>n. n\<lparr> parked := b \<rparr>) g) j = map_option (reparked ?h) (graph_get g j)" for j
    using graph_ok_id [OF assms, of j] by (cases "graph_get g j") (auto simp: reparked_def)
  then have "List.map_filter (graph_get (graph_modify k (\<lambda>n. n\<lparr> parked := b \<rparr>) g)) ks
      = map (reparked ?h) (List.map_filter (graph_get g) ks)" for ks
    by (induction ks) (auto simp: map_filter_simps split: option.split)
  then show ?thesis by (simp add: graph_iter_def)
qed

section \<open>Sequences of edits\<close>

text \<open>A graph the checks of an edit accept beside a list of export edges.\<close>

definition accepted_graph :: "edit_world \<Rightarrow> export_edge list \<Rightarrow> graph \<Rightarrow> bool" where
  "accepted_graph w es g \<longleftrightarrow>
     graph_ok g \<and> check_edited (w_siblings w) (plan_of_edit g es) = Inr ()"

lemma compile_Inr:
  assumes "compile w g f a c = Inr (g', ops)"
  obtains c' where "resolved_command w f c = Inr c'" "compile_into w g f a c' = Inr (g', ops)"
    "keeps_the_plan c \<or> edited_plan_ok w f (plan_of_edit g' (edges_after c (f_export_edges f))) = Inr ()"
  using assms by (auto simp: compile_def split: if_splits)

lemma resolved_keeps:
  assumes "resolved_command w f c = Inr c'"
  shows "keeps_the_plan c \<Longrightarrow> c' = c"
  using assms by (cases c) (auto simp: resolved_command_def split: option.splits)

lemma one_field_ok:
  assumes "graph_ok g" "compile_into w g f a c = Inr (g', ops)" "edits_one_field c"
  shows "graph_ok g'"
proof -
  have "fold (apply_op w) ops g = g'" by (rule replay_one_field [OF assms(2,3)])
  with replay.fold_inv [OF assms(1), of w ops] show ?thesis by simp
qed

lemma compile_into_ok:
  assumes "graph_ok g" "compile_into w g f a c = Inr (g', ops)"
  shows "graph_ok g'"
proof (cases c)
  case (Cmd_Drop k ds r)
  with assms show ?thesis
    by (auto simp: compile_drop_def Let_def split: option.splits
        intro!: graph_ok_removes graph_ok_modifies)
next
  case (Cmd_Retry k r)
  with assms show ?thesis
    by (auto simp: replaced_def Let_def repoint_each_def elim!: compile_retry_Inr
        intro!: graph_ok_remove graph_ok_modifies)
next
  case (Cmd_Rework k r i cs t m)
  with assms show ?thesis
    by (auto simp: replaced_def Let_def repoint_each_def elim!: compile_rework_Inr
        intro!: graph_ok_remove graph_ok_modifies)
next
  case (Cmd_Add n)
  with assms show ?thesis by (auto simp: compile_add_def)
next
  case (Cmd_Reparent k ds)
  with assms show ?thesis
    by (auto simp: compile_reparent_def split: option.splits intro!: graph_ok_modify)
next
  case (Cmd_Requeue k amend)
  with assms show ?thesis by (auto simp: compile_requeue_def Let_def split: option.splits)
qed (use one_field_ok [OF assms] in simp_all)

lemma kept_plan_accepted:
  assumes "accepted_graph w es g" "keeps_the_plan c" "compile_into w g f a c = Inr (g', ops)"
  shows "accepted_graph w es g'"
proof (cases "\<exists>k s e l r. c = Cmd_Settle k s e l r")
  case True
  then obtain k s e l r where c: "c = Cmd_Settle k s e l r" by blast
  with assms(3) have g': "g' = graph_modify k (\<lambda>n. n\<lparr> parked := False \<rparr>) g"
    by (auto simp: compile_settle_def Let_def)
  have ok: "graph_ok g" using assms(1) by (simp add: accepted_graph_def)
  let ?h = "\<lambda>n. if node_id n = k then False else parked n"
  have plan: "plan_of_edit g' es = (plan_of_edit g es)\<lparr> tasks := map (reparked ?h) (tasks (plan_of_edit g es)) \<rparr>"
    unfolding g' plan_of_edit_def to_plan_def iter_modify_parked [OF ok] by simp
  have "check_edited (w_siblings w) (plan_of_edit g' es) = Inr ()"
    unfolding plan check_edited_reparked using assms(1) by (simp add: accepted_graph_def)
  with compile_into_ok [OF ok assms(3)] show ?thesis by (simp add: accepted_graph_def)
next
  case False
  with assms have "g' = g"
    by (cases c) (auto simp: compile_attest_def compile_finding_def)
  with assms(1) show ?thesis by simp
qed

lemma edges_after_kept: "keeps_the_plan c \<Longrightarrow> edges_after c es = es"
  by (cases c) simp_all

lemma compile_accepted:
  assumes "accepted_graph w (f_export_edges f) g" "compile w g f a c = Inr (g', ops)"
  shows "accepted_graph w (edges_after c (f_export_edges f)) g'"
  using assms(2)
proof (rule compile_Inr)
  fix c'
  assume r: "resolved_command w f c = Inr c'" and i: "compile_into w g f a c' = Inr (g', ops)"
    and ok: "keeps_the_plan c \<or> edited_plan_ok w f (plan_of_edit g' (edges_after c (f_export_edges f))) = Inr ()"
  show ?thesis
  proof (cases "keeps_the_plan c")
    case True
    with r i have "compile_into w g f a c = Inr (g', ops)" using resolved_keeps by blast
    from kept_plan_accepted [OF assms(1) True this] show ?thesis
      by (simp add: edges_after_kept [OF True])
  next
    case False
    with ok show ?thesis using compile_into_ok [OF _ i] assms(1)
      by (auto simp: accepted_graph_def edited_plan_ok_def split: sum.splits)
  qed
qed

text \<open>
  What one command of an envelope does to the graph and to the frontier the next command is
  judged against: \<open>compile\<close>, then \<open>advance\<close>.
\<close>

inductive edit_step :: "edit_world \<Rightarrow> graph \<times> frontier \<Rightarrow> graph \<times> frontier \<Rightarrow> bool" for w where
  edit: "compile w g f a c = Inr (g', ops) \<Longrightarrow> edit_step w (g, f) (g', advance w ops f)"

inductive_cases edit_stepE: "edit_step w (g, f) (g', f')"

lemma advance_edges_other:
  "\<forall>op \<in> set ops. \<forall>k r reset. op \<noteq> RetryRequested k r reset \<Longrightarrow>
     f_export_edges (advance w ops f) = f_export_edges f"
proof (induction ops arbitrary: f)
  case (Cons op ops)
  then have "f_export_edges (advance_step w op f) = f_export_edges f"
    by (cases op) (auto split: option.split)
  with Cons show ?case by (simp add: advance_def)
qed (simp add: advance_def)

lemma replaced_no_retry:
  "replaced g k r = (g', ops) \<Longrightarrow> op \<in> set ops \<Longrightarrow> op \<noteq> RetryRequested j q reset"
  by (auto simp: replaced_def Let_def edge_ops_def repoint_ops_def)

lemma no_retry_ops:
  assumes "compile_into w g f a c = Inr (g', ops)" "\<And>k r. c \<noteq> Cmd_Retry k r" "op \<in> set ops"
  shows "op \<noteq> RetryRequested j q reset"
proof (cases c)
  case (Cmd_Rework k r i cs t m)
  with assms(1) obtain rw where "compile_rework w g f rw = Inr (g', ops)" by auto
  then show ?thesis
  proof (rule compile_rework_Inr)
    fix target new_id b
    assume rep: "replaced g (rework_node rw)
        (reworked rw
          new_id b target) = (g', tl ops)"
      and ops: "ops = ReworkRequested (rework_node rw) new_id
        (trim (rework_reason rw))
        (trim (rework_instruction rw))
        (rework_comments rw)
        (map_option trim (rework_title rw)) # tl ops"
    show ?thesis
      using assms(3) replaced_no_retry [OF rep] by (subst (asm) ops) auto
  qed
next
  case (Cmd_Drop k ds r)
  with assms(1,3) show ?thesis by (auto simp: compile_drop_def Let_def split: option.splits)
next
  case (Cmd_Add n)
  with assms(1,3) show ?thesis by (auto simp: compile_add_def edge_ops_def)
next
  case (Cmd_Reparent k ds)
  with assms(1,3) show ?thesis by (auto simp: compile_reparent_def edge_ops_def split: option.splits)
next
  case (Cmd_Requeue k amend)
  with assms(1,3) show ?thesis by (auto simp: compile_requeue_def Let_def split: option.splits)
next
  case (Cmd_Settle k s e l r)
  with assms(1,3) show ?thesis by (auto simp: compile_settle_def Let_def split: option.splits)
qed (use assms in \<open>auto simp: compile_cancel_def compile_attest_def compile_amend_def compile_note_def
      compile_finding_def compile_retitle_def compile_decline_def split: option.splits\<close>)

lemma map_sum_Inr: "map_sum h k r = Inr y \<longleftrightarrow> (\<exists>x. r = Inr x \<and> y = k x)"
  by (cases r) auto

lemma resolve_node_id:
  "resolve_node_graphs w base n = Inr n' \<Longrightarrow> node_id n' = node_id n"
  by (auto simp: resolve_node_graphs_def map_sum_Inr split: option.splits)

lemma resolved_retry:
  assumes "resolved_command w f c = Inr c'"
  shows "(\<exists>k r r'. c = Cmd_Retry k r \<and> c' = Cmd_Retry k r' \<and> node_id r' = node_id r) \<or>
     ((\<forall>k r. c \<noteq> Cmd_Retry k r) \<and> (\<forall>k r. c' \<noteq> Cmd_Retry k r))"
  using assms
  by (cases c) (auto simp: resolved_command_def map_sum_Inr dest: resolve_node_id split: option.splits)

lemma edges_after_other: "\<forall>k r. c \<noteq> Cmd_Retry k r \<Longrightarrow> edges_after c es = es"
  by (cases c) simp_all

lemma advance_edges:
  assumes "resolved_command w f c = Inr c'" "compile_into w g f a c' = Inr (g', ops)"
  shows "f_export_edges (advance w ops f) = edges_after c (f_export_edges f)"
  using resolved_retry [OF assms(1)]
proof (elim disjE exE conjE)
  fix k r r'
  assume c: "c = Cmd_Retry k r" "c' = Cmd_Retry k r'" "node_id r' = node_id r"
  with assms(2) have "compile_retry w g f k r' = Inr (g', ops)" by simp
  then show ?thesis
  proof (rule compile_retry_Inr)
    fix target pinned reset
    assume rep: "replaced g k (inherit_from target pinned) = (g', tl ops)"
      and ops: "ops = RetryRequested k (node_id r') reset # tl ops"
    have "advance w ops f = advance w (tl ops) (advance_step w (RetryRequested k (node_id r') reset) f)"
      by (subst ops) (simp add: advance_def)
    with advance_edges_other [of "tl ops"] replaced_no_retry [OF rep] c show ?thesis by simp
  qed
next
  assume "\<forall>k r. c \<noteq> Cmd_Retry k r" "\<forall>k r. c' \<noteq> Cmd_Retry k r"
  with no_retry_ops [OF assms(2)] show ?thesis
    by (simp add: advance_edges_other edges_after_other)
qed

lemma edit_step_accepted:
  "edit_step w s s' \<Longrightarrow> accepted_graph w (f_export_edges (snd s)) (fst s) \<Longrightarrow>
     accepted_graph w (f_export_edges (snd s')) (fst s')"
proof (induction rule: edit_step.induct)
  case (edit g f a c g' ops)
  then obtain c' where "resolved_command w f c = Inr c'" "compile_into w g f a c' = Inr (g', ops)"
    by (elim compile_Inr)
  from advance_edges [OF this] compile_accepted [OF _ edit(1)] edit(2) show ?case by simp
qed

lemma accepted_never_stuck:
  assumes "accepted_graph w es g" "cross_answers cross" "At Pending \<notin> snd ` set rec"
    "\<not> is_terminal (derive g rec cross)"
  shows "\<exists>k s. bget (derive g rec cross) k = Some s \<and> movable s"
proof -
  have ok: "graph_ok g" using assms(1) by (simp add: accepted_graph_def)
  have "acyclic (dep_edges (from_plan (plan_of_edit g es)))"
    using assms(1) edited_acyclic by (auto simp: accepted_graph_def)
  then have "acyclic (dep_edges g)" by (simp add: plan_of_edit_def from_plan_to_plan [OF ok])
  from unsettled_graph_can_move [OF ok this assms(2-4)] show ?thesis .
qed

text \<open>
  C3. Whatever commands are compiled, in whatever order and by whatever authors, a graph the
  plan checks accepted stays one they accept, beside the export edges the frontier carries;
  so after any sequence of edits a run whose graph has not settled still has a node ready,
  running or awaiting its release.
\<close>

theorem edits_keep_the_graph_accepted:
  assumes "(edit_step w)\<^sup>*\<^sup>* (g, f) (g', f')" "accepted_graph w (f_export_edges f) g"
  shows "accepted_graph w (f_export_edges f') g' \<and>
     (\<forall>rec cross. cross_answers cross \<longrightarrow> At Pending \<notin> snd ` set rec \<longrightarrow>
        \<not> is_terminal (derive g' rec cross) \<longrightarrow>
        (\<exists>k s. bget (derive g' rec cross) k = Some s \<and> movable s))"
proof -
  have "accepted_graph w (f_export_edges (snd s')) (fst s')"
    if "(edit_step w)\<^sup>*\<^sup>* s s'" "accepted_graph w (f_export_edges (snd s)) (fst s)" for s s'
    using that by (induction rule: rtranclp_induct) (auto intro: edit_step_accepted)
  from this [OF assms(1)] assms(2) have "accepted_graph w (f_export_edges f') g'" by simp
  with accepted_never_stuck show ?thesis by blast
qed

lemma diamond_accepted: "accepted_graph dropping_world [] diamond"
proof -
  have "check_edited (w_siblings dropping_world) (plan_of_edit diamond []) = Inr ()" by code_simp
  then show ?thesis by (simp add: accepted_graph_def)
qed

definition edited_diamond :: "graph \<times> operation list" where
  "edited_diamond = (case compile dropping_world diamond failed_b author_planner
     (Cmd_Retry ''b'' (work_node ''b2'' [])) of Inr r \<Rightarrow> r | Inl _ \<Rightarrow> (diamond, []))"

theorem edits_keep_the_graph_accepted_witness:
  "graph_contains (fst edited_diamond) ''b2'' \<and> accepted_graph dropping_world [] (fst edited_diamond)"
proof -
  have "isl (compile dropping_world diamond failed_b author_planner
      (Cmd_Retry ''b'' (work_node ''b2'' []))) = False" by code_simp
  then have "compile dropping_world diamond failed_b author_planner (Cmd_Retry ''b'' (work_node ''b2'' []))
      = Inr (fst edited_diamond, snd edited_diamond)"
    by (auto simp: edited_diamond_def split: sum.splits)
  then have "(edit_step dropping_world)\<^sup>*\<^sup>* (diamond, failed_b)
      (fst edited_diamond, advance dropping_world (snd edited_diamond) failed_b)"
    by (intro r_into_rtranclp edit_step.edit)
  from edits_keep_the_graph_accepted [OF this] diamond_accepted
  have "accepted_graph dropping_world (f_export_edges (advance dropping_world (snd edited_diamond) failed_b))
      (fst edited_diamond)" by (simp add: failed_b_def empty_frontier_def)
  moreover have "f_export_edges (advance dropping_world (snd edited_diamond) failed_b) = []" by code_simp
  moreover have "graph_contains (fst edited_diamond) ''b2''" by code_simp
  ultimately show ?thesis by simp
qed

section \<open>What a drop and a retry leave\<close>





end
