(* ===== verification/Edit_Guards.thy ===== *)
theory Edit_Guards
  imports Edit_Accepted
begin

text \<open>
  What the commands that judge the run's record refuse, and what they leave on the frontier:
  a park is undone by its author or the planner, a settlement is stated once, and a rework
  waits for every dispatch that could be writing the branch it rewrites.
\<close>

section \<open>Parks\<close>


definition parked_frontier :: frontier where
  "parked_frontier = empty_frontier\<lparr> f_parks := [(''a'', park_of ''observer'' None)] \<rparr>"


section \<open>Settlements\<close>

text \<open>A landing read from text is read back from its reference.\<close>

lemma usable_Some: "usable limit v = Some u \<Longrightarrow> u = v"
  by (simp add: usable_def split: if_splits)

lemma parse_landing_reference:
  assumes "parse_landing limit is_url t = Some l"
  shows "landing_reference l = t"
proof -
  from assms obtain u where u: "usable limit t = Some u" by (auto simp: parse_landing_def split: option.splits)
  with assms usable_Some [OF u] show ?thesis by (auto simp: parse_landing_def split: if_splits)
qed

lemma read_landing_reference:
  "read_landing w k t = Inr l \<Longrightarrow> landing_reference l = t \<and>
     parse_landing (payload_limit w) (is_http_url (w_siblings w)) t = Some l"
  by (auto simp: read_landing_def dest: parse_landing_reference split: option.splits)

text \<open>
  A settlement is stated once. Once a settle is accepted the run's record says its outcome
  and its landing and holds no park of the node, whatever was recorded before; the same settle
  stated again, by anyone and on any evidence, is refused; and so is an attestation stated
  again, of a waiting human action or a failed node, which is all an attestation takes.
\<close>

lemma settlements_are_stated_once:
  assumes "compile_into w g f a c = Inr (g', ops)" and "f' = advance w ops f"
    and "c = Cmd_Attest k \<or> c = Cmd_Settle k s e l None"
  shows "isl (compile_into w g' f' b c) \<and> bget (f_recorded f') k \<in> {Some Done, Some Failed} \<and>
    (c = Cmd_Attest k \<longrightarrow>
       bget (f_recorded f) k \<in> {Some Waiting, Some Failed} \<and> bget (f_recorded f') k = Some Done) \<and>
    (c = Cmd_Settle k s e l None \<longrightarrow>
       bget (f_recorded f') k = Some (settled_status s) \<and> bget (f_parks f') k = None \<and>
       bget (f_in_flight f) k = None \<and>
       (l \<noteq> None \<longrightarrow> map_option landing_reference (bget (f_stated_landings f') k) = l) \<and>
       (\<forall>e'. isl (compile_into w g' f' b (Cmd_Settle k s e' l None))))"
  using assms(3)
proof
  assume c: "c = Cmd_Attest k"
  then have "ops = [HumanAttested k]" and "bget (f_recorded f) k \<in> {Some Waiting, Some Failed}"
    using assms(1) by (auto simp: compile_attest_def)
  then show ?thesis
    by (auto simp: c assms(2) advance_def compile_attest_def and_then_def split: sum.split)
next
  assume c: "c = Cmd_Settle k s e l None"
  obtain stated where st: "stated_of w k l None = Inr stated"
    and cs: "compile_settle g f k s e stated = Inr (g', ops)" using assms(1) c by auto
  have ops: "ops = SettledFromEvidence k s e # (case stated_at_landing stated of None \<Rightarrow> []
       | Some l \<Rightarrow> [LandingFromEvidence k (landing_reference l)])"
    and live: "bget (f_in_flight f) k = None"
    using cs by (auto simp: compile_settle_def Let_def split: option.splits)
  have "bget (f_recorded f') k = Some (settled_status s) \<and> bget (f_parks f') k = None \<and>
       (l \<noteq> None \<longrightarrow> map_option landing_reference (bget (f_stated_landings f') k) = l) \<and>
       (\<forall>e'. isl (compile_into w g' f' b (Cmd_Settle k s e' l None)))"
  proof (cases l)
    case None
    with st have "stated = Unstated" by (simp add: stated_of_def)
    with None ops show ?thesis
      by (auto simp: assms(2) advance_def stated_of_def compile_settle_def Let_def and_then_def split: sum.split)
  next
    case (Some t)
    with st obtain at where at: "read_landing w k t = Inr at" and s: "stated = Stated_Landing at"
      by (auto simp: stated_of_def map_sum_Inr)
    with read_landing_reference [OF at] Some ops show ?thesis
      by (auto simp: assms(2) advance_def stated_of_def compile_settle_def Let_def and_then_def split: sum.split)
  qed
  with live show ?thesis by (auto simp: c settled_status_def)
qed

definition settled_diamond :: "graph \<times> operation list" where
  "settled_diamond = (case compile_into dropping_world diamond failed_b author_planner
     (Cmd_Settle ''b'' Settle_Done ''seen'' (Some ''0123abc'') None) of
       Inr r \<Rightarrow> r | Inl _ \<Rightarrow> (diamond, []))"

section \<open>Reworks\<close>

lemma lineage_down_line: "set line \<subseteq> set (lineage_down m line at)"
proof (induction m line at rule: lineage_down.induct)
  case (1 m line at)
  then show ?case by (subst lineage_down.simps) (auto split: option.split)
qed

text \<open>Where every id of the line but the last is followed in it, the result is closed.\<close>

lemma lineage_down_closed:
  assumes "at \<in> set line" "\<forall>x \<in> set line - {at}. \<forall>y. bget m x = Some y \<longrightarrow> y \<in> set line"
  shows "\<forall>x \<in> set (lineage_down m line at). \<forall>y. bget m x = Some y \<longrightarrow> y \<in> set (lineage_down m line at)"
  using assms
proof (induction m line at rule: lineage_down.induct)
  case (1 m line at)
  show ?case
  proof (cases "bget m at")
    case None
    then have eq: "lineage_down m line at = line" by (subst lineage_down.simps) simp
    show ?thesis unfolding eq using None 1(3) by (metis Diff_iff empty_iff insert_iff option.discI)
  next
    case (Some y)
    show ?thesis
    proof (cases "y \<in> set line")
      case True
      then have eq: "lineage_down m line at = line" using Some by (subst lineage_down.simps) simp
      show ?thesis unfolding eq using Some True 1(3) by (metis Diff_iff empty_iff insert_iff option.inject)
    next
      case False
      then have eq: "lineage_down m line at = lineage_down m (line @ [y]) y"
        using Some by (subst lineage_down.simps) simp
      have "\<forall>x \<in> set (line @ [y]) - {y}. \<forall>z. bget m x = Some z \<longrightarrow> z \<in> set (line @ [y])"
        using 1(3) Some by (metis Diff_iff Un_iff empty_iff insert_iff list.set(1,2) option.inject set_append)
      from 1(1) [OF Some False _ this] show ?thesis by (simp add: eq)
    qed
  qed
qed

definition succession :: "str bmap \<Rightarrow> (str \<times> str) set" where
  "succession m = {(a, b). bget m a = Some b}"

lemma lineage_up_leads:
  assumes "bmap_ok m"
  shows "(lineage_up m seen at, at) \<in> (succession m)\<^sup>*"
  using assms
proof (induction m seen at rule: lineage_up.induct)
  case (1 m seen at)
  show ?case
  proof (cases "find (\<lambda>(_, r). r = at) m")
    case None
    then show ?thesis by (subst lineage_up.simps) simp
  next
    case (Some e)
    obtain b r where e: "e = (b, r)" by (cases e)
    have "(b, at) \<in> set m" using Some e by (auto simp: find_Some_iff) (metis nth_mem)
    then have "(b, at) \<in> succession m" using bmap_ok_in_bget [OF 1(2)] by (simp add: succession_def)
    moreover have "(lineage_up m (b # seen) b, b) \<in> (succession m)\<^sup>*" if "b \<notin> set seen"
      using 1(1) [OF Some e [symmetric] that 1(2)] .
    ultimately show ?thesis
      using Some e by (subst lineage_up.simps) (auto intro: rtrancl_into_rtrancl)
  qed
qed

lemma lineage_of_closed:
  assumes "bmap_ok (f_superseded f)"
  shows "k \<in> set (lineage_of f k)"
    "(lineage_root f k, j) \<in> (succession (f_superseded f))\<^sup>* \<Longrightarrow> j \<in> set (lineage_of f k)"
proof -
  let ?m = "f_superseded f" and ?r = "lineage_root f k" and ?L = "lineage_of f k"
  have closed: "\<forall>x \<in> set ?L. \<forall>y. bget ?m x = Some y \<longrightarrow> y \<in> set ?L"
    unfolding lineage_of_def by (rule lineage_down_closed) simp_all
  then have closed_step: "x \<in> set ?L \<Longrightarrow> (x, y) \<in> succession ?m \<Longrightarrow> y \<in> set ?L" for x y
    unfolding succession_def by blast
  have root: "?r \<in> set ?L" using lineage_down_line [of "[?r]"] by (simp add: lineage_of_def)
  have all: "j \<in> set ?L" if "(?r, j) \<in> (succession ?m)\<^sup>*" for j
    using that
  proof (induction rule: rtrancl_induct)
    case base
    show ?case by (rule root)
  next
    case (step y z)
    from step(3,2) show ?case by (rule closed_step)
  qed
  then show "(lineage_root f k, j) \<in> (succession ?m)\<^sup>* \<Longrightarrow> j \<in> set ?L" for j .
  show "k \<in> set ?L" by (rule all) (unfold lineage_root_def, rule lineage_up_leads [OF assms])
qed

definition quiet :: "frontier \<Rightarrow> str \<Rightarrow> bool" where
  "quiet f k \<longleftrightarrow> k \<notin> f_restacking f \<and> bget (f_in_flight f) k = None"

lemma busy_first_None: "busy_first f whose ks = None \<longleftrightarrow> (\<forall>k \<in> set ks. quiet f k)"
  by (induction ks) (auto simp: busy_one_def quiet_def or_else_def split: option.split)

lemma busy_around_None:
  "busy_around g f k = None \<longleftrightarrow>
     (\<forall>j \<in> set (lineage_of f k) \<union> (dependent_rel g)\<^sup>+ `` {k}. quiet f j)"
proof -
  have "or_else a b = None \<longleftrightarrow> a = None \<and> b = None" for a b :: "busy option"
    by (simp add: or_else_def split: option.split)
  then show ?thesis
    unfolding busy_around_def above_exact [symmetric] by (simp only: busy_first_None ball_Un)
qed

text \<open>
  C22. A rework is accepted only of a node recorded done whose change has not landed, and only
  while nothing could be writing its branch: the node itself, what it replaced and what
  replaced it, and every draft stacked above it through any depth have no dispatch in flight
  and are not being restacked. Its replacement has an id nothing in the run ever used, keeps
  the recorded branch, and carries no park, resume point, amendment or planner note.
\<close>

theorem rework_waits_for_quiet:
  assumes "compile_rework w g f r = Inr (g', ops)" "bmap_ok (f_superseded f)"
    and "k = rework_node r" "graph_ok g"
  shows "bget (f_recorded f) k = Some Done \<and> bget (f_landings f) k \<noteq> Some Landed \<and>
    (\<forall>j. j = k \<or> (k, j) \<in> (dependent_rel g)\<^sup>+ \<or>
       (lineage_root f k, j) \<in> (succession (f_superseded f))\<^sup>* \<longrightarrow> quiet f j) \<and>
    (\<exists>new. \<not> used g f (node_id new) \<and> graph_get g' (node_id new) = Some new \<and>
       branch new = bget (f_branches f) k \<and> branch new \<noteq> None \<and> resume new = None \<and>
       \<not> parked new \<and> amendment new = None \<and> planner_context new = None)"
  using assms(1)
proof (rule compile_rework_Inr)
  fix target new_id b
  assume t: "graph_get g (rework_node r) = Some target" and new: "rework_replacement_id g f r = Inr new_id"
    and b: "bget (f_branches f) (rework_node r) = Some b"
    and rep: "replaced g (rework_node r) (reworked r new_id b target) = (g', tl ops)"
    and quiet: "busy_around g f (rework_node r) = None"
    and settled: "bget (f_recorded f) (rework_node r) = Some Done" "bget (f_landings f) (rework_node r) \<noteq> Some Landed"
  define n where "n = reworked r new_id b target"
  have unused: "\<not> used g f new_id" by (rule rework_id_unused [OF new])
  then have absent: "graph_get g new_id = None" by (simp add: used_def graph_contains_def)
  have q: "\<forall>j. j = k \<or> (k, j) \<in> (dependent_rel g)\<^sup>+ \<or>
       (lineage_root f k, j) \<in> (succession (f_superseded f))\<^sup>* \<longrightarrow> quiet f j"
    using quiet lineage_of_closed [OF assms(2), of k] unfolding busy_around_None assms(3) by blast
  have "new_id \<notin> set (dependents_of g k)" using absent by (simp add: in_dependents_of [OF assms(4)])
  moreover have "new_id \<noteq> k" using absent t assms(3) by auto
  moreover have "node_id n = new_id" by (simp add: n_def reworked_def)
  moreover have "distinct (dependents_of g k)" by (rule distinct_dependents [OF assms(4)])
  ultimately have "graph_get g' new_id = Some n"
    using rep by (auto simp: replaced_def Let_def n_def [symmetric] assms(3) [symmetric] repoint_each_get)
  moreover have "node_id n = new_id \<and> branch n = Some b \<and> resume n = None \<and> \<not> parked n \<and>
      amendment n = None \<and> planner_context n = None"
    by (simp add: n_def reworked_def)
  ultimately have "\<not> used g f (node_id n) \<and> graph_get g' (node_id n) = Some n \<and>
      branch n = bget (f_branches f) k \<and> branch n \<noteq> None \<and> resume n = None \<and>
      \<not> parked n \<and> amendment n = None \<and> planner_context n = None"
    using unused b by (simp add: assms(3))
  with q settled show ?thesis by (simp only: assms(3)) blast
qed

text \<open>A change delivered from its own branch, with a draft above it and one review comment.\<close>

definition delivered_graph :: graph where
  "delivered_graph = from_plan (plain_plan
     [(work_node ''a'' [])\<lparr> repo := Some ''site'' \<rparr>, (work_node ''b'' [''a''])\<lparr> repo := Some ''site'' \<rparr>])"

definition delivered_frontier :: frontier where
  "delivered_frontier = empty_frontier\<lparr> f_recorded := [(''a'', Done)], f_branches := [(''a'', ''work/a'')] \<rparr>"

definition review_rework :: rework where
  "review_rework = \<lparr> rework_node = ''a'', rework_reason = ''review'', rework_instruction = ''rename it'',
     rework_comments = [], rework_title = None, rework_replacement = Some ''a2'' \<rparr>"

theorem rework_waits_for_quiet_witness:
  "quiet delivered_frontier ''b'' \<and>
   (\<exists>g' ops new. compile_rework dropping_world delivered_graph delivered_frontier review_rework = Inr (g', ops) \<and>
      graph_get g' (node_id new) = Some new \<and> branch new = Some ''work/a'')"
proof -
  have "isl (compile_rework dropping_world delivered_graph delivered_frontier review_rework) = False"
    by code_simp
  then obtain g' ops where
    c: "compile_rework dropping_world delivered_graph delivered_frontier review_rework = Inr (g', ops)"
    by (metis isl_def sum.exhaust_sel surj_pair)
  have ok: "graph_ok delivered_graph" by (simp add: delivered_graph_def graph_ok_from_plan)
  have sup: "bmap_ok (f_superseded delivered_frontier)"
    by (simp add: delivered_frontier_def empty_frontier_def bmap_ok_def)
  have k: "''a'' = rework_node review_rework" by (simp add: review_rework_def)
  have "''b'' \<in> set (dependents_of delivered_graph ''a'')" by code_simp
  then have "(''a'', ''b'') \<in> (dependent_rel delivered_graph)\<^sup>+"
    by (intro r_into_trancl) (simp add: dependent_rel_def)
  moreover have "bget (f_branches delivered_frontier) ''a'' = Some ''work/a''" by code_simp
  ultimately show ?thesis
    using rework_waits_for_quiet [OF c sup k ok] c by fastforce
qed

end
