(* ===== verification/Run_State.thy ===== *)
theory Run_State
  imports Edit_Guards
begin

text \<open>
  The state a run is in (\<open>RunState\<close> of \<open>src/src/projection.rs\<close>): everything the journal says of
  the run, as the fold of its records leaves it, and what the scheduler and the reconciler read
  of it (\<open>settled\<close>, \<open>statuses_with\<close>, \<open>frontier\<close>, \<open>sessions_in_flight\<close>).

  The fields only views read of the agents' own records (\<open>activity\<close>, \<open>refusals\<close>, \<open>served\<close>,
  \<open>last_turns\<close>, \<open>sessions_opened\<close>), the envelopes kept whole (\<open>recalled\<close>), the board's copies
  (\<open>board_settlements\<close>, \<open>settled_clean\<close>, \<open>settled_details\<close>, \<open>settled_awaiting\<close>, \<open>held_since\<close>)
  and the run hook's marker are not in the model.
\<close>

section \<open>Timestamps\<close>

text \<open>
  \<open>millis_of\<close>: a timestamp \<open>YYYY-MM-DDTHH:MM:SS.mmmZ\<close> as epoch milliseconds. Every byte is
  either a separator or must be a digit, so the bytes of the source are the characters here.
\<close>

definition field_digits :: "str \<Rightarrow> nat \<Rightarrow> nat \<Rightarrow> int option" where
  "field_digits ts from to =
     (let t = take (to - from) (drop from ts)
      in if list_all is_ascii_digit t
         then Some (fold (\<lambda>c n. 10 * n + (int (code_point c) - 48)) t 0) else None)"

definition days_in_month :: "int \<Rightarrow> int \<Rightarrow> int" where
  "days_in_month year month =
     (if month \<in> {1, 3, 5, 7, 8, 10, 12} then 31
      else if month \<in> {4, 6, 9, 11} then 30
      else if month = 2 \<and> year mod 4 = 0 \<and> (year mod 100 \<noteq> 0 \<or> year mod 400 = 0) then 29
      else if month = 2 then 28
      else 0)"

definition days_from_civil :: "int \<Rightarrow> int \<Rightarrow> int \<Rightarrow> int" where
  "days_from_civil year month day =
     (let y = (if month \<le> 2 then year - 1 else year);
          era = (if y \<ge> 0 then y div 400 else - ((399 - y) div 400));
          yoe = y - era * 400;
          mp = (if month > 2 then month - 3 else month + 9);
          doy = (153 * mp + 2) div 5 + day - 1;
          doe = yoe * 365 + yoe div 4 - yoe div 100 + doy
      in era * 146097 + doe - 719468)"

definition separators_ok :: "str \<Rightarrow> bool" where
  "separators_ok ts \<longleftrightarrow>
     ts ! 4 = CHR ''-'' \<and> ts ! 7 = CHR ''-'' \<and> ts ! 10 = CHR ''T'' \<and> ts ! 13 = CHR '':'' \<and>
     ts ! 16 = CHR '':'' \<and> ts ! 19 = CHR ''.'' \<and> ts ! 23 = CHR ''Z''"

definition in_range :: "int \<Rightarrow> int \<Rightarrow> int \<Rightarrow> int \<Rightarrow> int \<Rightarrow> int \<Rightarrow> bool" where
  "in_range year month day hour minute second \<longleftrightarrow>
     1 \<le> month \<and> month \<le> 12 \<and> 1 \<le> day \<and> day \<le> days_in_month year month \<and>
     hour \<le> 23 \<and> minute \<le> 59 \<and> second \<le> 60"

definition millis_of :: "str \<Rightarrow> u64 option" where
  "millis_of ts =
     (if length ts \<noteq> 24 \<or> \<not> separators_ok ts then None
      else case (field_digits ts 0 4, field_digits ts 5 7, field_digits ts 8 10, field_digits ts 11 13,
                 field_digits ts 14 16, field_digits ts 17 19, field_digits ts 20 23) of
        (Some year, Some month, Some day, Some hour, Some minute, Some second, Some ms) \<Rightarrow>
          if \<not> in_range year month day hour minute second then None
          else
            (let total = days_from_civil year month day * 86400 + hour * 3600 + minute * 60 + second
             in if total * 1000 + ms < 0 then None else Some (of_int (total * 1000 + ms)))
      | _ \<Rightarrow> None)"

section \<open>What is recorded of a node\<close>

datatype run_recorded = Rec_At node_status | Rec_Cancelling u64   \<comment> \<open>since when\<close>

fun rec_status :: "run_recorded \<Rightarrow> node_status" where
  "rec_status (Rec_At s) = s"
| "rec_status (Rec_Cancelling _) = Parked"

fun cancelling_since :: "run_recorded \<Rightarrow> u64 option" where
  "cancelling_since (Rec_At _) = None"
| "cancelling_since (Rec_Cancelling since) = Some since"

record rework_record =
  rw_replacement :: str
  rw_reason :: str
  rw_instruction :: str
  rw_comments :: "rework_comment list"
  rw_title :: "str option"

text \<open>\<open>DispatchSession\<close>, with the token and the branch \<open>onevcs\<close> opened it on.\<close>

record dispatch_session =
  ds_token :: str
  ds_branch :: str

record stack_parent =
  sp_node :: str
  sp_branch :: str
  sp_head :: str

record settled_stack =
  ss_parents :: "stack_parent list"
  ss_base :: "str option"

definition stack_is_usable :: "nat \<Rightarrow> settled_stack \<Rightarrow> bool" where
  "stack_is_usable limit s \<longleftrightarrow>
     ss_parents s \<noteq> [] \<and>
     list_all (\<lambda>p. usable limit (sp_node p) \<noteq> None \<and> usable limit (sp_branch p) \<noteq> None \<and>
       usable limit (sp_head p) \<noteq> None) (ss_parents s) \<and>
     (case ss_base s of None \<Rightarrow> True | Some b \<Rightarrow> usable limit b \<noteq> None)"

record pending_decision =
  pd_kind :: str
  pd_unblocks :: "str list"

datatype stop_state = NotStopped | WorkersSignalled | WorkersUndetermined

record closure_state =
  cl_owed_until_closed :: bool
  cl_completion_requested :: bool
  cl_reopened_at :: "u64 option"

section \<open>The state\<close>

text \<open>
  A payload the fold only keeps (the restack it names, how a node landed) is the JSON it is
  written as.
\<close>

record run_state =
  r_graph :: graph
  r_run_node_sets :: "str list option"
  r_plan :: "plan option"
  r_recorded :: "run_recorded bmap"
  r_outcomes :: "str bmap"
  r_parks :: "park bmap"
  r_branches :: "str bmap"
  r_sessions :: "dispatch_session bmap"
  r_abandoned :: "dispatch_session bmap"
  r_change_urls :: "str bmap"
  r_causes :: "str bmap"
  r_heads :: "str bmap"
  r_remotes :: "str bmap"
  r_landing_commits :: "str bmap"
  r_bases :: "str bmap"
  r_stacks :: "settled_stack bmap"
  r_reworks :: "rework_record bmap"
  r_continued_reworks :: "json bmap"
  r_branch_heads :: "str bmap"
  r_restacking :: "json bmap"
  r_restacks :: "(json \<times> json) bmap"
  r_titles_unverified :: "json bmap"
  r_absorbed :: "str bmap"
  r_closed_changes :: "str set"
  r_readjust_owed :: "str set bmap"
  r_landed_how :: "json bmap"
  r_readjusted :: "json bmap"
  r_checks_read :: "str bmap"
  r_reopened :: "str bmap"
  r_branch_prefix :: "str option"
  r_retired_branches :: "str set"
  r_landings :: "landing bmap"
  r_stated_landings :: "stated_landing bmap"
  r_stated_change_urls :: "stated_landing bmap"
  r_completed_steps :: "str list bmap"
  r_dispatched_at :: "u64 bmap"
  r_settled_at :: "u64 bmap"
  r_attestations :: "str set"
  r_decisions_pending :: "pending_decision bmap"
  r_holds :: "json list bmap"
  r_noted :: "str set"
  r_nodes_added :: "node bmap"
  r_dispatched_nodes :: "str set"
  r_completion_requests :: "str list"
  r_surfaces_queued :: u64
  r_surfaces_read :: u64
  r_last_surface_at :: "u64 option"
  r_last_write_at :: "u64 option"
  r_last_progress_at :: "u64 option"
  r_stop :: stop_state
  r_let_go_by :: "(str \<times> u32) option"
  r_closure :: closure_state
  r_strict :: bool
  r_cross_dag_watches :: "u64 bmap"
  r_cross_dag_baselines :: "u64 bmap"
  r_cross_dag_reported :: "(str \<times> str) set"
  r_pending_context :: "str bmap"
  r_superseded :: "str bmap"

text \<open>\<open>RunState::default()\<close>.\<close>

definition blank_closure :: closure_state where
  "blank_closure = \<lparr> cl_owed_until_closed = False, cl_completion_requested = False, cl_reopened_at = None \<rparr>"

definition blank_run :: run_state where
  "blank_run = \<lparr>
    r_graph = with_concurrency 0, r_run_node_sets = None, r_plan = None, r_recorded = [],
    r_outcomes = [], r_parks = [], r_branches = [], r_sessions = [], r_abandoned = [],
    r_change_urls = [], r_causes = [], r_heads = [], r_remotes = [], r_landing_commits = [],
    r_bases = [], r_stacks = [], r_reworks = [], r_continued_reworks = [], r_branch_heads = [],
    r_restacking = [], r_restacks = [], r_titles_unverified = [], r_absorbed = [],
    r_closed_changes = {}, r_readjust_owed = [], r_landed_how = [], r_readjusted = [],
    r_checks_read = [], r_reopened = [], r_branch_prefix = None, r_retired_branches = {},
    r_landings = [], r_stated_landings = [], r_stated_change_urls = [], r_completed_steps = [],
    r_dispatched_at = [], r_settled_at = [], r_attestations = {}, r_decisions_pending = [],
    r_holds = [], r_noted = {}, r_nodes_added = [], r_dispatched_nodes = {},
    r_completion_requests = [], r_surfaces_queued = 0, r_surfaces_read = 0,
    r_last_surface_at = None, r_last_write_at = None, r_last_progress_at = None,
    r_stop = NotStopped, r_let_go_by = None, r_closure = blank_closure, r_strict = False,
    r_cross_dag_watches = [], r_cross_dag_baselines = [], r_cross_dag_reported = {},
    r_pending_context = [], r_superseded = [] \<rparr>"

section \<open>What the scheduler and the reconciler read\<close>

definition statuses_recorded :: "run_state \<Rightarrow> node_status bmap" where
  "statuses_recorded st = map (\<lambda>(k, r). (k, rec_status r)) (r_recorded st)"

text \<open>
  \<open>settled\<close>: each node of the graph with its recorded status, outcome and landing, under its
  \<open>NodeRef\<close>: its id trimmed, and none where that leaves nothing.
\<close>

definition settled_fact :: "run_state \<Rightarrow> node \<Rightarrow> (str \<times> settled) option" where
  "settled_fact st n =
     (case bget (r_recorded st) (node_id n) of
        None \<Rightarrow> None
      | Some r \<Rightarrow>
          if trim (node_id n) = [] then None
          else Some (trim (node_id n), settled_of (rec_status r) (bget (r_outcomes st) (node_id n))
                 (bget (r_landings st) (node_id n))))"

definition settled_facts :: "run_state \<Rightarrow> settled bmap" where
  "settled_facts st = bcollect (List.map_filter (settled_fact st) (graph_iter (r_graph st)))"

definition statuses_with :: "run_state \<Rightarrow> (str \<Rightarrow> node_status option) \<Rightarrow> node_status bmap" where
  "statuses_with st upstream = derive (r_graph st) (settled_facts st) upstream"

definition sessions_in_flight :: "run_state \<Rightarrow> dispatch_session bmap" where
  "sessions_in_flight st =
     List.map_filter (\<lambda>(k, r). map_option (Pair k) (bget (r_sessions st) k))
       (filter (\<lambda>(_, r). rec_status r = Running) (r_recorded st))"

text \<open>\<open>known_change_url\<close>: the change request stated or recorded, and no commit.\<close>

definition known_change_url :: "edit_world \<Rightarrow> run_state \<Rightarrow> str \<Rightarrow> str option" where
  "known_change_url w st k =
     (case or_else (bget (r_stated_change_urls st) k)
             (case bget (r_change_urls st) k of None \<Rightarrow> None
              | Some u \<Rightarrow> parse_landing (payload_limit w) (is_http_url (w_siblings w)) u) of
        Some (ChangeRequest url) \<Rightarrow> Some url
      | _ \<Rightarrow> None)"

definition frontier_of :: "run_state \<Rightarrow> frontier" where
  "frontier_of st = \<lparr>
     f_recorded = statuses_recorded st, f_attestations = r_attestations st, f_parks = r_parks st,
     f_in_flight = [], f_node_validator = None, f_run_node_sets = r_run_node_sets st,
     f_graph_validation = None,
     f_export_edges = (case r_plan st of None \<Rightarrow> [] | Some p \<Rightarrow> edges_now (export_edges p) (r_superseded st)),
     f_stated_landings = r_stated_landings st, f_landings = r_landings st, f_branches = r_branches st,
     f_change_urls = r_change_urls st, f_superseded = r_superseded st,
     f_restacking = fst ` set (r_restacking st), f_absorbed = r_absorbed st \<rparr>"

lemma bget_statuses_recorded [simp]:
  "bget (statuses_recorded st) k = map_option rec_status (bget (r_recorded st) k)"
proof -
  have "bget (map (\<lambda>(k, r). (k, rec_status r)) m) k = map_option rec_status (bget m k)" for m
    by (induction m) auto
  then show ?thesis by (simp add: statuses_recorded_def)
qed

lemma trim_trim [simp]: "trim (trim s) = trim s"
proof -
  have idem: "trim_start (trim_start t) = trim_start t" "trim_end (trim_end t) = trim_end t" for t
    by (simp_all add: trim_start_def trim_end_def dropWhile_idem)
  have "trim_start (trim_end (trim_start s)) = trim_end (trim_start s)"
  proof (cases "trim_end (trim_start s)")
    case (Cons c t)
    have "rev (trim_start s) = takeWhile is_space (rev (trim_start s)) @ dropWhile is_space (rev (trim_start s))"
      by simp
    then have "trim_start s = trim_end (trim_start s) @ rev (takeWhile is_space (rev (trim_start s)))"
      unfolding trim_end_def by (metis rev_append rev_rev_ident)
    with Cons obtain u where "dropWhile is_space s = c # u" by (simp add: trim_start_def)
    then have "\<not> is_space c" by (rule dropWhile_eq_ConsD)
    with Cons show ?thesis by (simp add: trim_start_def)
  qed (simp add: trim_start_def)
  then show ?thesis by (simp add: trim_def idem)
qed

lemma padded_not_settled:
  assumes "trim k \<noteq> k"
  shows "bget (settled_facts st) k = None"
proof -
  have "fst e = trim (fst e)" if "e \<in> set (List.map_filter (settled_fact st) ns)" for e ns
    using that by (auto simp: in_map_filter settled_fact_def split: option.splits if_splits)
  then have "k \<notin> fst ` set (List.map_filter (settled_fact st) ns)" for ns
    using assms by force
  moreover have "bget (bcollect kvs) k = None" if "k \<notin> fst ` set kvs" for kvs :: "(str \<times> settled) list"
    using that unfolding bcollect_def
    by (auto simp: bm.get_collect map_of_eq_None_iff split: option.split dest: map_of_SomeD)
  ultimately show ?thesis by (simp add: settled_facts_def)
qed

section \<open>A padded id\<close>

text \<open>
  A node whose id has blanks around it never settles: the facts the scheduler reads are
  keyed by the trimmed id and looked up by the id as it is. Whatever is recorded of the node,
  it is offered for dispatch whenever its dependencies are satisfied, and no node depending on
  it is ever offered. The plan checks accept such an id.
\<close>

lemma padded_ids_never_settle:
  assumes "graph_ok (r_graph st)" "graph_get (r_graph st) k = Some n" "\<not> parked n"
    and "trim k \<noteq> k" "\<not> is_cross_dag k"
  shows "(bget (statuses_with st up) k = Some (if kind n = Human then Waiting else Ready) \<longleftrightarrow>
      (\<forall>d \<in> set (deps n). dep_satisfied (r_graph st) (settled_facts st) up d)) \<and>
    (\<forall>j m. graph_get (r_graph st) j = Some m \<longrightarrow> \<not> parked m \<longrightarrow> k \<in> set (deps m) \<longrightarrow>
       bget (settled_facts st) j \<in> {None, Some (At Blocked), Some (At Skipped)} \<longrightarrow>
       bget (statuses_with st up) j \<noteq> Some (if kind m = Human then Waiting else Ready))"
proof -
  have none: "bget (settled_facts st) k = None" by (rule padded_not_settled) fact
  then have "\<not> dep_satisfied (r_graph st) (settled_facts st) up k"
    using assms(2,5) by (simp add: dep_satisfied_def)
  with none show ?thesis
    using derive_offers_exactly [OF assms(1), of _ _ "settled_facts st" up] assms(2,3)
    by (auto simp: statuses_with_def)
qed

definition padded_plan :: plan where
  "padded_plan = plain_plan [work_node '' a'' [], work_node ''b'' ['' a'']]"

definition padded_done :: run_state where
  "padded_done = blank_run\<lparr> r_graph := from_plan padded_plan, r_recorded := [('' a'', Rec_At Done)] \<rparr>"

end
