(* ===== verification/Note_Delivery.thy ===== *)
theory Note_Delivery
  imports Edit_Guards
begin

text \<open>
  What becomes of one note (\<open>validate_manager_note\<close> to \<open>untaken_note\<close> of \<open>src/src/engine.rs\<close>): judged
  with nothing offered to anybody, then offered to the conversation of its node, and recorded as
  taken, carried onto the node's next dispatch, or refused. The conversation is
  \<open>oneagentgraph\<close>'s: how it answers an offer is an argument.
\<close>

section \<open>Refusals and what is staged\<close>

datatype (plugins only: code) note_refusal =
    Compose_Refused str                \<comment> \<open>the seam's constructors refused the text or criterion\<close>
  | Unreached_Done str str             \<comment> \<open>node, why: and it has settled done\<close>
  | Unreached_Unpersisted str str      \<comment> \<open>node, why: and \<open>persist: false\<close>\<close>
  | Nowhere_To_Carry str
  | Withdrawn_Unrecorded str
  | Preempted_Note str u64             \<comment> \<open>node, the cancelling envelope\<close>
  | Never_Offered str

record offered =
  o_id :: str
  o_addressee :: str
  o_text :: str
  o_criterion :: "str option"
  o_reach :: reach
  o_dispatchable :: bool
  o_address :: "str option"

record validated_note =
  v_node :: str
  v_addressee :: str
  v_text :: str
  v_criterion :: "str option"
  v_reach :: reach
  v_address :: str
  v_dispatchable :: bool

datatype note_stage = Compiled_Note "operation list" | Live_Note validated_note

text \<open>
  \<open>note::of\<close> composes through \<open>oneagentgraph\<close>'s constructors: \<open>compose_ok\<close> is their verdict on
  the addressee, text, criterion and whether the turn is interrupted, and \<open>default_interrupts\<close>
  their \<open>Delivery::default\<close>.
\<close>

record note_seam =
  compose_ok :: "str \<Rightarrow> str \<Rightarrow> str option \<Rightarrow> bool \<Rightarrow> bool"
  default_interrupts :: bool

fun interrupts :: "live \<Rightarrow> bool" where
  "interrupts (Live i _) = i"

fun live_deadline :: "live \<Rightarrow> u64 option" where
  "live_deadline (Live _ d) = d"

fun a_conversation_read_it :: "reached \<Rightarrow> bool" where
  "a_conversation_read_it (CarriedOver _) = False"
| "a_conversation_read_it _ = True"

fun turn_taken :: "reached \<Rightarrow> note_turn option" where
  "turn_taken (ReachedWorker t) = t"
| "turn_taken (ReachedSupervisor t) = t"
| "turn_taken _ = None"

section \<open>Judging\<close>

definition note_record :: "str \<Rightarrow> str \<Rightarrow> str \<Rightarrow> str option \<Rightarrow> reached \<Rightarrow> operation list" where
  "note_record node addressee words criterion how =
     [NoteDelivered node addressee words criterion how (shown_at_delivery how) (routed_to how) None None]"

definition unreached :: "str \<Rightarrow> str \<Rightarrow> reach \<Rightarrow> note_refusal" where
  "unreached node why how =
     (if composes_forward how then Unreached_Done node why else Unreached_Unpersisted node why)"

definition no_member_yet :: str where
  "no_member_yet = ''no dispatch of this node has reported a member yet, so there is no ''
     @ ''conversation to hand it to''"

definition validate_manager_note :: "note_seam \<Rightarrow> offered \<Rightarrow> note_refusal + note_stage" where
  "validate_manager_note w ask =
     (if \<not> compose_ok w (o_addressee ask) (o_text ask) (o_criterion ask)
           (case reach_live (o_reach ask) of None \<Rightarrow> default_interrupts w | Some l \<Rightarrow> interrupts l)
      then Inl (Compose_Refused (o_id ask))
      else case (if attempts_a_live_turn (o_reach ask) then o_address ask else None) of
        None \<Rightarrow>
          if composes_forward (o_reach ask) \<and> o_dispatchable ask
          then Inr (Compiled_Note (note_record (o_id ask) (o_addressee ask) (o_text ask) (o_criterion ask)
                 (CarriedOver None)))
          else Inl (if attempts_a_live_turn (o_reach ask)
                    then unreached (o_id ask) no_member_yet (o_reach ask) else Nowhere_To_Carry (o_id ask))
      | Some at \<Rightarrow>
          Inr (Live_Note \<lparr> v_node = o_id ask, v_addressee = o_addressee ask, v_text = o_text ask,
             v_criterion = o_criterion ask, v_reach = o_reach ask, v_address = at,
             v_dispatchable = o_dispatchable ask \<rparr>))"

section \<open>Offering\<close>

text \<open>\<open>oneagentgraph::note::Accepted\<close>, and every way an offer ends.\<close>

datatype accepted =
    Accepted_Queued
  | Accepted_Interrupted party
  | Accepted_AtTurnEnd party
  | Accepted_JudgedWith str

datatype offer_answer =
    Not_Offered str           \<comment> \<open>the seam would not take the offer: why\<close>
  | Took accepted
  | Undelivered str
  | Expired
  | Taken_Back
  | Broken str                \<comment> \<open>the conversation ended without answering: why\<close>

definition by_party :: "party \<Rightarrow> note_turn \<Rightarrow> reached" where
  "by_party p t = (case p of Worker \<Rightarrow> ReachedWorker (Some t) | Supervisor \<Rightarrow> ReachedSupervisor (Some t))"

fun reached_by :: "accepted \<Rightarrow> reached" where
  "reached_by Accepted_Queued = Queued"
| "reached_by (Accepted_Interrupted p) = by_party p Interrupted"
| "reached_by (Accepted_AtTurnEnd p) = by_party p TurnEnd"
| "reached_by (Accepted_JudgedWith reason) = JudgedWith reason"

definition recorded_note :: "validated_note \<Rightarrow> reached \<Rightarrow> operation list" where
  "recorded_note v how = note_record (v_node v) (v_addressee v) (v_text v) (v_criterion v) how"

definition untaken_note ::
    "validated_note \<Rightarrow> str \<Rightarrow> str option \<Rightarrow> note_refusal + operation list" where
  "untaken_note v why reason =
     (if composes_forward (v_reach v) \<and> v_dispatchable v
      then Inr (recorded_note v (CarriedOver reason))
      else Inl (unreached (v_node v) why (v_reach v)))"

definition expired :: "u64 \<Rightarrow> str" where
  "expired seconds =
     ''no turn took it within its `delivery_timeout_seconds: '' @ digits_of (unat seconds)
     @ ''`, so it was withdrawn untaken''"

text \<open>
  \<open>offer_manager_note\<close> then \<open>answer_manager_note\<close>; \<open>None\<close> is a note taken back before any turn
  took it.
\<close>

definition answer_manager_note ::
    "validated_note \<Rightarrow> offer_answer \<Rightarrow> note_refusal + operation list option" where
  "answer_manager_note v ans =
     (case ans of
        Not_Offered why \<Rightarrow> map_sum id Some (untaken_note v why None)
      | Took a \<Rightarrow> Inr (Some (recorded_note v (reached_by a)))
      | Undelivered why \<Rightarrow> map_sum id Some (untaken_note v why None)
      | Expired \<Rightarrow>
          (let why = expired (case reach_live (v_reach v) of None \<Rightarrow> 0
                     | Some l \<Rightarrow> (case live_deadline l of None \<Rightarrow> 0 | Some s \<Rightarrow> s))
           in map_sum id Some (untaken_note v why (Some why)))
      | Taken_Back \<Rightarrow> Inr None
      | Broken why \<Rightarrow> map_sum id Some (untaken_note v why None))"

definition deliver_manager_note :: "validated_note \<Rightarrow> offer_answer \<Rightarrow> note_refusal + operation list" where
  "deliver_manager_note v ans =
     and_then (answer_manager_note v ans) (\<lambda>taken.
       case taken of Some ops \<Rightarrow> Inr ops | None \<Rightarrow> Inl (Withdrawn_Unrecorded (v_node v)))"

definition deliver_note ::
    "note_seam \<Rightarrow> offered \<Rightarrow> offer_answer \<Rightarrow> note_refusal + operation list" where
  "deliver_note w ask ans =
     and_then (validate_manager_note w ask) (\<lambda>stage.
       case stage of Compiled_Note ops \<Rightarrow> Inr ops | Live_Note v \<Rightarrow> deliver_manager_note v ans)"

section \<open>What becomes of a note\<close>

lemmas note_cases = deliver_note_def validate_manager_note_def deliver_manager_note_def
  answer_manager_note_def untaken_note_def recorded_note_def note_record_def

definition offers_live :: "offered \<Rightarrow> bool" where
  "offers_live ask \<longleftrightarrow> attempts_a_live_turn (o_reach ask) \<and> o_address ask \<noteq> None"

lemma taken_live:
  assumes "deliver_note w ask ans = Inr ops"
  shows "offers_live ask \<and> ans = Took a \<Longrightarrow> ops = [NoteDelivered (o_id ask) (o_addressee ask) (o_text ask)
      (o_criterion ask) (reached_by a) (shown_at_delivery (reached_by a)) (routed_to (reached_by a)) None None]"
    and "\<not> (offers_live ask \<and> (\<exists>a. ans = Took a)) \<Longrightarrow> \<exists>reason. ops = [NoteDelivered (o_id ask)
      (o_addressee ask) (o_text ask) (o_criterion ask) (CarriedOver reason) [] [] None None]"
  using assms
  by (auto simp: note_cases offers_live_def attempts_a_live_turn_def Let_def
      split: if_splits option.splits offer_answer.splits)

lemma reached_by_reads: "a_conversation_read_it (reached_by a)"
  by (cases a rule: reached_by.cases) (auto simp: by_party_def split: party.split)

text \<open>
  C24. A note that composes is recorded exactly when a conversation took it, or it reaches a
  later dispatch of a node not settled done and was not taken back. It is recorded once, as
  read by a conversation exactly when one took it, and then it leaves the graph alone;
  otherwise it is carried, one more entry of the planner context of its node.
\<close>

theorem note_is_read_or_carried_once:
  assumes "compose_ok w (o_addressee ask) (o_text ask) (o_criterion ask)
    (case reach_live (o_reach ask) of None \<Rightarrow> default_interrupts w | Some l \<Rightarrow> interrupts l)"
  shows "((\<exists>ops. deliver_note w ask ans = Inr ops) \<longleftrightarrow>
      (if offers_live ask \<and> (\<exists>a. ans = Took a) then True
       else if offers_live ask \<and> ans = Taken_Back then False
       else composes_forward (o_reach ask) \<and> o_dispatchable ask)) \<and>
    (\<forall>ops. deliver_note w ask ans = Inr ops \<longrightarrow>
      (\<exists>how shown routed. ops = [NoteDelivered (o_id ask) (o_addressee ask) (o_text ask) (o_criterion ask)
          how shown routed None None] \<and>
        (a_conversation_read_it how \<longleftrightarrow> offers_live ask \<and> (\<exists>a. ans = Took a)) \<and>
        (\<forall>e g. fold (apply_op e) ops g =
          (if a_conversation_read_it how then g
           else graph_modify (o_id ask)
             (\<lambda>n. n\<lparr> planner_context := Some (with_carried (planner_context n) (o_text ask)) \<rparr>) g))))"
proof (intro conjI allI impI)
  show "(\<exists>ops. deliver_note w ask ans = Inr ops) \<longleftrightarrow>
      (if offers_live ask \<and> (\<exists>a. ans = Took a) then True
       else if offers_live ask \<and> ans = Taken_Back then False
       else composes_forward (o_reach ask) \<and> o_dispatchable ask)"
    using assms
    by (cases "o_address ask"; cases ans)
      (auto simp: note_cases offers_live_def attempts_a_live_turn_def Let_def split: option.splits)
next
  fix ops
  assume r: "deliver_note w ask ans = Inr ops"
  show "\<exists>how shown routed. ops = [NoteDelivered (o_id ask) (o_addressee ask) (o_text ask) (o_criterion ask)
          how shown routed None None] \<and>
        (a_conversation_read_it how \<longleftrightarrow> offers_live ask \<and> (\<exists>a. ans = Took a)) \<and>
        (\<forall>e g. fold (apply_op e) ops g =
          (if a_conversation_read_it how then g
           else graph_modify (o_id ask)
             (\<lambda>n. n\<lparr> planner_context := Some (with_carried (planner_context n) (o_text ask)) \<rparr>) g))"
  proof (cases "offers_live ask \<and> (\<exists>a. ans = Took a)")
    case True
    then obtain a where "offers_live ask \<and> ans = Took a" by blast
    from taken_live(1) [OF r this] reached_by_reads [of a] True show ?thesis
      by (cases "reached_by a") auto
  next
    case False
    from taken_live(2) [OF r this] False show ?thesis by auto
  qed
qed

definition plain_seam :: note_seam where
  "plain_seam = \<lparr> compose_ok = (\<lambda>who t bound i. \<not> blank t), default_interrupts = False \<rparr>"

definition live_ask :: offered where
  "live_ask = \<lparr> o_id = ''a'', o_addressee = ''worker'', o_text = ''stop'', o_criterion = None,
     o_reach = LiveThenNext (Live True (Some 5)), o_dispatchable = True, o_address = Some ''m1'' \<rparr>"

theorem note_is_read_or_carried_once_witness:
  "(\<exists>ops. deliver_note plain_seam live_ask Expired = Inr ops) \<and>
   (\<nexists>ops. deliver_note plain_seam live_ask Taken_Back = Inr ops)"
proof -
  have "compose_ok plain_seam (o_addressee live_ask) (o_text live_ask) (o_criterion live_ask)
    (case reach_live (o_reach live_ask) of None \<Rightarrow> default_interrupts plain_seam | Some l \<Rightarrow> interrupts l)"
    by code_simp
  from note_is_read_or_carried_once [OF this, of Expired] note_is_read_or_carried_once [OF this, of Taken_Back]
  show ?thesis by (auto simp: live_ask_def offers_live_def attempts_a_live_turn_def composes_forward_def)
qed

section \<open>A note onto a human node\<close>

lemma human_context_refused:
  assumes "n \<in> set (tasks p)" "kind n = Human" "planner_context n \<noteq> None"
  shows "check_edited sib p \<noteq> Inr u"
proof
  assume "check_edited sib p = Inr u"
  then have "check_nodes sib [] [] (tasks p) = Inr ()" by (simp add: check_edited_Inr)
  from check_nodes_Inr [OF this] assms(1) have "check_node sib n = Inr ()" by blast
  from check_node_parts(3) [OF this assms(2)] assms(3) show False
    by (simp add: check_human_def Let_def)
qed

text \<open>
  A note to a node a person does is accepted and carried onto it, and from then on every
  command judged against the plan is refused while that node is in the graph with the note,
  whatever the command is about: the plan checks admit no planner note on such a node.
\<close>

lemma note_on_a_human_stops_the_edits:
  assumes "graph_get g k = Some n" "kind n = Human" "bget (f_recorded f) k \<noteq> Some Done" "graph_ok g"
    and "compose_ok seam who t bound (default_interrupts seam)"
  shows "compile_into w g f a (Cmd_Note k who t bound Deliver_Next True None) = Inr (g, []) \<and>
    (\<exists>ops. (\<forall>ans. deliver_note seam \<lparr> o_id = k, o_addressee = who, o_text = t, o_criterion = bound,
        o_reach = NextOnly, o_dispatchable = bget (f_recorded f) k \<noteq> Some Done, o_address = at \<rparr> ans
          = Inr ops) \<and>
      (\<forall>h. h = fold (apply_op w) ops g \<longrightarrow> graph_ok h \<and>
        (\<forall>f' b c h' ops'. compile w h f' b c = Inr (h', ops') \<and> \<not> keeps_the_plan c \<longrightarrow>
          graph_get h' k \<noteq> graph_get h k)))"
proof (intro conjI)
  show "compile_into w g f a (Cmd_Note k who t bound Deliver_Next True None) = Inr (g, [])"
    using assms(1,3) by (simp add: compile_note_def reach_of_def deadline_of_def attempts_a_live_turn_def
        graph_contains_def)
  let ?ask = "\<lparr> o_id = k, o_addressee = who, o_text = t, o_criterion = bound,
        o_reach = NextOnly, o_dispatchable = bget (f_recorded f) k \<noteq> Some Done, o_address = at \<rparr>"
  let ?ops = "note_record k who t bound (CarriedOver None)"
  define h where "h = fold (apply_op w) ?ops g"
  have d: "deliver_note seam ?ask ans = Inr ?ops" for ans
    using assms(3,5) by (simp add: note_cases attempts_a_live_turn_def composes_forward_def)
  have h: "h = graph_modify k (\<lambda>n. n\<lparr> planner_context := Some (with_carried (planner_context n) t) \<rparr>) g"
    by (simp add: h_def note_record_def)
  have ok: "graph_ok h" unfolding h_def
    by (rule replay.fold_inv [OF assms(4)])
  have noted: "graph_get h k = Some (n\<lparr> planner_context := Some (with_carried (planner_context n) t) \<rparr>)"
    using assms(1) by (simp add: h graph_get_modify)
  have "graph_get h' k \<noteq> graph_get h k"
    if "compile w h f' b c = Inr (h', ops')" "\<not> keeps_the_plan c" for f' b c h' ops'
  proof
    note compiled = that
    assume kept: "graph_get h' k = graph_get h k"
    from compiled(1) obtain c' where into: "compile_into w h f' b c' = Inr (h', ops')"
      and plan: "edited_plan_ok w f' (plan_of_edit h' (edges_after c (f_export_edges f'))) = Inr ()"
      using compiled(2) by (auto elim: compile_Inr)
    have "graph_ok h'" by (rule compile_into_ok [OF ok into])
    with kept noted have "n\<lparr> planner_context := Some (with_carried (planner_context n) t) \<rparr> \<in>
        set (tasks (plan_of_edit h' (edges_after c (f_export_edges f'))))"
      by (simp add: plan_of_edit_def to_plan_def in_graph_iter graph_ok_id [OF assms(4) assms(1)])
    from human_context_refused [OF this] assms(2) plan show False
      by (auto simp: edited_plan_ok_def split: sum.splits)
  qed
  with d ok show "\<exists>ops. (\<forall>ans. deliver_note seam ?ask ans = Inr ops) \<and>
      (\<forall>h. h = fold (apply_op w) ops g \<longrightarrow> graph_ok h \<and>
        (\<forall>f' b c h' ops'. compile w h f' b c = Inr (h', ops') \<and> \<not> keeps_the_plan c \<longrightarrow>
          graph_get h' k \<noteq> graph_get h k))"
    unfolding h_def [symmetric] by (intro exI [of _ ?ops]) (auto simp: h_def)
qed

definition asked_graph :: graph where
  "asked_graph = from_plan (plain_plan [(work_node ''h'' [])\<lparr> kind := Human, persona := None \<rparr>])"

end
