(* ===== verification/Note_Thread.thy ===== *)
theory Note_Thread
  imports Note_Delivery
begin

text \<open>
  One receiver's delivery thread and the two parties that reach into it (\<open>deliver_seated\<close>,
  \<open>TakeBack::apply\<close> and \<open>Progress\<close> of \<open>src/src/engine.rs\<close>). The thread offers the notes of one
  envelope to one conversation in command order; the reconciler may take a note back or mark
  the node cancelled at any moment in between. Every step here is what the source does while
  it holds the mutex of \<open>Progress\<close>, so an execution is any interleaving of them.
\<close>

section \<open>Progress\<close>

datatype (plugins only: code) delivered =
    Committed "operation list"
  | NotAttempted
  | Withdrawn
  | TakenBack "operation list"

fun committed_ops :: "delivered \<Rightarrow> operation list" where
  "committed_ops (Committed ops) = ops"
| "committed_ops (TakenBack ops) = ops"
| "committed_ops _ = []"

type_synonym ruling = "note_refusal + delivered"

text \<open>
  The deadline of an offering is read by the status file alone and is left out; \<open>withdrawer\<close>
  is whether the offer's withdrawer is held.
\<close>

record progress =
  finished :: "(nat, operation list) omap"
  offering :: "(str \<times> nat) option"        \<comment> \<open>node, seat\<close>
  cancelled_by :: "u64 bmap"
  answered :: nat
  withdrawer :: bool
  withdrawn_at :: "nat set"

definition no_progress :: progress where
  "no_progress = \<lparr> finished = [], offering = None, cancelled_by = [], answered = 0,
     withdrawer = False, withdrawn_at = {} \<rparr>"

section \<open>The thread\<close>

text \<open>The first critical section of \<open>deliver_seated\<close>: skip the note, or be about to offer it.\<close>

definition skipped :: "validated_note \<Rightarrow> progress \<Rightarrow> nat \<Rightarrow> bool \<Rightarrow> ruling option" where
  "skipped v p seat refused =
     (if seat \<in> withdrawn_at p then Some (Inr Withdrawn)
      else if refused then Some (Inr NotAttempted)
      else map_option (\<lambda>by. Inl (Preempted_Note (v_node v) by)) (bget (cancelled_by p) (v_node v)))"

definition counted :: "progress \<Rightarrow> progress" where
  "counted p = p\<lparr> answered := Suc (answered p) \<rparr>"

definition offering_now :: "validated_note \<Rightarrow> nat \<Rightarrow> bool \<Rightarrow> progress \<Rightarrow> progress" where
  "offering_now v seat took_offer p =
     p\<lparr> offering := Some (v_node v, seat), withdrawer := took_offer \<or> withdrawer p \<rparr>"

text \<open>The second: what the conversation answered is written down.\<close>

definition ruled :: "validated_note \<Rightarrow> nat \<Rightarrow> progress \<Rightarrow> offer_answer \<Rightarrow> ruling" where
  "ruled v seat p ans =
     (case answer_manager_note v ans of
        Inr (Some ops) \<Rightarrow> Inr (Committed ops)
      | Inr None \<Rightarrow> if seat \<in> withdrawn_at p then Inr Withdrawn
                    else Inl (Withdrawn_Unrecorded (v_node v))
      | Inl e \<Rightarrow> Inl e)"

definition offer_over :: "validated_note \<Rightarrow> nat \<Rightarrow> offer_answer \<Rightarrow> progress \<Rightarrow> progress" where
  "offer_over v seat ans p =
     (case answer_manager_note v ans of
        Inr (Some ops) \<Rightarrow> finished_update (bput seat ops)
      | _ \<Rightarrow> id)
     (counted (p\<lparr> offering := None, withdrawer := False \<rparr>))"

section \<open>Executions\<close>

text \<open>
  \<open>l_offer\<close> is the conversation's side of the offer: none made, made and not yet answered, or
  ended as it says. \<open>l_taken_back\<close> remembers the positions a take-back was answered it took.
\<close>

record lane_run =
  l_notes :: "validated_note list"
  l_progress :: progress
  l_rulings :: "ruling list"
  l_offer :: "offer_answer option option"
  l_taken_back :: "nat set"

definition lane_start :: "validated_note list \<Rightarrow> lane_run" where
  "lane_start notes = \<lparr> l_notes = notes, l_progress = no_progress, l_rulings = [], l_offer = None,
     l_taken_back = {} \<rparr>"

definition a_refusal :: "ruling \<Rightarrow> bool" where
  "a_refusal r \<longleftrightarrow> isl r"

text \<open>
  \<open>TakeBack::apply\<close> at a seat: \<open>True\<close> where it answers the operation recording the withdrawal.
  A withdrawer takes the note back exactly while its offer is open.
\<close>

definition take_back :: "nat \<Rightarrow> lane_run \<Rightarrow> bool \<times> lane_run" where
  "take_back seat l =
     (let p = l_progress l
      in if seat < answered p then (False, l)
         else if (case offering p of Some (_, at) \<Rightarrow> at = seat | None \<Rightarrow> False)
         then (if \<not> withdrawer p then (False, l)
               else if l_offer l = Some None
               then (True, l\<lparr> l_progress := p\<lparr> withdrawn_at := insert seat (withdrawn_at p) \<rparr>,
                              l_offer := Some (Some Taken_Back) \<rparr>)
               else (False, l\<lparr> l_progress := p\<lparr> withdrawn_at := withdrawn_at p - {seat} \<rparr> \<rparr>))
         else (True, l\<lparr> l_progress := p\<lparr> withdrawn_at := insert seat (withdrawn_at p) \<rparr> \<rparr>))"

text \<open>The mark \<open>preempt\<close> leaves on a thread that is not waiting on its conversation.\<close>

definition mark_cancelled :: "str \<Rightarrow> u64 \<Rightarrow> progress \<Rightarrow> progress" where
  "mark_cancelled node by p =
     (if bget (cancelled_by p) node = None then cancelled_by_update (bput node by) p else p)"

definition next_note :: "lane_run \<Rightarrow> validated_note \<Rightarrow> bool" where
  "next_note l v \<longleftrightarrow> length (l_rulings l) < length (l_notes l) \<and> v = l_notes l ! length (l_rulings l)"

inductive lane_step :: "lane_run \<Rightarrow> lane_run \<Rightarrow> bool" where
  skip:
    "next_note l v \<Longrightarrow> l_offer l = None \<Longrightarrow>
     skipped v (l_progress l) (length (l_rulings l)) (list_ex a_refusal (l_rulings l)) = Some r \<Longrightarrow>
     lane_step l (l\<lparr> l_progress := counted (l_progress l), l_rulings := l_rulings l @ [r] \<rparr>)"
| offer:
    "next_note l v \<Longrightarrow> l_offer l = None \<Longrightarrow>
     skipped v (l_progress l) (length (l_rulings l)) (list_ex a_refusal (l_rulings l)) = None \<Longrightarrow>
     ending = None \<or> (\<exists>why. ending = Some (Not_Offered why)) \<Longrightarrow>
     lane_step l (l\<lparr> l_progress := offering_now v (length (l_rulings l)) (ending = None) (l_progress l),
                     l_offer := Some ending \<rparr>)"
| ends:
    "l_offer l = Some None \<Longrightarrow> ans \<noteq> Taken_Back \<Longrightarrow> \<forall>why. ans \<noteq> Not_Offered why \<Longrightarrow>
     lane_step l (l\<lparr> l_offer := Some (Some ans) \<rparr>)"
| rules:
    "next_note l v \<Longrightarrow> l_offer l = Some (Some ans) \<Longrightarrow>
     lane_step l (l\<lparr> l_progress := offer_over v (length (l_rulings l)) ans (l_progress l),
                     l_rulings := l_rulings l @ [ruled v (length (l_rulings l)) (l_progress l) ans],
                     l_offer := None \<rparr>)"
| withdraw:
    "take_back seat l = (ok, l') \<Longrightarrow>
     lane_step l (l'\<lparr> l_taken_back := (if ok then insert seat (l_taken_back l) else l_taken_back l) \<rparr>)"
| marked:
    "offering (l_progress l) = None \<Longrightarrow>
     lane_step l (l\<lparr> l_progress := mark_cancelled node by (l_progress l) \<rparr>)"

section \<open>What an execution keeps\<close>

definition taken_back_ruling :: "ruling \<Rightarrow> bool" where
  "taken_back_ruling r \<longleftrightarrow> r = Inr Withdrawn \<or> (\<exists>k. r = Inl (Withdrawn_Unrecorded k))"

definition in_step :: "lane_run \<Rightarrow> bool" where
  "in_step l \<longleftrightarrow>
     answered (l_progress l) = length (l_rulings l) \<and> length (l_rulings l) \<le> length (l_notes l) \<and>
     (case l_offer l of
        None \<Rightarrow> offering (l_progress l) = None
      | Some ending \<Rightarrow>
          (\<exists>v. next_note l v \<and> offering (l_progress l) = Some (v_node v, length (l_rulings l))) \<and>
          \<not> list_ex a_refusal (l_rulings l) \<and> (ending = None \<longrightarrow> withdrawer (l_progress l)))"

definition bookkept :: "lane_run \<Rightarrow> bool" where
  "bookkept l \<longleftrightarrow> bmap_ok (finished (l_progress l)) \<and>
     (\<forall>i ops. bget (finished (l_progress l)) i = Some ops \<longleftrightarrow>
        i < length (l_rulings l) \<and> l_rulings l ! i = Inr (Committed ops))"

definition taken_back_held :: "lane_run \<Rightarrow> bool" where
  "taken_back_held l \<longleftrightarrow>
     withdrawn_at (l_progress l) \<subseteq> l_taken_back l \<and>
     (\<forall>i \<in> l_taken_back l.
        if i < length (l_rulings l) then taken_back_ruling (l_rulings l ! i)
        else if i = length (l_rulings l) \<and> l_offer l \<noteq> None then l_offer l = Some (Some Taken_Back)
        else i \<in> withdrawn_at (l_progress l)) \<and>
     (\<forall>i < length (l_rulings l). l_rulings l ! i = Inr Withdrawn \<longrightarrow> i \<in> l_taken_back l) \<and>
     (l_offer l = Some (Some Taken_Back) \<longrightarrow> length (l_rulings l) \<in> l_taken_back l)"

definition stops_at_a_refusal :: "ruling list \<Rightarrow> bool" where
  "stops_at_a_refusal rs \<longleftrightarrow>
     (\<forall>i < length rs. \<forall>j < i. isl (rs ! j) \<longrightarrow> rs ! i \<in> {Inr Withdrawn, Inr NotAttempted}) \<and>
     (\<forall>i < length rs. rs ! i = Inr NotAttempted \<longrightarrow> (\<exists>j < i. isl (rs ! j)))"

lemma stops_snoc:
  "stops_at_a_refusal (rs @ [r]) \<longleftrightarrow> stops_at_a_refusal rs \<and>
     (list_ex isl rs \<longrightarrow> r \<in> {Inr Withdrawn, Inr NotAttempted}) \<and>
     (r = Inr NotAttempted \<longrightarrow> list_ex isl rs)"
proof -
  have before: "(rs @ [r]) ! j = rs ! j" if "j < i" "i \<le> length rs" for i j
    using that by (simp add: nth_append)
  have "stops_at_a_refusal (rs @ [r]) \<longleftrightarrow> stops_at_a_refusal rs \<and>
      (\<forall>j < length rs. isl (rs ! j) \<longrightarrow> r \<in> {Inr Withdrawn, Inr NotAttempted}) \<and>
      (r = Inr NotAttempted \<longrightarrow> (\<exists>j < length rs. isl (rs ! j)))"
    unfolding stops_at_a_refusal_def by (simp add: All_less_Suc before cong: conj_cong) blast
  moreover have "list_ex isl rs \<longleftrightarrow> (\<exists>j < length rs. isl (rs ! j))" by (simp add: list_ex_length)
  ultimately show ?thesis by blast
qed

lemma a_refusal_isl [simp]: "a_refusal = isl"
  by (simp add: fun_eq_iff a_refusal_def)

lemma skipped_cases:
  assumes "skipped v p i refused = Some r"
  shows "r = Inr Withdrawn \<longleftrightarrow> i \<in> withdrawn_at p" "r \<noteq> Inr (Committed ops)"
    "r = Inr NotAttempted \<Longrightarrow> refused" "refused \<Longrightarrow> r \<in> {Inr Withdrawn, Inr NotAttempted}"
  using assms by (auto simp: skipped_def split: if_splits)

lemma skipped_refused [simp]: "skipped v p i True \<noteq> None"
  by (simp add: skipped_def)

lemma skipped_None: "skipped v p i refused = None \<Longrightarrow> i \<notin> withdrawn_at p"
  by (auto simp: skipped_def split: if_splits)

lemma ruled_cases:
  "ruled v i p ans = Inr Withdrawn \<longleftrightarrow> ans = Taken_Back \<and> i \<in> withdrawn_at p"
  "ruled v i p ans \<noteq> Inr NotAttempted"
  "ruled v i p Taken_Back = (if i \<in> withdrawn_at p then Inr Withdrawn else Inl (Withdrawn_Unrecorded (v_node v)))"
  by (auto simp: ruled_def answer_manager_note_def untaken_note_def Let_def split: option.splits offer_answer.splits sum.splits)

lemma offer_over_parts [simp]:
  "answered (offer_over v i ans p) = Suc (answered p)" "offering (offer_over v i ans p) = None"
  "withdrawn_at (offer_over v i ans p) = withdrawn_at p"
  by (auto simp: offer_over_def counted_def split: sum.splits option.splits)

lemma offer_over_finished:
  "finished (offer_over v i ans p) =
     (case ruled v i p ans of Inr (Committed ops) \<Rightarrow> bput i ops (finished p) | _ \<Rightarrow> finished p)"
  by (auto simp: offer_over_def ruled_def counted_def split: sum.splits option.splits)

lemma in_step_start: "in_step (lane_start ns)" "bookkept (lane_start ns)" "taken_back_held (lane_start ns)"
  "stops_at_a_refusal (l_rulings (lane_start ns))"
  by (simp_all add: in_step_def bookkept_def taken_back_held_def stops_at_a_refusal_def lane_start_def
      no_progress_def)

lemma take_back_keeps:
  assumes "take_back i l = (ok, l')"
  shows "l_notes l' = l_notes l" "l_rulings l' = l_rulings l"
    "answered (l_progress l') = answered (l_progress l)" "offering (l_progress l') = offering (l_progress l)"
    "finished (l_progress l') = finished (l_progress l)" "withdrawer (l_progress l') = withdrawer (l_progress l)"
    "l_taken_back l' = l_taken_back l"
  using assms by (auto simp: take_back_def Let_def split: if_splits)

lemma in_step_step: "lane_step l l' \<Longrightarrow> in_step l \<Longrightarrow> in_step l'"
proof (induction rule: lane_step.induct)
  case (withdraw i l ok l')
  note keep = take_back_keeps [OF withdraw(1)]
  have "l_offer l' = l_offer l \<or> l_offer l = Some None \<and> l_offer l' = Some (Some Taken_Back)"
    using withdraw(1) by (auto simp: take_back_def Let_def split: if_splits)
  with withdraw(2) keep show ?case by (auto simp: in_step_def next_note_def split: option.splits)
qed (auto simp: in_step_def next_note_def counted_def offering_now_def mark_cancelled_def split: option.splits)

lemma bookkept_step: "lane_step l l' \<Longrightarrow> in_step l \<Longrightarrow> bookkept l \<Longrightarrow> bookkept l'"
proof (induction rule: lane_step.induct)
  case (skip l v r)
  then show ?case
    using skipped_cases(2) [OF skip(3)]
    by (auto simp: bookkept_def counted_def nth_append less_Suc_eq)
next
  case (rules l v ans)
  let ?i = "length (l_rulings l)" and ?r = "ruled v (length (l_rulings l)) (l_progress l) ans"
  have none: "bget (finished (l_progress l)) ?i = None"
    using rules(4) by (auto simp: bookkept_def) (metis less_irrefl not_None_eq)
  show ?case
    using rules(4) none
    by (auto simp: bookkept_def offer_over_finished nth_append less_Suc_eq
        split: sum.splits delivered.splits)
next
  case (withdraw i l ok l')
  with take_back_keeps [OF withdraw(1)] show ?case by (simp add: bookkept_def)
qed (auto simp: bookkept_def offering_now_def mark_cancelled_def)

lemma stops_step:
  "lane_step l l' \<Longrightarrow> in_step l \<Longrightarrow> stops_at_a_refusal (l_rulings l) \<Longrightarrow> stops_at_a_refusal (l_rulings l')"
proof (induction rule: lane_step.induct)
  case (skip l v r)
  then show ?case using skipped_cases(3,4) [OF skip(3)] by (auto simp: stops_snoc)
next
  case (rules l v ans)
  then show ?case using ruled_cases(2) by (auto simp: stops_snoc in_step_def)
next
  case (withdraw i l ok l')
  with take_back_keeps(2) [OF withdraw(1)] show ?case by simp
qed simp_all

lemma taken_back_step: "lane_step l l' \<Longrightarrow> in_step l \<Longrightarrow> taken_back_held l \<Longrightarrow> taken_back_held l'"
proof (induction rule: lane_step.induct)
  case (skip l v r)
  then show ?case
    using skipped_cases(1) [OF skip(3)]
    by (auto simp: taken_back_held_def counted_def nth_append less_Suc_eq taken_back_ruling_def)
next
  case (offer l v ending)
  have "length (l_rulings l) \<notin> l_taken_back l"
    using skipped_None [OF offer(3)] offer(2,6) by (auto simp: taken_back_held_def)
  with offer show ?case by (auto simp: taken_back_held_def offering_now_def)
next
  case (ends l ans)
  have "length (l_rulings l) \<notin> l_taken_back l"
    using ends(1,5) by (auto simp: taken_back_held_def)
  with ends show ?case by (auto simp: taken_back_held_def)
next
  case (rules l v ans)
  let ?i = "length (l_rulings l)"
  have ours: "?i \<in> l_taken_back l \<longleftrightarrow> ans = Taken_Back" "withdrawn_at (l_progress l) \<subseteq> l_taken_back l"
    using rules(2,4) by (auto simp: taken_back_held_def)
  let ?r = "ruled v ?i (l_progress l) ans"
  have theirs: "if i < ?i then taken_back_ruling (l_rulings l ! i)
      else if i = ?i then taken_back_ruling ?r else i \<in> withdrawn_at (l_progress l)"
    if "i \<in> l_taken_back l" for i
  proof -
    have "if i < ?i then taken_back_ruling (l_rulings l ! i)
      else if i = ?i \<and> l_offer l \<noteq> None then l_offer l = Some (Some Taken_Back)
      else i \<in> withdrawn_at (l_progress l)"
      using rules(4) that unfolding taken_back_held_def by blast
    then show ?thesis
      using rules(2) by (simp add: taken_back_ruling_def ruled_cases(3) split: if_splits)
  qed
  have "i \<in> l_taken_back l" if "i < Suc ?i" "(l_rulings l @ [?r]) ! i = Inr Withdrawn" for i
  proof (cases "i = ?i")
    case True
    with that(2) ours show ?thesis by (auto simp: ruled_cases(1))
  next
    case False
    with that rules(4) show ?thesis by (simp add: taken_back_held_def nth_append)
  qed
  with ours theirs show ?case
    unfolding taken_back_held_def by (simp add: nth_append less_Suc_eq)
next
  case (withdraw i l ok l')
  have at: "offering (l_progress l) = None \<and> l_offer l = None \<or>
      (\<exists>k. offering (l_progress l) = Some (k, length (l_rulings l)) \<and> l_offer l \<noteq> None)"
    and len: "answered (l_progress l) = length (l_rulings l)"
    using withdraw(2) by (auto simp: in_step_def split: option.splits)
  note held = withdraw(3) [unfolded taken_back_held_def]
  consider (past) "i < length (l_rulings l)" | (now) "i = length (l_rulings l)" "l_offer l \<noteq> None"
    | (later) "length (l_rulings l) \<le> i" "i = length (l_rulings l) \<longrightarrow> l_offer l = None"
    by linarith
  then show ?case
  proof cases
    case past
    with withdraw(1) len have "\<not> ok" "l' = l" by (auto simp: take_back_def Let_def)
    with held show ?thesis by (simp add: taken_back_held_def)
  next
    case now
    with at obtain k where k: "offering (l_progress l) = Some (k, i)" by blast
    show ?thesis
    proof (cases "withdrawer (l_progress l) \<and> l_offer l = Some None")
      case True
      with withdraw(1) len k now have ok: "ok"
        "l' = l\<lparr> l_progress := (l_progress l)\<lparr> withdrawn_at := insert i (withdrawn_at (l_progress l)) \<rparr>,
                 l_offer := Some (Some Taken_Back) \<rparr>"
        by (auto simp: take_back_def Let_def)
      show ?thesis unfolding taken_back_held_def ok(2) using held ok(1) now by auto
    next
      case False
      with withdraw(1) len k now have ok: "\<not> ok"
        "l' = l \<or> l' = l\<lparr> l_progress := (l_progress l)\<lparr> withdrawn_at := withdrawn_at (l_progress l) - {i} \<rparr> \<rparr>"
        by (auto simp: take_back_def Let_def split: if_splits)
      from ok(2) show ?thesis
      proof
        assume "l' = l"
        with held ok(1) show ?thesis by (simp add: taken_back_held_def)
      next
        assume l': "l' = l\<lparr> l_progress := (l_progress l)\<lparr> withdrawn_at := withdrawn_at (l_progress l) - {i} \<rparr> \<rparr>"
        show ?thesis unfolding taken_back_held_def l' using held ok(1) now by auto
      qed
    qed
  next
    case later
    with at have "\<not> (case offering (l_progress l) of Some (_, s) \<Rightarrow> s = i | None \<Rightarrow> False)"
      by (auto split: option.splits)
    with withdraw(1) len later have ok: "ok"
      "l' = l\<lparr> l_progress := (l_progress l)\<lparr> withdrawn_at := insert i (withdrawn_at (l_progress l)) \<rparr> \<rparr>"
      by (auto simp: take_back_def Let_def split: if_splits)
    show ?thesis unfolding taken_back_held_def ok(2) using held ok(1) later by auto
  qed
next
  case (marked l node a)
  then show ?case by (simp add: taken_back_held_def mark_cancelled_def)
qed

lemma lane_run_invariants:
  assumes "lane_step\<^sup>*\<^sup>* (lane_start ns) l"
  shows "l_notes l = ns" "in_step l" "bookkept l" "taken_back_held l" "stops_at_a_refusal (l_rulings l)"
proof -
  have "l_notes l = ns \<and> in_step l \<and> bookkept l \<and> taken_back_held l \<and> stops_at_a_refusal (l_rulings l)"
    using assms
  proof (induction rule: rtranclp_induct)
    case base
    then show ?case using in_step_start by (simp add: lane_start_def)
  next
    case (step l l')
    have "l_notes l' = l_notes l"
      using step(2) by (cases rule: lane_step.cases) (auto dest: take_back_keeps)
    with step in_step_step bookkept_step taken_back_step stops_step show ?case by blast
  qed
  then show "l_notes l = ns" "in_step l" "bookkept l" "taken_back_held l" "stops_at_a_refusal (l_rulings l)"
    by blast+
qed

lemma lane_step_grows:
  assumes "lane_step l l'"
  shows "l_taken_back l \<subseteq> l_taken_back l'" "take (length (l_rulings l)) (l_rulings l') = l_rulings l"
    "length (l_rulings l) \<le> length (l_rulings l')"
  using assms by (cases rule: lane_step.cases; auto dest: take_back_keeps)+

lemma lane_run_grows:
  assumes "lane_step\<^sup>*\<^sup>* l l'"
  shows "l_taken_back l \<subseteq> l_taken_back l'"
  using assms by (induction rule: rtranclp_induct) (use lane_step_grows(1) in blast)+

section \<open>Taking a note back\<close>

text \<open>
  C14. However the thread, the conversation and the reconciler interleave: a note whose
  take-back was answered that it did is never afterwards recorded as read, and a note is
  answered withdrawn only when one was; the record of what the thread finished is exactly the
  notes it committed; and after the first refusal no further note is offered, each being
  withdrawn or not attempted, which happens to no note before it.
\<close>

theorem taken_back_notes_are_never_read:
  assumes "lane_step\<^sup>*\<^sup>* (lane_start ns) l" "lane_step\<^sup>*\<^sup>* l l'"
  shows "(\<forall>i < length (l_rulings l'). i \<in> l_taken_back l \<longrightarrow> taken_back_ruling (l_rulings l' ! i)) \<and>
    (\<forall>i < length (l_rulings l). l_rulings l ! i = Inr Withdrawn \<longrightarrow> i \<in> l_taken_back l) \<and>
    (\<forall>i ops. bget (finished (l_progress l)) i = Some ops \<longleftrightarrow>
       i < length (l_rulings l) \<and> l_rulings l ! i = Inr (Committed ops)) \<and>
    (\<forall>i < length (l_rulings l). \<forall>j < i. isl (l_rulings l ! j) \<longrightarrow>
       l_rulings l ! i \<in> {Inr Withdrawn, Inr NotAttempted}) \<and>
    (\<forall>i < length (l_rulings l). l_rulings l ! i = Inr NotAttempted \<longrightarrow> (\<exists>j < i. isl (l_rulings l ! j)))"
proof -
  note here = lane_run_invariants [OF assms(1)]
  have "lane_step\<^sup>*\<^sup>* (lane_start ns) l'" using assms by (rule rtranclp_trans)
  note later = lane_run_invariants(4) [OF this]
  have "taken_back_ruling (l_rulings l' ! i)" if "i < length (l_rulings l')" "i \<in> l_taken_back l" for i
    using later lane_run_grows [OF assms(2)] that unfolding taken_back_held_def by fastforce
  moreover have "i \<in> l_taken_back l" if "i < length (l_rulings l)" "l_rulings l ! i = Inr Withdrawn" for i
    using here(4) that unfolding taken_back_held_def by blast
  ultimately show ?thesis
    using here(3,5) unfolding bookkept_def stops_at_a_refusal_def by blast
qed

definition two_notes :: "validated_note list" where
  "two_notes = map (\<lambda>t. \<lparr> v_node = ''a'', v_addressee = ''worker'', v_text = t, v_criterion = None,
     v_reach = LiveOnly (Live True None), v_address = ''m1'', v_dispatchable = True \<rparr>) [''x'', ''y'']"

definition second_taken_back :: lane_run where
  "second_taken_back = (lane_start two_notes)\<lparr>
     l_progress := no_progress\<lparr> withdrawn_at := {1} \<rparr>, l_taken_back := {1} \<rparr>"

theorem taken_back_notes_are_never_read_witness:
  "lane_step\<^sup>*\<^sup>* (lane_start two_notes) second_taken_back \<and>
   {l'. lane_step\<^sup>*\<^sup>* second_taken_back l' \<and> 1 < length (l_rulings l') \<and>
        (\<exists>ops. l_rulings l' ! 1 = Inr (Committed ops))} = {}"
proof -
  have "take_back 1 (lane_start two_notes) = (True, (lane_start two_notes)\<lparr>
      l_progress := no_progress\<lparr> withdrawn_at := {1} \<rparr> \<rparr>)"
    by (simp add: take_back_def lane_start_def no_progress_def)
  from lane_step.withdraw [OF this]
  have "lane_step (lane_start two_notes) second_taken_back"
    by (simp add: second_taken_back_def lane_start_def)
  then have run: "lane_step\<^sup>*\<^sup>* (lane_start two_notes) second_taken_back" by blast
  have one: "1 \<in> l_taken_back second_taken_back" by (simp add: second_taken_back_def)
  have "l_rulings l' ! 1 \<noteq> Inr (Committed ops)"
    if "lane_step\<^sup>*\<^sup>* second_taken_back l'" "1 < length (l_rulings l')" for l' ops
    using taken_back_notes_are_never_read [OF run that(1), THEN conjunct1] that(2) one
    by (auto simp: taken_back_ruling_def)
  with run show ?thesis by blast
qed

section \<open>The thread ends\<close>

definition work_left :: "lane_run \<Rightarrow> nat" where
  "work_left l = 3 * (length (l_notes l) - length (l_rulings l))
     - (case l_offer l of None \<Rightarrow> 0 | Some None \<Rightarrow> 1 | Some (Some _) \<Rightarrow> 2)"

lemma take_back_work:
  assumes "take_back i l = (ok, l')"
  shows "work_left l' \<le> work_left l"
  using assms by (auto simp: take_back_def work_left_def Let_def split: if_splits)



end
