(* ===== verification/Note_Lanes.thy ===== *)
theory Note_Lanes
  imports Note_Thread
begin

text \<open>
  The envelopes whose notes are being delivered (\<open>NoteDeliveries\<close> of \<open>src/src/engine.rs\<close>): one
  lane per receiver, each run by a thread of \<open>Note_Thread\<close> or waiting behind an earlier
  envelope's, and what a cancel does to the lanes of the node it stops. The run's files, the
  envelopes relayed while a lane is outstanding and the instants it keeps are left out.
\<close>

section \<open>State\<close>

datatype (plugins only: code) 'e answer =
    Ans_Committed "note_turn option"
  | Ans_Queued
  | Ans_Refused 'e
  | Ans_Withdrawn            \<comment> \<open>refused as withdrawn before any turn took it\<close>
  | Ans_NotAttempted
  | Ans_Unapplied

text \<open>
  \<open>ln_at\<close> addresses the lane's shared \<open>Progress\<close>, and with it the thread over it: \<open>d_runs\<close> holds
  them, \<open>d_next\<close> is the next address, and \<open>d_started\<close> the threads started, oldest first, as
  address, envelope and node. \<open>d_recorded\<close> is what the run's journal says of each note.
\<close>

record lane =
  ln_at :: nat
  ln_notes :: "nat list"
  ln_waiting :: "(nat \<times> validated_note) list option"

record outstanding =
  os_commands :: nat
  os_answers :: "note_refusal answer option list"
  os_lanes :: "lane bmap"

record deliveries =
  d_outstanding :: "(u64, outstanding) omap"
  d_in_flight :: "nat bmap"
  d_runs :: "nat \<Rightarrow> lane_run"
  d_next :: nat
  d_started :: "(nat \<times> u64 \<times> str) list"
  d_recorded :: "(u64 \<times> nat \<times> ruling) list"

definition no_deliveries :: deliveries where
  "no_deliveries = \<lparr> d_outstanding = [], d_in_flight = [], d_runs = (\<lambda>_. lane_start []), d_next = 0,
     d_started = [], d_recorded = [] \<rparr>"

section \<open>Deliveries in flight\<close>

definition begin_delivery :: "str \<Rightarrow> nat bmap \<Rightarrow> nat bmap" where
  "begin_delivery node m = bput node (case bget m node of None \<Rightarrow> 1 | Some n \<Rightarrow> Suc n) m"

definition end_delivery :: "str \<Rightarrow> nat bmap \<Rightarrow> nat bmap" where
  "end_delivery node m =
     (case bget m node of
        None \<Rightarrow> m
      | Some n \<Rightarrow> if n - 1 = 0 then bdel node m else bput node (n - 1) m)"

section \<open>Handing an envelope over\<close>

definition receiving :: "deliveries \<Rightarrow> str \<Rightarrow> bool" where
  "receiving d node \<longleftrightarrow> list_ex (\<lambda>(_, os). bget (os_lanes os) node \<noteq> None) (d_outstanding d)"

definition by_receiver :: "(nat \<times> validated_note) list \<Rightarrow> (nat \<times> validated_note) list bmap" where
  "by_receiver notes =
     fold (\<lambda>(i, v) m. bput (v_node v)
       ((case bget m (v_node v) of None \<Rightarrow> [] | Some held \<Rightarrow> held) @ [(i, v)]) m) notes []"

definition open_lane ::
    "u64 \<Rightarrow> str \<times> (nat \<times> validated_note) list \<Rightarrow> deliveries \<times> lane bmap \<Rightarrow> deliveries \<times> lane bmap" where
  "open_lane eid entry s =
     (let (node, notes) = entry; (d, lanes) = s; seat = d_next d; behind = receiving d node
      in (d\<lparr> d_next := Suc seat, d_runs := (d_runs d)(seat := lane_start (map snd notes)),
             d_in_flight := begin_delivery node (d_in_flight d),
             d_started := (if behind then d_started d else d_started d @ [(seat, eid, node)]) \<rparr>,
          bput node \<lparr> ln_at = seat, ln_notes = map fst notes,
                      ln_waiting = (if behind then Some notes else None) \<rparr> lanes))"

definition hand ::
    "u64 \<Rightarrow> nat \<Rightarrow> (nat \<times> validated_note) list \<Rightarrow> note_refusal answer option list \<Rightarrow> deliveries \<Rightarrow> deliveries" where
  "hand eid commands notes answers d =
     (let (d', lanes) = fold (open_lane eid) (by_receiver notes) (d, [])
      in d'\<lparr> d_outstanding := bput eid \<lparr> os_commands = commands, os_answers = answers, os_lanes = lanes \<rparr>
               (d_outstanding d') \<rparr>)"

section \<open>Ending a lane\<close>

definition started_to :: "str \<Rightarrow> outstanding \<Rightarrow> bool" where
  "started_to node os \<longleftrightarrow> (case bget (os_lanes os) node of None \<Rightarrow> False | Some l \<Rightarrow> ln_waiting l = None)"

definition waiting_to :: "str \<Rightarrow> outstanding \<Rightarrow> bool" where
  "waiting_to node os \<longleftrightarrow> (case bget (os_lanes os) node of None \<Rightarrow> False | Some l \<Rightarrow> ln_waiting l \<noteq> None)"

definition start_next :: "str \<Rightarrow> deliveries \<Rightarrow> deliveries" where
  "start_next node d =
     (if list_ex (\<lambda>(_, os). started_to node os) (d_outstanding d) then d
      else case find (\<lambda>(_, os). waiting_to node os) (d_outstanding d) of
        None \<Rightarrow> d
      | Some (eid, os) \<Rightarrow>
          (case bget (os_lanes os) node of
             None \<Rightarrow> d
           | Some l \<Rightarrow>
               d\<lparr> d_outstanding := bput eid (os\<lparr> os_lanes := bput node (l\<lparr> ln_waiting := None \<rparr>) (os_lanes os) \<rparr>)
                    (d_outstanding d),
                  d_started := d_started d @ [(ln_at l, eid, node)] \<rparr>))"

definition take_lane :: "u64 \<Rightarrow> str \<Rightarrow> deliveries \<Rightarrow> lane option \<times> deliveries" where
  "take_lane eid node d =
     (case bget (d_outstanding d) eid of
        None \<Rightarrow> (None, d)
      | Some os \<Rightarrow> (bget (os_lanes os) node,
          d\<lparr> d_outstanding := bput eid (os\<lparr> os_lanes := bdel node (os_lanes os) \<rparr>) (d_outstanding d) \<rparr>))"

definition finish :: "u64 \<Rightarrow> deliveries \<Rightarrow> deliveries" where
  "finish eid d =
     (case bget (d_outstanding d) eid of
        None \<Rightarrow> d
      | Some os \<Rightarrow> if os_lanes os = [] then d\<lparr> d_outstanding := bdel eid (d_outstanding d) \<rparr> else d)"

fun turn_of :: "operation list \<Rightarrow> note_turn option" where
  "turn_of (NoteDelivered _ _ _ _ how _ _ _ _ # ops) =
     (case turn_taken how of None \<Rightarrow> turn_of ops | Some t \<Rightarrow> Some t)"
| "turn_of (_ # ops) = turn_of ops"
| "turn_of [] = None"

text \<open>What \<open>settle_lane\<close> answers a ruling with; \<open>never_offered\<close> names the note's own node.\<close>

fun answer_of :: "str \<Rightarrow> ruling \<Rightarrow> note_refusal answer" where
  "answer_of node (Inr (Committed ops)) = Ans_Committed (turn_of ops)"
| "answer_of node (Inr (TakenBack ops)) = Ans_Committed (turn_of ops)"
| "answer_of node (Inr NotAttempted) = Ans_Refused (Never_Offered node)"
| "answer_of node (Inr Withdrawn) = Ans_Withdrawn"
| "answer_of node (Inl e) = Ans_Refused e"

definition settle_one ::
    "u64 \<Rightarrow> str \<Rightarrow> nat \<times> ruling \<Rightarrow> deliveries \<Rightarrow> deliveries" where
  "settle_one eid node entry d =
     (let (index, ruling) = entry
      in case bget (d_outstanding d) eid of
        None \<Rightarrow> d
      | Some os \<Rightarrow>
          if os_commands os \<le> index then d
          else d\<lparr> d_outstanding := bput eid (os\<lparr> os_answers :=
                    (os_answers os)[index := Some (answer_of node ruling)] \<rparr>) (d_outstanding d),
                  d_recorded := d_recorded d @ [(eid, index, ruling)] \<rparr>)"

definition settle_lane :: "u64 \<Rightarrow> str \<Rightarrow> (nat \<times> ruling) list \<Rightarrow> deliveries \<Rightarrow> deliveries" where
  "settle_lane eid node rulings d = fold (settle_one eid node) rulings d"

text \<open>How \<open>record_lane\<close> and \<open>preempt\<close> both end a lane they have taken.\<close>

definition end_lane :: "u64 \<Rightarrow> str \<Rightarrow> (nat \<times> ruling) list \<Rightarrow> deliveries \<Rightarrow> deliveries" where
  "end_lane eid node rulings d =
     (let d1 = settle_lane eid node rulings d;
          d2 = d1\<lparr> d_in_flight := end_delivery node (d_in_flight d1) \<rparr>
      in start_next node (finish eid d2))"

definition record_lane :: "u64 \<Rightarrow> str \<Rightarrow> (nat \<times> ruling) list \<Rightarrow> deliveries \<Rightarrow> deliveries" where
  "record_lane eid node rulings d =
     (case take_lane eid node d of (None, _) \<Rightarrow> d | (Some _, d') \<Rightarrow> end_lane eid node rulings d')"

section \<open>Preempting\<close>

definition each_lane :: "deliveries \<Rightarrow> (u64 \<times> str \<times> lane) list" where
  "each_lane d = concat (map (\<lambda>(eid, os). map (\<lambda>(node, l). (eid, node, l)) (os_lanes os)) (d_outstanding d))"

definition offering_to :: "deliveries \<Rightarrow> str \<Rightarrow> lane \<Rightarrow> bool" where
  "offering_to d node l \<longleftrightarrow>
     (case offering (l_progress (d_runs d (ln_at l))) of None \<Rightarrow> False | Some (n, _) \<Rightarrow> n = node)"

text \<open>The withdrawer of the offer taken back, where one is held: the conversation's own step.\<close>

definition withdraw_offer :: "lane_run \<Rightarrow> lane_run" where
  "withdraw_offer l =
     (if withdrawer (l_progress l) \<and> l_offer l = Some None then l\<lparr> l_offer := Some (Some Taken_Back) \<rparr> else l)"

definition reach_thread :: "str set \<Rightarrow> u64 \<Rightarrow> deliveries \<Rightarrow> u64 \<times> str \<times> lane \<Rightarrow> deliveries \<Rightarrow> deliveries" where
  "reach_thread cancelled by d entry e =
     (let (eid, node, l) = entry
      in if node \<notin> cancelled \<or> ln_waiting l \<noteq> None then e
         else e\<lparr> d_runs := (d_runs e)(ln_at l :=
                (if offering_to d node l then withdraw_offer (d_runs e (ln_at l))
                 else l_progress_update (mark_cancelled node by) (d_runs e (ln_at l)))) \<rparr>)"

definition preempted :: "str set \<Rightarrow> deliveries \<Rightarrow> (u64 \<times> str) list" where
  "preempted cancelled d =
     map (\<lambda>(eid, node, l). (eid, node))
       (filter (\<lambda>(eid, node, l). node \<in> cancelled \<and> (ln_waiting l \<noteq> None \<or> offering_to d node l)) (each_lane d))"

definition preempted_rulings :: "str \<Rightarrow> u64 \<Rightarrow> progress \<Rightarrow> nat list \<Rightarrow> (nat \<times> ruling) list" where
  "preempted_rulings node by p notes =
     map (\<lambda>(seat, index).
       (index, case bget (finished p) seat of
                 Some ops \<Rightarrow> Inr (Committed ops)
               | None \<Rightarrow> if seat \<in> withdrawn_at p then Inr Withdrawn else Inl (Preempted_Note node by)))
     (enumerate 0 notes)"

definition preempt_one :: "u64 \<Rightarrow> u64 \<times> str \<Rightarrow> deliveries \<Rightarrow> deliveries" where
  "preempt_one by entry d =
     (let (eid, node) = entry
      in case take_lane eid node d of
        (None, _) \<Rightarrow> d
      | (Some l, d') \<Rightarrow>
          (let r = d_runs d' (ln_at l);
               d1 = d'\<lparr> d_runs := (d_runs d')(ln_at l := r\<lparr> l_progress := (l_progress r)\<lparr> finished := [] \<rparr> \<rparr>) \<rparr>
           in end_lane eid node (preempted_rulings node by (l_progress r) (ln_notes l)) d1))"

definition preempt :: "str set \<Rightarrow> u64 \<Rightarrow> deliveries \<Rightarrow> deliveries" where
  "preempt cancelled by d =
     fold (preempt_one by) (preempted cancelled d) (fold (reach_thread cancelled by d) (each_lane d) d)"

section \<open>Executions\<close>

inductive deliveries_step :: "deliveries \<Rightarrow> deliveries \<Rightarrow> bool" where
  handed:
    "notes \<noteq> [] \<Longrightarrow> \<forall>j \<in> fst ` set (d_outstanding d) \<union> (fst \<circ> snd) ` set (d_started d). j < eid \<Longrightarrow>
     deliveries_step d (hand eid commands notes answers d)"
| recorded: "deliveries_step d (record_lane eid node rulings d)"
| preempting: "deliveries_step d (preempt cancelled by d)"
| thread: "lane_step (d_runs d seat) l \<Longrightarrow> deliveries_step d (d\<lparr> d_runs := (d_runs d)(seat := l) \<rparr>)"

section \<open>The lanes of one receiver\<close>

fun lanes_in :: "str \<Rightarrow> (u64, outstanding) omap \<Rightarrow> (u64, lane) omap" where
  "lanes_in node [] = []"
| "lanes_in node ((eid, os) # m) =
     (case bget (os_lanes os) node of None \<Rightarrow> lanes_in node m | Some l \<Rightarrow> (eid, l) # lanes_in node m)"

definition lanes_to :: "str \<Rightarrow> deliveries \<Rightarrow> (u64, lane) omap" where
  "lanes_to node d = lanes_in node (d_outstanding d)"

abbreviation lane_waits :: "u64 \<times> lane \<Rightarrow> bool" where
  "lane_waits e \<equiv> ln_waiting (snd e) \<noteq> None"

definition served_in_order :: "(u64 \<times> lane) list \<Rightarrow> bool" where
  "served_in_order ls \<longleftrightarrow> (case ls of [] \<Rightarrow> True | x # xs \<Rightarrow> \<not> lane_waits x \<and> (\<forall>y \<in> set xs. lane_waits y))"

definition only_first_started :: "(u64 \<times> lane) list \<Rightarrow> bool" where
  "only_first_started ls \<longleftrightarrow> (\<forall>y \<in> set (tl ls). lane_waits y)"

definition shaped :: "deliveries \<Rightarrow> bool" where
  "shaped d \<longleftrightarrow> bmap_ok (d_outstanding d) \<and> (\<forall>(eid, os) \<in> set (d_outstanding d). bmap_ok (os_lanes os))"

definition counted_in :: "deliveries \<Rightarrow> bool" where
  "counted_in d \<longleftrightarrow> (\<forall>node. bget (d_in_flight d) node =
     (if lanes_to node d = [] then None else Some (length (lanes_to node d))))"

lemma lanes_to_outstanding:
  "d_outstanding d = d_outstanding e \<Longrightarrow> lanes_to node d = lanes_to node e"
  by (simp add: lanes_to_def)

lemma lanes_in_keys: "fst ` set (lanes_in node m) \<subseteq> fst ` set m"
  by (induction node m rule: lanes_in.induct) (auto split: option.splits)

lemma lanes_in_omap:
  assumes "bmap_ok m"
  shows "bmap_ok (lanes_in node m)"
    "bget (lanes_in node m) j = (case bget m j of None \<Rightarrow> None | Some os \<Rightarrow> bget (os_lanes os) node)"
proof -
  have "bmap_ok (lanes_in node m) \<and>
    bget (lanes_in node m) j = (case bget m j of None \<Rightarrow> None | Some os \<Rightarrow> bget (os_lanes os) node)"
    using assms
  proof (induction node m rule: lanes_in.induct)
    case (2 node eid os m)
    have "bget m eid = None" using 2(3) by (auto simp: bget_dom)
    moreover have "\<forall>k \<in> fst ` set (lanes_in node m). eid < k"
    proof
      fix k assume "k \<in> fst ` set (lanes_in node m)"
      then have "k \<in> fst ` set m" by (rule subsetD [OF lanes_in_keys])
      with 2(3) show "eid < k" by auto
    qed
    ultimately show ?case using 2 by (auto split: option.splits)
  qed simp
  then show "bmap_ok (lanes_in node m)"
    "bget (lanes_in node m) j = (case bget m j of None \<Rightarrow> None | Some os \<Rightarrow> bget (os_lanes os) node)" by blast+
qed

lemma lanes_get:
  assumes "shaped d"
  shows "bmap_ok (lanes_to node d)"
    "bget (lanes_to node d) eid =
      (case bget (d_outstanding d) eid of None \<Rightarrow> None | Some os \<Rightarrow> bget (os_lanes os) node)"
  using assms lanes_in_omap [of "d_outstanding d"] unfolding lanes_to_def shaped_def by simp_all

lemma lanes_eqI:
  assumes "shaped d" "bmap_ok m"
    "\<And>eid. (case bget (d_outstanding d) eid of None \<Rightarrow> None | Some os \<Rightarrow> bget (os_lanes os) node) = bget m eid"
  shows "lanes_to node d = m"
  using assms by (intro bmap_eqI) (simp_all add: lanes_get)

lemma shaped_lanes: "shaped d \<Longrightarrow> bget (d_outstanding d) eid = Some os \<Longrightarrow> bmap_ok (os_lanes os)"
  by (auto simp: shaped_def dest: bget_Some_in)

lemma set_bput_subset: "set (bput k v m) \<subseteq> insert (k, v) (set m)"
proof (induction m)
  case (Cons e m)
  then show ?case by (cases e) (auto split: if_splits)
qed simp

lemma set_bdel_subset: "set (bdel k m) \<subseteq> set m"
  by (auto simp: bdel_def)

lemma shaped_put [simp]:
  assumes "shaped d" "bmap_ok (os_lanes os)"
  shows "shaped (d\<lparr> d_outstanding := bput eid os (d_outstanding d) \<rparr>)"
  using assms set_bput_subset [of eid os "d_outstanding d"] by (auto simp: shaped_def)

lemma shaped_del [simp]: "shaped d \<Longrightarrow> shaped (d\<lparr> d_outstanding := bdel eid (d_outstanding d) \<rparr>)"
  using set_bdel_subset [of eid "d_outstanding d"] by (auto simp: shaped_def)

lemma shaped_others [simp]:
  "shaped (d\<lparr> d_recorded := r \<rparr>) = shaped d" "shaped (d\<lparr> d_in_flight := m \<rparr>) = shaped d"
  "shaped (d\<lparr> d_runs := f \<rparr>) = shaped d" "shaped (d\<lparr> d_started := s \<rparr>) = shaped d"
  "shaped (d\<lparr> d_next := n \<rparr>) = shaped d"
  by (simp_all add: shaped_def)

section \<open>What each operation does to the lanes\<close>

lemma take_lane_lanes:
  assumes "shaped d" "take_lane eid node d = (found, d')"
  shows "shaped d'" "lanes_to k d' = (if k = node then bdel eid (lanes_to k d) else lanes_to k d)"
    "found = bget (lanes_to node d) eid"
proof -
  show sh: "shaped d'"
    using assms by (auto simp: take_lane_def shaped_lanes split: option.splits)
  show "lanes_to k d' = (if k = node then bdel eid (lanes_to k d) else lanes_to k d)"
    using assms by (intro lanes_eqI [OF sh])
      (auto simp: lanes_get take_lane_def split: option.splits)
  show "found = bget (lanes_to node d) eid"
    using assms by (auto simp: lanes_get take_lane_def split: option.splits)
qed

lemma settle_one_lanes:
  assumes "shaped d"
  shows "shaped (settle_one eid node e d)" "lanes_to k (settle_one eid node e d) = lanes_to k d"
    "d_in_flight (settle_one eid node e d) = d_in_flight d" "d_started (settle_one eid node e d) = d_started d"
    "d_runs (settle_one eid node e d) = d_runs d" "d_next (settle_one eid node e d) = d_next d"
    "fst ` set (d_outstanding (settle_one eid node e d)) = fst ` set (d_outstanding d)"
proof -
  show sh: "shaped (settle_one eid node e d)"
    using assms by (auto simp: settle_one_def Let_def shaped_lanes split: prod.splits option.splits)
  show "lanes_to k (settle_one eid node e d) = lanes_to k d"
    using assms by (intro lanes_eqI [OF sh])
      (auto simp: lanes_get settle_one_def Let_def split: prod.splits option.splits)
qed (auto simp: settle_one_def Let_def insert_absorb dest: bget_Some_in split: prod.splits option.splits
    intro: rev_image_eqI)

lemma settle_lane_lanes:
  assumes "shaped d"
  shows "shaped (settle_lane eid node rs d)" "lanes_to k (settle_lane eid node rs d) = lanes_to k d"
    "d_in_flight (settle_lane eid node rs d) = d_in_flight d" "d_started (settle_lane eid node rs d) = d_started d"
    "d_runs (settle_lane eid node rs d) = d_runs d"
    "fst ` set (d_outstanding (settle_lane eid node rs d)) = fst ` set (d_outstanding d)"
proof -
  have "shaped (settle_lane eid node rs d) \<and> lanes_to k (settle_lane eid node rs d) = lanes_to k d \<and>
    d_in_flight (settle_lane eid node rs d) = d_in_flight d \<and> d_started (settle_lane eid node rs d) = d_started d \<and>
    d_runs (settle_lane eid node rs d) = d_runs d \<and>
    fst ` set (d_outstanding (settle_lane eid node rs d)) = fst ` set (d_outstanding d)"
    using assms unfolding settle_lane_def
  proof (induction rs arbitrary: d)
    case (Cons r rs)
    note s = settle_one_lanes [OF Cons.prems, where eid = eid and node = node and e = r]
    show ?case using Cons.IH [OF s(1)] s by simp
  qed simp
  then show "shaped (settle_lane eid node rs d)" "lanes_to k (settle_lane eid node rs d) = lanes_to k d"
    "d_in_flight (settle_lane eid node rs d) = d_in_flight d" "d_started (settle_lane eid node rs d) = d_started d"
    "d_runs (settle_lane eid node rs d) = d_runs d"
    "fst ` set (d_outstanding (settle_lane eid node rs d)) = fst ` set (d_outstanding d)" by blast+
qed

lemma finish_lanes:
  assumes "shaped d"
  shows "shaped (finish eid d)" "lanes_to k (finish eid d) = lanes_to k d"
    "d_in_flight (finish eid d) = d_in_flight d" "d_started (finish eid d) = d_started d"
    "d_runs (finish eid d) = d_runs d" "fst ` set (d_outstanding (finish eid d)) \<subseteq> fst ` set (d_outstanding d)"
proof -
  show sh: "shaped (finish eid d)"
    using assms by (auto simp: finish_def split: option.splits)
  show "lanes_to k (finish eid d) = lanes_to k d"
    using assms by (intro lanes_eqI [OF sh]) (auto simp: lanes_get finish_def split: option.splits)
qed (auto simp: finish_def bdel_def split: option.splits)

lemma bput_head [simp]: "bput k v ((k, w) # m) = (k, v) # m"
  by simp

lemma lanes_in_started:
  "list_ex (\<lambda>(_, os). started_to node os) m \<longleftrightarrow> (\<exists>e \<in> set (lanes_in node m). \<not> lane_waits e)"
  by (induction node m rule: lanes_in.induct) (simp_all add: started_to_def split: option.split)

lemma lanes_started:
  "list_ex (\<lambda>(_, os). started_to node os) (d_outstanding d) \<longleftrightarrow> (\<exists>e \<in> set (lanes_to node d). \<not> lane_waits e)"
  unfolding lanes_to_def by (rule lanes_in_started)

lemma lanes_in_waiting:
  "\<forall>e \<in> set (lanes_in node m). lane_waits e \<Longrightarrow> lanes_in node m = (eid, l) # ls \<Longrightarrow>
   \<exists>os. find (\<lambda>(_, os). waiting_to node os) m = Some (eid, os) \<and> bget (os_lanes os) node = Some l"
  by (induction node m rule: lanes_in.induct) (auto simp: waiting_to_def split: option.splits)

lemma first_waiting:
  "\<forall>e \<in> set (lanes_to node d). lane_waits e \<Longrightarrow> lanes_to node d = (eid, l) # ls \<Longrightarrow>
   \<exists>os. find (\<lambda>(_, os). waiting_to node os) (d_outstanding d) = Some (eid, os) \<and>
     bget (os_lanes os) node = Some l"
  unfolding lanes_to_def by (rule lanes_in_waiting)

lemma lanes_in_idle: "lanes_in node m = [] \<Longrightarrow> find (\<lambda>(_, os). waiting_to node os) m = None"
  by (induction node m rule: lanes_in.induct) (auto simp: waiting_to_def split: option.splits)

definition started_lane :: "lane \<Rightarrow> lane" where
  "started_lane l = l\<lparr> ln_waiting := None \<rparr>"

lemma start_next_busy: "\<exists>e \<in> set (lanes_to node d). \<not> lane_waits e \<Longrightarrow> start_next node d = d"
  by (simp add: start_next_def lanes_started)

lemma start_next_idle: "lanes_to node d = [] \<Longrightarrow> start_next node d = d"
  by (simp add: start_next_def lanes_to_def lanes_in_idle)

lemma start_next_up:
  assumes "shaped d" "\<forall>e \<in> set (lanes_to node d). lane_waits e" "lanes_to node d = (eid, l) # ls"
  obtains os where "bget (d_outstanding d) eid = Some os" "bget (os_lanes os) node = Some l"
    "start_next node d = d\<lparr>
       d_outstanding := bput eid (os\<lparr> os_lanes := bput node (started_lane l) (os_lanes os) \<rparr>) (d_outstanding d),
       d_started := d_started d @ [(ln_at l, eid, node)] \<rparr>"
proof -
  obtain os where os: "find (\<lambda>(_, os). waiting_to node os) (d_outstanding d) = Some (eid, os)"
      "bget (os_lanes os) node = Some l"
    using first_waiting [OF assms(2,3)] by blast
  have "(eid, os) \<in> set (d_outstanding d)" using os(1) by (auto simp: find_Some_iff) (metis nth_mem)
  then have "bget (d_outstanding d) eid = Some os"
    using assms(1) by (intro bmap_ok_in_bget) (simp_all add: shaped_def)
  moreover have "\<not> list_ex (\<lambda>(_, os). started_to node os) (d_outstanding d)"
    using assms(2) by (simp add: lanes_started)
  ultimately show ?thesis
    using os by (intro that [of os]) (simp_all add: start_next_def started_lane_def)
qed

lemma start_next_cases:
  assumes "shaped d"
  obtains (same) "start_next node d = d" "lanes_to node d = [] \<or> (\<exists>e \<in> set (lanes_to node d). \<not> lane_waits e)"
  | (up) eid l ls os where "lanes_to node d = (eid, l) # ls" "\<forall>e \<in> set (lanes_to node d). lane_waits e"
      "bget (d_outstanding d) eid = Some os" "bget (os_lanes os) node = Some l"
      "start_next node d = d\<lparr>
       d_outstanding := bput eid (os\<lparr> os_lanes := bput node (started_lane l) (os_lanes os) \<rparr>) (d_outstanding d),
       d_started := d_started d @ [(ln_at l, eid, node)] \<rparr>"
proof (cases "lanes_to node d = [] \<or> (\<exists>e \<in> set (lanes_to node d). \<not> lane_waits e)")
  case True
  then show ?thesis by (intro same) (auto intro: start_next_busy start_next_idle)
next
  case False
  then obtain eid l ls where "lanes_to node d = (eid, l) # ls" "\<forall>e \<in> set (lanes_to node d). lane_waits e"
    by (cases "lanes_to node d") auto
  with start_next_up [OF assms this(2,1)] up show ?thesis by metis
qed

lemma start_next_lanes:
  assumes "shaped d"
  shows "shaped (start_next node d)" "k \<noteq> node \<Longrightarrow> lanes_to k (start_next node d) = lanes_to k d"
    "d_in_flight (start_next node d) = d_in_flight d" "d_runs (start_next node d) = d_runs d"
    "fst ` set (d_outstanding (start_next node d)) = fst ` set (d_outstanding d)"
    "\<forall>e \<in> set (lanes_to node d). lane_waits e \<Longrightarrow> lanes_to node d = (eid, l) # ls \<Longrightarrow>
       lanes_to node (start_next node d) = (eid, started_lane l) # ls \<and>
       d_started (start_next node d) = d_started d @ [(ln_at l, eid, node)]"
proof -
  show sh: "shaped (start_next node d)"
    by (rule start_next_cases [OF assms, of node]) (use assms in \<open>simp_all add: shaped_lanes\<close>)
  show "lanes_to k (start_next node d) = lanes_to k d" if "k \<noteq> node"
    using assms
  proof (cases rule: start_next_cases [of d node])
    case up
    with assms that show ?thesis by (intro lanes_eqI [OF sh]) (auto simp: lanes_get)
  qed simp_all
  show "d_in_flight (start_next node d) = d_in_flight d" "d_runs (start_next node d) = d_runs d"
    by (rule start_next_cases [OF assms, of node]; simp)+
  show "fst ` set (d_outstanding (start_next node d)) = fst ` set (d_outstanding d)"
    using assms
  proof (cases rule: start_next_cases [of d node])
    case (up eid l ls os)
    have "eid \<in> fst ` set (d_outstanding d)" using bget_Some_in [OF up(3)] by force
    then show ?thesis by (simp add: up(5) insert_absorb)
  qed simp_all
  assume ls: "\<forall>e \<in> set (lanes_to node d). lane_waits e" "lanes_to node d = (eid, l) # ls"
  then obtain os where os: "bget (d_outstanding d) eid = Some os" "bget (os_lanes os) node = Some l"
    "start_next node d = d\<lparr>
       d_outstanding := bput eid (os\<lparr> os_lanes := bput node (started_lane l) (os_lanes os) \<rparr>) (d_outstanding d),
       d_started := d_started d @ [(ln_at l, eid, node)] \<rparr>"
    by (rule start_next_up [OF assms])
  have "lanes_to node (start_next node d) = bput eid (started_lane l) (lanes_to node d)"
    using assms os by (intro lanes_eqI [OF sh]) (auto simp: lanes_get)
  with os ls(2) show
    "lanes_to node (start_next node d) = (eid, started_lane l) # ls \<and>
       d_started (start_next node d) = d_started d @ [(ln_at l, eid, node)]" by simp
qed

section \<open>Receivers are served in order\<close>

definition starts_to :: "str \<Rightarrow> deliveries \<Rightarrow> u64 list" where
  "starts_to node d = map (\<lambda>(_, eid, _). eid) (filter (\<lambda>(_, _, n). n = node) (d_started d))"

definition started_before :: "u64 list \<Rightarrow> (u64, lane) omap \<Rightarrow> bool" where
  "started_before ss ls \<longleftrightarrow> sorted_wrt (<) ss \<and>
     (\<forall>e \<in> set ls. if lane_waits e then \<forall>s \<in> set ss. s < fst e else fst e \<in> set ss)"

definition orderly :: "deliveries \<Rightarrow> bool" where
  "orderly d \<longleftrightarrow> shaped d \<and> counted_in d \<and>
     (\<forall>node. served_in_order (lanes_to node d) \<and> started_before (starts_to node d) (lanes_to node d))"

text \<open>What is left of a receiver's lanes once one of them is taken out.\<close>

lemma served_after_take:
  assumes "served_in_order ls" "bmap_ok ls"
  shows "bdel eid ls = [] \<or> (\<exists>e \<in> set (bdel eid ls). \<not> lane_waits e) \<and> served_in_order (bdel eid ls) \<or>
    (\<forall>e \<in> set (bdel eid ls). lane_waits e)"
  using assms
proof (cases ls)
  case (Cons e rest)
  obtain k l where e: "e = (k, l)" by (cases e)
  show ?thesis
  proof (cases "k = eid")
    case True
    then have "\<forall>x \<in> set (bdel eid ls). lane_waits x"
      using assms(1) by (auto simp: Cons e served_in_order_def bdel_def)
    then show ?thesis by blast
  next
    case False
    then have "bdel eid ls = e # bdel eid rest" by (simp add: Cons e bdel_def)
    with assms(1) show ?thesis by (auto simp: Cons served_in_order_def bdel_def)
  qed
qed (simp add: bdel_def)

lemma started_before_bdel: "started_before ss ls \<Longrightarrow> started_before ss (bdel eid ls)"
  by (auto simp: started_before_def bdel_def)

lemma started_before_next:
  assumes "started_before ss ((eid, l) # ls)" "bmap_ok ((eid, l) # ls)" "\<forall>e \<in> set ((eid, l) # ls). lane_waits e"
  shows "started_before (ss @ [eid]) ((eid, started_lane l) # ls)"
  using assms by (auto simp: started_before_def started_lane_def sorted_wrt_append)

lemma start_next_starts: "k \<noteq> node \<Longrightarrow> shaped d \<Longrightarrow> starts_to k (start_next node d) = starts_to k d"
  by (rule start_next_cases [of d node]) (auto simp: starts_to_def)

lemma counted_length: "bmap_ok ls \<Longrightarrow> bget ls eid \<noteq> None \<Longrightarrow> length (bdel eid ls) = length ls - 1"
proof (induction ls)
  case (Cons e ls)
  obtain k l where e: "e = (k, l)" by (cases e)
  show ?case
  proof (cases "k = eid")
    case True
    with Cons.prems have "\<forall>x \<in> set ls. fst x \<noteq> eid" by (auto simp: e)
    then show ?thesis by (simp add: e True bdel_def)
  next
    case False
    with Cons have "length (bdel eid ls) = length ls - 1" "ls \<noteq> []" by (auto simp: e)
    with False show ?thesis by (cases ls) (simp_all add: e bdel_def)
  qed
qed simp

lemma end_lane_orderly:
  assumes "orderly d" "take_lane eid node d = (Some l, d')"
  shows "orderly (end_lane eid node rs (d'\<lparr> d_runs := f \<rparr>))"
proof -
  have sh: "shaped d" and counted: "counted_in d"
    and fine: "\<And>k. served_in_order (lanes_to k d) \<and> started_before (starts_to k d) (lanes_to k d)"
    using assms(1) by (auto simp: orderly_def)
  note taken = take_lane_lanes [OF sh assms(2)]
  let ?e = "d'\<lparr> d_runs := f \<rparr>"
  have e: "shaped ?e" "\<And>k. lanes_to k ?e = lanes_to k d'" "d_in_flight ?e = d_in_flight d" "d_started ?e = d_started d"
    using assms(2) taken(1) by (auto simp: lanes_to_def take_lane_def split: option.splits)
  define a where "a = settle_lane eid node rs ?e"
  note a = settle_lane_lanes [OF e(1), where eid = eid and node = node and rs = rs, folded a_def]
  define b where "b = a\<lparr> d_in_flight := end_delivery node (d_in_flight a) \<rparr>"
  have b: "shaped b" "\<And>k. lanes_to k b = lanes_to k a" "d_started b = d_started a"
    using a(1) by (simp_all add: b_def lanes_to_def)
  define c where "c = finish eid b"
  note c = finish_lanes [OF b(1), where eid = eid, folded c_def]
  have lanes: "lanes_to k c = (if k = node then bdel eid (lanes_to k d) else lanes_to k d)" for k
    using a(2) b(2) c(2) e(2) taken(2) by simp
  have starts: "starts_to k c = starts_to k d" for k
    using a(4) b(3) c(4) e(4) by (simp add: starts_to_def)
  have flight: "d_in_flight c = end_delivery node (d_in_flight d)"
    using a(3) c(3) e(3) by (simp add: b_def)
  let ?r = "start_next node c"
  note r = start_next_lanes [OF c(1), where node = node]
  have other: "lanes_to k ?r = lanes_to k d" "starts_to k ?r = starts_to k d" if "k \<noteq> node" for k
    using that r(2) [OF that] lanes starts start_next_starts [OF that c(1)] by simp_all
  have ok: "bmap_ok (lanes_to node c)" by (rule lanes_get(1) [OF c(1)])
  have here: "served_in_order (lanes_to node ?r) \<and> started_before (starts_to node ?r) (lanes_to node ?r) \<and>
      length (lanes_to node ?r) = length (lanes_to node c)"
  proof -
    from served_after_take [OF conjunct1 [OF fine [of node]] lanes_get(1) [OF sh], of eid]
    consider "lanes_to node c = []" | "\<exists>e \<in> set (lanes_to node c). \<not> lane_waits e" "served_in_order (lanes_to node c)"
      | "lanes_to node c \<noteq> []" "\<forall>e \<in> set (lanes_to node c). lane_waits e" by (auto simp: lanes)
    then show ?thesis
    proof cases
      case 1
      with start_next_idle [OF 1] fine [of node] show ?thesis
        by (auto simp: served_in_order_def started_before_def starts)
    next
      case 2
      with start_next_busy [OF 2(1)] started_before_bdel fine [of node] show ?thesis
        by (simp add: starts lanes)
    next
      case 3
      then obtain i m ls where ls: "lanes_to node c = (i, m) # ls" by (cases "lanes_to node c") auto
      have up: "lanes_to node ?r = (i, started_lane m) # ls" "starts_to node ?r = starts_to node c @ [i]"
        using r(6) [OF 3(2) ls] by (simp_all add: starts_to_def)
      have "started_before (starts_to node c) (lanes_to node c)"
        using started_before_bdel fine [of node] by (simp add: starts lanes)
      from started_before_next [OF this [unfolded ls] ok [unfolded ls] 3(2) [unfolded ls]]
      show ?thesis using 3(2) by (simp add: up ls served_in_order_def started_lane_def)
    qed
  qed
  have found: "bget (lanes_to node d) eid = Some l" using taken(3) by simp
  then have some: "length (lanes_to node c) = length (lanes_to node d) - 1" "lanes_to node d \<noteq> []"
    using counted_length [OF lanes_get(1) [OF sh, of node], of eid] by (auto simp: lanes)
  have "bget (d_in_flight d) node = Some (length (lanes_to node d))"
    using counted some(2) by (simp add: counted_in_def)
  then have flew: "bget (end_delivery node (d_in_flight d)) k =
      (if lanes_to k ?r = [] then None else Some (length (lanes_to k ?r)))" for k
    using counted here some other(1) [of k]
    by (cases "k = node") (auto simp: end_delivery_def counted_in_def split: option.splits)
  have "orderly ?r"
    unfolding orderly_def counted_in_def
    using r(1) here other fine flew by (metis (no_types, lifting) r(3) flight)
  then show ?thesis by (simp add: end_lane_def Let_def a_def b_def c_def)
qed

lemma bput_last: "\<forall>j \<in> fst ` set m. j < k \<Longrightarrow> bput k v m = m @ [(k, v)]"
  by (induction m) auto

lemma receiving_lanes: "receiving d node \<longleftrightarrow> lanes_to node d \<noteq> []"
proof -
  have "list_ex (\<lambda>(_, os). bget (os_lanes os) node \<noteq> None) m \<longleftrightarrow> lanes_in node m \<noteq> []" for m
    by (induction node m rule: lanes_in.induct) (auto split: option.split)
  then show ?thesis by (simp add: receiving_def lanes_to_def)
qed

definition new_lane :: "deliveries \<Rightarrow> str \<Rightarrow> (nat \<times> validated_note) list \<Rightarrow> nat \<Rightarrow> lane" where
  "new_lane d node notes seat = \<lparr> ln_at = seat, ln_notes = map fst notes,
     ln_waiting = (if receiving d node then Some notes else None) \<rparr>"

lemma open_lanes:
  assumes "distinct (map fst rs)" "fold (open_lane eid) rs (d, ls) = (d', ls')"
  shows "d_outstanding d' = d_outstanding d" "bmap_ok ls \<Longrightarrow> bmap_ok ls'"
    "case map_of rs node of None \<Rightarrow> bget ls' node = bget ls node
     | Some notes \<Rightarrow> \<exists>seat. bget ls' node = Some (new_lane d node notes seat)"
    "bget (d_in_flight d') node = (if map_of rs node = None then bget (d_in_flight d) node
       else Some (case bget (d_in_flight d) node of None \<Rightarrow> 1 | Some n \<Rightarrow> Suc n))"
    "starts_to node d' = starts_to node d @
       (if map_of rs node \<noteq> None \<and> lanes_to node d = [] then [eid] else [])"
proof -
  have "d_outstanding d' = d_outstanding d \<and> (bmap_ok ls \<longrightarrow> bmap_ok ls') \<and>
    (case map_of rs node of None \<Rightarrow> bget ls' node = bget ls node
     | Some notes \<Rightarrow> \<exists>seat. bget ls' node = Some (new_lane d node notes seat)) \<and>
    bget (d_in_flight d') node = (if map_of rs node = None then bget (d_in_flight d) node
       else Some (case bget (d_in_flight d) node of None \<Rightarrow> 1 | Some n \<Rightarrow> Suc n)) \<and>
    starts_to node d' = starts_to node d @
       (if map_of rs node \<noteq> None \<and> lanes_to node d = [] then [eid] else [])"
    using assms
  proof (induction rs arbitrary: d ls)
    case (Cons e rs)
    obtain k ns where e: "e = (k, ns)" by (cases e)
    obtain d1 ls1 where one: "open_lane eid e (d, ls) = (d1, ls1)" by (cases "open_lane eid e (d, ls)")
    have same: "d_outstanding d1 = d_outstanding d"
      "d_in_flight d1 = begin_delivery k (d_in_flight d)"
      "starts_to node d1 = starts_to node d @ (if node = k \<and> \<not> receiving d k then [eid] else [])"
      "ls1 = bput k (new_lane d k ns (d_next d)) ls"
      using one by (auto simp: e open_lane_def Let_def starts_to_def new_lane_def)
    have lanes: "lanes_to n d1 = lanes_to n d" for n using same(1) by (simp add: lanes_to_def)
    then have new: "new_lane d1 = new_lane d"
      by (simp add: fun_eq_iff new_lane_def receiving_lanes)
    have none: "map_of rs k = None" using Cons.prems(1) by (simp add: e map_of_eq_None_iff)
    have "fold (open_lane eid) rs (d1, ls1) = (d', ls')" "distinct (map fst rs)"
      using Cons.prems one by (simp_all add: e)
    from Cons.IH [OF this(2,1)] show ?case
      using same lanes none
      by (cases "node = k") (auto simp: e new begin_delivery_def receiving_lanes split: option.splits)
  qed (auto simp: starts_to_def)
  then show "d_outstanding d' = d_outstanding d" "bmap_ok ls \<Longrightarrow> bmap_ok ls'"
    "case map_of rs node of None \<Rightarrow> bget ls' node = bget ls node
     | Some notes \<Rightarrow> \<exists>seat. bget ls' node = Some (new_lane d node notes seat)"
    "bget (d_in_flight d') node = (if map_of rs node = None then bget (d_in_flight d) node
       else Some (case bget (d_in_flight d) node of None \<Rightarrow> 1 | Some n \<Rightarrow> Suc n))"
    "starts_to node d' = starts_to node d @
       (if map_of rs node \<noteq> None \<and> lanes_to node d = [] then [eid] else [])" by blast+
qed

lemma by_receiver_ok: "bmap_ok (by_receiver notes)"
proof -
  have "bmap_ok m \<Longrightarrow> bmap_ok (fold (\<lambda>(i, v) m. bput (v_node v)
       ((case bget m (v_node v) of None \<Rightarrow> [] | Some held \<Rightarrow> held) @ [(i, v)]) m) ns m)" for ns m
    by (induction ns arbitrary: m) auto
  from this [of "[]" "notes"] show ?thesis by (simp add: by_receiver_def)
qed

lemma starts_in_started: "s \<in> set (starts_to node d) \<Longrightarrow> s \<in> (fst \<circ> snd) ` set (d_started d)"
  by (force simp: starts_to_def)

lemma hand_orderly:
  assumes "orderly d" "\<forall>j \<in> fst ` set (d_outstanding d) \<union> (fst \<circ> snd) ` set (d_started d). j < eid"
  shows "orderly (hand eid commands notes answers d)"
proof -
  obtain d1 ls where f: "fold (open_lane eid) (by_receiver notes) (d, []) = (d1, ls)" by force
  have dist: "distinct (map fst (by_receiver notes))" by (rule bmap_ok_distinct [OF by_receiver_ok])
  note o = open_lanes [OF dist f]
  define os where "os = \<lparr> os_commands = commands, os_answers = answers, os_lanes = ls \<rparr>"
  let ?h = "hand eid commands notes answers d"
  have h: "?h = d1\<lparr> d_outstanding := bput eid os (d_outstanding d1) \<rparr>"
    by (simp add: hand_def f os_def)
  have sh: "shaped d" "counted_in d"
    and fine: "\<And>k. served_in_order (lanes_to k d) \<and> started_before (starts_to k d) (lanes_to k d)"
    using assms(1) by (auto simp: orderly_def)
  have "shaped d1" using sh(1) o(1) by (simp add: shaped_def)
  then have sh': "shaped ?h" using o(2) by (simp add: h os_def)
  have fresh: "bget (d_outstanding d) eid = None" using assms(2) by (force simp: bget_dom)
  have keys: "\<forall>j \<in> fst ` set (lanes_to k d). j < eid" for k
    unfolding lanes_to_def using assms(2) subsetD [OF lanes_in_keys [of k "d_outstanding d"]] by blast
  have lanes: "lanes_to k ?h = lanes_to k d @ (case bget ls k of None \<Rightarrow> [] | Some l \<Rightarrow> [(eid, l)])" for k
  proof (rule lanes_eqI [OF sh'])
    show "bmap_ok (lanes_to k d @ (case bget ls k of None \<Rightarrow> [] | Some l \<Rightarrow> [(eid, l)]))"
      using lanes_get(1) [OF sh(1), of k] keys [of k]
      by (auto simp: bput_last [symmetric] split: option.split)
    show "(case bget (d_outstanding ?h) j of None \<Rightarrow> None | Some os \<Rightarrow> bget (os_lanes os) k) =
        bget (lanes_to k d @ (case bget ls k of None \<Rightarrow> [] | Some l \<Rightarrow> [(eid, l)])) j" for j
      using lanes_get(2) [OF sh(1), of k] keys [of k] fresh o(1)
      by (auto simp: h os_def map_add_def split: option.splits)
  qed
  have whole: "served_in_order (lanes_to k ?h) \<and> started_before (starts_to k ?h) (lanes_to k ?h) \<and>
      bget (d_in_flight ?h) k = (if lanes_to k ?h = [] then None else Some (length (lanes_to k ?h)))" for k
  proof (cases "map_of (by_receiver notes) k")
    case None
    with o(3) [of k] lanes [of k] have "lanes_to k ?h = lanes_to k d" by simp
    moreover have "starts_to k ?h = starts_to k d" using o(5) [of k] None by (simp add: h starts_to_def)
    moreover have "bget (d_in_flight ?h) k = bget (d_in_flight d) k" using o(4) [of k] None by (simp add: h)
    ultimately show ?thesis using fine [of k] sh(2) by (simp add: counted_in_def)
  next
    case (Some ns)
    with o(3) [of k] obtain seat where l: "bget ls k = Some (new_lane d k ns seat)" by auto
    have starts: "starts_to k ?h = starts_to k d @ (if lanes_to k d = [] then [eid] else [])"
      using o(5) [of k] Some by (simp add: h starts_to_def)
    have "\<forall>s \<in> set (starts_to k d). s < eid" using assms(2) starts_in_started [of _ k d] by blast
    moreover have "bget (d_in_flight ?h) k = Some (Suc (length (lanes_to k d)))"
      using o(4) [of k] Some sh(2) by (simp add: h counted_in_def split: if_splits)
    moreover have "served_in_order (lanes_to k ?h)"
      using fine [of k] by (cases "lanes_to k d") (auto simp: lanes l served_in_order_def new_lane_def receiving_lanes)
    moreover have "started_before (starts_to k ?h) (lanes_to k ?h)"
      using fine [of k] calculation(1)
      by (cases "lanes_to k d = []")
        (auto simp: lanes l starts started_before_def new_lane_def receiving_lanes sorted_wrt_append)
    ultimately show ?thesis by (simp add: lanes l)
  qed
  then show ?thesis using sh' by (simp add: orderly_def counted_in_def)
qed

lemma orderly_runs [simp]: "orderly (d\<lparr> d_runs := f \<rparr>) = orderly d"
  by (simp add: orderly_def counted_in_def lanes_to_def starts_to_def)

lemma record_lane_orderly: "orderly d \<Longrightarrow> orderly (record_lane eid node rs d)"
proof -
  assume d: "orderly d"
  obtain found d' where t: "take_lane eid node d = (found, d')" by force
  show ?thesis
  proof (cases found)
    case (Some l)
    with end_lane_orderly [OF d, of eid node l d' rs "d_runs d'"] t show ?thesis
      by (simp add: record_lane_def)
  qed (use d t in \<open>simp add: record_lane_def\<close>)
qed

lemma preempt_one_orderly: "orderly d \<Longrightarrow> orderly (preempt_one by entry d)"
proof -
  assume d: "orderly d"
  obtain eid node where e: "entry = (eid, node)" by (cases entry)
  obtain found d' where t: "take_lane eid node d = (found, d')" by force
  show ?thesis
  proof (cases found)
    case (Some l)
    with end_lane_orderly [OF d] t show ?thesis
      by (simp add: preempt_one_def e Let_def)
  qed (use d t in \<open>simp add: preempt_one_def e\<close>)
qed

interpretation preempting: preserving_fold "preempt_one by" orderly
  by unfold_locales (rule preempt_one_orderly)

interpretation reaching: preserving_fold "reach_thread cancelled by d" orderly
  by unfold_locales (simp add: reach_thread_def Let_def split: prod.split)

lemma preempt_orderly: "orderly d \<Longrightarrow> orderly (preempt cancelled by d)"
  unfolding preempt_def by (intro preempting.fold_inv reaching.fold_inv)

lemma deliveries_step_orderly: "deliveries_step d d' \<Longrightarrow> orderly d \<Longrightarrow> orderly d'"
  by (induction rule: deliveries_step.induct)
    (simp_all add: hand_orderly record_lane_orderly preempt_orderly del: comp_apply)

text \<open>
  C15. Over any handing over, answering and preempting of envelopes, and whatever the delivery
  threads do meanwhile: of the lanes to one receiver the oldest envelope's is the only one
  started, every later one waits behind it and none is left with nobody serving it; the
  threads to a receiver were started in envelope order; and a receiver counts as having a
  delivery in flight exactly while it has lanes, once for each.
\<close>

theorem receivers_are_served_in_order:
  assumes "deliveries_step\<^sup>*\<^sup>* no_deliveries d"
  shows "(\<forall>node. case lanes_to node d of
        [] \<Rightarrow> True
      | first # rest \<Rightarrow> ln_waiting (snd first) = None \<and> (\<forall>later \<in> set rest. ln_waiting (snd later) \<noteq> None)) \<and>
    (\<forall>node. sorted_wrt (<) (map fst (lanes_to node d)) \<and> sorted_wrt (<) (starts_to node d)) \<and>
    (\<forall>node. bget (d_in_flight d) node =
      (if lanes_to node d = [] then None else Some (length (lanes_to node d))))"
proof -
  have "orderly d"
    using assms
  proof (induction rule: rtranclp_induct)
    case base
    then show ?case
      by (simp add: orderly_def no_deliveries_def shaped_def counted_in_def lanes_to_def served_in_order_def
          starts_to_def started_before_def)
  next
    case (step d d')
    then show ?case by (blast intro: deliveries_step_orderly)
  qed
  then have fine: "shaped d" "counted_in d" "served_in_order (lanes_to k d)" "sorted_wrt (<) (starts_to k d)" for k
    by (auto simp: orderly_def started_before_def)
  have "case lanes_to k d of [] \<Rightarrow> True
      | first # rest \<Rightarrow> ln_waiting (snd first) = None \<and> (\<forall>later \<in> set rest. ln_waiting (snd later) \<noteq> None)" for k
    using fine(3) [of k] by (cases "lanes_to k d") (auto simp: served_in_order_def)
  then show ?thesis
    using lanes_get(1) [OF fine(1)] fine(2,4) unfolding counted_in_def bmap_ok_def by blast
qed

text \<open>Two envelopes with a note each to node \<open>a\<close>: the first being offered, the second waiting.\<close>

definition note_to_a :: "str \<Rightarrow> validated_note" where
  "note_to_a t = \<lparr> v_node = ''a'', v_addressee = ''worker'', v_text = t, v_criterion = None,
     v_reach = LiveOnly (Live True None), v_address = ''m1'', v_dispatchable = True \<rparr>"

definition two_handed :: deliveries where
  "two_handed = hand 1 1 [(0, note_to_a ''y'')] [None] (hand 0 1 [(0, note_to_a ''x'')] [None] no_deliveries)"

definition first_offered :: deliveries where
  "first_offered = two_handed\<lparr> d_runs := (d_runs two_handed)(0 :=
     (lane_start [note_to_a ''x''])\<lparr> l_progress := offering_now (note_to_a ''x'') 0 True no_progress,
       l_offer := Some None \<rparr>) \<rparr>"

lemmas handing_defs = hand_def by_receiver_def open_lane_def receiving_def begin_delivery_def no_deliveries_def
  Let_def note_to_a_def

lemmas preempting_defs = preempt_def preempt_one_def preempted_def reach_thread_def each_lane_def
  offering_to_def take_lane_def end_lane_def settle_lane_def settle_one_def start_next_def finish_def
  end_delivery_def started_to_def waiting_to_def preempted_rulings_def mark_cancelled_def
  withdraw_offer_def lane_start_def no_progress_def offering_now_def bdel_def enumerate_simps

lemma lane_step_eq: "lane_step l m \<Longrightarrow> l = l' \<Longrightarrow> m = m' \<Longrightarrow> lane_step l' m'"
  by simp

lemma two_handed_run: "d_runs two_handed 0 = lane_start [note_to_a ''x'']"
  by (simp add: two_handed_def handing_defs)

lemma two_handed_reached: "deliveries_step\<^sup>*\<^sup>* no_deliveries two_handed"
proof -
  have "deliveries_step no_deliveries (hand 0 1 [(0, note_to_a ''x'')] [None] no_deliveries)"
    by (rule deliveries_step.handed) (simp_all add: no_deliveries_def)
  moreover have "deliveries_step (hand 0 1 [(0, note_to_a ''x'')] [None] no_deliveries) two_handed"
    unfolding two_handed_def by (rule deliveries_step.handed) (simp_all add: handing_defs)
  ultimately show ?thesis by (meson converse_rtranclp_into_rtranclp rtranclp.rtrancl_refl)
qed

theorem receivers_are_served_in_order_witness:
  "map (\<lambda>(eid, l). (eid, ln_waiting l = None)) (lanes_to ''a'' two_handed) = [(0, True), (1, False)] \<and>
   sorted_wrt (<) (starts_to ''a'' two_handed)"
  using receivers_are_served_in_order [OF two_handed_reached]
  by (simp add: two_handed_def handing_defs lanes_to_def)

text \<open>
  A cancel of a node takes its lanes out one after the other, and ending the one being
  offered starts the next before that one is taken out in turn: the second envelope's note is
  answered refused, as preempted, while a thread with nothing marked in it has been started to
  offer it, and goes on to have it read by the cancelled node's conversation.
\<close>

lemma preempt_starts_what_it_refuses:
  "deliveries_step\<^sup>*\<^sup>* no_deliveries first_offered \<and>
   (let d = preempt {''a''} 2 first_offered
    in d_recorded d = [(0, 0, Inl (Preempted_Note ''a'' 2)), (1, 0, Inl (Preempted_Note ''a'' 2))] \<and>
       lanes_to ''a'' d = [] \<and> d_started d = [(0, 0, ''a''), (1, 1, ''a'')] \<and>
       (\<exists>l. lane_step\<^sup>*\<^sup>* (d_runs d 1) l \<and>
          l_rulings l = [Inr (Committed (recorded_note (note_to_a ''y'') Queued))] \<and>
          (\<forall>rs. record_lane 1 ''a'' rs (d\<lparr> d_runs := (d_runs d)(1 := l) \<rparr>)
             = d\<lparr> d_runs := (d_runs d)(1 := l) \<rparr>)))"
proof (rule conjI)
  have "lane_step (d_runs two_handed 0)
     ((lane_start [note_to_a ''x''])\<lparr> l_progress := offering_now (note_to_a ''x'') 0 True no_progress,
       l_offer := Some None \<rparr>)"
    using lane_step.offer [of "lane_start [note_to_a ''x'']" "note_to_a ''x''" None]
    by (simp add: two_handed_run lane_start_def next_note_def skipped_def no_progress_def)
  then have "deliveries_step two_handed first_offered"
    unfolding first_offered_def by (rule deliveries_step.thread)
  with two_handed_reached show "deliveries_step\<^sup>*\<^sup>* no_deliveries first_offered" by auto
  let ?d = "preempt {''a''} 2 first_offered"
  have d: "d_recorded ?d = [(0, 0, Inl (Preempted_Note ''a'' 2)), (1, 0, Inl (Preempted_Note ''a'' 2))]"
    "d_started ?d = [(0, 0, ''a''), (1, 1, ''a'')]" "d_outstanding ?d = []"
    "d_runs ?d 1 = lane_start [note_to_a ''y'']"
    by (simp_all add: first_offered_def two_handed_def handing_defs preempting_defs)
  let ?l = "(lane_start [note_to_a ''y''])\<lparr>
     l_progress := offer_over (note_to_a ''y'') 0 (Took Accepted_Queued)
       (offering_now (note_to_a ''y'') 0 True no_progress),
     l_rulings := [Inr (Committed (recorded_note (note_to_a ''y'') Queued))] \<rparr>"
  have open_y: "lane_step (lane_start [note_to_a ''y'']) ((lane_start [note_to_a ''y''])\<lparr>
      l_progress := offering_now (note_to_a ''y'') 0 True no_progress, l_offer := Some None \<rparr>)"
    using lane_step.offer [of "lane_start [note_to_a ''y'']" "note_to_a ''y''" None]
    by (simp add: lane_start_def next_note_def skipped_def no_progress_def)
  have taken: "lane_step ((lane_start [note_to_a ''y''])\<lparr>
      l_progress := offering_now (note_to_a ''y'') 0 True no_progress, l_offer := Some None \<rparr>)
     ((lane_start [note_to_a ''y''])\<lparr> l_progress := offering_now (note_to_a ''y'') 0 True no_progress,
      l_offer := Some (Some (Took Accepted_Queued)) \<rparr>)"
    by (rule lane_step_eq [OF lane_step.ends [where ans = "Took Accepted_Queued" and l = "(lane_start [note_to_a ''y''])\<lparr>
      l_progress := offering_now (note_to_a ''y'') 0 True no_progress, l_offer := Some None \<rparr>"]]) simp_all
  have ruled_y: "lane_step ((lane_start [note_to_a ''y''])\<lparr>
      l_progress := offering_now (note_to_a ''y'') 0 True no_progress,
      l_offer := Some (Some (Took Accepted_Queued)) \<rparr>) ?l"
    by (rule lane_step_eq [OF lane_step.rules [where ans = "Took Accepted_Queued" and l = "(lane_start [note_to_a ''y''])\<lparr>
      l_progress := offering_now (note_to_a ''y'') 0 True no_progress,
      l_offer := Some (Some (Took Accepted_Queued)) \<rparr>" and v = "note_to_a ''y''"]])
      (simp_all add: lane_start_def next_note_def ruled_def answer_manager_note_def)
  have "lane_step\<^sup>*\<^sup>* (d_runs ?d 1) ?l"
    unfolding d(4) using open_y taken ruled_y by (meson converse_rtranclp_into_rtranclp rtranclp.rtrancl_refl)
  then show "let d = ?d
    in d_recorded d = [(0, 0, Inl (Preempted_Note ''a'' 2)), (1, 0, Inl (Preempted_Note ''a'' 2))] \<and>
       lanes_to ''a'' d = [] \<and> d_started d = [(0, 0, ''a''), (1, 1, ''a'')] \<and>
       (\<exists>l. lane_step\<^sup>*\<^sup>* (d_runs d 1) l \<and>
          l_rulings l = [Inr (Committed (recorded_note (note_to_a ''y'') Queued))] \<and>
          (\<forall>rs. record_lane 1 ''a'' rs (d\<lparr> d_runs := (d_runs d)(1 := l) \<rparr>)
             = d\<lparr> d_runs := (d_runs d)(1 := l) \<rparr>))"
    unfolding Let_def using d(1-3)
    by (intro conjI exI [of _ ?l]) (simp_all add: lanes_to_def record_lane_def take_lane_def lane_start_def)
qed

end
