(* ===== verification/Envelope_Record.thy ===== *)
theory Envelope_Record
  imports Note_Lanes
begin

text \<open>
  How one envelope of commands is recorded and answered (\<open>record_delivered\<close>, \<open>hand_envelope\<close>,
  \<open>refused_envelope\<close> to \<open>partly_applied\<close> of \<open>src/src/engine.rs\<close>), and how a driver that finds one
  claimed and unanswered finishes it (\<open>answer_recovered\<close>, \<open>recover_queued\<close>). What the driver
  writes is a list of effects in the order it writes them, so a driver that dies has written
  some first part of the list. A sentence is its constructor; a refusal is what
  \<open>RecordedRefusal::of\<close> keeps of its error.
\<close>

section \<open>Answers\<close>

datatype (plugins only: code) recorded = R_Text str | R_Typed refusal

datatype verdict = V_Applied | V_Validated | V_Delivered | V_Refused | V_Queued

type_synonym named = "nat \<times> str"        \<comment> \<open>index and op of a command\<close>

datatype (plugins only: code) said =
    Said recorded
  | Read_And_Refused "named list"           \<comment> \<open>read, and these refused\<close>
  | Others_Refused "named list"             \<comment> \<open>validated, and these did not\<close>
  | Earlier_Note_Refused "named list"       \<comment> \<open>never offered; these committed\<close>
  | Had_No_Effect "named list"              \<comment> \<open>these refused as it was delivered\<close>
  | Withdrawn_By "u64 option" str
  | In_Part "named list" "named list" "named list" "said option"
      \<comment> \<open>committed, queued, refused, the first reason\<close>
  | Note_Was_Withdrawn u32 "u64 option" str

record command_result =
  cr_index :: nat
  cr_op :: str
  cr_outcome :: verdict
  cr_reason :: "said option"
  cr_refusal :: "refusal option"
  cr_turn :: "note_turn option"

record command_outcome =
  co_id :: u64
  co_applied :: bool
  co_reason :: "said option"
  co_results :: "command_result list"

fun refusal_of :: "recorded \<Rightarrow> refusal option" where
  "refusal_of (R_Text _) = None"
| "refusal_of (R_Typed r) = Some r"

definition named_commands :: "command list \<Rightarrow> (nat \<times> command) list" where
  "named_commands cs = enumerate 0 cs"

definition listed :: "('r \<Rightarrow> bool) \<Rightarrow> command list \<Rightarrow> 'r list \<Rightarrow> named list" where
  "listed which cs rs =
     map (\<lambda>((i, c), _). (i, op_of c)) (filter (\<lambda>(_, r). which r) (zip (enumerate 0 cs) rs))"

fun first_error :: "('e + 'a) list \<Rightarrow> 'e option" where
  "first_error [] = None"
| "first_error (Inl e # _) = Some e"
| "first_error (Inr _ # rs) = first_error rs"

definition refused_envelope :: "u64 \<Rightarrow> command list \<Rightarrow> (recorded + verdict) list \<Rightarrow> command_outcome" where
  "refused_envelope eid cs evaluated =
     (let refused = listed isl cs evaluated
      in \<lparr> co_id = eid, co_applied = False, co_reason = map_option Said (first_error evaluated),
           co_results = map (\<lambda>((i, c), ruling).
             (case ruling of
                Inr v \<Rightarrow> \<lparr> cr_index = i, cr_op = op_of c, cr_outcome = v,
                    cr_reason = Some (if v = V_Delivered then Read_And_Refused refused else Others_Refused refused),
                    cr_refusal = None, cr_turn = None \<rparr>
              | Inl e \<Rightarrow> \<lparr> cr_index = i, cr_op = op_of c, cr_outcome = V_Refused, cr_reason = Some (Said e),
                    cr_refusal = refusal_of e, cr_turn = None \<rparr>))
             (zip (enumerate 0 cs) evaluated) \<rparr>)"

text \<open>\<open>Unapplied for Delivery\<close>: what is said of a command of a refused envelope.\<close>

definition unapplied_as :: "delivered \<Rightarrow> verdict" where
  "unapplied_as d =
     (if list_ex (\<lambda>op. case op of NoteDelivered _ _ _ _ how _ _ _ _ \<Rightarrow> a_conversation_read_it how | _ \<Rightarrow> False)
           (committed_ops d)
      then V_Delivered else V_Validated)"

definition applied_result :: "nat \<Rightarrow> command \<Rightarrow> note_turn option \<Rightarrow> command_result" where
  "applied_result i c t = \<lparr> cr_index = i, cr_op = op_of c, cr_outcome = V_Applied, cr_reason = None,
     cr_refusal = None, cr_turn = t \<rparr>"

definition applied_envelope :: "u64 \<Rightarrow> command list \<Rightarrow> note_turn option list \<Rightarrow> command_outcome" where
  "applied_envelope eid cs turns =
     \<lparr> co_id = eid, co_applied = True, co_reason = None,
       co_results = map (\<lambda>(i, c). applied_result i c (if i < length turns then turns ! i else None))
         (enumerate 0 cs) \<rparr>"

text \<open>\<open>withdrawn_live\<close> is the sentence a note withdrawn before any turn took it is refused with.\<close>

definition withdrawn_live :: str where
  "withdrawn_live = ''withdrawn by a `withdraw-note` before any turn took it''"

fun is_committed :: "'e answer \<Rightarrow> bool" where
  "is_committed (Ans_Committed _) = True"
| "is_committed _ = False"

fun is_queued :: "'e answer \<Rightarrow> bool" where
  "is_queued Ans_Queued = True"
| "is_queued _ = False"

fun refused_as :: "recorded answer \<Rightarrow> said option" where
  "refused_as (Ans_Refused e) = Some (Said e)"
| "refused_as Ans_Withdrawn = Some (Said (R_Text withdrawn_live))"
| "refused_as _ = None"

definition part_result ::
    "named list \<Rightarrow> named list \<Rightarrow> nat \<Rightarrow> command \<Rightarrow> recorded answer \<Rightarrow> command_result" where
  "part_result committed refused i c a =
     (let result = (\<lambda>v why r t. \<lparr> cr_index = i, cr_op = op_of c, cr_outcome = v, cr_reason = why,
                                   cr_refusal = r, cr_turn = t \<rparr>)
      in case a of
        Ans_Committed t \<Rightarrow> result V_Applied None None t
      | Ans_Queued \<Rightarrow> result V_Queued None None None
      | Ans_Refused e \<Rightarrow> result V_Refused (Some (Said e)) (refusal_of e) None
      | Ans_Withdrawn \<Rightarrow> result V_Refused (Some (Said (R_Text withdrawn_live))) None None
      | Ans_NotAttempted \<Rightarrow> result V_Validated (Some (Earlier_Note_Refused committed)) None None
      | Ans_Unapplied \<Rightarrow> result V_Validated (Some (Had_No_Effect refused)) None None)"

fun first_some :: "('a \<Rightarrow> 'b option) \<Rightarrow> 'a list \<Rightarrow> 'b option" where
  "first_some f [] = None"
| "first_some f (x # xs) = (case f x of None \<Rightarrow> first_some f xs | Some y \<Rightarrow> Some y)"

definition partly_applied :: "u64 \<Rightarrow> command list \<Rightarrow> recorded answer list \<Rightarrow> command_outcome" where
  "partly_applied eid cs answers =
     (let committed = listed is_committed cs answers; queued = listed is_queued cs answers;
          refused = listed (\<lambda>a. refused_as a \<noteq> None) cs answers
      in \<lparr> co_id = eid, co_applied = False,
           co_reason = Some (In_Part committed queued refused (first_some refused_as answers)),
           co_results = map (\<lambda>((i, c), a). part_result committed refused i c a)
             (zip (enumerate 0 cs) answers) \<rparr>)"

definition answered_envelope :: "u64 \<Rightarrow> command list \<Rightarrow> recorded answer option list \<Rightarrow> command_outcome" where
  "answered_envelope eid cs answers =
     (let answered = map (\<lambda>i. if i < length answers
                              then (case answers ! i of Some a \<Rightarrow> a | None \<Rightarrow> Ans_NotAttempted)
                              else Ans_NotAttempted) [0..<length cs];
          took = (\<lambda>a. is_committed a \<or> is_queued a)
      in if list_all took answered
         then (let outcome = applied_envelope eid cs []
               in outcome\<lparr> co_results := map (\<lambda>(r, a).
                    (case a of Ans_Committed t \<Rightarrow> r\<lparr> cr_turn := t \<rparr>
                     | Ans_Queued \<Rightarrow> r\<lparr> cr_outcome := V_Queued \<rparr> | _ \<Rightarrow> r))
                    (zip (co_results outcome) answered) \<rparr>)
         else if \<not> list_ex took answered
         then refused_envelope eid cs (map (\<lambda>a. case a of Ans_Refused e \<Rightarrow> Inl e
                | Ans_Withdrawn \<Rightarrow> Inl (R_Text withdrawn_live) | _ \<Rightarrow> Inr V_Validated) answered)
         else partly_applied eid cs answered)"

section \<open>The run's files\<close>

text \<open>
  What the source reads back of a run: its journal, the committing files that parse, the
  envelopes sent to it and the answers given. \<open>J_Rejected\<close> holds the position \<open>record_rejection\<close>
  was given, where it was given one.
\<close>

datatype course = Course_Delivered | Course_Refused_Keeping_Withdrawals

record committing =
  cm_envelope :: u64
  cm_operations :: "operation list option list"
  cm_course :: course

datatype (plugins only: code) journalled =
    J_Edit u64 command "operation list"         \<comment> \<open>\<open>edit-committed\<close> or \<open>command-accepted\<close>\<close>
  | J_Rejected "(u64 \<times> nat) option" command recorded
  | J_Shown "u64 option"

record run_files =
  rf_journal :: "journalled list"
  rf_committing :: "(u64, committing) omap"
  rf_sent :: "u64 \<Rightarrow> command list option"
  rf_outcomes :: "command_outcome list"

definition journalled_as_edit :: "operation list \<Rightarrow> bool" where
  "journalled_as_edit ops = list_ex commits_a_change ops"

definition outcome_for :: "run_files \<Rightarrow> u64 \<Rightarrow> command_outcome option" where
  "outcome_for rf eid = find (\<lambda>o'. co_id o' = eid) (rev (rf_outcomes rf))"

section \<open>Withdrawals\<close>

text \<open>\<open>withdrawal::readable\<close>: the operations of every committed edit, with its envelope.\<close>

fun readable_ops :: "journalled list \<Rightarrow> (u64 \<times> operation) list" where
  "readable_ops [] = []"
| "readable_ops (J_Edit by _ ops # js) =
     (if journalled_as_edit ops then map (Pair by) ops else []) @ readable_ops js"
| "readable_ops (_ # js) = readable_ops js"

fun withdraws_from :: "u64 \<Rightarrow> operation \<Rightarrow> u32 option" where
  "withdraws_from eid (NoteWithdrawn _ named at _ _ _ _) = (if named = eid then Some at else None)"
| "withdraws_from eid _ = None"

definition withdrawn_from_record :: "journalled list \<Rightarrow> u64 \<Rightarrow> nat set" where
  "withdrawn_from_record js eid =
     set (List.map_filter (\<lambda>(_, op). map_option unat (withdraws_from eid op)) (readable_ops js))"

text \<open>\<open>str::parse::<u64>\<close>.\<close>

fun parse_digits :: "nat \<Rightarrow> str \<Rightarrow> nat option" where
  "parse_digits n [] = Some n"
| "parse_digits n (c # s) =
     (let d = of_char c :: nat in if 48 \<le> d \<and> d \<le> 57 then parse_digits (10 * n + (d - 48)) s else None)"

definition parse_u64 :: "str \<Rightarrow> u64 option" where
  "parse_u64 s =
     (let body = (case s of c # rest \<Rightarrow> if c = CHR ''+'' then rest else s | [] \<Rightarrow> [])
      in if body = [] then None
         else case parse_digits 0 body of
                Some n \<Rightarrow> if n < 2 ^ 64 then Some (of_nat n) else None
              | None \<Rightarrow> None)"

definition withdraws_as_written :: "command \<Rightarrow> operation \<Rightarrow> bool" where
  "withdraws_as_written c op =
     (case (c, op) of
        (Cmd_WithdrawNote named at _, NoteWithdrawn _ envelope index _ _ _ _) \<Rightarrow>
          index = at \<and> parse_u64 (trim named) = Some envelope
      | _ \<Rightarrow> False)"

fun is_a_kept_withdrawal :: "operation list \<Rightarrow> bool" where
  "is_a_kept_withdrawal [NoteWithdrawn _ _ _ _ From_Live _ _] = True"
| "is_a_kept_withdrawal _ = False"

definition read_committing :: "run_files \<Rightarrow> u64 \<Rightarrow> command list \<Rightarrow> committing option" where
  "read_committing rf eid cs =
     (case bget (rf_committing rf) eid of
        None \<Rightarrow> None
      | Some written \<Rightarrow>
          if cm_course written = Course_Refused_Keeping_Withdrawals \<and>
             \<not> list_all (\<lambda>(c, ops). case ops of None \<Rightarrow> True
                  | Some ops \<Rightarrow> is_a_kept_withdrawal ops \<and> list_all (withdraws_as_written c) ops)
                (zip cs (cm_operations written))
          then None
          else if cm_envelope written = eid \<and> length (cm_operations written) = length cs
          then Some written else None)"

definition written_down_withdrawals :: "run_files \<Rightarrow> u64 \<Rightarrow> nat set" where
  "written_down_withdrawals rf eid =
     set (concat (map (\<lambda>by.
       (case rf_sent rf by of
          None \<Rightarrow> []
        | Some cs \<Rightarrow>
            (case read_committing rf by cs of
               None \<Rightarrow> []
             | Some written \<Rightarrow>
                 concat (map (\<lambda>(c, ops). List.map_filter (\<lambda>op.
                     if withdraws_as_written c op then map_option unat (withdraws_from eid op) else None)
                   (case ops of None \<Rightarrow> [] | Some ops \<Rightarrow> ops))
                 (zip cs (cm_operations written))))))
     (map fst (rf_committing rf))))"

fun is_note :: "command \<Rightarrow> bool" where
  "is_note (Cmd_Note _ _ _ _ _ _ _) = True"
| "is_note _ = False"

definition withdrawn_notes :: "run_files \<Rightarrow> u64 \<Rightarrow> command list \<Rightarrow> nat set" where
  "withdrawn_notes rf eid cs =
     (if list_ex is_note cs
      then withdrawn_from_record (rf_journal rf) eid \<union> written_down_withdrawals rf eid else {})"

definition refuse_withdrawn :: "u32 \<Rightarrow> str \<Rightarrow> u64 option \<Rightarrow> command_outcome \<Rightarrow> command_outcome" where
  "refuse_withdrawn index reason by oc =
     (if length (co_results oc) \<le> unat index then oc
      else oc\<lparr> co_applied := False, co_reason := Some (Note_Was_Withdrawn index by reason),
               co_results := (co_results oc)[unat index := (co_results oc ! unat index)\<lparr>
                 cr_outcome := V_Refused, cr_reason := Some (Withdrawn_By by reason), cr_refusal := None,
                 cr_turn := None \<rparr>] \<rparr>)"

fun as_withdrawn_by :: "u64 \<times> operation \<Rightarrow> command_outcome \<Rightarrow> command_outcome" where
  "as_withdrawn_by (by, NoteWithdrawn _ envelope index reason _ _ _) oc =
     (if envelope = co_id oc then refuse_withdrawn index reason (Some by) oc else oc)"
| "as_withdrawn_by _ oc = oc"

definition as_withdrawn :: "journalled list \<Rightarrow> command_outcome \<Rightarrow> command_outcome" where
  "as_withdrawn js oc = fold as_withdrawn_by (readable_ops js) oc"

section \<open>Effects\<close>

text \<open>
  \<open>Answer_Withdrawal\<close> is \<open>withdrawal::answer_withdrawn\<close>: the answer already given to the
  envelope whose note was withdrawn, rewritten, where one was given. \<open>Answer True\<close> reads the
  record for withdrawals first.
\<close>

datatype (plugins only: code) effect =
    Write_Committing u64 committing
  | Journal journalled
  | Answer_Withdrawal u64 u32 str u64          \<comment> \<open>envelope, index, reason, the withdrawing envelope\<close>
  | Answer bool command_outcome

fun apply_effect :: "effect \<Rightarrow> run_files \<Rightarrow> run_files" where
  "apply_effect (Write_Committing eid c) rf = rf\<lparr> rf_committing := bput eid c (rf_committing rf) \<rparr>"
| "apply_effect (Journal j) rf = rf\<lparr> rf_journal := rf_journal rf @ [j] \<rparr>"
| "apply_effect (Answer_Withdrawal eid index reason by) rf =
     (case outcome_for rf eid of
        None \<Rightarrow> rf
      | Some oc \<Rightarrow> if length (co_results oc) \<le> unat index then rf
                   else rf\<lparr> rf_outcomes := rf_outcomes rf @ [refuse_withdrawn index reason (Some by) oc] \<rparr>)"
| "apply_effect (Answer through oc) rf =
     rf\<lparr> rf_outcomes := rf_outcomes rf @ [if through then as_withdrawn (rf_journal rf) oc else oc] \<rparr>"

fun withdrawal_answers :: "u64 \<Rightarrow> operation list \<Rightarrow> effect list" where
  "withdrawal_answers by [] = []"
| "withdrawal_answers by (NoteWithdrawn _ envelope index reason _ _ _ # ops) =
     Answer_Withdrawal envelope index reason by # withdrawal_answers by ops"
| "withdrawal_answers by (_ # ops) = withdrawal_answers by ops"

definition commit_command :: "u64 \<Rightarrow> command \<Rightarrow> operation list \<Rightarrow> effect list" where
  "commit_command eid c ops = Journal (J_Edit eid c ops) # withdrawal_answers eid ops"

definition record_rejection :: "command \<Rightarrow> recorded \<Rightarrow> (u64 \<times> nat) option \<Rightarrow> effect list" where
  "record_rejection c e at = [Journal (J_Rejected at c e)]"

definition answer_through_withdrawals :: "command list \<Rightarrow> command_outcome \<Rightarrow> effect" where
  "answer_through_withdrawals cs oc = Answer (list_ex is_note cs) oc"

definition from_envelope :: "u64 \<Rightarrow> nat \<Rightarrow> operation list \<Rightarrow> operation list" where
  "from_envelope eid index ops =
     map (\<lambda>op. case op of
        NoteDelivered node who t bound how shown routed _ _ \<Rightarrow>
          NoteDelivered node who t bound how shown routed (Some eid)
            (if index < 2 ^ 32 then Some (of_nat index) else None)
      | _ \<Rightarrow> op) ops"

section \<open>Recording an envelope\<close>

type_synonym ruled = "recorded + delivered"

definition refused_keeping_withdrawals :: "u64 \<Rightarrow> command list \<Rightarrow> ruled list \<Rightarrow> effect list" where
  "refused_keeping_withdrawals eid cs evaluated =
     (let kept = list_ex (\<lambda>r. case r of Inr (TakenBack _) \<Rightarrow> True | _ \<Rightarrow> False) evaluated;
          answers = map (\<lambda>r. case r of Inl e \<Rightarrow> Ans_Refused e | Inr (TakenBack _) \<Rightarrow> Ans_Committed None
                                    | Inr _ \<Rightarrow> Ans_Unapplied) evaluated
      in (if kept \<and> 1 < length cs
          then [Write_Committing eid \<lparr> cm_envelope = eid,
                  cm_operations = map (\<lambda>r. case r of Inr (TakenBack ops) \<Rightarrow> Some ops | _ \<Rightarrow> None) evaluated,
                  cm_course = Course_Refused_Keeping_Withdrawals \<rparr>] else [])
         @ concat (map (\<lambda>((i, c), r). case r of Inl e \<Rightarrow> record_rejection c e (Some (eid, i)) | Inr _ \<Rightarrow> [])
             (zip (enumerate 0 cs) evaluated))
         @ concat (map (\<lambda>(c, r). case r of Inr (TakenBack ops) \<Rightarrow> commit_command eid c ops | _ \<Rightarrow> [])
             (zip cs evaluated))
         @ [answer_through_withdrawals cs
              (if kept then partly_applied eid cs (take (length cs) answers)
               else refused_envelope eid cs (map (map_sum id unapplied_as) evaluated))])"

definition record_delivered :: "u64 \<Rightarrow> command list \<Rightarrow> ruled list \<Rightarrow> effect list" where
  "record_delivered eid cs evaluated =
     (if list_ex isl evaluated then refused_keeping_withdrawals eid cs evaluated
      else
        (let delivered = map projr evaluated;
             operations = map (\<lambda>(i, d). from_envelope eid i (committed_ops d)) (enumerate 0 delivered)
         in (if 1 < length cs
             then [Write_Committing eid \<lparr> cm_envelope = eid, cm_operations = map Some operations,
                     cm_course = Course_Delivered \<rparr>] else [])
            @ concat (map (\<lambda>(c, ops, d). if d = Withdrawn then [] else commit_command eid c ops)
                (zip cs (zip operations delivered)))
            @ [answer_through_withdrawals cs (applied_envelope eid cs (map turn_of operations))]))"

section \<open>Handing one over\<close>

text \<open>
  \<open>hand_envelope\<close> for an envelope with notes to deliver: \<open>None\<close> stands where a note is, and the
  lanes of \<open>Note_Lanes\<close> are opened with the answers that follow the effects.
\<close>

definition hand_effects ::
    "u64 \<Rightarrow> command list \<Rightarrow> ruled option list \<Rightarrow> effect list \<times> recorded answer option list" where
  "hand_effects eid cs rulings =
     (if list_ex (\<lambda>r. case r of Some (Inl _) \<Rightarrow> True | _ \<Rightarrow> False) rulings
      then (refused_keeping_withdrawals eid cs
              (map (\<lambda>r. case r of None \<Rightarrow> Inr NotAttempted | Some r \<Rightarrow> r) rulings), [])
      else
        (let operations = map (\<lambda>(i, r). case r of
               Some (Inr Withdrawn) \<Rightarrow> None
             | Some (Inr d) \<Rightarrow> Some (from_envelope eid i (committed_ops d))
             | _ \<Rightarrow> None) (enumerate 0 rulings);
             answers = map (\<lambda>(ops, r). case ops of
               Some ops \<Rightarrow> Some (Ans_Committed (turn_of ops))
             | None \<Rightarrow> (if r = Some (Inr Withdrawn) then Some Ans_Withdrawn else None)) (zip operations rulings);
             handed = map (\<lambda>(r, a). if r = None then Some Ans_Queued else a) (zip rulings answers)
         in (Write_Committing eid \<lparr> cm_envelope = eid, cm_operations = operations,
               cm_course = Course_Delivered \<rparr>
             # concat (map (\<lambda>(c, ops). case ops of None \<Rightarrow> [] | Some ops \<Rightarrow> commit_command eid c ops)
                 (zip cs operations))
             @ [answer_through_withdrawals cs (answered_envelope eid cs handed)],
             answers)))"

section \<open>Recovering\<close>

record effect_of =
  ef_committed :: "(command \<times> note_turn option) list"
  ef_rejected :: "(command \<times> recorded) list"

fun note_evidence :: "u64 \<Rightarrow> journalled \<Rightarrow> effect_of option \<Rightarrow> effect_of option" where
  "note_evidence eid (J_Edit by c ops) e =
     (if by \<noteq> eid then e
      else (let held = (case e of None \<Rightarrow> \<lparr> ef_committed = [], ef_rejected = [] \<rparr> | Some held \<Rightarrow> held)
            in Some (held\<lparr> ef_committed := ef_committed held
                 @ [(c, if journalled_as_edit ops then turn_of ops else None)] \<rparr>)))"
| "note_evidence eid (J_Rejected at c why) e =
     (case at of None \<Rightarrow> e
      | Some (by, _) \<Rightarrow> if by \<noteq> eid then e
          else (let held = (case e of None \<Rightarrow> \<lparr> ef_committed = [], ef_rejected = [] \<rparr> | Some held \<Rightarrow> held)
                in Some (held\<lparr> ef_rejected := ef_rejected held @ [(c, why)] \<rparr>)))"
| "note_evidence eid (J_Shown by) e =
     (if by \<noteq> Some eid then e
      else (case e of None \<Rightarrow> Some \<lparr> ef_committed = [], ef_rejected = [] \<rparr> | Some held \<Rightarrow> Some held))"

definition evidence_for :: "journalled list \<Rightarrow> u64 \<Rightarrow> effect_of option" where
  "evidence_for js eid = fold (note_evidence eid) js None"

text \<open>Taking the first record of a command out of a list of them.\<close>

fun take_record :: "command \<Rightarrow> (command \<times> 'b) list \<Rightarrow> ('b \<times> (command \<times> 'b) list) option" where
  "take_record c [] = None"
| "take_record c ((d, b) # rs) =
     (if d = c then Some (b, rs) else map_option (\<lambda>(x, rest). (x, (d, b) # rest)) (take_record c rs))"

fun matched ::
    "command list \<Rightarrow> (command \<times> note_turn option) list \<Rightarrow> (command \<times> recorded) list
       \<Rightarrow> recorded answer option list" where
  "matched [] _ _ = []"
| "matched (c # cs) committed rejected =
     (case take_record c committed of
        Some (t, rest) \<Rightarrow> Some (Ans_Committed t) # matched cs rest rejected
      | None \<Rightarrow>
          (case take_record c rejected of
             Some (e, rest) \<Rightarrow> Some (Ans_Refused e) # matched cs committed rest
           | None \<Rightarrow> None # matched cs committed rejected))"

fun refused_matched :: "command list \<Rightarrow> (command \<times> recorded) list \<Rightarrow> (recorded + verdict) list" where
  "refused_matched [] _ = []"
| "refused_matched (c # cs) rejections =
     (case take_record c rejections of
        Some (e, rest) \<Rightarrow> Inl e # refused_matched cs rest
      | None \<Rightarrow> Inr V_Validated # refused_matched cs rejections)"

definition refused_again :: "u64 \<Rightarrow> command list \<Rightarrow> (command \<times> recorded) list \<Rightarrow> command_outcome" where
  "refused_again eid cs rejections = refused_envelope eid cs (refused_matched cs rejections)"

text \<open>
  The loop over what is not recorded yet. \<open>unanswered_note\<close> is the sentence a note nobody can say
  was read is refused with; \<open>None\<close> is the envelope left unanswered (\<open>unrecovered\<close>), which raises
  a surface and writes nothing of it.
\<close>

definition unanswered_note :: "command \<Rightarrow> recorded" where
  "unanswered_note c =
     R_Text (''the driver delivering this live note to node '' @ (case c of Cmd_Note k _ _ _ _ _ _ \<Rightarrow> k | _ \<Rightarrow> [])
       @ '' exited before that node's conversation answered it'')"

fun recover_rest ::
    "u64 \<Rightarrow> course \<Rightarrow> nat set \<Rightarrow> (nat \<times> command \<times> operation list option \<times> recorded answer option) list
       \<Rightarrow> effect list \<times> recorded answer option list \<times> bool" where
  "recover_rest eid how gone [] = ([], [], True)"
| "recover_rest eid how gone ((i, c, ops, Some a) # rest) =
     (let (es, as, ok) = recover_rest eid how gone rest in (es, Some a # as, ok))"
| "recover_rest eid how gone ((i, c, ops, None) # rest) =
     (if is_note c \<and> i \<in> gone
      then (let (es, as, ok) = recover_rest eid how gone rest in (es, Some Ans_Withdrawn # as, ok))
      else if ops = None \<and> how = Course_Refused_Keeping_Withdrawals
      then (let (es, as, ok) = recover_rest eid how gone rest in (es, Some Ans_Unapplied # as, ok))
      else case ops of
        Some ops \<Rightarrow>
          (let (es, as, ok) = recover_rest eid how gone rest
           in (commit_command eid c ops @ es, Some (Ans_Committed (turn_of ops)) # as, ok))
      | None \<Rightarrow>
          if is_note c
          then (let (es, as, ok) = recover_rest eid how gone rest
                in (record_rejection c (unanswered_note c) (Some (eid, i)) @ es,
                    Some (Ans_Refused (unanswered_note c)) # as, ok))
          else ([], [], False))"

definition answer_recovered :: "run_files \<Rightarrow> u64 \<Rightarrow> command list \<Rightarrow> effect_of \<Rightarrow> effect list" where
  "answer_recovered rf eid cs effect =
     (let written = read_committing rf eid cs
      in if ef_committed effect = [] \<and> ef_rejected effect \<noteq> [] \<and> written = None
         then [Answer False (refused_again eid cs (ef_rejected effect))]
         else
           (let answers = matched cs (ef_committed effect) (ef_rejected effect)
            in if list_all (\<lambda>a. a \<noteq> None) answers
               then [Answer True (answered_envelope eid cs answers)]
               else case written of
                 None \<Rightarrow> []
               | Some w \<Rightarrow>
                   (let (es, as, ok) = recover_rest eid (cm_course w) (withdrawn_notes rf eid cs)
                          (map (\<lambda>((i, c), ops, a). (i, c, ops, a))
                             (zip (enumerate 0 cs) (zip (cm_operations w) answers)))
                    in if ok then es @ [Answer True (answered_envelope eid cs as)] else es)))"

text \<open>\<open>recover_queued\<close> for one committing file: the notes answered \<open>queued\<close> and never ruled on.\<close>

fun rule_queued :: "u64 \<Rightarrow> command list \<Rightarrow> nat set \<Rightarrow> nat list \<Rightarrow> command list \<Rightarrow> effect list" where
  "rule_queued eid cs gone [] recorded = []"
| "rule_queued eid cs gone (i # queued) recorded =
     (if length cs \<le> i \<or> \<not> is_note (cs ! i) then rule_queued eid cs gone queued recorded
      else if cs ! i \<in> set recorded then rule_queued eid cs gone queued (remove1 (cs ! i) recorded)
      else if i \<in> gone then rule_queued eid cs gone queued recorded
      else record_rejection (cs ! i) (unanswered_note (cs ! i)) (Some (eid, i))
             @ rule_queued eid cs gone queued recorded)"

definition recover_queued :: "run_files \<Rightarrow> u64 \<Rightarrow> effect list" where
  "recover_queued rf eid =
     (let queued = (case outcome_for rf eid of None \<Rightarrow> []
                    | Some oc \<Rightarrow> map cr_index (filter (\<lambda>r. cr_outcome r = V_Queued) (co_results oc)))
      in case rf_sent rf eid of
        None \<Rightarrow> []
      | Some cs \<Rightarrow>
          if queued = [] then []
          else (let e = (case evidence_for (rf_journal rf) eid of
                           None \<Rightarrow> \<lparr> ef_committed = [], ef_rejected = [] \<rparr> | Some e \<Rightarrow> e)
                in rule_queued eid cs (withdrawn_notes rf eid cs) queued
                     (map fst (ef_committed e) @ map fst (ef_rejected e))))"

section \<open>What a journal says of an envelope\<close>

lemma turn_journalled: "turn_of ops \<noteq> None \<Longrightarrow> journalled_as_edit ops"
  by (induction ops rule: turn_of.induct) (auto simp: journalled_as_edit_def split: option.splits)

lemma evidence_append:
  "evidence_for (js @ map (\<lambda>(c, ops). J_Edit eid c ops) xs) eid =
     (if xs = [] then evidence_for js eid
      else Some (let held = (case evidence_for js eid of None \<Rightarrow> \<lparr> ef_committed = [], ef_rejected = [] \<rparr> | Some h \<Rightarrow> h)
                 in held\<lparr> ef_committed := ef_committed held @ map (\<lambda>(c, ops). (c, turn_of ops)) xs \<rparr>))"
proof (induction xs rule: rev_induct)
  case (snoc x xs)
  obtain c ops where x: "x = (c, ops)" by (cases x)
  have "(if journalled_as_edit ops then turn_of ops else None) = turn_of ops"
    using turn_journalled [of ops] by (cases "turn_of ops") auto
  with snoc show ?case
    by (auto simp: evidence_for_def x Let_def split: option.splits)
qed simp

lemma take_record_head [simp]: "take_record c ((c, b) # rs) = Some (b, rs)"
  by simp

lemma matched_prefix:
  assumes "length ts = length cs"
  shows "matched cs (take m (zip cs ts)) [] =
    map (\<lambda>t. Some (Ans_Committed t)) (take m ts) @ replicate (length cs - m) None"
  using assms
proof (induction cs arbitrary: m ts)
  case (Cons c cs)
  then obtain t ts' where ts: "ts = t # ts'" "length ts' = length cs" by (cases ts) auto
  show ?case
  proof (cases m)
    case 0
    then show ?thesis using Cons.IH [OF ts(2), of 0] by simp
  next
    case (Suc j)
    then show ?thesis using Cons.IH [OF ts(2), of j] by (simp add: ts)
  qed
qed simp

lemma answered_all_committed:
  assumes "length ts = length cs"
  shows "answered_envelope eid cs (map (\<lambda>t. Some (Ans_Committed t)) ts) = applied_envelope eid cs ts"
proof -
  have "map (\<lambda>i. if i < length (map (\<lambda>t. Some (Ans_Committed t)) ts)
      then (case map (\<lambda>t. Some (Ans_Committed t)) ts ! i of Some a \<Rightarrow> a | None \<Rightarrow> Ans_NotAttempted)
      else (Ans_NotAttempted :: recorded answer)) [0..<length cs] = map Ans_Committed ts"
    using assms by (intro nth_equalityI) auto
  moreover have "map (\<lambda>(r, a). case a of Ans_Committed t \<Rightarrow> r\<lparr> cr_turn := t \<rparr> | Ans_Queued \<Rightarrow> r\<lparr> cr_outcome := V_Queued \<rparr>
        | _ \<Rightarrow> r) (zip (map (\<lambda>(i, c). applied_result i c None) (enumerate 0 cs)) (map (Ans_Committed :: _ \<Rightarrow> recorded answer) ts))
      = map (\<lambda>(i, c). applied_result i c (if i < length ts then ts ! i else None)) (enumerate 0 cs)"
    using assms by (intro nth_equalityI) (auto simp: applied_result_def nth_enumerate_eq)
  ultimately show ?thesis
    by (simp add: answered_envelope_def Let_def applied_envelope_def list_all_iff cong: map_cong)
qed

text \<open>What was recorded of a delivered envelope stands, and the rest of it is committed.\<close>

lemma recover_rest_prefix:
  assumes "length ops = length cs" "m \<le> length cs"
  shows "recover_rest eid how {} (map (\<lambda>((i, c), ops, a). (i, c, ops, a)) (zip (enumerate k cs) (zip (map Some ops)
       (map (\<lambda>t. Some (Ans_Committed t)) (take m (map turn_of ops)) @ replicate (length cs - m) None)))) =
     (concat (map (\<lambda>(c, ops). commit_command eid c ops) (drop m (zip cs ops))),
      map (\<lambda>t. Some (Ans_Committed t)) (map turn_of ops), True)"
  using assms
proof (induction cs arbitrary: ops m k)
  case (Cons c cs)
  then obtain o1 os where ops: "ops = o1 # os" "length os = length cs" by (cases ops) auto
  show ?case
  proof (cases m)
    case 0
    then show ?thesis using Cons.IH [OF ops(2), of 0 "Suc k"] by (simp add: ops)
  next
    case (Suc j)
    then show ?thesis using Cons.IH [OF ops(2), of j "Suc k"] Cons.prems by (simp add: ops)
  qed
qed simp

section \<open>Envelopes that withdraw nothing\<close>

fun is_withdrawal :: "operation \<Rightarrow> bool" where
  "is_withdrawal (NoteWithdrawn _ _ _ _ _ _ _) = True"
| "is_withdrawal _ = False"

definition withdraws_nothing :: "operation list \<Rightarrow> bool" where
  "withdraws_nothing ops \<longleftrightarrow> list_all (\<lambda>op. \<not> is_withdrawal op) ops"

lemma withdraws_none: "\<not> is_withdrawal op \<Longrightarrow> withdraws_from e op = None"
  by (cases op) auto

lemma withdraws_nothing_from: "withdraws_nothing ops \<Longrightarrow> withdraws_nothing (from_envelope eid i ops)"
  by (auto simp: withdraws_nothing_def from_envelope_def list_all_iff split: operation.splits)

lemma no_withdrawal_answers: "withdraws_nothing ops \<Longrightarrow> withdrawal_answers eid ops = []"
  by (induction eid ops rule: withdrawal_answers.induct) (auto simp: withdraws_nothing_def)

lemma commit_plain: "withdraws_nothing ops \<Longrightarrow> commit_command eid c ops = [Journal (J_Edit eid c ops)]"
  by (simp add: commit_command_def no_withdrawal_answers)

definition unwithdrawn :: "run_files \<Rightarrow> u64 \<Rightarrow> bool" where
  "unwithdrawn rf eid \<longleftrightarrow>
     (\<forall>(_, op) \<in> set (readable_ops (rf_journal rf)). withdraws_from eid op = None) \<and>
     (\<forall>by c. bget (rf_committing rf) by = Some c \<longrightarrow>
        (\<forall>op \<in> set (concat (List.map_filter id (cm_operations c))). withdraws_from eid op = None))"

lemma as_withdrawn_none:
  assumes "\<forall>(_, op) \<in> set (readable_ops js). withdraws_from (co_id oc) op = None"
  shows "as_withdrawn js oc = oc"
proof -
  have "fold as_withdrawn_by es oc = oc" if "\<forall>(_, op) \<in> set es. withdraws_from (co_id oc) op = None" for es
    using that
  proof (induction es)
    case (Cons e es)
    have "as_withdrawn_by e oc = oc"
      using Cons.prems by (cases "(e, oc)" rule: as_withdrawn_by.cases) (auto split: if_splits)
    with Cons show ?case by simp
  qed simp
  with assms show ?thesis by (simp add: as_withdrawn_def)
qed

lemma read_committing_Some: "read_committing rf eid cs = Some w \<Longrightarrow> bget (rf_committing rf) eid = Some w"
  by (auto simp: read_committing_def split: option.splits if_splits)

lemma written_down_in:
  assumes "i \<in> written_down_withdrawals rf eid"
  obtains j w op at where "bget (rf_committing rf) j = Some w"
    "op \<in> set (concat (List.map_filter id (cm_operations w)))" "withdraws_from eid op = Some at"
proof -
  from assms obtain j cs w c ops op where w: "read_committing rf j cs = Some w"
    and x: "(c, Some ops) \<in> set (zip cs (cm_operations w))" "op \<in> set ops"
      "map_option unat (withdraws_from eid op) = Some i"
    unfolding written_down_withdrawals_def
    by (auto simp: in_map_filter split: option.splits if_splits) metis
  have "Some ops \<in> set (cm_operations w)" using x(1) by (rule set_zip_rightD)
  then have "op \<in> set (concat (List.map_filter id (cm_operations w)))"
    using x(2) by (auto simp: in_map_filter)
  with that [OF read_committing_Some [OF w]] x(3) show ?thesis by auto
qed

lemma unwithdrawn_notes:
  assumes "unwithdrawn rf eid"
  shows "withdrawn_notes rf eid cs = {}" "co_id oc = eid \<Longrightarrow> as_withdrawn (rf_journal rf) oc = oc"
proof -
  have "i \<notin> withdrawn_from_record (rf_journal rf) eid" for i
    using assms by (auto simp: withdrawn_from_record_def unwithdrawn_def in_map_filter)
  then have "withdrawn_from_record (rf_journal rf) eid = {}" by blast
  moreover have "written_down_withdrawals rf eid = {}"
  proof -
    have "i \<notin> written_down_withdrawals rf eid" for i
    proof
      assume "i \<in> written_down_withdrawals rf eid"
      then obtain j w op at where "bget (rf_committing rf) j = Some w"
        "op \<in> set (concat (List.map_filter id (cm_operations w)))" "withdraws_from eid op = Some at"
        by (rule written_down_in)
      with assms show False unfolding unwithdrawn_def by (metis option.distinct(1))
    qed
    then show ?thesis by blast
  qed
  ultimately show "withdrawn_notes rf eid cs = {}" by (simp add: withdrawn_notes_def)
  show "as_withdrawn (rf_journal rf) oc = oc" if "co_id oc = eid"
    using assms that by (intro as_withdrawn_none) (auto simp: unwithdrawn_def)
qed

lemma readable_append: "readable_ops (js @ ks) = readable_ops js @ readable_ops ks"
  by (induction js rule: readable_ops.induct) auto

lemma readable_plain:
  assumes "\<forall>(c, ops) \<in> set xs. withdraws_nothing ops"
    "(by, op) \<in> set (readable_ops (map (\<lambda>(c, ops). J_Edit eid c ops) xs))"
  shows "withdraws_from e op = None"
  using assms
proof (induction xs)
  case (Cons x xs)
  obtain c ops where x: "x = (c, ops)" by (cases x)
  with Cons show ?case
    by (auto simp: withdraws_nothing_def list_all_iff withdraws_none split: if_splits)
qed simp

lemma unwithdrawn_journalled:
  assumes "unwithdrawn rf e" "\<forall>(c, ops) \<in> set xs. withdraws_nothing ops"
  shows "unwithdrawn (rf\<lparr> rf_journal := rf_journal rf @ map (\<lambda>(c, ops). J_Edit eid c ops) xs \<rparr>) e"
  using assms(1) readable_plain [OF assms(2)] unfolding unwithdrawn_def by (auto simp: readable_append)

lemma unwithdrawn_written:
  assumes "unwithdrawn rf e" "\<forall>ops \<in> set (List.map_filter id (cm_operations c)). withdraws_nothing ops"
  shows "unwithdrawn (rf\<lparr> rf_committing := bput eid c (rf_committing rf) \<rparr>) e"
  using assms unfolding unwithdrawn_def withdraws_nothing_def by (auto simp: list_all_iff withdraws_none)

section \<open>A driver that dies and the one after it\<close>

definition journals :: "u64 \<Rightarrow> (command \<times> operation list) list \<Rightarrow> effect list" where
  "journals eid xs = map (\<lambda>(c, ops). Journal (J_Edit eid c ops)) xs"

lemma apply_journals:
  "fold apply_effect (journals eid xs) rf =
     rf\<lparr> rf_journal := rf_journal rf @ map (\<lambda>(c, ops). J_Edit eid c ops) xs \<rparr>"
  by (induction xs arbitrary: rf) (auto simp: journals_def)

definition written_ops :: "u64 \<Rightarrow> delivered list \<Rightarrow> operation list list" where
  "written_ops eid ds = map (\<lambda>(i, d). from_envelope eid i (committed_ops d)) (enumerate 0 ds)"

definition committing_of :: "u64 \<Rightarrow> delivered list \<Rightarrow> committing" where
  "committing_of eid ds = \<lparr> cm_envelope = eid, cm_operations = map Some (written_ops eid ds),
     cm_course = Course_Delivered \<rparr>"

lemma length_written_ops [simp]: "length (written_ops eid ds) = length ds"
  by (simp add: written_ops_def)

lemma written_plain:
  assumes "list_all (\<lambda>d. withdraws_nothing (committed_ops d)) ds"
  shows "\<forall>ops \<in> set (written_ops eid ds). withdraws_nothing ops"
  using assms by (auto simp: written_ops_def list_all_iff in_set_enumerate_eq intro: withdraws_nothing_from)

lemma record_delivered_plain:
  assumes "length ds = length cs" "Withdrawn \<notin> set ds" "list_all (\<lambda>d. withdraws_nothing (committed_ops d)) ds"
  shows "record_delivered eid cs (map Inr ds) =
    (if 1 < length cs then [Write_Committing eid (committing_of eid ds)] else [])
    @ journals eid (zip cs (written_ops eid ds))
    @ [answer_through_withdrawals cs (applied_envelope eid cs (map turn_of (written_ops eid ds)))]"
proof -
  have "map projr (map Inr ds :: ruled list) = ds" by (simp add: comp_def)
  moreover have "concat (map (\<lambda>(c, ops, d). if d = Withdrawn then [] else commit_command eid c ops)
      (zip cs (zip (written_ops eid ds) ds))) = journals eid (zip cs (written_ops eid ds))"
  proof -
    have "concat (map (\<lambda>(c, ops, d). if d = Withdrawn then [] else commit_command eid c ops) (zip cs (zip ws ds)))
        = journals eid (zip cs ws)"
      if "length ws = length ds" "length ds = length cs" "Withdrawn \<notin> set ds" "\<forall>ops \<in> set ws. withdraws_nothing ops"
      for ws
      using that
    proof (induction cs arbitrary: ws ds)
      case (Cons c cs)
      then obtain w ws' d ds' where l: "ws = w # ws'" "ds = d # ds'" by (cases ws; cases ds) auto
      with Cons show ?case by (auto simp: journals_def commit_plain)
    qed (simp add: journals_def)
    from this [OF length_written_ops assms(1,2) written_plain [OF assms(3)]] show ?thesis .
  qed
  ultimately show ?thesis
    by (simp add: record_delivered_def list_ex_iff Let_def written_ops_def [symmetric] committing_of_def comp_def)
qed

text \<open>A run in which the envelope left no trace yet and nothing withdrew a note of it.\<close>

definition untouched :: "run_files \<Rightarrow> u64 \<Rightarrow> bool" where
  "untouched rf eid \<longleftrightarrow> evidence_for (rf_journal rf) eid = None \<and> unwithdrawn rf eid"

lemma read_committing_written:
  assumes "bget (rf_committing rf) eid = Some (committing_of eid ds)" "length ds = length cs"
  shows "read_committing rf eid cs = Some (committing_of eid ds)"
  using assms by (simp add: read_committing_def committing_of_def)

definition half_recorded :: "run_files \<Rightarrow> u64 \<Rightarrow> command list \<Rightarrow> delivered list \<Rightarrow> nat \<Rightarrow> run_files" where
  "half_recorded rf eid cs ds m =
     (let rf1 = (if 1 < length cs then apply_effect (Write_Committing eid (committing_of eid ds)) rf else rf)
      in rf1\<lparr> rf_journal := rf_journal rf1 @
           map (\<lambda>(c, ops). J_Edit eid c ops) (take m (zip cs (written_ops eid ds))) \<rparr>)"

lemma half_recorded_unwithdrawn:
  assumes "unwithdrawn rf eid" "list_all (\<lambda>d. withdraws_nothing (committed_ops d)) ds"
  shows "unwithdrawn (half_recorded rf eid cs ds m) eid"
proof -
  have "unwithdrawn (if 1 < length cs then apply_effect (Write_Committing eid (committing_of eid ds)) rf else rf) eid"
    using assms written_plain [OF assms(2), of eid]
    by (auto simp: committing_of_def in_map_filter intro!: unwithdrawn_written)
  moreover have "\<forall>(c, ops) \<in> set (take m (zip cs (written_ops eid ds))). withdraws_nothing ops"
    using written_plain [OF assms(2), of eid] by (auto dest!: in_set_takeD set_zip_rightD)
  ultimately show ?thesis unfolding half_recorded_def Let_def by (rule unwithdrawn_journalled)
qed

lemma half_recorded_evidence:
  assumes "untouched rf eid" "0 < m" "cs \<noteq> []" "length ds = length cs"
  shows "evidence_for (rf_journal (half_recorded rf eid cs ds m)) eid =
    Some \<lparr> ef_committed = take m (zip cs (map turn_of (written_ops eid ds))), ef_rejected = [] \<rparr>"
proof -
  have "rf_journal (half_recorded rf eid cs ds m) =
      rf_journal rf @ map (\<lambda>(c, ops). J_Edit eid c ops) (take m (zip cs (written_ops eid ds)))"
    by (simp add: half_recorded_def Let_def)
  moreover have "take m (zip cs (written_ops eid ds)) \<noteq> []"
    using assms(2-4) length_written_ops [of eid ds] by (cases cs; cases "written_ops eid ds") auto
  moreover have "map (\<lambda>(c, ops). (c, turn_of ops)) (take m (zip cs (written_ops eid ds))) =
      take m (zip cs (map turn_of (written_ops eid ds)))"
    by (simp add: zip_map2 take_map)
  ultimately show ?thesis
    using assms(1) by (simp add: evidence_append untouched_def)
qed

lemma recovery_from_half:
  assumes "untouched rf eid" "0 < m" "m \<le> length cs" "length ds = length cs"
    and "list_all (\<lambda>d. withdraws_nothing (committed_ops d)) ds"
  shows "answer_recovered (half_recorded rf eid cs ds m) eid cs
      \<lparr> ef_committed = take m (zip cs (map turn_of (written_ops eid ds))), ef_rejected = [] \<rparr> =
    journals eid (drop m (zip cs (written_ops eid ds)))
      @ [Answer True (applied_envelope eid cs (map turn_of (written_ops eid ds)))]"
proof -
  let ?s = "half_recorded rf eid cs ds m" and ?ops = "written_ops eid ds"
  let ?ts = "map turn_of ?ops"
  have len: "length ?ts = length cs" "length ?ops = length cs" using assms(4) by simp_all
  have unmatched: "matched cs (take m (zip cs ?ts)) [] =
      map (\<lambda>t. Some (Ans_Committed t)) (take m ?ts) @ replicate (length cs - m) None"
    by (rule matched_prefix [OF len(1)])
  have some: "cs \<noteq> []" using assms(2,3) by auto
  show ?thesis
  proof (cases "m = length cs")
    case True
    then show ?thesis
      using some len answered_all_committed [OF len(1), of eid] unmatched
      by (simp add: answer_recovered_def Let_def journals_def list_all_iff)
  next
    case False
    then have "1 < length cs" using assms(2,3) by simp
    then have "bget (rf_committing ?s) eid = Some (committing_of eid ds)"
      by (simp add: half_recorded_def Let_def)
    then have w: "read_committing ?s eid cs = Some (committing_of eid ds)"
      by (rule read_committing_written [OF _ assms(4)])
    have gone: "withdrawn_notes ?s eid cs = {}"
      using assms(1) half_recorded_unwithdrawn [OF _ assms(5)] by (intro unwithdrawn_notes) (auto simp: untouched_def)
    have plain: "concat (map (\<lambda>(c, ops). commit_command eid c ops) xs) = journals eid xs"
      if "\<forall>(c, ops) \<in> set xs. withdraws_nothing ops" for xs
      using that by (induction xs) (auto simp: journals_def commit_plain)
    have "\<forall>(c, ops) \<in> set (drop m (zip cs ?ops)). withdraws_nothing ops"
      using written_plain [OF assms(5), of eid] by (auto dest!: in_set_dropD set_zip_rightD)
    note rest = plain [OF this]
    have open_rest: "list_all (\<lambda>a. a \<noteq> None) (matched cs (take m (zip cs ?ts)) []) = False"
      using False assms(3) by (simp add: unmatched list_all_iff)
    have "?ops \<noteq> []" using some len(2) by (metis length_0_conv)
    then have not_none: "take m (zip cs ?ts) \<noteq> []" using some assms(2) by simp
    have rec: "recover_rest eid Course_Delivered {} (map (\<lambda>((i, c), ops, a). (i, c, ops, a))
        (zip (enumerate 0 cs) (zip (map Some ?ops) (matched cs (take m (zip cs ?ts)) [])))) =
        (journals eid (drop m (zip cs ?ops)), map (\<lambda>t. Some (Ans_Committed t)) ?ts, True)"
      unfolding unmatched
      by (subst recover_rest_prefix [OF len(2) assms(3)]) (simp add: rest)
    show ?thesis
      unfolding answer_recovered_def Let_def w gone
      using not_none open_rest rec
      by (simp add: committing_of_def answered_all_committed [OF len(1)] del: map_map)
  qed
qed

lemma answers_alike:
  assumes "unwithdrawn rf (co_id oc)"
  shows "apply_effect (Answer b oc) rf = rf\<lparr> rf_outcomes := rf_outcomes rf @ [oc] \<rparr>"
  using unwithdrawn_notes(2) [OF assms, of oc] by simp


text \<open>Two commands, the driver dying once the first is journalled.\<close>

definition two_commands :: "command list" where
  "two_commands = [Cmd_Attest ''a'', Cmd_Complete ''enough'']"

definition two_delivered :: "delivered list" where
  "two_delivered = [Committed [HumanAttested ''a''], Committed [CompletionRequested ''enough'']]"

definition quiet_run :: run_files where
  "quiet_run = \<lparr> rf_journal = [], rf_committing = [], rf_sent = (\<lambda>_. None), rf_outcomes = [] \<rparr>"


section \<open>Identical notes, one withdrawn\<close>

definition same_note :: command where
  "same_note = Cmd_Note ''a'' ''worker'' ''x'' None Deliver_Next True None"

definition carried_x :: operation where
  "carried_x = NoteDelivered ''a'' ''worker'' ''x'' None (CarriedOver None) [] [] None None"

text \<open>Envelope 3 withdrew the first of the two notes envelope 5 sent, before 5 was judged.\<close>

definition withdrawn_first :: run_files where
  "withdrawn_first = quiet_run\<lparr> rf_journal :=
     [J_Edit 3 (Cmd_WithdrawNote ''5'' 0 ''stale'') [NoteWithdrawn ''a'' 5 0 ''stale'' From_Live ''x'' 0]] \<rparr>"

text \<open>
  Recovery matches journalled commands to the envelope's by what they say. Of two identical
  notes of one envelope, the first withdrawn before the envelope was judged and the second
  carried and journalled, a driver that dies before answering leaves a record the next one
  reads as the first note's, so it commits the second again: the note is carried twice.
\<close>

lemma recovery_repeats_an_identical_note:
  "let rulings = [Inr Withdrawn, Inr (Committed [carried_x])];
       E = record_delivered 5 [same_note, same_note] rulings;
       s = fold apply_effect (take 2 E) withdrawn_first;
       again = (case evidence_for (rf_journal s) 5 of Some e \<Rightarrow> answer_recovered s 5 [same_note, same_note] e
                | None \<Rightarrow> []);
       edit = J_Edit 5 same_note (from_envelope 5 1 [carried_x])
   in length E = 3 \<and> rf_journal (fold apply_effect E withdrawn_first) = rf_journal withdrawn_first @ [edit] \<and>
      rf_journal (fold apply_effect again s) = rf_journal withdrawn_first @ [edit, edit]"
  by (simp add: record_delivered_def Let_def commit_command_def from_envelope_def enumerate_simps same_note_def
      carried_x_def withdrawn_first_def quiet_run_def answer_through_withdrawals_def evidence_for_def
      journalled_as_edit_def answer_recovered_def read_committing_def withdrawn_notes_def in_map_filter
      withdrawn_from_record_def map_filter_simps written_down_withdrawals_def)

end
