(* ===== verification/Run_Fold.thy ===== *)
theory Run_Fold
  imports Run_State Envelope_Record
begin

text \<open>
  The fold of the journal into the state of the run (\<open>fold_record\<close>, \<open>fold_operations\<close> and what
  they call in \<open>src/src/projection.rs\<close>), with the walk over connected drafts a landing makes
  (\<open>src/src/readjust.rs\<close>). A record's payload is the JSON object it is; what serde reads of one
  whole (a plan, a list of operations, a restack) is a field of \<open>fold_world\<close>.
\<close>

section \<open>Records\<close>

datatype event_source = From_Pipeline | From_Vcs | From_Another

datatype event_kind =
    K_RunStarted | K_NodeDispatched | K_NodeRequeued | K_NodeSettled | K_NodeRestackStarted
  | K_NodeRestacked | K_ChangeRetitled | K_NodeLanded | K_NodeAbsorbed | K_ChangeClosed
  | K_ChangeReopened | K_NodeReadjusted | K_NodeChecksRead | K_TitleUnverified | K_EditCommitted
  | K_CommandAccepted | K_ReleaseAdopted | K_HumanAttested | K_CompletionRequested
  | K_DriverAdopted | K_DriverExited | K_NodeHeld | K_NodeUnheld | K_DecisionPending
  | K_DecisionCleared | K_PlannerSurfaceQueued | K_PlannerSurfaced | K_ScratchRetained
  | K_ScratchRemoved | K_RunHookFired | K_RunStopped | K_CrossDagSatisfied | K_UpstreamModified
  | K_BranchesRetired | K_SessionOpened | K_Push | K_MergeCompleted | K_Other

text \<open>\<open>ev_known\<close> is \<open>written_at_a_known_version\<close>.\<close>

record journal_event =
  ev_source :: event_source
  ev_kind :: event_kind
  ev_node :: "str option"
  ev_ts :: str
  ev_stream :: str
  ev_known :: bool
  ev_payload :: "json bmap"

datatype checks_verdict = Checks_Passed | Checks_Passed_With_Skipped | Checks_None_Required
  | Checks_Failed | Checks_Pending

record fold_world =
  fw_edit :: edit_world
  fw_plan :: "json \<Rightarrow> plan option"
  fw_operations :: "json \<Rightarrow> operation list option"
  fw_stack :: "json \<Rightarrow> settled_stack option"
  fw_reads_rework :: "json \<Rightarrow> bool"
  fw_restack_started :: "json bmap \<Rightarrow> (str \<times> json) option"   \<comment> \<open>node, onto\<close>
  fw_restacked :: "json bmap \<Rightarrow> (str \<times> json) option"
  fw_retitled :: "json bmap \<Rightarrow> (str \<times> str) option"           \<comment> \<open>node, to\<close>
  fw_landed :: "json bmap \<Rightarrow> (str \<times> json) option"
  fw_absorbed :: "json bmap \<Rightarrow> (str \<times> str) option"           \<comment> \<open>node, into\<close>
  fw_closed :: "json bmap \<Rightarrow> str option"
  fw_reopened :: "json bmap \<Rightarrow> (str \<times> str) option"           \<comment> \<open>node, restored base\<close>
  fw_readjusted :: "json bmap \<Rightarrow> (str \<times> json) option"
  fw_checks :: "json bmap \<Rightarrow> (str \<times> str \<times> checks_verdict) option"   \<comment> \<open>node, head\<close>
  fw_unverified :: "json bmap \<Rightarrow> (str \<times> json) option"
  fw_retired :: "json bmap \<Rightarrow> str list option"
  fw_session :: "json bmap \<Rightarrow> (str \<times> str) option"            \<comment> \<open>token, branch\<close>
  fw_arrival_note :: "json \<Rightarrow> str option"   \<comment> \<open>of the versions a payload names, where any\<close>

definition text_at :: "json bmap \<Rightarrow> str \<Rightarrow> str option" where
  "text_at p key = (case bget p key of Some (JString s) \<Rightarrow> Some s | _ \<Rightarrow> None)"

definition usable_at :: "fold_world \<Rightarrow> json bmap \<Rightarrow> str \<Rightarrow> str option" where
  "usable_at w p key = Option.bind (text_at p key) (usable (payload_limit (fw_edit w)))"

definition texts_of :: "json list \<Rightarrow> str list" where
  "texts_of vs = List.map_filter (\<lambda>v. case v of JString s \<Rightarrow> Some s | _ \<Rightarrow> None) vs"

definition put_some :: "str \<Rightarrow> 'v option \<Rightarrow> 'v bmap \<Rightarrow> 'v bmap" where
  "put_some k v m = (case v of None \<Rightarrow> m | Some x \<Rightarrow> bput k x m)"

section \<open>Operations of a committed command\<close>

definition settlement_ends_the_park :: "node_status \<Rightarrow> bool" where
  "settlement_ends_the_park s \<longleftrightarrow> s = Done \<or> s = Failed"

definition end_the_park :: "str \<Rightarrow> run_state \<Rightarrow> run_state" where
  "end_the_park k st =
     st\<lparr> r_graph := graph_modify k (\<lambda>n. n\<lparr> parked := False \<rparr>) (r_graph st), r_parks := bdel k (r_parks st) \<rparr>"

definition parked_record :: "run_recorded option \<Rightarrow> u64 option \<Rightarrow> run_recorded" where
  "parked_record was at =
     (case at of
        Some since \<Rightarrow> if map_option rec_status was = Some Running then Rec_Cancelling since else Rec_At Parked
      | None \<Rightarrow> Rec_At Parked)"

definition settled_from_evidence :: str where
  "settled_from_evidence = ''settled-from-evidence''"

text \<open>What \<open>fold_operations\<close> records of an operation, once \<open>apply\<close> has changed the graph.\<close>

fun record_op :: "fold_world \<Rightarrow> u64 option \<Rightarrow> operation \<Rightarrow> run_state \<Rightarrow> run_state" where
  "record_op w at (RunNodeSetsReplaced s) st = st\<lparr> r_run_node_sets := Some s \<rparr>"
| "record_op w at (HumanAttested k) st =
     st\<lparr> r_attestations := insert k (r_attestations st), r_recorded := bput k (Rec_At Done) (r_recorded st) \<rparr>"
| "record_op w at (RetryRequested k r _) st =
     st\<lparr> r_recorded := bput k (Rec_At Cancelled) (r_recorded st), r_superseded := bput k r (r_superseded st) \<rparr>"
| "record_op w at (ReworkRequested k r reason instruction comments named) st =
     st\<lparr> r_superseded := bput k r (r_superseded st),
         r_reworks := bput k \<lparr> rw_replacement = r, rw_reason = reason, rw_instruction = instruction,
           rw_comments = comments, rw_title = named \<rparr> (r_reworks st) \<rparr>"
| "record_op w at (Retitled k _ _ _) st = st\<lparr> r_titles_unverified := bdel k (r_titles_unverified st) \<rparr>"
| "record_op w at (NodeParked k by reason) st =
     st\<lparr> r_parks := bput k (park_of by reason) (r_parks st),
         r_recorded := bput k (parked_record (bget (r_recorded st) k) at) (r_recorded st) \<rparr>"
| "record_op w at (NodeRequeued k _) st =
     st\<lparr> r_recorded := bdel k (r_recorded st), r_parks := bdel k (r_parks st) \<rparr>"
| "record_op w at (Reparent k _ _) st =
     (if map_option rec_status (bget (r_recorded st) k) = Some Waiting
      then st\<lparr> r_recorded := bdel k (r_recorded st) \<rparr> else st)"
| "record_op w at (SettledFromEvidence k s _) st =
     end_the_park k
       (st\<lparr> r_recorded := bput k (Rec_At (settled_status s)) (r_recorded st),
           r_outcomes := bput k settled_from_evidence (r_outcomes st) \<rparr>)"
| "record_op w at (LandingFromEvidence k l) st =
     (case parse_landing (payload_limit (fw_edit w)) (is_http_url (w_siblings (fw_edit w))) l of
        None \<Rightarrow> st
      | Some stated \<Rightarrow>
          st\<lparr> r_landings := bput k Landed (r_landings st),
              r_stated_change_urls := (case stated of
                ChangeRequest _ \<Rightarrow> bput k stated (r_stated_change_urls st)
              | Commit _ \<Rightarrow> r_stated_change_urls st),
              r_stated_landings := bput k stated (r_stated_landings st) \<rparr>)"
| "record_op w at (ContextAdded k note d) st =
     (if d = Deferred then st\<lparr> r_pending_context := bput k note (r_pending_context st) \<rparr> else st)"
| "record_op w at (NoteDelivered k _ t _ how _ _ _ _) st =
     (case how of
        CarriedOver _ \<Rightarrow>
          st\<lparr> r_pending_context :=
                bput k (with_carried (bget (r_pending_context st) k) t) (r_pending_context st) \<rparr>
      | _ \<Rightarrow> st)"
| "record_op w at (NoteWithdrawn k _ _ _ from t alike_after) st =
     (if from = From_Carried
      then st\<lparr> r_pending_context :=
             (case Option.bind (bget (r_pending_context st) k) (\<lambda>c. without_carried c t alike_after) of
                Some left \<Rightarrow> bput k left (r_pending_context st)
              | None \<Rightarrow> bdel k (r_pending_context st)) \<rparr>
      else st)"
| "record_op w at _ st = st"

definition fold_operation :: "fold_world \<Rightarrow> u64 option \<Rightarrow> operation \<Rightarrow> run_state \<Rightarrow> run_state" where
  "fold_operation w at op st =
     record_op w at op (st\<lparr> r_graph := apply_op (fw_edit w) op (r_graph st) \<rparr>)"

definition fold_operations :: "fold_world \<Rightarrow> operation list \<Rightarrow> u64 option \<Rightarrow> run_state \<Rightarrow> run_state" where
  "fold_operations w ops at st = fold (fold_operation w at) ops st"

section \<open>A settlement\<close>

definition preserves_its_branch :: "node_status \<Rightarrow> bool" where
  "preserves_its_branch s \<longleftrightarrow> s \<in> {Failed, Cancelled, Parked, CompleteDraft, CompleteHeld}"

definition pinned_to :: "str \<Rightarrow> str list \<Rightarrow> node \<Rightarrow> node" where
  "pinned_to preserved done_steps n =
     (let b = (case branch n of Some b \<Rightarrow> b | None \<Rightarrow> preserved)
      in n\<lparr> resume := Some \<lparr> resume_branch = b,
                checkpoint = (case resume n of None \<Rightarrow> None | Some r \<Rightarrow> checkpoint r),
                completed_steps = done_steps \<rparr>,
            branch := Some b \<rparr>)"

definition pin_preserved_branch :: "str \<Rightarrow> node_status \<Rightarrow> run_state \<Rightarrow> run_state" where
  "pin_preserved_branch k s st =
     (case bget (r_branches st) k of
        Some preserved \<Rightarrow>
          if preserves_its_branch s
          then st\<lparr> r_graph := graph_modify k (pinned_to preserved
                   (case bget (r_completed_steps st) k of None \<Rightarrow> [] | Some c \<Rightarrow> c)) (r_graph st) \<rparr>
          else st
      | None \<Rightarrow> st)"

text \<open>\<open>engine::is_a_classification\<close>, \<open>vcs::preservation_of\<close>.\<close>

definition is_a_classification :: "str \<Rightarrow> bool" where
  "is_a_classification word \<longleftrightarrow>
     word \<noteq> [] \<and> byte_len word \<le> 64 \<and> \<not> list_ex (\<lambda>c. is_space c \<or> is_control c) word"

definition preservation_of :: "str \<Rightarrow> str option" where
  "preservation_of word =
     (if word \<in> {''pushed'', ''already-on-origin'', ''no-remote''} then Some word else None)"

text \<open>The status, and the park it ends.\<close>

definition fold_status :: "str \<Rightarrow> node_status option \<Rightarrow> run_state \<Rightarrow> run_state" where
  "fold_status k status st =
     (case status of
        None \<Rightarrow> st
      | Some s \<Rightarrow>
          (let st' = st\<lparr> r_recorded := bput k (Rec_At s) (r_recorded st) \<rparr>
           in if settlement_ends_the_park s then end_the_park k st' else st'))"

text \<open>A settlement no \<open>settle\<close> wrote takes back the landing one stated.\<close>

definition fold_outcome :: "str \<Rightarrow> str option \<Rightarrow> run_state \<Rightarrow> run_state" where
  "fold_outcome k outcome st =
     (let st' = st\<lparr> r_outcomes := put_some k outcome (r_outcomes st) \<rparr>
      in if outcome \<noteq> Some settled_from_evidence \<and> bget (r_stated_landings st) k \<noteq> None
         then st'\<lparr> r_stated_landings := bdel k (r_stated_landings st), r_landings := bdel k (r_landings st),
                  r_stated_change_urls := bdel k (r_stated_change_urls st) \<rparr>
         else st')"

text \<open>The base and, with it, the stack the change sits on.\<close>

definition fold_base :: "fold_world \<Rightarrow> str \<Rightarrow> json bmap \<Rightarrow> run_state \<Rightarrow> run_state" where
  "fold_base w k p st =
     (case usable_at w p ''base'' of
        None \<Rightarrow> st
      | Some base \<Rightarrow>
          st\<lparr> r_bases := bput k base (r_bases st),
              r_stacks := (case Option.bind (bget p ''stack'') (fw_stack w) of
                Some stack \<Rightarrow> if stack_is_usable (payload_limit (fw_edit w)) stack
                               then bput k stack (r_stacks st) else bdel k (r_stacks st)
              | None \<Rightarrow> bdel k (r_stacks st)) \<rparr>)"

definition fold_head :: "fold_world \<Rightarrow> str \<Rightarrow> json bmap \<Rightarrow> run_state \<Rightarrow> run_state" where
  "fold_head w k p st =
     (let st' = st\<lparr> r_heads := put_some k (usable_at w p ''head'') (r_heads st) \<rparr>
      in case (bget (r_branches st') k, bget (r_heads st') k) of
           (Some b, Some h) \<Rightarrow>
             if bget p ''head'' \<noteq> None then st'\<lparr> r_branch_heads := bput b h (r_branch_heads st') \<rparr> else st'
         | _ \<Rightarrow> st')"

definition fold_settled :: "fold_world \<Rightarrow> str \<Rightarrow> journal_event \<Rightarrow> run_state \<Rightarrow> run_state" where
  "fold_settled w k e st =
     (let p = ev_payload e;
          status = Option.bind (text_at p ''status'') status_parse;
          rework = (case bget p ''continued'' of Some (JObject c) \<Rightarrow> bget c ''rework'' | _ \<Rightarrow> None);
          st1 = (case rework of Some r \<Rightarrow> if fw_reads_rework w r
                   then st\<lparr> r_continued_reworks := bput k r (r_continued_reworks st) \<rparr> else st | None \<Rightarrow> st);
          st2 = fold_outcome k (text_at p ''outcome'') (fold_status k status st1);
          st3 = st2\<lparr> r_branches := put_some k (text_at p ''branch'') (r_branches st2),
                     r_completed_steps := put_some k (case bget p ''completed_steps'' of
                       Some (JArray vs) \<Rightarrow> Some (texts_of vs) | _ \<Rightarrow> None) (r_completed_steps st2),
                     r_change_urls := put_some k (text_at p ''change_url'') (r_change_urls st2) \<rparr>;
          st4 = fold_head w k p (fold_base w k p st3);
          st5 = st4\<lparr> r_causes := put_some k (Option.bind (text_at p ''cause'')
                       (\<lambda>c. if is_a_classification c then Some c else None)) (r_causes st4),
                     r_remotes := put_some k (Option.bind (text_at p ''remote'') preservation_of) (r_remotes st4),
                     r_landings := put_some k (Option.bind (text_at p ''landing'') landing_parse) (r_landings st4),
                     r_settled_at := put_some k (millis_of (ev_ts e)) (r_settled_at st4) \<rparr>;
          st6 = (case status of None \<Rightarrow> st5 | Some s \<Rightarrow> pin_preserved_branch k s st5)
      in st6\<lparr> r_restacking := bdel k (r_restacking st6) \<rparr>)"

section \<open>The drafts a landing connects\<close>

text \<open>
  \<open>lineage_change\<close>: the change request a node or one it replaced is known by, walking
  \<open>superseded\<close> backwards until an id comes round again.
\<close>

lemma lineage_change_measure:
  assumes "find (\<lambda>(_, r). r = at) m = Some x" "at \<notin> set seen"
  shows "card (snd ` set m - insert at (set seen)) < card (snd ` set m - set seen)"
proof -
  have "x \<in> set m" "snd x = at" using assms(1) by (auto simp: find_Some_iff split_def)
  then have "at \<in> snd ` set m" by force
  with assms(2) show ?thesis by (intro psubset_card_mono) auto
qed

function lineage_change :: "edit_world \<Rightarrow> run_state \<Rightarrow> str list \<Rightarrow> str \<Rightarrow> str option" where
  "lineage_change w st seen at =
     (case known_change_url w st at of
        Some url \<Rightarrow> Some url
      | None \<Rightarrow>
          if at \<in> set seen then None
          else (case find (\<lambda>(_, r). r = at) (r_superseded st) of
                  None \<Rightarrow> None
                | Some (before, _) \<Rightarrow> lineage_change w st (at # seen) before))"
  by auto
termination
  by (relation "measure (\<lambda>(w, st, seen, at). card (snd ` set (r_superseded st) - set seen))")
    (auto intro: lineage_change_measure)

declare lineage_change.simps [simp del]

definition same_repo :: "graph \<Rightarrow> str \<Rightarrow> str \<Rightarrow> bool" where
  "same_repo g r k \<longleftrightarrow> (case graph_get g k of None \<Rightarrow> False | Some n \<Rightarrow> repo n = Some r)"

definition neighbours :: "graph \<Rightarrow> str \<Rightarrow> str list" where
  "neighbours g k = (case graph_get g k of None \<Rightarrow> [] | Some n \<Rightarrow> deps n) @ dependents_of g k"

text \<open>The neighbours of one node: what is new is marked seen and pushed, in order.\<close>

fun push_connected :: "graph \<Rightarrow> str \<Rightarrow> str list \<Rightarrow> str set \<times> str list \<Rightarrow> str set \<times> str list" where
  "push_connected g r [] s = s"
| "push_connected g r (k # ks) (seen, pending) =
     push_connected g r ks
       (if same_repo g r k \<and> k \<notin> seen then (insert k seen, k # pending) else (seen, pending))"

definition unseen :: "graph \<Rightarrow> str set \<Rightarrow> nat" where
  "unseen g seen = card (fst ` set (nodes g) - seen)"

lemma push_connected_work:
  "2 * unseen g (fst (push_connected g r ks (seen, pending))) + length (snd (push_connected g r ks (seen, pending)))
     \<le> 2 * unseen g seen + length pending"
proof (induction ks arbitrary: seen pending)
  case (Cons k ks)
  show ?case
  proof (cases "same_repo g r k \<and> k \<notin> seen")
    case True
    then have "k \<in> fst ` set (nodes g)"
      using bget_dom [of "nodes g" k] by (auto simp: same_repo_def graph_get_def split: option.splits)
    with True have "unseen g (insert k seen) < unseen g seen"
      unfolding unseen_def by (intro psubset_card_mono) auto
    with True Cons [of "insert k seen" "k # pending"] show ?thesis by simp
  next
    case False
    show ?thesis unfolding push_connected.simps if_not_P [OF False] by (rule Cons)
  qed
qed simp

function connect_walk :: "graph \<Rightarrow> str \<Rightarrow> str set \<times> str list \<Rightarrow> str set" where
  "connect_walk g r (seen, []) = seen"
| "connect_walk g r (seen, k # pending) = connect_walk g r (push_connected g r (neighbours g k) (seen, pending))"
  by pat_completeness auto
termination
  by (relation "measure (\<lambda>(g, r, s). 2 * unseen g (fst s) + length (snd s))")
    (auto intro: le_less_trans [OF push_connected_work])

text \<open>Which of them still are drafts a landing bears on.\<close>

definition open_draft :: "edit_world \<Rightarrow> run_state \<Rightarrow> str \<Rightarrow> bool" where
  "open_draft w st k \<longleftrightarrow>
     bget (r_superseded st) k = None \<and> bget (r_landings st) k \<noteq> Some Landed \<and>
     bget (r_absorbed st) k = None \<and> k \<notin> r_closed_changes st \<and> lineage_change w st [] k \<noteq> None"

definition connected :: "edit_world \<Rightarrow> run_state \<Rightarrow> str \<Rightarrow> str set" where
  "connected w st k =
     (case Option.bind (graph_get (r_graph st) k) repo of
        None \<Rightarrow> {}
      | Some r \<Rightarrow> {j \<in> connect_walk (r_graph st) r ({k}, [k]) - {k}. open_draft w st j})"

text \<open>
  Each draft connected to a landed or absorbed node owes a readjustment to it.
\<close>

definition owe_readjust :: "str set \<Rightarrow> str \<Rightarrow> str set bmap \<Rightarrow> str set bmap" where
  "owe_readjust drafts k m =
     fold (\<lambda>d m. bput d (insert k (case bget m d of None \<Rightarrow> {} | Some s \<Rightarrow> s)) m)
       (sorted_list_of_set drafts) m"

section \<open>A driver takes the run over\<close>

text \<open>\<open>abandon_the_dispatch_in_flight\<close>: pin each running node to the branch its session is on.\<close>

definition abandon_one :: "str \<times> dispatch_session \<Rightarrow> run_state \<Rightarrow> run_state" where
  "abandon_one entry st =
     (let (k, s) = entry
      in st\<lparr> r_sessions := bdel k (r_sessions st),
             r_graph := graph_modify k (\<lambda>n. n\<lparr> branch := Some (ds_branch s) \<rparr>) (r_graph st),
             r_abandoned := bput k s (r_abandoned st) \<rparr>)"

definition abandon_the_dispatch_in_flight :: "run_state \<Rightarrow> run_state" where
  "abandon_the_dispatch_in_flight st = fold abandon_one (sessions_in_flight st) st"

definition restacks_end_done :: "run_state \<Rightarrow> run_state" where
  "restacks_end_done st =
     st\<lparr> r_recorded := fold (\<lambda>(k, _). bput k (Rec_At Done)) (r_restacking st) (r_recorded st),
         r_restacking := [] \<rparr>"

fun cancel_over :: "run_recorded \<Rightarrow> run_recorded" where
  "cancel_over (Rec_Cancelling _) = Rec_At Parked"
| "cancel_over r = r"

definition drop_running :: "run_state \<Rightarrow> run_state" where
  "drop_running st =
     st\<lparr> r_recorded := map (\<lambda>(k, r). (k, cancel_over r))
           (filter (\<lambda>(_, r). rec_status r \<noteq> Running) (r_recorded st)) \<rparr>"

definition reopened :: "u64 option \<Rightarrow> closure_state \<Rightarrow> closure_state" where
  "reopened at c =
     c\<lparr> cl_completion_requested := False,
        cl_reopened_at := (case at of None \<Rightarrow> cl_reopened_at c | Some t \<Rightarrow> Some t) \<rparr>"

definition owed_until_closed :: "json bmap \<Rightarrow> bool" where
  "owed_until_closed p \<longleftrightarrow> bget p ''owed_until_closed'' = Some (JBool True)"

definition fold_adopted :: "journal_event \<Rightarrow> run_state \<Rightarrow> run_state" where
  "fold_adopted e st =
     drop_running (restacks_end_done (abandon_the_dispatch_in_flight
       (st\<lparr> r_let_go_by := None,
           r_closure := (reopened (or_else (millis_of (ev_ts e)) (r_last_write_at st)) (r_closure st))
             \<lparr> cl_owed_until_closed := owed_until_closed (ev_payload e) \<or> cl_owed_until_closed (r_closure st) \<rparr>,
           r_stop := NotStopped \<rparr>)))"

section \<open>The other records\<close>

definition fold_dispatched :: "journal_event \<Rightarrow> str \<Rightarrow> run_state \<Rightarrow> run_state" where
  "fold_dispatched e k st =
     st\<lparr> r_recorded := bput k (Rec_At Running) (r_recorded st),
         r_dispatched_at := put_some k (millis_of (ev_ts e)) (r_dispatched_at st),
         r_sessions := bdel k (r_sessions st), r_pending_context := bdel k (r_pending_context st),
         r_graph := graph_modify k (\<lambda>n. n\<lparr> planner_context := None \<rparr>) (r_graph st) \<rparr>"

definition fold_restack_started :: "journal_event \<Rightarrow> str \<Rightarrow> json \<Rightarrow> run_state \<Rightarrow> run_state" where
  "fold_restack_started e k onto st =
     st\<lparr> r_recorded := bput k (Rec_At Running) (r_recorded st),
         r_dispatched_at := put_some k (millis_of (ev_ts e)) (r_dispatched_at st),
         r_sessions := bdel k (r_sessions st), r_restacking := bput k onto (r_restacking st) \<rparr>"

definition fold_restacked :: "str \<Rightarrow> json \<Rightarrow> run_state \<Rightarrow> run_state" where
  "fold_restacked k done st =
     (case bget (r_restacking st) k of
        None \<Rightarrow> st
      | Some onto \<Rightarrow> st\<lparr> r_restacking := bdel k (r_restacking st), r_restacks := bput k (onto, done) (r_restacks st) \<rparr>)"

definition fold_landed :: "fold_world \<Rightarrow> str \<Rightarrow> json \<Rightarrow> run_state \<Rightarrow> run_state" where
  "fold_landed w k how st =
     (let st' = st\<lparr> r_landings := bput k Landed (r_landings st), r_closed_changes := r_closed_changes st - {k},
                    r_readjust_owed := bdel k (r_readjust_owed st) \<rparr>
      in st'\<lparr> r_readjust_owed := owe_readjust (connected (fw_edit w) st' k) k (r_readjust_owed st'),
              r_landed_how := bput k how (r_landed_how st) \<rparr>)"

definition fold_absorbed :: "fold_world \<Rightarrow> str \<Rightarrow> str \<Rightarrow> run_state \<Rightarrow> run_state" where
  "fold_absorbed w k into st =
     (let st' = st\<lparr> r_readjust_owed := bdel k (r_readjust_owed st), r_absorbed := bput k into (r_absorbed st) \<rparr>
      in st'\<lparr> r_readjust_owed := owe_readjust (connected (fw_edit w) st' k) k (r_readjust_owed st') \<rparr>)"

text \<open>A readjustment pays what its node and every node it replaced owed.\<close>

definition fold_readjusted :: "str \<Rightarrow> json \<Rightarrow> run_state \<Rightarrow> run_state" where
  "fold_readjusted k how st =
     (let replaced = map fst (filter (\<lambda>(_, r). r = k) (r_superseded st))
      in st\<lparr> r_readjust_owed := filter (\<lambda>(j, _). j \<noteq> k \<and> j \<notin> set replaced) (r_readjust_owed st),
             r_reopened := filter (\<lambda>(j, _). j \<noteq> k \<and> j \<notin> set replaced) (r_reopened st),
             r_restacking := bdel k (r_restacking st), r_readjusted := bput k how (r_readjusted st) \<rparr>)"

definition review_drafted :: str where
  "review_drafted = ''change-review-draft''"

definition review_drafted_unchecked :: str where
  "review_drafted_unchecked = ''change-review-draft-unchecked''"

definition fold_checks :: "str \<Rightarrow> str \<Rightarrow> checks_verdict \<Rightarrow> run_state \<Rightarrow> run_state" where
  "fold_checks k head v st =
     (let read = st\<lparr> r_checks_read := bput k head (r_checks_read st) \<rparr>; outcome = bget (r_outcomes st) k
      in case v of
           Checks_Failed \<Rightarrow> read
         | Checks_Pending \<Rightarrow>
             if outcome = Some review_drafted \<and> bget (r_heads st) k \<noteq> Some head
             then st\<lparr> r_outcomes := bput k review_drafted_unchecked (r_outcomes st) \<rparr> else st
         | _ \<Rightarrow>
             if outcome = Some review_drafted_unchecked
             then read\<lparr> r_outcomes := bput k review_drafted (r_outcomes st) \<rparr> else read)"

text \<open>\<open>release-adopted\<close> with \<open>delivery: next\<close>: the arrival note is owed and the wait is over.\<close>

definition fold_adopted_release :: "fold_world \<Rightarrow> str \<Rightarrow> json bmap \<Rightarrow> run_state \<Rightarrow> run_state" where
  "fold_adopted_release w k p st =
     (if text_at p ''delivery'' \<noteq> Some ''next'' then st
      else case Option.bind (bget p ''versions'') (fw_arrival_note w) of
        None \<Rightarrow> st
      | Some note \<Rightarrow>
          st\<lparr> r_pending_context := bput k note (r_pending_context st),
              r_graph := graph_modify k (\<lambda>n. n\<lparr> planner_context := Some note \<rparr>) (r_graph st),
              r_recorded := (case bget (r_recorded st) k of
                 Some r \<Rightarrow> if awaits_release (rec_status r) then bdel k (r_recorded st) else r_recorded st
               | None \<Rightarrow> r_recorded st) \<rparr>)"

text \<open>\<open>fold_commit\<close>: which nodes a note was delivered to, and the nodes an edit added.\<close>

definition fold_commit :: "bool \<Rightarrow> operation list \<Rightarrow> run_state \<Rightarrow> run_state" where
  "fold_commit committed ops st =
     fold (\<lambda>op st. case op of
        NoteDelivered k _ _ _ _ _ _ _ _ \<Rightarrow> st\<lparr> r_noted := insert k (r_noted st) \<rparr>
      | NoteWithdrawn k _ _ _ _ _ _ \<Rightarrow> st\<lparr> r_noted := insert k (r_noted st) \<rparr>
      | NodeAdded n _ \<Rightarrow> if committed then st\<lparr> r_nodes_added := bput (node_id n) n (r_nodes_added st) \<rparr> else st
      | _ \<Rightarrow> st) ops st"

definition fold_committed :: "fold_world \<Rightarrow> bool \<Rightarrow> journal_event \<Rightarrow> run_state \<Rightarrow> run_state" where
  "fold_committed w edit e st =
     (let st' = (if edit then st\<lparr> r_closure := reopened (or_else (millis_of (ev_ts e)) (r_last_write_at st))
                   (r_closure st) \<rparr> else st)
      in case Option.bind (bget (ev_payload e) ''operations'') (fw_operations w) of
           None \<Rightarrow> st'\<lparr> r_strict := False \<rparr>
         | Some ops \<Rightarrow> fold_operations w ops (millis_of (ev_ts e)) (fold_commit edit ops st'))"

text \<open>\<open>DriverClaim::of_stream\<close>: \<open><host>-<pid>\<close>, split at the last dash.\<close>

definition claim_of_stream :: "str \<Rightarrow> (str \<times> u32) option" where
  "claim_of_stream stream =
     (let pid = rev (takeWhile (\<lambda>c. c \<noteq> CHR ''-'') (rev stream));
          host = take (length stream - length pid - 1) stream
      in if CHR ''-'' \<notin> set stream \<or> host = [] then None
         else (case parse_u64 pid of
                 Some n \<Rightarrow> if n = 0 \<or> unat n \<ge> 2 ^ 32 then None else Some (host, of_nat (unat n))
               | None \<Rightarrow> None))"

text \<open>\<open>StopTeardown::of\<close>: only a teardown that signalled every worker settles the question.\<close>

definition stop_of :: "json bmap \<Rightarrow> stop_state" where
  "stop_of p =
     (case bget p ''teardown'' of
        None \<Rightarrow> WorkersSignalled
      | Some v \<Rightarrow> if v = JString ''signalled'' then WorkersSignalled else WorkersUndetermined)"

definition number_at :: "json bmap \<Rightarrow> str \<Rightarrow> u64 option" where
  "number_at p key = (case bget p key of Some (JNumber t) \<Rightarrow> parse_u64 t | _ \<Rightarrow> None)"

definition pending_decision_of :: "json bmap \<Rightarrow> pending_decision" where
  "pending_decision_of p = \<lparr>
     pd_kind = (case text_at p ''kind'' of None \<Rightarrow> [] | Some t \<Rightarrow> t),
     pd_unblocks = (case bget p ''unblocks'' of Some (JArray vs) \<Rightarrow> texts_of vs | _ \<Rightarrow> []) \<rparr>"

text \<open>An upstream edge is captured once, at the length the first record of it names.\<close>

definition fold_cross_satisfied :: "json bmap \<Rightarrow> run_state \<Rightarrow> run_state" where
  "fold_cross_satisfied p st =
     (case (text_at p ''dependency'', number_at p ''last_seq'') of
        (Some d, Some n) \<Rightarrow>
          if bget (r_cross_dag_baselines st) d = None
          then st\<lparr> r_cross_dag_baselines := bput d n (r_cross_dag_baselines st) \<rparr> else st
      | _ \<Rightarrow> st)"

definition fold_upstream_modified :: "str option \<Rightarrow> json bmap \<Rightarrow> run_state \<Rightarrow> run_state" where
  "fold_upstream_modified node p st =
     (case text_at p ''dependency'' of
        None \<Rightarrow> st
      | Some d \<Rightarrow>
          st\<lparr> r_cross_dag_watches := bput d ((case bget (r_cross_dag_watches st) d of None \<Rightarrow> 0 | Some n \<Rightarrow> n) + 1)
                (r_cross_dag_watches st),
              r_cross_dag_reported := (case node of None \<Rightarrow> r_cross_dag_reported st
                | Some c \<Rightarrow> insert (d, c) (r_cross_dag_reported st)) \<rparr>)"

section \<open>One record of this program's own\<close>

text \<open>
  \<open>fold_recall\<close>'s part in the model: the nodes ever dispatched, and the last progress.
\<close>

definition fold_recall :: "journal_event \<Rightarrow> run_state \<Rightarrow> run_state" where
  "fold_recall e st =
     (let progressed = (case millis_of (ev_ts e) of
            None \<Rightarrow> st
          | Some at \<Rightarrow> st\<lparr> r_last_progress_at :=
              Some (case r_last_progress_at st of None \<Rightarrow> at | Some was \<Rightarrow> max was at) \<rparr>)
      in case ev_kind e of
           K_NodeDispatched \<Rightarrow>
             (case ev_node e of None \<Rightarrow> progressed
              | Some k \<Rightarrow> progressed\<lparr> r_dispatched_nodes := insert k (r_dispatched_nodes st) \<rparr>)
         | K_NodeSettled \<Rightarrow> progressed
         | _ \<Rightarrow> st)"

definition on_some :: "'a option \<Rightarrow> ('a \<Rightarrow> run_state \<Rightarrow> run_state) \<Rightarrow> run_state \<Rightarrow> run_state" where
  "on_some x f st = (case x of None \<Rightarrow> st | Some v \<Rightarrow> f v st)"

fun fold_kind :: "fold_world \<Rightarrow> event_kind \<Rightarrow> journal_event \<Rightarrow> run_state \<Rightarrow> run_state" where
  "fold_kind w K_RunStarted e st =
     (let st' = (if owed_until_closed (ev_payload e)
                 then st\<lparr> r_closure := (r_closure st)\<lparr> cl_owed_until_closed := True \<rparr> \<rparr> else st)
      in on_some (Option.bind (bget (ev_payload e) ''plan'') (fw_plan w))
           (\<lambda>p st. st\<lparr> r_graph := from_plan p, r_plan := Some p \<rparr>) st')"
| "fold_kind w K_NodeDispatched e st = on_some (ev_node e) (fold_dispatched e) st"
| "fold_kind w K_NodeRequeued e st = on_some (ev_node e) (\<lambda>k st. st\<lparr> r_recorded := bdel k (r_recorded st) \<rparr>) st"
| "fold_kind w K_NodeSettled e st = on_some (ev_node e) (\<lambda>k. fold_settled w k e) st"
| "fold_kind w K_NodeRestackStarted e st =
     on_some (fw_restack_started w (ev_payload e)) (\<lambda>(k, onto). fold_restack_started e k onto) st"
| "fold_kind w K_NodeRestacked e st = on_some (fw_restacked w (ev_payload e)) (\<lambda>(k, done). fold_restacked k done) st"
| "fold_kind w K_ChangeRetitled e st =
     on_some (fw_retitled w (ev_payload e)) (\<lambda>(k, to) st.
       st\<lparr> r_graph := graph_modify k (\<lambda>n. n\<lparr> title := Some to \<rparr>) (r_graph st),
           r_titles_unverified := bdel k (r_titles_unverified st) \<rparr>) st"
| "fold_kind w K_NodeLanded e st = on_some (fw_landed w (ev_payload e)) (\<lambda>(k, how). fold_landed w k how) st"
| "fold_kind w K_NodeAbsorbed e st = on_some (fw_absorbed w (ev_payload e)) (\<lambda>(k, into). fold_absorbed w k into) st"
| "fold_kind w K_ChangeClosed e st =
     on_some (fw_closed w (ev_payload e)) (\<lambda>k st. st\<lparr> r_closed_changes := insert k (r_closed_changes st) \<rparr>) st"
| "fold_kind w K_ChangeReopened e st =
     on_some (fw_reopened w (ev_payload e)) (\<lambda>(k, base) st.
       st\<lparr> r_closed_changes := r_closed_changes st - {k}, r_reopened := bput k base (r_reopened st) \<rparr>) st"
| "fold_kind w K_NodeReadjusted e st =
     on_some (fw_readjusted w (ev_payload e)) (\<lambda>(k, how). fold_readjusted k how) st"
| "fold_kind w K_NodeChecksRead e st = on_some (fw_checks w (ev_payload e)) (\<lambda>(k, head, v). fold_checks k head v) st"
| "fold_kind w K_TitleUnverified e st =
     on_some (fw_unverified w (ev_payload e)) (\<lambda>(k, what) st.
       st\<lparr> r_titles_unverified := bput k what (r_titles_unverified st) \<rparr>) st"
| "fold_kind w K_EditCommitted e st = fold_committed w True e st"
| "fold_kind w K_CommandAccepted e st = fold_committed w False e st"
| "fold_kind w K_ReleaseAdopted e st = on_some (ev_node e) (\<lambda>k. fold_adopted_release w k (ev_payload e)) st"
| "fold_kind w K_HumanAttested e st =
     on_some (text_at (ev_payload e) ''ref'') (\<lambda>k st.
       st\<lparr> r_attestations := insert k (r_attestations st), r_recorded := bput k (Rec_At Done) (r_recorded st) \<rparr>) st"
| "fold_kind w K_CompletionRequested e st =
     (let st' = on_some (text_at (ev_payload e) ''reason'') (\<lambda>reason st.
            st\<lparr> r_completion_requests := r_completion_requests st @ [reason] \<rparr>) st
      in st'\<lparr> r_closure := (r_closure st')\<lparr> cl_completion_requested := True \<rparr> \<rparr>)"
| "fold_kind w K_DriverAdopted e st = fold_adopted e st"
| "fold_kind w K_NodeHeld e st =
     (case (ev_node e, bget (ev_payload e) ''reasons'') of
        (Some k, Some (JArray reasons)) \<Rightarrow> st\<lparr> r_holds := bput k reasons (r_holds st) \<rparr>
      | _ \<Rightarrow> st)"
| "fold_kind w K_NodeUnheld e st = on_some (ev_node e) (\<lambda>k st. st\<lparr> r_holds := bdel k (r_holds st) \<rparr>) st"
| "fold_kind w K_DecisionPending e st =
     on_some (text_at (ev_payload e) ''reference'') (\<lambda>ref st.
       st\<lparr> r_decisions_pending := bput ref (pending_decision_of (ev_payload e)) (r_decisions_pending st) \<rparr>) st"
| "fold_kind w K_DecisionCleared e st =
     on_some (text_at (ev_payload e) ''reference'') (\<lambda>ref st.
       st\<lparr> r_decisions_pending := bdel ref (r_decisions_pending st) \<rparr>) st"
| "fold_kind w K_PlannerSurfaceQueued e st = st\<lparr> r_surfaces_queued := r_surfaces_queued st + 1 \<rparr>"
| "fold_kind w K_PlannerSurfaced e st =
     st\<lparr> r_surfaces_read := r_surfaces_read st + 1, r_last_surface_at := millis_of (ev_ts e) \<rparr>"
| "fold_kind w K_ScratchRetained e st = st\<lparr> r_let_go_by := claim_of_stream (ev_stream e) \<rparr>"
| "fold_kind w K_ScratchRemoved e st =
     (if text_at (ev_payload e) ''trigger'' = Some ''success''
      then st\<lparr> r_let_go_by := claim_of_stream (ev_stream e) \<rparr> else st)"
| "fold_kind w K_RunHookFired e st = st\<lparr> r_let_go_by := claim_of_stream (ev_stream e) \<rparr>"
| "fold_kind w K_RunStopped e st = st\<lparr> r_stop := stop_of (ev_payload e) \<rparr>"
| "fold_kind w K_CrossDagSatisfied e st = fold_cross_satisfied (ev_payload e) st"
| "fold_kind w K_UpstreamModified e st = fold_upstream_modified (ev_node e) (ev_payload e) st"
| "fold_kind w K_BranchesRetired e st =
     on_some (fw_retired w (ev_payload e)) (\<lambda>bs st.
       st\<lparr> r_retired_branches := r_retired_branches st \<union>
             set (List.map_filter (usable (payload_limit (fw_edit w))) bs) \<rparr>) st"
| "fold_kind w _ e st = st"

section \<open>A record of another source, and the fold\<close>

definition token_of :: "fold_world \<Rightarrow> str \<Rightarrow> str option" where
  "token_of w v =
     (case usable (payload_limit (fw_edit w)) v of
        None \<Rightarrow> None
      | Some t \<Rightarrow>
          if CHR ''/'' \<in> set t \<or> CHR 0x5C \<in> set t \<or> list_all (\<lambda>c. c = CHR ''.'') t then None else Some t)"

definition session_read :: "fold_world \<Rightarrow> journal_event \<Rightarrow> dispatch_session option" where
  "session_read w e =
     (case fw_session w (ev_payload e) of
        None \<Rightarrow> None
      | Some (token, b) \<Rightarrow>
          (case (token_of w token, usable (payload_limit (fw_edit w)) b) of
             (Some t, Some b') \<Rightarrow>
               if ev_stream e = t \<or> ev_stream e = ''onevcs-'' @ t
               then Some \<lparr> ds_token = t, ds_branch = b' \<rparr> else None
           | _ \<Rightarrow> None))"

definition fold_session :: "fold_world \<Rightarrow> journal_event \<Rightarrow> run_state \<Rightarrow> run_state" where
  "fold_session w e st =
     (case (ev_node e, session_read w e) of
        (Some k, Some s) \<Rightarrow>
          (let p = ev_payload e;
               pinned = (case graph_get (r_graph st) k of None \<Rightarrow> False | Some n \<Rightarrow> branch n \<noteq> None);
               cut = (\<not> pinned \<and> bget p ''placement'' \<noteq> None \<and> bget p ''continued'' = None \<and>
                      bget p ''reused'' = None);
               prefix = (case bget p ''branch_prefix'' of Some (JObject m) \<Rightarrow> usable_at w m ''prefix'' | _ \<Rightarrow> None)
           in st\<lparr> r_retired_branches := r_retired_branches st - {ds_branch s},
                  r_branch_prefix := (case prefix of Some x \<Rightarrow> Some x
                    | None \<Rightarrow> if cut then Some [] else r_branch_prefix st),
                  r_bases := put_some k (usable_at w p ''base'') (r_bases st),
                  r_sessions := bput k s (r_sessions st) \<rparr>)
      | _ \<Rightarrow> st)"

definition fold_push :: "fold_world \<Rightarrow> journal_event \<Rightarrow> run_state \<Rightarrow> run_state" where
  "fold_push w e st =
     (if ev_node e = None \<or> bget (ev_payload e) ''accepted'' \<noteq> Some (JBool True) then st
      else case (usable_at w (ev_payload e) ''branch'', usable_at w (ev_payload e) ''head'') of
        (Some b, Some h) \<Rightarrow> st\<lparr> r_branch_heads := bput b h (r_branch_heads st) \<rparr>
      | _ \<Rightarrow> st)"

definition fold_landing_commit :: "fold_world \<Rightarrow> journal_event \<Rightarrow> run_state \<Rightarrow> run_state" where
  "fold_landing_commit w e st =
     (case (ev_node e, usable_at w (ev_payload e) ''sha'') of
        (Some k, Some commit) \<Rightarrow>
          st\<lparr> r_landing_commits := bput k commit (r_landing_commits st),
              r_bases := put_some k (usable_at w (ev_payload e) ''base'') (r_bases st) \<rparr>
      | _ \<Rightarrow> st)"

definition fold_vcs :: "fold_world \<Rightarrow> journal_event \<Rightarrow> run_state \<Rightarrow> run_state" where
  "fold_vcs w e st =
     (case ev_kind e of
        K_SessionOpened \<Rightarrow> fold_session w e st
      | K_Push \<Rightarrow> fold_push w e st
      | K_MergeCompleted \<Rightarrow> fold_landing_commit w e st
      | _ \<Rightarrow> st)"

definition fold_record :: "fold_world \<Rightarrow> journal_event \<Rightarrow> run_state \<Rightarrow> run_state" where
  "fold_record w e st =
     (if ev_source e = From_Pipeline \<and> ev_kind e = K_DriverExited then st
      else
        (let at = (case millis_of (ev_ts e) of None \<Rightarrow> 0 | Some t \<Rightarrow> t);
             written = st\<lparr> r_last_write_at := Some (max at (case r_last_write_at st of None \<Rightarrow> 0 | Some t \<Rightarrow> t)) \<rparr>
         in if ev_source e \<noteq> From_Pipeline
            then (if ev_source e = From_Vcs then fold_vcs w e written else written)
            else if \<not> ev_known e then written\<lparr> r_strict := False \<rparr>
            else fold_kind w (ev_kind e) e (fold_recall e written)))"

definition fold_journal :: "fold_world \<Rightarrow> journal_event list \<Rightarrow> run_state" where
  "fold_journal w es = fold (fold_record w) es (blank_run\<lparr> r_strict := True \<rparr>)"

section \<open>A world for small runs\<close>

text \<open>The readers of a run of one node \<open>a\<close>, and a record of its journal.\<close>

definition one_world :: fold_world where
  "one_world = \<lparr> fw_edit = dropping_world,
     fw_plan = (\<lambda>_. Some (plain_plan [plain_node ''a'' []])),
     fw_operations = (\<lambda>_. Some [NodeParked ''a'' author_planner None]),
     fw_stack = (\<lambda>_. None), fw_reads_rework = (\<lambda>_. False),
     fw_restack_started = (\<lambda>p. map_option (\<lambda>k. (k, JNull)) (text_at p ''node'')),
     fw_restacked = (\<lambda>_. None), fw_retitled = (\<lambda>_. None), fw_landed = (\<lambda>_. None),
     fw_absorbed = (\<lambda>_. None), fw_closed = (\<lambda>_. None), fw_reopened = (\<lambda>_. None),
     fw_readjusted = (\<lambda>_. None), fw_checks = (\<lambda>_. None), fw_unverified = (\<lambda>_. None),
     fw_retired = (\<lambda>_. None),
     fw_session = (\<lambda>p. case (text_at p ''token'', text_at p ''branch'') of
        (Some t, Some b) \<Rightarrow> Some (t, b) | _ \<Rightarrow> None),
     fw_arrival_note = (\<lambda>_. None) \<rparr>"

definition record_of :: "event_source \<Rightarrow> event_kind \<Rightarrow> (str \<times> json) list \<Rightarrow> journal_event" where
  "record_of source what p = \<lparr> ev_source = source, ev_kind = what, ev_node = Some ''a'',
     ev_ts = ''2026-01-02T03:04:05.006Z'', ev_stream = ''s1'', ev_known = True, ev_payload = p \<rparr>"

end
