(* ===== verification/Draft_Stack.thy ===== *)
theory Draft_Stack
  imports Run_Fold Plan_Sound
begin

text \<open>
  Stacked drafts (\<open>src/src/stack.rs\<close>): the unlanded work a node is placed on, the restacks a
  moved parent owes, and the block that says so in a change request's description.
\<close>

section \<open>Where a node stands\<close>

record draft_parent =
  dp_node :: str
  dp_branch :: str
  dp_head :: str
  dp_change_url :: "str option"

text \<open>\<open>Stack::OnStackBase { root, branch, parents }\<close>; \<open>Several\<close> is a list of two or more.\<close>

datatype stack = On_Parent draft_parent | On_Stack_Base str str "draft_parent list"

definition several :: "'a list \<Rightarrow> 'a list + 'a list" where
  "several ps = (if 2 \<le> length ps then Inr ps else Inl ps)"

fun stack_on :: "stack \<Rightarrow> str" where
  "stack_on (On_Parent p) = dp_branch p"
| "stack_on (On_Stack_Base _ b _) = b"

fun stack_parents :: "stack \<Rightarrow> draft_parent list" where
  "stack_parents (On_Parent p) = [p]"
| "stack_parents (On_Stack_Base _ _ ps) = ps"

definition stack_settled :: "str bmap \<Rightarrow> stack \<Rightarrow> settled_stack" where
  "stack_settled heads s = \<lparr>
     ss_parents = map (\<lambda>p. \<lparr> sp_node = dp_node p, sp_branch = dp_branch p,
       sp_head = (case bget heads (dp_branch p) of None \<Rightarrow> dp_head p | Some h \<Rightarrow> h) \<rparr>) (stack_parents s),
     ss_base = (case s of On_Parent _ \<Rightarrow> None | On_Stack_Base _ b _ \<Rightarrow> Some b) \<rparr>"

definition stack_base_branch :: "str \<Rightarrow> str \<Rightarrow> str \<Rightarrow> str" where
  "stack_base_branch prefix plan k = prefix @ ''stack-base'' @ ''/'' @ plan @ ''/'' @ k"

section \<open>Chains of the record\<close>

text \<open>
  Following a map from an id until it names nothing, or an id comes round again: what
  \<open>absorbed\<close> and \<open>superseded\<close> are read by (\<open>placement\<close>, \<open>newest_of\<close>, \<open>head_of\<close>).
\<close>

lemma unseen_key_measure:
  assumes "bget m at = Some x" "at \<notin> set seen"
  shows "card (fst ` set m - insert at (set seen)) < card (fst ` set m - set seen)"
proof -
  have "at \<in> fst ` set m" using assms(1) by (force dest: bget_Some_in)
  with assms(2) show ?thesis by (intro psubset_card_mono) auto
qed

function follow :: "str bmap \<Rightarrow> str list \<Rightarrow> str \<Rightarrow> str" where
  "follow m seen at =
     (case bget m at of
        None \<Rightarrow> at
      | Some next \<Rightarrow> if at \<in> set seen then at else follow m (at # seen) next)"
  by auto
termination
  by (relation "measure (\<lambda>(m, seen, at). card (fst ` set m - set seen))") (simp_all add: unseen_key_measure)

declare follow.simps [simp del]

definition newest_of :: "run_state \<Rightarrow> str \<Rightarrow> str" where
  "newest_of st k = follow (r_superseded st) [] k"

definition absorber_of :: "run_state \<Rightarrow> str \<Rightarrow> str" where
  "absorber_of st k = follow (r_absorbed st) [] k"

text \<open>\<open>root_of\<close>: the node's own base, the root of the stack it was drafted on, or its session's base.\<close>

function root_of :: "run_state \<Rightarrow> str list \<Rightarrow> str \<Rightarrow> str option" where
  "root_of st seen k =
     (if k \<in> set seen then None
      else case Option.bind (graph_get (r_graph st) k) base_branch of
        Some b \<Rightarrow> Some b
      | None \<Rightarrow>
          (case bget (r_stacks st) k of
             None \<Rightarrow> bget (r_bases st) k
           | Some s \<Rightarrow>
               (case ss_parents s of
                  [] \<Rightarrow> bget (r_bases st) k
                | lowest # _ \<Rightarrow> root_of st (k # seen) (sp_node lowest))))"
  by auto
termination
  by (relation "measure (\<lambda>(st, seen, k). card (fst ` set (r_stacks st) - set seen))")
    (simp_all add: unseen_key_measure)

declare root_of.simps [simp del]

section \<open>What a node depends on\<close>

text \<open>\<open>ancestors\<close>, with the top of its stack first.\<close>

function ancestors_walk :: "graph \<Rightarrow> str set \<Rightarrow> str list \<Rightarrow> str set" where
  "ancestors_walk g found [] = found"
| "ancestors_walk g found (k # pending) =
     (case graph_get g k of
        None \<Rightarrow> ancestors_walk g found pending
      | Some n \<Rightarrow>
          if node_id n \<in> found then ancestors_walk g found pending
          else ancestors_walk g (insert (node_id n) found) (rev (deps n) @ pending))"
  by pat_completeness auto
termination
proof (relation "measures [\<lambda>(g, found, _). card (node_id ` snd ` set (nodes g) - found), \<lambda>(_, _, p). length p]")
  fix g :: graph and found k n
  assume "graph_get g k = Some n" "node_id n \<notin> found"
  then have "node_id n \<in> node_id ` snd ` set (nodes g) - found"
    by (force simp: graph_get_def dest: bget_Some_in)
  then have "card (node_id ` snd ` set (nodes g) - insert (node_id n) found)
      < card (node_id ` snd ` set (nodes g) - found)"
    by (intro psubset_card_mono) auto
  then show "((g, insert (node_id n) found, rev (deps n) @ pending), g, found, k # pending)
      \<in> measures [\<lambda>(g, found, _). card (node_id ` snd ` set (nodes g) - found), \<lambda>(_, _, p). length p]" for pending
    by simp
qed auto

definition ancestors :: "graph \<Rightarrow> str \<Rightarrow> str set" where
  "ancestors g k = ancestors_walk g {} (case graph_get g k of None \<Rightarrow> [] | Some n \<Rightarrow> rev (deps n))"

section \<open>Placement\<close>

text \<open>
  A stack parent: a dependency, or the node it was absorbed into, of the same repository, done,
  unlanded and with a branch on the record.
\<close>

definition candidate ::
  "run_state \<Rightarrow> node_status bmap \<Rightarrow> str \<Rightarrow> (str \<Rightarrow> str \<Rightarrow> bool) \<Rightarrow> str \<Rightarrow> str option" where
  "candidate st statuses r same dep =
     (case graph_get (r_graph st) (absorber_of st dep) of
        None \<Rightarrow> None
      | Some parent \<Rightarrow>
          (case repo parent of
             None \<Rightarrow> None
           | Some pr \<Rightarrow>
               if bget statuses (node_id parent) \<noteq> Some Done
                  \<or> bget (r_landings st) (node_id parent) \<noteq> Some Unlanded
                  \<or> bget (r_branches st) (node_id parent) = None
               then None
               else if pr \<noteq> r \<and> \<not> same r pr then None
               else Some (node_id parent)))"

definition candidates ::
  "run_state \<Rightarrow> node_status bmap \<Rightarrow> str \<Rightarrow> (str \<Rightarrow> str \<Rightarrow> bool) \<Rightarrow> str list \<Rightarrow> str list" where
  "candidates st statuses r same ds =
     fold (\<lambda>dep cs. case candidate st statuses r same dep of
        None \<Rightarrow> cs | Some k \<Rightarrow> if k \<in> set cs then cs else cs @ [k]) ds []"

definition kept :: "graph \<Rightarrow> str list \<Rightarrow> str list" where
  "kept g cs = filter (\<lambda>c. \<not> (\<exists>other \<in> set cs. other \<noteq> c \<and> c \<in> ancestors g other)) cs"

datatype placement_refusal =
    Parent_Without_Commit str str
  | No_Root_For str "str list"

text \<open>\<open>state.branches[id]\<close>: every candidate has a branch, so the fallback is never read.\<close>

definition branch_at :: "run_state \<Rightarrow> str \<Rightarrow> str" where
  "branch_at st k = (case bget (r_branches st) k of None \<Rightarrow> [] | Some b \<Rightarrow> b)"

fun parents_of :: "run_state \<Rightarrow> node \<Rightarrow> str list \<Rightarrow> placement_refusal + draft_parent list" where
  "parents_of st n [] = Inr []"
| "parents_of st n (k # ks) =
     (case bget (r_heads st) k of
        None \<Rightarrow> Inl (Parent_Without_Commit (node_id n) k)
      | Some head \<Rightarrow>
          and_then (parents_of st n ks) (\<lambda>ps. Inr (\<lparr>
            dp_node = k, dp_branch = branch_at st k,
            dp_head = head, dp_change_url = bget (r_change_urls st) k \<rparr> # ps)))"

definition placement ::
  "run_state \<Rightarrow> node_status bmap \<Rightarrow> node \<Rightarrow> str \<Rightarrow> (str \<Rightarrow> str \<Rightarrow> bool)
     \<Rightarrow> placement_refusal + stack option" where
  "placement st statuses n plan same =
     (if publish n = Preserve then Inr None
      else case repo n of
        None \<Rightarrow> Inr None
      | Some r \<Rightarrow>
          (let ks = kept (r_graph st) (candidates st statuses r same (deps n))
           in and_then (parents_of st n ks) (\<lambda>parents.
                case several parents of
                  Inl fewer \<Rightarrow> Inr (case fewer of [] \<Rightarrow> None | p # _ \<Rightarrow> Some (On_Parent p))
                | Inr ps \<Rightarrow>
                    (case or_else (base_branch n) (root_of st [] (dp_node (hd ps))) of
                       None \<Rightarrow> Inl (No_Root_For (node_id n) ks)
                     | Some root \<Rightarrow>
                         Inr (Some (On_Stack_Base root
                           (stack_base_branch (case r_branch_prefix st of None \<Rightarrow> [] | Some p \<Rightarrow> p) plan (node_id n))
                           ps))))))"

section \<open>Restacks owed\<close>

datatype restack_cause = Cause_Rework | Cause_Restack | Cause_Readjust

record owed_restack =
  ow_node :: str
  ow_branch :: str
  ow_stack :: stack
  ow_cause :: restack_cause

definition owed_onto :: "owed_restack \<Rightarrow> (str \<times> str) list" where
  "owed_onto w = map (\<lambda>p. (dp_branch p, dp_head p)) (stack_parents (ow_stack w))"

text \<open>Where the branch of a recorded parent stands now, where that is not where it was.\<close>

definition moved_head :: "run_state \<Rightarrow> stack_parent \<Rightarrow> str option" where
  "moved_head st p =
     (case bget (r_branch_heads st) (sp_branch p) of
        None \<Rightarrow> None | Some now \<Rightarrow> if now \<noteq> sp_head p then Some now else None)"

definition parent_now :: "run_state \<Rightarrow> stack_parent \<Rightarrow> draft_parent" where
  "parent_now st p = \<lparr>
     dp_node = newest_of st (sp_node p), dp_branch = sp_branch p,
     dp_head = (case moved_head st p of None \<Rightarrow> sp_head p | Some now \<Rightarrow> now),
     dp_change_url = or_else (bget (r_change_urls st) (newest_of st (sp_node p)))
       (bget (r_change_urls st) (sp_node p)) \<rparr>"

definition first_moved :: "run_state \<Rightarrow> stack_parent list \<Rightarrow> str option" where
  "first_moved st ps = map_option (\<lambda>p. newest_of st (sp_node p)) (find (\<lambda>p. moved_head st p \<noteq> None) ps)"

definition restack_onto :: "run_state \<Rightarrow> node \<Rightarrow> settled_stack \<Rightarrow> stack option" where
  "restack_onto st n recorded =
     (case (ss_base recorded, several (map (parent_now st) (ss_parents recorded))) of
        (None, Inl [p]) \<Rightarrow> Some (On_Parent p)
      | (Some b, Inr ps) \<Rightarrow>
          (case or_else (base_branch n) (root_of st [] (dp_node (hd ps))) of
             None \<Rightarrow> None | Some root \<Rightarrow> Some (On_Stack_Base root b ps))
      | _ \<Rightarrow> None)"

definition restack_owed ::
  "run_state \<Rightarrow> node_status bmap \<Rightarrow> (str \<Rightarrow> bool) \<Rightarrow> node \<Rightarrow> owed_restack option" where
  "restack_owed st statuses busy n =
     (let k = node_id n in
      if repo n = None \<or> bget statuses k \<noteq> Some Done \<or> bget (r_landings st) k \<noteq> Some Unlanded
         \<or> bget (r_absorbed st) k \<noteq> None \<or> k \<in> r_closed_changes st \<or> busy k
      then None
      else case (bget (r_branches st) k, bget (r_stacks st) k) of
        (Some b, Some recorded) \<Rightarrow>
          (case first_moved st (ss_parents recorded) of
             None \<Rightarrow> None
           | Some moved \<Rightarrow>
               map_option (\<lambda>s. \<lparr> ow_node = k, ow_branch = b, ow_stack = s,
                 ow_cause = (if bget (r_restacking st) moved \<noteq> None \<or> bget (r_restacks st) moved \<noteq> None
                             then Cause_Restack else Cause_Rework) \<rparr>)
                 (restack_onto st n recorded))
      | _ \<Rightarrow> None)"

definition restacks_owed :: "run_state \<Rightarrow> node_status bmap \<Rightarrow> (str \<Rightarrow> bool) \<Rightarrow> owed_restack list" where
  "restacks_owed st statuses busy =
     List.map_filter (restack_owed st statuses busy) (graph_iter (r_graph st))"

section \<open>The Stack block\<close>

definition block_open :: str where "block_open = ''<!-- onepipeline:stack -->''"

definition block_close :: str where "block_close = ''<!-- /onepipeline:stack -->''"

definition task_heading :: str where "task_heading = ''## Stack''"

definition tick :: str where "tick = [CHR 0x60]"

definition ticked :: "str \<Rightarrow> str" where "ticked s = tick @ s @ tick"

definition url_or_none :: "str option \<Rightarrow> str" where
  "url_or_none u = (case u of None \<Rightarrow> ''(no change request on the record)'' | Some x \<Rightarrow> x)"

fun drafted_against :: "stack \<Rightarrow> str" where
  "drafted_against (On_Parent p) =
     ''Drafted against '' @ ticked (dp_branch p) @ '', the branch of '' @ ticked (dp_node p) @ '': ''
       @ url_or_none (dp_change_url p)"
| "drafted_against (On_Stack_Base root b ps) =
     ''Drafted against the stack base '' @ ticked b @ '', which merges '' @ ticked root
       @ '' and each change below:''
       @ concat (map (\<lambda>p. [nl] @ ''- '' @ ticked (dp_node p) @ '' ('' @ ticked (dp_branch p) @ ''): ''
                    @ url_or_none (dp_change_url p)) ps)"

definition stack_block :: "stack \<Rightarrow> str" where
  "stack_block s = block_open @ [nl] @ ''## Stack'' @ [nl, nl] @ drafted_against s @ [nl] @ block_close"

text \<open>\<open>readjust::root_block\<close>: the block of a draft placed on its root.\<close>

definition root_block :: "str \<Rightarrow> str" where
  "root_block root = block_open @ [nl] @ ''## Stack'' @ [nl, nl] @ ''Drafted against '' @ ticked root
     @ '', the root: every change it was stacked on has landed.'' @ [nl] @ block_close"

definition task_section :: "stack \<Rightarrow> str" where
  "task_section s =
     task_heading @ [nl, nl]
       @ ''This node's work is drafted on top of changes still in review. Its branch is cut from ''
       @ ticked (stack_on s) @ '', and its change request is opened against '' @ ticked (stack_on s)
       @ '', so the work below it is already on the branch: build on it and do not redo it.'' @ [nl]
       @ concat (map (\<lambda>p. [nl] @ ''- stack parent '' @ ticked (dp_node p) @ '': branch ''
            @ ticked (dp_branch p) @ '', change request '' @ url_or_none (dp_change_url p)) (stack_parents s))
       @ (case s of
            On_Parent p \<Rightarrow> [nl] @ ''- base: '' @ ticked (dp_branch p)
          | On_Stack_Base root b _ \<Rightarrow>
              [nl] @ ''- base: the stack base '' @ ticked b @ '', merging '' @ ticked root
                @ '' and each stack parent above'')"

definition drafting_section :: "stack \<Rightarrow> str" where
  "drafting_section s =
     task_heading @ [nl, nl]
       @ ''This change request is drafted against unlanded changes. After your body is written, ''
       @ ''the engine itself appends the block below to the description, and rewrites it whenever ''
       @ ''the base moves. Read it for what the change sits on; write no Stack block or ''
       @ ticked ''## Stack'' @ '' section of your own.'' @ [nl, nl] @ stack_block s"

text \<open>\<open>str::find\<close>: the text before the first occurrence, and the text from it on.\<close>

fun find_sub :: "str \<Rightarrow> str \<Rightarrow> (str \<times> str) option" where
  "find_sub pat [] = (if pat = [] then Some ([], []) else None)"
| "find_sub pat (c # s) =
     (if starts_with pat (c # s) then Some ([], c # s)
      else map_option (\<lambda>(before, at). (c # before, at)) (find_sub pat s))"

definition ends_with :: "str \<Rightarrow> str \<Rightarrow> bool" where
  "ends_with s tail \<longleftrightarrow> strip_suffix tail s \<noteq> None"

definition appended :: "str \<Rightarrow> str \<Rightarrow> str" where
  "appended description block =
     description
       @ (if description = [] \<or> ends_with description [nl, nl] then []
          else if ends_with description [nl] then [nl] else [nl, nl])
       @ block"

definition splice :: "str \<Rightarrow> str \<Rightarrow> str" where
  "splice description block =
     (case find_sub block_open description of
        None \<Rightarrow> appended description block
      | Some (before, at) \<Rightarrow>
          (case find_sub block_close at of
             None \<Rightarrow> appended description block
           | Some (_, close) \<Rightarrow> before @ block @ drop (length block_close) close))"

end
