(* ===== verification/Splice.thy ===== *)
theory Splice
  imports Draft_Stack
begin

text \<open>
  Writing the Stack block into a description (\<open>splice\<close>): what a second writing replaces, and
  what it takes away where the description holds half a marker.
\<close>

section \<open>First occurrences\<close>

lemma starts_with_app:
  assumes "starts_with pat (s @ t)" "\<not> starts_with pat s"
  shows "\<exists>u. u \<noteq> [] \<and> pat = s @ u \<and> starts_with u t"
proof -
  obtain r where "s @ t = pat @ r" using assms(1) by (auto simp: starts_with_iff)
  then obtain u where "s = pat @ u \<or> (pat = s @ u \<and> t = u @ r)"
    by (auto simp: append_eq_append_conv2)
  with assms(2) show ?thesis by (force simp: starts_with_iff)
qed

lemma not_straddling:
  assumes "starts_with pat ((x # s) @ t)" "\<not> starts_with pat (x # s)" "hd t \<notin> set (tl pat)"
  shows False
proof -
  obtain u where u: "u \<noteq> []" "pat = (x # s) @ u" "starts_with u t"
    using starts_with_app [OF assms(1,2)] by blast
  then have "hd t = hd u" "hd u \<in> set (tl pat)" by (cases u; auto simp: starts_with_iff)+
  with assms(3) show False by simp
qed

lemma find_sub_not_start: "find_sub pat s = None \<Longrightarrow> \<not> starts_with pat s"
  by (cases s) (auto simp: starts_with_iff split: if_splits)

lemma find_sub_tail: "find_sub pat (x # s) = None \<Longrightarrow> find_sub pat s = None"
  by (simp split: if_splits)

lemma find_sub_none_app:
  assumes "find_sub pat s = None" "find_sub pat t = None" "t = [] \<or> hd t \<notin> set (tl pat)"
  shows "find_sub pat (s @ t) = None"
  using assms(1)
proof (induction s)
  case Nil
  show ?case using assms(2) by simp
next
  case (Cons x s)
  have "\<not> starts_with pat ((x # s) @ t)"
    using not_straddling [of pat x s t] find_sub_not_start [OF Cons.prems] assms(3) by auto
  with Cons.IH [OF find_sub_tail [OF Cons.prems]] show ?case by simp
qed

lemma find_sub_first:
  assumes "find_sub pat s = None" "starts_with pat t" "t \<noteq> []" "hd t \<notin> set (tl pat)"
  shows "find_sub pat (s @ t) = Some (s, t)"
  using assms(1)
proof (induction s)
  case Nil
  show ?case using assms(2,3) by (cases t) auto
next
  case (Cons x s)
  have "\<not> starts_with pat ((x # s) @ t)"
    using not_straddling [of pat x s t] find_sub_not_start [OF Cons.prems] assms(4) by auto
  with Cons.IH [OF find_sub_tail [OF Cons.prems]] show ?case by simp
qed

lemma find_sub_Some:
  "find_sub pat s = Some (before, at) \<Longrightarrow> s = before @ at \<and> starts_with pat at"
  using starts_with_append [of "[]" "[]"]
  by (induction s arbitrary: before) (auto split: if_splits)

lemma find_sub_before:
  "find_sub pat s = Some (before, at) \<Longrightarrow> pat \<noteq> [] \<Longrightarrow> find_sub pat before = None"
proof (induction s arbitrary: before)
  case (Cons c s)
  show ?case
  proof (cases "starts_with pat (c # s)")
    case True
    with Cons.prems show ?thesis by auto
  next
    case False
    with Cons.prems(1) obtain b where b: "before = c # b" "find_sub pat s = Some (b, at)" by auto
    have "starts_with pat ((c # b) @ at)" if "starts_with pat (c # b)"
      using that unfolding starts_with_iff by (metis append_assoc)
    then have "\<not> starts_with pat (c # b)" using False find_sub_Some [OF b(2)] by auto
    with b Cons.IH [OF b(2) Cons.prems(2)] show ?thesis by simp
  qed
qed (auto split: if_splits)

section \<open>Markers\<close>

definition gap :: "str \<Rightarrow> str" where
  "gap d = (if d = [] \<or> ends_with d [nl, nl] then [] else if ends_with d [nl] then [nl] else [nl, nl])"

lemma appended_gap: "appended d b = (d @ gap d) @ b"
  by (simp add: appended_def gap_def)

lemma gap_free: "find_sub block_open (gap d) = None" "find_sub block_close (gap d) = None"
  "gap d = [] \<or> hd (gap d) = nl"
proof -
  have "find_sub block_open x = None \<and> find_sub block_close x = None" if "x \<in> {[], [nl], [nl, nl]}" for x
    using that by (elim insertE emptyE; hypsubst) code_simp+
  then show "find_sub block_open (gap d) = None" "find_sub block_close (gap d) = None"
    by (auto simp: gap_def)
qed (auto simp: gap_def)

lemma markers: "find_sub block_close block_open = None" "hd block_open = CHR ''<''" "hd block_close = CHR ''<''"
  "CHR ''<'' \<notin> set (tl block_open)" "CHR ''<'' \<notin> set (tl block_close)"
  "nl \<notin> set (tl block_open)" "nl \<notin> set (tl block_close)" "CHR ''D'' \<notin> set (tl block_close)"
  "block_open \<noteq> []" "block_close \<noteq> []" "CHR ''#'' \<notin> set (tl block_close)"
  "find_sub block_close ([nl] @ ''## Stack'' @ [nl, nl]) = None" "find_sub block_close [nl] = None"
  by code_simp+

definition inside_block :: "stack \<Rightarrow> str" where
  "inside_block s = ([nl] @ ''## Stack'' @ [nl, nl]) @ drafted_against s @ [nl]"

lemma stack_block_parts: "stack_block s = (block_open @ inside_block s) @ block_close"
  by (simp add: stack_block_def inside_block_def)

lemma inside_block_open:
  assumes "find_sub block_close (drafted_against s) = None"
  shows "find_sub block_close (block_open @ inside_block s) = None"
proof -
  have "drafted_against s \<noteq> [] \<and> hd (drafted_against s) = CHR ''D''" by (cases s) simp_all
  then have "find_sub block_close (drafted_against s @ [nl]) = None" "hd (drafted_against s @ [nl]) = CHR ''D''"
    using find_sub_none_app [OF assms markers(13)] by (simp_all add: markers del: find_sub.simps)
  then have "find_sub block_close (inside_block s) = None"
    using find_sub_none_app [OF markers(12)] unfolding inside_block_def by (simp add: markers del: find_sub.simps)
  then show ?thesis
    by (intro find_sub_none_app) (simp_all add: markers inside_block_def del: find_sub.simps)
qed

lemma find_close:
  assumes "find_sub block_close s = None"
  shows "find_sub block_close (s @ block_close @ r) = Some (s, block_close @ r)"
proof (rule find_sub_first [OF assms])
  show "hd (block_close @ r) \<notin> set (tl block_close)" by (simp add: markers)
qed (simp_all add: markers)

lemma find_open:
  assumes "find_sub block_open s = None"
  shows "find_sub block_open (s @ block_open @ r) = Some (s, block_open @ r)"
proof (rule find_sub_first [OF assms])
  show "hd (block_open @ r) \<notin> set (tl block_open)" by (simp add: markers)
qed (simp_all add: markers)

text \<open>A description where the first opening marker is that of a written block.\<close>

lemma splice_whole_block:
  assumes "find_sub block_open before = None" "find_sub block_close (block_open @ inner) = None"
  shows "splice (before @ (block_open @ inner @ block_close) @ rest) b = before @ b @ rest"
  using find_open [OF assms(1), of "inner @ block_close @ rest"] find_close [OF assms(2), of rest]
  by (simp add: splice_def)

text \<open>
  C20. What a second writing of the block makes of a description. Where the description held no
  marker, or a whole block, the block written first is replaced and the rest stays: the result
  is what one writing would have made. Where it held an opening marker with no closing one
  after it, which the first writing steps past, the second takes away everything from that
  marker on: whatever a person wrote after it is lost.
\<close>

theorem splice_rewrites_its_own_block:
  assumes "find_sub block_close (drafted_against s) = None"
  shows "splice (splice description (stack_block s)) block =
    (case find_sub block_open description of
       None \<Rightarrow> splice description block
     | Some (before, at) \<Rightarrow>
         if find_sub block_close at = None then before @ block else splice description block)"
proof (cases "find_sub block_open description")
  case None
  have "find_sub block_open (description @ gap description) = None"
    using gap_free(1) [of description] gap_free(3) [of description]
    by (intro find_sub_none_app None) (auto simp: markers)
  with splice_whole_block [OF _ inside_block_open [OF assms], of "description @ gap description" "[]"] None
  show ?thesis by (simp add: splice_def appended_gap stack_block_parts)
next
  case (Some found)
  obtain before at where at: "found = (before, at)" by (cases found)
  note open_at = Some [unfolded at]
  have free: "find_sub block_open before = None" using find_sub_before [OF open_at] by (simp add: markers)
  have parts: "description = before @ at" "starts_with block_open at" using find_sub_Some [OF open_at] by blast+
  show ?thesis
  proof (cases "find_sub block_close at")
    case None
    have "find_sub block_close (at @ gap description) = None"
      using gap_free(2,3) [of description] by (intro find_sub_none_app None) (auto simp: markers)
    then have "find_sub block_close ((at @ gap description) @ (block_open @ inside_block s)) = None"
      by (rule find_sub_none_app) (simp_all add: inside_block_open [OF assms] markers)
    moreover obtain r where r: "at = block_open @ r" using parts(2) by (auto simp: starts_with_iff)
    ultimately have "find_sub block_close (block_open @ (r @ gap description @ block_open @ inside_block s)) = None"
      by simp
    from splice_whole_block [OF free this, of "[]" block] None open_at parts(1) r at Some
    show ?thesis by (simp add: splice_def appended_gap stack_block_parts)
  next
    case (Some close)
    then obtain inner c where "find_sub block_close at = Some (inner, c)" by (cases close) simp
    with splice_whole_block [OF free inside_block_open [OF assms], of "drop (length block_close) c"] open_at at
    show ?thesis by (simp add: splice_def stack_block_parts)
  qed
qed

definition half_marked :: str where
  "half_marked = ''text '' @ block_open @ '' and more''"

definition on_a :: stack where
  "on_a = On_Parent \<lparr> dp_node = ''a'', dp_branch = ''work/a'', dp_head = ''h'', dp_change_url = None \<rparr>"

theorem splice_rewrites_its_own_block_witness:
  "splice (splice half_marked (stack_block on_a)) (root_block ''main'') = ''text '' @ root_block ''main''"
proof -
  have "find_sub block_close (drafted_against on_a) = None"
    and "find_sub block_open half_marked = Some (''text '', block_open @ '' and more'')"
    and "find_sub block_close (block_open @ '' and more'') = None" by code_simp+
  with splice_rewrites_its_own_block show ?thesis by (simp only: option.case prod.case refl if_True)
qed

end
