(* ===== verification/Readjust.thy ===== *)
theory Readjust
  imports Draft_Stack
begin

text \<open>
  Readjustment (\<open>src/src/readjust.rs\<close>, \<open>start_readjustments\<close> of \<open>src/src/engine.rs\<close>): the
  drafts of a run, what one read of the host says of them, and the pass that starts the
  restack each owed draft is ready for. The host is the argument \<open>standing\<close>; what else the code
  asks outside the run's state is a field of \<open>read_world\<close> or \<open>pass_world\<close>.
\<close>

section \<open>Drafts\<close>

record draft =
  dr_node :: str
  dr_url :: str
  dr_repo :: str
  dr_root :: "str option"

definition head_of :: "run_state \<Rightarrow> str \<Rightarrow> str" where
  "head_of st k = follow (r_superseded st) [] k"

text \<open>The first node of a lineage, walking \<open>superseded\<close> backwards.\<close>

function lineage_first :: "str bmap \<Rightarrow> str list \<Rightarrow> str \<Rightarrow> str" where
  "lineage_first m seen at =
     (if at \<in> set seen then at
      else case find (\<lambda>(_, r). r = at) m of
        None \<Rightarrow> at | Some (before, _) \<Rightarrow> lineage_first m (at # seen) before)"
  by auto
termination
  by (relation "measure (\<lambda>(m, seen, at). card (snd ` set m - set seen))")
    (auto intro: lineage_change_measure)

declare lineage_first.simps [simp del]

definition draft_root :: "run_state \<Rightarrow> str \<Rightarrow> str option" where
  "draft_root st k = or_else (root_of st [] (lineage_first (r_superseded st) [] k)) (root_of st [] k)"

definition draft_of :: "edit_world \<Rightarrow> run_state \<Rightarrow> node \<Rightarrow> draft option" where
  "draft_of w st n =
     (let k = node_id n in
      if bget (r_superseded st) k \<noteq> None \<or> bget (r_landings st) k = Some Landed
         \<or> bget (r_absorbed st) k \<noteq> None \<or> k \<in> r_closed_changes st
      then None
      else case (repo n, lineage_change w st [] k) of
        (Some r, Some url) \<Rightarrow> Some \<lparr> dr_node = k, dr_url = url, dr_repo = r, dr_root = draft_root st k \<rparr>
      | _ \<Rightarrow> None)"

definition drafts :: "edit_world \<Rightarrow> run_state \<Rightarrow> draft list" where
  "drafts w st = List.map_filter (draft_of w st) (graph_iter (r_graph st))"

text \<open>The drafts whose verdict the record still owes.\<close>

definition still_outstanding :: "run_state \<Rightarrow> str list" where
  "still_outstanding st =
     map node_id (filter (\<lambda>n. bget (r_superseded st) (node_id n) = None
         \<and> bget (r_landings st) (node_id n) \<noteq> Some Landed
         \<and> bget (r_outcomes st) (node_id n) = Some review_drafted_unchecked)
       (graph_iter (r_graph st)))"

section \<open>What one read says\<close>

datatype change_state =
    Ch_Open
  | Ch_Merged str str bool     \<comment> \<open>into, commit, landing\<close>
  | Ch_Closed bool             \<comment> \<open>whether its base is deleted\<close>
  | Ch_Other

datatype host_checks =
    Host_Passed | Host_Passed_With_Skipped | Host_None_Required | Host_Failed "str list" | Host_Pending

record standing =
  sd_state :: change_state
  sd_head :: str
  sd_head_branch :: str
  sd_base :: str
  sd_body :: str
  sd_checks :: host_checks

text \<open>
  \<open>repository_identity\<close>, the host's \<open>reopen_change\<close> (the restored base, or a refusal), and
  whether a merge's question is already raised.
\<close>

record read_world =
  rd_edit :: edit_world
  rd_identity :: "str \<Rightarrow> str option"
  rd_reopen :: "draft \<Rightarrow> str \<Rightarrow> str option"
  rd_asked :: "str \<Rightarrow> str \<Rightarrow> bool"

definition identity_of :: "read_world \<Rightarrow> str \<Rightarrow> str" where
  "identity_of w r = (case rd_identity w r of None \<Rightarrow> r | Some i \<Rightarrow> i)"

definition same_identity :: "read_world \<Rightarrow> str \<Rightarrow> str \<Rightarrow> bool" where
  "same_identity w a b \<longleftrightarrow> a = b \<or> identity_of w a = identity_of w b"

definition repo_of :: "run_state \<Rightarrow> str \<Rightarrow> str option" where
  "repo_of st k = Option.bind (graph_get (r_graph st) k) repo"

definition works_in :: "read_world \<Rightarrow> run_state \<Rightarrow> str \<Rightarrow> str \<Rightarrow> bool" where
  "works_in w st k r \<longleftrightarrow> (case repo_of st k of None \<Rightarrow> False | Some held \<Rightarrow> same_identity w held r)"

definition branch_owner :: "read_world \<Rightarrow> run_state \<Rightarrow> str \<Rightarrow> str \<Rightarrow> str option" where
  "branch_owner w st r b =
     map_option fst (find (\<lambda>(k, held). held = b \<and> works_in w st k r \<and> bget (r_superseded st) k = None)
       (r_branches st))"

text \<open>The records one read writes, and the question it raises; each surface goes with its record.\<close>

datatype taken_up =
    T_Landed str str str "str option"      \<comment> \<open>node, change, commit, via\<close>
  | T_Carried str "str list"
  | T_Absorbed str str str str             \<comment> \<open>node, into, change, commit\<close>
  | T_Elsewhere str str str
  | T_Reopened str str str                 \<comment> \<open>node, change, restored base\<close>
  | T_Closed str str
  | T_Checks str str checks_verdict

record detection =
  de_failures :: "(str \<times> str) list"        \<comment> \<open>repository, draft\<close>
  de_overridden :: "str bmap"
  de_red :: "(str \<times> str list) bmap"
  de_unrecovered :: "str set"
  de_merged_elsewhere :: "str set"

record found =
  fo_landed :: "str set"
  fo_absorbed :: "str bmap"

record reading =
  re_records :: "taken_up list"
  re_found :: found
  re_moved :: "str set"
  re_detection :: detection

definition nothing_read :: reading where
  "nothing_read = \<lparr> re_records = [], re_found = \<lparr> fo_landed = {}, fo_absorbed = [] \<rparr>, re_moved = {},
     re_detection = \<lparr> de_failures = [], de_overridden = [], de_red = [], de_unrecovered = {},
       de_merged_elsewhere = {} \<rparr> \<rparr>"

definition emit :: "taken_up \<Rightarrow> reading \<Rightarrow> reading" where
  "emit t rd = rd\<lparr> re_records := re_records rd @ [t] \<rparr>"

subsection \<open>Absorptions\<close>

text \<open>\<open>by_branch\<close> is collected into a map, so the last draft of a branch is the one it names.\<close>

definition read_owner :: "read_world \<Rightarrow> (draft \<times> standing) list \<Rightarrow> str \<Rightarrow> str \<Rightarrow> str option" where
  "read_owner w read r b =
     map_option (\<lambda>(d, _). dr_node d)
       (find (\<lambda>(d, s). identity_of w (dr_repo d) = identity_of w r \<and> sd_head_branch s = b) (rev read))"

definition absorber :: "read_world \<Rightarrow> run_state \<Rightarrow> (draft \<times> standing) list \<Rightarrow> draft \<Rightarrow> str \<Rightarrow> str option" where
  "absorber w st read d into =
     (case or_else (read_owner w read (dr_repo d) into) (branch_owner w st (dr_repo d) into) of
        None \<Rightarrow> None | Some k \<Rightarrow> if k = dr_node d then None else Some k)"

definition take_absorption ::
  "read_world \<Rightarrow> run_state \<Rightarrow> (draft \<times> standing) list \<Rightarrow> draft \<times> standing \<Rightarrow> reading \<Rightarrow> reading" where
  "take_absorption w st read ds rd =
     (let (d, s) = ds; k = dr_node d in
      case sd_state s of
        Ch_Merged into commit False \<Rightarrow>
          (case absorber w st read d into of
             Some into_node \<Rightarrow>
               (emit (T_Absorbed k into_node (dr_url d) commit) rd)
                 \<lparr> re_found := (re_found rd)\<lparr> fo_absorbed := bput k into_node (fo_absorbed (re_found rd)) \<rparr>,
                   re_moved := insert k (re_moved rd) \<rparr>
           | None \<Rightarrow>
               (if rd_asked w (dr_url d) commit then rd else emit (T_Elsewhere k into commit) rd)
                 \<lparr> re_detection := (re_detection rd)\<lparr> de_merged_elsewhere :=
                     insert k (de_merged_elsewhere (re_detection rd)) \<rparr> \<rparr>)
      | _ \<Rightarrow> rd)"

subsection \<open>Landings\<close>

text \<open>
  Where a chain of absorptions ends, and how many it passes; none where it comes round. The
  map and the chain walked so far, its first node included.
\<close>

function chain_end :: "str bmap \<Rightarrow> str list \<Rightarrow> str \<Rightarrow> nat \<Rightarrow> (str \<times> nat) option" where
  "chain_end every seen at depth =
     (case bget every at of
        None \<Rightarrow> Some (at, depth)
      | Some next \<Rightarrow> if at \<in> set seen then None else chain_end every (at # seen) next (depth + 1))"
  by auto
termination
  by (relation "measure (\<lambda>(m, seen, at, _). card (fst ` set m - set seen))") (simp_all add: unseen_key_measure)

declare chain_end.simps [simp del]

definition every_absorption :: "run_state \<Rightarrow> str bmap \<Rightarrow> str bmap" where
  "every_absorption st now = fold (\<lambda>(k, into). bput k into) now (r_absorbed st)"

definition absorbed_into :: "str bmap \<Rightarrow> str \<Rightarrow> (str \<times> str) list" where
  "absorbed_into every k =
     map (\<lambda>(a, into, _). (a, into)) (sort_key (\<lambda>(_, _, depth). depth)
       (List.map_filter (\<lambda>(a, into). case chain_end every [a] into 1 of
          None \<Rightarrow> None | Some (end, depth) \<Rightarrow> if end = k then Some (a, into, depth) else None) every))"

text \<open>\<open>unlanded_ancestors\<close>: through nodes of the same repository only.\<close>

function same_repo_walk :: "graph \<Rightarrow> str option \<Rightarrow> str set \<Rightarrow> str list \<Rightarrow> str set" where
  "same_repo_walk g r found [] = found"
| "same_repo_walk g r found (k # pending) =
     (case graph_get g k of
        None \<Rightarrow> same_repo_walk g r found pending
      | Some n \<Rightarrow>
          if repo n \<noteq> r \<or> k \<in> found then same_repo_walk g r found pending
          else same_repo_walk g r (insert k found) (rev (deps n) @ pending))"
  by pat_completeness auto
termination
proof (relation "measures [\<lambda>(g, _, found, _). card (fst ` set (nodes g) - found), \<lambda>(_, _, _, p). length p]")
  fix g :: graph and r :: "str option" and found k n
  assume "graph_get g k = Some n" "\<not> (repo n \<noteq> r \<or> k \<in> found)"
  then have "k \<in> fst ` set (nodes g) - found" by (force simp: graph_get_def dest: bget_Some_in)
  then have "card (fst ` set (nodes g) - insert k found) < card (fst ` set (nodes g) - found)"
    by (intro psubset_card_mono) auto
  then show "((g, r, insert k found, rev (deps n) @ pending), g, r, found, k # pending)
      \<in> measures [\<lambda>(g, _, found, _). card (fst ` set (nodes g) - found), \<lambda>(_, _, _, p). length p]" for pending
    by simp
qed auto

definition unlanded_ancestors :: "edit_world \<Rightarrow> run_state \<Rightarrow> str \<Rightarrow> str set \<Rightarrow> str list" where
  "unlanded_ancestors w st k landed_now =
     (let found = (case graph_get (r_graph st) k of
            None \<Rightarrow> same_repo_walk (r_graph st) None {} []
          | Some n \<Rightarrow> same_repo_walk (r_graph st) (repo n) {} (rev (deps n)))
      in filter (\<lambda>j. j \<in> found \<and> bget (r_superseded st) j = None
            \<and> bget (r_landings st) j \<noteq> Some Landed \<and> j \<notin> landed_now
            \<and> bget (r_absorbed st) j = None \<and> lineage_change w st [] j \<noteq> None)
          (map node_id (graph_iter (r_graph st))))"

definition take_landing ::
  "read_world \<Rightarrow> run_state \<Rightarrow> draft \<Rightarrow> str \<Rightarrow> reading \<Rightarrow> reading" where
  "take_landing w st d commit rd =
     (let k = dr_node d;
          through = List.map_filter (\<lambda>(a, into).
              if bget (r_landings st) a = Some Landed then None
              else map_option (\<lambda>url. T_Landed a url commit (Some into)) (lineage_change (rd_edit w) st [] a))
            (absorbed_into (every_absorption st (fo_absorbed (re_found rd))) k);
          carried = unlanded_ancestors (rd_edit w) st k (fo_landed (re_found rd));
          rd' = fold emit (T_Landed k (dr_url d) commit None # through
                  @ (if carried = [] then [] else [T_Carried k carried])) rd
      in rd'\<lparr> re_found := (re_found rd')\<lparr> fo_landed := insert k (fo_landed (re_found rd')) \<rparr>,
              re_moved := insert k (re_moved rd') \<rparr>)"

subsection \<open>Closes, verdicts and moves by hand\<close>

text \<open>The merged parent a closed draft was based on: in this read, or recorded landed.\<close>

definition merged_parent :: "read_world \<Rightarrow> run_state \<Rightarrow> (draft \<times> standing) list \<Rightarrow> draft \<Rightarrow> standing \<Rightarrow> str option" where
  "merged_parent w st read d s =
     or_else
       (map_option (\<lambda>(_, p). sd_head p)
         (find (\<lambda>(pd, p). same_identity w (dr_repo pd) (dr_repo d) \<and> sd_head_branch p = sd_base s
              \<and> (case sd_state p of Ch_Merged _ _ _ \<Rightarrow> True | _ \<Rightarrow> False)) read))
       (Option.bind
         (find (\<lambda>(k, b). b = sd_base s \<and> works_in w st k (dr_repo d) \<and> bget (r_landings st) k = Some Landed)
           (r_branches st))
         (\<lambda>(k, _). bget (r_heads st) k))"

definition take_close ::
  "read_world \<Rightarrow> run_state \<Rightarrow> (draft \<times> standing) list \<Rightarrow> draft \<Rightarrow> standing \<Rightarrow> bool \<Rightarrow> reading \<Rightarrow> reading" where
  "take_close w st read d s base_deleted rd =
     (case (if base_deleted then merged_parent w st read d s else None) of
        Some parent \<Rightarrow>
          (case rd_reopen w d parent of
             Some restored \<Rightarrow> emit (T_Reopened (dr_node d) (dr_url d) restored) rd
           | None \<Rightarrow> rd\<lparr> re_detection := (re_detection rd)
               \<lparr> de_failures := de_failures (re_detection rd) @ [(dr_repo d, dr_node d)],
                 de_unrecovered := insert (dr_node d) (de_unrecovered (re_detection rd)) \<rparr> \<rparr>)
      | None \<Rightarrow> emit (T_Closed (dr_node d) (dr_url d)) rd)"

fun checks_word :: "host_checks \<Rightarrow> checks_verdict" where
  "checks_word Host_Passed = Checks_Passed"
| "checks_word Host_Passed_With_Skipped = Checks_Passed_With_Skipped"
| "checks_word Host_None_Required = Checks_None_Required"
| "checks_word (Host_Failed _) = Checks_Failed"
| "checks_word Host_Pending = Checks_Pending"

definition settled_still :: "run_state \<Rightarrow> str \<Rightarrow> bool" where
  "settled_still st k \<longleftrightarrow>
     map_option rec_status (bget (r_recorded st) k) = Some Done \<and> bget (r_restacking st) k = None"

definition take_verdict :: "run_state \<Rightarrow> draft \<Rightarrow> standing \<Rightarrow> reading \<Rightarrow> reading" where
  "take_verdict st d s rd =
     (let k = dr_node d; outcome = bget (r_outcomes st) k; recorded = bget (r_heads st) k;
          owed = (outcome = Some review_drafted_unchecked \<and> recorded = Some (sd_head s));
          moved_past = ((outcome = Some review_drafted \<or> outcome = Some review_drafted_unchecked)
            \<and> recorded \<noteq> Some (sd_head s) \<and> settled_still st k
            \<and> bget (r_checks_read st) k \<noteq> Some (sd_head s))
      in if \<not> owed \<and> \<not> moved_past then rd
         else (let rd' = emit (T_Checks k (sd_head s) (checks_word (sd_checks s))) rd
               in case sd_checks s of
                    Host_Failed failed \<Rightarrow> rd'\<lparr> re_detection := (re_detection rd')
                      \<lparr> de_red := bput k (sd_head s, failed) (de_red (re_detection rd')) \<rparr> \<rparr>
                  | _ \<Rightarrow> rd'))"

definition take_standing ::
  "read_world \<Rightarrow> run_state \<Rightarrow> str set \<Rightarrow> (draft \<times> standing) list \<Rightarrow> draft \<times> standing \<Rightarrow> reading \<Rightarrow> reading" where
  "take_standing w st deferred read ds rd =
     (let (d, s) = ds in
      case sd_state s of
        Ch_Merged _ commit landing \<Rightarrow> if landing then take_landing w st d commit rd else rd
      | Ch_Closed base_deleted \<Rightarrow> take_close w st read d s base_deleted rd
      | _ \<Rightarrow> if sd_head s \<in> deferred then rd else take_verdict st d s rd)"

definition take_move :: "edit_world \<Rightarrow> run_state \<Rightarrow> draft \<times> standing \<Rightarrow> reading \<Rightarrow> reading" where
  "take_move w st ds rd =
     (let (d, s) = ds; k = dr_node d in
      if sd_state s \<noteq> Ch_Open then rd
      else case bget (r_bases st) k of
        None \<Rightarrow> rd
      | Some recorded \<Rightarrow>
          if \<not> settled_still st k then rd
          else if recorded \<noteq> sd_base s
               \<and> \<not> (bget (r_readjust_owed st) k \<noteq> None \<or> (\<exists>m \<in> re_moved rd. k \<in> connected w st m))
          then rd\<lparr> re_detection := (re_detection rd)
                 \<lparr> de_overridden := bput k (sd_base s) (de_overridden (re_detection rd)) \<rparr> \<rparr>
          else rd)"

text \<open>\<open>take_up\<close>: absorptions first, then what each standing says, then moves by hand.\<close>

definition take_up :: "read_world \<Rightarrow> run_state \<Rightarrow> str set \<Rightarrow> (draft \<times> standing) list \<Rightarrow> reading" where
  "take_up w st deferred read =
     fold (take_move (rd_edit w) st) read
       (fold (take_standing w st deferred read) read
         (fold (take_absorption w st read) read nothing_read))"

end
