(* ===== verification/Readjust_Pass.thy ===== *)
theory Readjust_Pass
  imports Readjust
begin

text \<open>
  What a driver keeps between reads (\<open>Readjuster\<close>) and the pass that starts the readjustment of
  every draft ready for it (\<open>start_readjustments\<close>, \<open>src/src/engine.rs\<close>).
\<close>

section \<open>What the driver remembers\<close>

record readjuster =
  ra_bodies :: "str bmap"
  ra_overridden :: "str bmap"
  ra_host_bases :: "str bmap"
  ra_red :: "(str \<times> str list) bmap"
  ra_tried :: "str set"
  ra_merged_elsewhere :: "str set"

text \<open>\<open>Readjuster::absorb\<close>, of a detection, the drafts it could not read, and the standings.\<close>

definition readjuster_absorb :: "detection \<Rightarrow> str set \<Rightarrow> (str \<times> standing) list \<Rightarrow> readjuster \<Rightarrow> readjuster" where
  "readjuster_absorb de unread standings ra =
     ra\<lparr> ra_tried := de_unrecovered de \<union> unread \<union> de_merged_elsewhere de,
         ra_merged_elsewhere := de_merged_elsewhere de,
         ra_bodies := fold (\<lambda>(k, s). bput k (sd_body s)) standings (ra_bodies ra),
         ra_host_bases := fold (\<lambda>(k, s) m. if sd_state s = Ch_Open then bput k (sd_base s) m else m)
           standings (ra_host_bases ra),
         ra_overridden := fold (\<lambda>(k, b). bput k b) (de_overridden de) (ra_overridden ra),
         ra_red := fold (\<lambda>(k, r). bput k r) (de_red de) (ra_red ra) \<rparr>"

definition owes_work :: "run_state \<Rightarrow> readjuster \<Rightarrow> bool" where
  "owes_work st ra \<longleftrightarrow>
     list_ex (\<lambda>k. bget (r_superseded st) k = None)
       (map fst (r_readjust_owed st) @ map fst (ra_overridden ra) @ map fst (ra_red ra))"

text \<open>
  \<open>descendants\<close>: what depends on a node, directly or not; what a question holds. Only ids
  \<open>dependents_of\<close> answers are ever pending, so the second guard is never taken: it is what the
  measure needs.
\<close>

function descendants_walk :: "graph \<Rightarrow> str set \<Rightarrow> str list \<Rightarrow> str set" where
  "descendants_walk g found [] = found"
| "descendants_walk g found (k # pending) =
     (if k \<in> found \<or> k \<notin> node_id ` set (graph_iter g) then descendants_walk g found pending
      else descendants_walk g (insert k found) (rev (dependents_of g k) @ pending))"
  by pat_completeness auto
termination
proof (relation "measures [\<lambda>(g, found, _). card (node_id ` set (graph_iter g) - found), \<lambda>(_, _, p). length p]")
  fix g :: graph and found k
  assume "\<not> (k \<in> found \<or> k \<notin> node_id ` set (graph_iter g))"
  then have "card (node_id ` set (graph_iter g) - insert k found) < card (node_id ` set (graph_iter g) - found)"
    by (intro psubset_card_mono) auto
  then show "((g, insert k found, rev (dependents_of g k) @ pending), g, found, k # pending)
      \<in> measures [\<lambda>(g, found, _). card (node_id ` set (graph_iter g) - found), \<lambda>(_, _, p). length p]" for pending
    by simp
qed auto

definition descendants :: "graph \<Rightarrow> str \<Rightarrow> str set" where
  "descendants g k = descendants_walk g {} (rev (dependents_of g k))"

text \<open>The questions still open, by the node each is about.\<close>

definition held_elsewhere :: "graph \<Rightarrow> str list \<Rightarrow> str set" where
  "held_elsewhere g asked = set asked \<union> (\<Union>k \<in> set asked. descendants g k)"

section \<open>Where a draft stands and goes\<close>

record placed =
  pl_base :: str
  pl_parents :: "str list"

definition recorded_placement :: "run_state \<Rightarrow> str \<Rightarrow> placed option" where
  "recorded_placement st k =
     map_option (\<lambda>b. \<lparr> pl_base = b, pl_parents = (case bget (r_stacks st) k of
       None \<Rightarrow> [] | Some s \<Rightarrow> map sp_node (ss_parents s)) \<rparr>) (bget (r_bases st) k)"

definition placement_on :: "stack option \<Rightarrow> str \<Rightarrow> placed" where
  "placement_on s root =
     (case s of
        Some s \<Rightarrow> \<lparr> pl_base = stack_on s, pl_parents = map dp_node (stack_parents s) \<rparr>
      | None \<Rightarrow> \<lparr> pl_base = root, pl_parents = [] \<rparr>)"

definition block_on :: "stack option \<Rightarrow> str \<Rightarrow> str" where
  "block_on s root = (case s of None \<Rightarrow> root_block root | Some s \<Rightarrow> stack_block s)"

record retarget =
  rt_repo :: str
  rt_change :: str
  rt_base :: str
  rt_block :: str
  rt_body :: "str option"
  rt_remove_restored_base :: bool

text \<open>The description a retarget writes; none where no read returned one.\<close>

definition retargeted_body :: "retarget \<Rightarrow> str option" where
  "retargeted_body r = map_option (\<lambda>b. splice b (rt_block r)) (rt_body r)"

record readjustment =
  rj_from :: placed
  rj_to :: placed
  rj_cause :: "str list"
  rj_stack :: "stack option"
  rj_root :: str
  rj_retarget :: "retarget option"

section \<open>The pass\<close>

text \<open>
  What the pass is asked over: what a decision point holds, what an open question holds, which
  nodes the boundary lets dispatch and \<open>InPass::admit\<close> admits, and what the host answers of a
  retarget (whether it moved, or a refusal).
\<close>

record pass_world =
  pw_edit :: edit_world
  pw_statuses :: "node_status bmap"
  pw_paused :: "str set"
  pw_held :: "str set"
  pw_plan :: str
  pw_same :: "str \<Rightarrow> str \<Rightarrow> bool"
  pw_dispatching :: "node \<Rightarrow> bool"
  pw_admits :: "str \<Rightarrow> bool"
  pw_retargets :: "retarget \<Rightarrow> bool option"

datatype pass_act =
    Act_Restacked str readjustment "(str \<times> str) list"   \<comment> \<open>started, onto\<close>
  | Act_Retargeted str readjustment bool                    \<comment> \<open>moved with no merge\<close>
  | Act_Overridden str str                                   \<comment> \<open>said to be moved back\<close>

record pass_state =
  ps_flight :: "str set"
  ps_readjuster :: readjuster
  ps_acts :: "pass_act list"
  ps_stopped :: bool

definition readjust_queue :: "run_state \<Rightarrow> readjuster \<Rightarrow> str list" where
  "readjust_queue st ra =
     filter (\<lambda>k. (bget (r_readjust_owed st) k \<noteq> None \<or> bget (ra_overridden ra) k \<noteq> None)
          \<and> bget (r_superseded st) k = None \<and> k \<notin> r_closed_changes st)
       (map node_id (graph_iter (r_graph st)))"

definition waits_below :: "run_state \<Rightarrow> str set \<Rightarrow> readjuster \<Rightarrow> node \<Rightarrow> bool" where
  "waits_below st flight ra n \<longleftrightarrow>
     list_ex (\<lambda>dep. head_of st dep \<in> flight
        \<or> (bget (r_readjust_owed st) (head_of st dep) \<noteq> None \<and> head_of st dep \<notin> ra_merged_elsewhere ra))
       (deps n)"

text \<open>What is to be done for one draft: where it stands, where it goes and why.\<close>

definition readjustment_of :: "pass_world \<Rightarrow> run_state \<Rightarrow> readjuster \<Rightarrow> node \<Rightarrow> readjustment option" where
  "readjustment_of w st ra n =
     (let k = node_id n in
      case (repo n, bget (r_branches st) k, lineage_change (pw_edit w) st [] k) of
        (Some r, Some _, Some change) \<Rightarrow>
          (case placement st (pw_statuses w) n (pw_plan w) (pw_same w) of
             Inl _ \<Rightarrow> None
           | Inr stack \<Rightarrow>
               (case or_else (base_branch n) (root_of st [] k) of
                  None \<Rightarrow> None
                | Some root0 \<Rightarrow>
                    (let root = (case stack of Some (On_Stack_Base root' _ _) \<Rightarrow> root' | _ \<Rightarrow> root0);
                         recorded = (case recorded_placement st k of None \<Rightarrow> placement_on None root | Some p \<Rightarrow> p);
                         to = placement_on stack root;
                         host = or_else (bget (ra_overridden ra) k)
                           (case bget (ra_host_bases ra) k of
                              None \<Rightarrow> None
                            | Some b \<Rightarrow> if b \<noteq> pl_base to \<and> b \<noteq> pl_base recorded then Some b else None)
                     in Some \<lparr> rj_from = recorded\<lparr> pl_base := (case host of None \<Rightarrow> pl_base recorded | Some b \<Rightarrow> b) \<rparr>,
                          rj_to = to,
                          rj_cause = (case bget (r_readjust_owed st) k of None \<Rightarrow> [] | Some c \<Rightarrow> sorted_list_of_set c),
                          rj_stack = stack, rj_root = root,
                          rj_retarget = (if to \<noteq> recorded \<or> host \<noteq> None
                            then Some \<lparr> rt_repo = r, rt_change = change, rt_base = pl_base to,
                                   rt_block = block_on stack root, rt_body = bget (ra_bodies ra) k,
                                   rt_remove_restored_base = bget (r_reopened st) k \<noteq> None \<rparr>
                            else None) \<rparr>)))
      | _ \<Rightarrow> None)"

text \<open>The heads a restack brings the draft onto: its parents', or the root's at the landing.\<close>

definition readjusted_onto :: "run_state \<Rightarrow> (str \<Rightarrow> str option) \<Rightarrow> str \<Rightarrow> readjustment \<Rightarrow> (str \<times> str) list" where
  "readjusted_onto st landed_commit k r =
     (case rj_stack r of
        Some s \<Rightarrow> map (\<lambda>p. (dp_branch p, case bget (r_branch_heads st) (dp_branch p) of
          None \<Rightarrow> dp_head p | Some h \<Rightarrow> h)) (stack_parents s)
      | None \<Rightarrow> [(rj_root r,
          case or_else (Option.bind (find (\<lambda>c. bget (r_landed_how st) c \<noteq> None) (rev (rj_cause r))) landed_commit)
                 (bget (r_heads st) k) of None \<Rightarrow> [] | Some h \<Rightarrow> h)])"

definition act :: "pass_act \<Rightarrow> pass_state \<Rightarrow> pass_state" where
  "act a ps = ps\<lparr> ps_acts := ps_acts ps @ [a] \<rparr>"

definition mark_tried :: "str \<Rightarrow> pass_state \<Rightarrow> pass_state" where
  "mark_tried k ps =
     ps\<lparr> ps_readjuster := (ps_readjuster ps)\<lparr> ra_tried := insert k (ra_tried (ps_readjuster ps)) \<rparr> \<rparr>"

definition moved_back :: "str \<Rightarrow> readjustment \<Rightarrow> pass_state \<Rightarrow> pass_state" where
  "moved_back k r ps =
     (case bget (ra_overridden (ps_readjuster ps)) k of
        None \<Rightarrow> ps | Some _ \<Rightarrow> act (Act_Overridden k (pl_base (rj_to r))) ps)"

definition settle_override :: "str \<Rightarrow> pass_state \<Rightarrow> pass_state" where
  "settle_override k ps =
     ps\<lparr> ps_readjuster := (ps_readjuster ps)\<lparr> ra_overridden := bdel k (ra_overridden (ps_readjuster ps)) \<rparr> \<rparr>"

text \<open>The draft a pass reaches ready: nothing holds it, nothing below it still moves, and it is over.\<close>

definition ready_draft :: "pass_world \<Rightarrow> run_state \<Rightarrow> str \<Rightarrow> pass_state \<Rightarrow> (node \<times> readjustment \<times> node_status) option" where
  "ready_draft w st k ps =
     (if k \<in> ps_flight ps \<or> k \<in> pw_paused w \<or> k \<in> pw_held w \<or> k \<in> ra_tried (ps_readjuster ps) then None
      else case graph_get (r_graph st) k of
        None \<Rightarrow> None
      | Some n \<Rightarrow>
          if waits_below st (ps_flight ps) (ps_readjuster ps) n then None
          else (case (readjustment_of w st (ps_readjuster ps) n, bget (pw_statuses w) k) of
            (Some r, Some status) \<Rightarrow>
              if status \<in> {Done, Failed, Parked, Cancelled} then Some (n, r, status) else None
          | _ \<Rightarrow> None))"

text \<open>A draft settled \<open>done\<close> is restacked onto its placement, where there is room and it is admitted.\<close>

definition restack_one ::
  "pass_world \<Rightarrow> (str \<Rightarrow> str option) \<Rightarrow> run_state \<Rightarrow> str \<Rightarrow> node \<Rightarrow> readjustment \<Rightarrow> pass_state \<Rightarrow> pass_state" where
  "restack_one w landed_commit st k n r ps =
     (if unat (concurrency (r_graph st)) \<le> card (ps_flight ps) then ps\<lparr> ps_stopped := True \<rparr>
      else
        (let ps' = moved_back k r (mark_tried k ps);
             placed = n\<lparr> branch := bget (r_branches st) k, base_branch := Some (pl_base (rj_to r)), resume := None \<rparr>;
             onto = readjusted_onto st landed_commit k r
         in if \<not> pw_dispatching w placed then ps'
            else if \<not> pw_admits w k then ps'\<lparr> ps_stopped := True \<rparr>
            else if onto = [] then ps'
            else (settle_override k (act (Act_Restacked k r onto) ps'))\<lparr> ps_flight := insert k (ps_flight ps) \<rparr>))"

text \<open>One that failed, was cancelled or parked is moved where it belongs with no merge.\<close>

definition retarget_one :: "pass_world \<Rightarrow> str \<Rightarrow> readjustment \<Rightarrow> pass_state \<Rightarrow> pass_state" where
  "retarget_one w k r ps =
     (let ps' = moved_back k r (mark_tried k ps)
      in case rj_retarget r of
           None \<Rightarrow> settle_override k (act (Act_Retargeted k r False) ps')
         | Some rt \<Rightarrow>
             (case pw_retargets w rt of
                None \<Rightarrow> ps'
              | Some moved \<Rightarrow> settle_override k (act (Act_Retargeted k r moved) ps')))"

definition readjust_one ::
  "pass_world \<Rightarrow> (str \<Rightarrow> str option) \<Rightarrow> run_state \<Rightarrow> str \<Rightarrow> pass_state \<Rightarrow> pass_state" where
  "readjust_one w landed_commit st k ps =
     (if ps_stopped ps then ps
      else case ready_draft w st k ps of
        None \<Rightarrow> ps
      | Some (n, r, status) \<Rightarrow>
          if status = Done then restack_one w landed_commit st k n r ps else retarget_one w k r ps)"

definition readjust_pass ::
  "pass_world \<Rightarrow> (str \<Rightarrow> str option) \<Rightarrow> run_state \<Rightarrow> str set \<Rightarrow> readjuster \<Rightarrow> pass_state" where
  "readjust_pass w landed_commit st flight ra =
     fold (readjust_one w landed_commit st) (readjust_queue st ra)
       \<lparr> ps_flight = flight, ps_readjuster = ra, ps_acts = [], ps_stopped = False \<rparr>"

section \<open>What a pass starts\<close>

fun subject :: "pass_act \<Rightarrow> str" where
  "subject (Act_Restacked k _ _) = k"
| "subject (Act_Retargeted k _ _) = k"
| "subject (Act_Overridden k _) = k"

lemma act_simps [simp]:
  "ps_acts (act a ps) = ps_acts ps @ [a]" "ps_flight (act a ps) = ps_flight ps"
  "ps_readjuster (act a ps) = ps_readjuster ps" "ps_stopped (act a ps) = ps_stopped ps"
  "ps_acts (mark_tried k ps) = ps_acts ps" "ps_flight (mark_tried k ps) = ps_flight ps"
  "ps_stopped (mark_tried k ps) = ps_stopped ps"
  "ra_tried (ps_readjuster (mark_tried k ps)) = insert k (ra_tried (ps_readjuster ps))"
  "ra_merged_elsewhere (ps_readjuster (mark_tried k ps)) = ra_merged_elsewhere (ps_readjuster ps)"
  "ps_acts (settle_override k ps) = ps_acts ps" "ps_flight (settle_override k ps) = ps_flight ps"
  "ps_stopped (settle_override k ps) = ps_stopped ps"
  "ra_tried (ps_readjuster (settle_override k ps)) = ra_tried (ps_readjuster ps)"
  "ra_merged_elsewhere (ps_readjuster (settle_override k ps)) = ra_merged_elsewhere (ps_readjuster ps)"
  by (simp_all add: act_def mark_tried_def settle_override_def)

lemma moved_back_simps [simp]:
  "ps_flight (moved_back k r ps) = ps_flight ps" "ps_readjuster (moved_back k r ps) = ps_readjuster ps"
  "ps_stopped (moved_back k r ps) = ps_stopped ps"
  by (simp_all add: moved_back_def split: option.split)

lemma moved_back_acts:
  "ps_acts (moved_back k r ps) = ps_acts ps \<or> ps_acts (moved_back k r ps) = ps_acts ps @ [Act_Overridden k (pl_base (rj_to r))]"
  by (simp add: moved_back_def split: option.split)

lemma ready_draft_facts:
  assumes "ready_draft w st k ps = Some (n, r, status)"
  shows "k \<notin> ps_flight ps" "k \<notin> pw_paused w" "k \<notin> pw_held w" "k \<notin> ra_tried (ps_readjuster ps)"
    "graph_get (r_graph st) k = Some n" "\<not> waits_below st (ps_flight ps) (ps_readjuster ps) n"
    "bget (pw_statuses w) k = Some status"
  using assms by (auto simp: ready_draft_def split: option.split_asm if_split_asm)

lemma restack_one_effect:
  fixes w lc st k n r ps
  defines "ps' \<equiv> restack_one w lc st k n r ps"
  shows "\<exists>new. ps_acts ps' = ps_acts ps @ new \<and> (\<forall>a \<in> set new. subject a = k)"
    "ps_flight ps' = ps_flight ps \<or>
       (ps_flight ps' = insert k (ps_flight ps) \<and> card (ps_flight ps) < unat (concurrency (r_graph st)))"
    "Act_Restacked j r' onto \<in> set (ps_acts ps') \<Longrightarrow>
       Act_Restacked j r' onto \<in> set (ps_acts ps) \<or> (j = k \<and> k \<in> ps_flight ps')"
    "ra_tried (ps_readjuster ps) \<subseteq> ra_tried (ps_readjuster ps')"
    "ra_merged_elsewhere (ps_readjuster ps') = ra_merged_elsewhere (ps_readjuster ps)"
  using moved_back_acts [of k r "mark_tried k ps"]
  unfolding ps'_def restack_one_def Let_def by (auto split: if_splits)

lemma retarget_one_effect:
  fixes w k r ps
  defines "ps' \<equiv> retarget_one w k r ps"
  shows "\<exists>new. ps_acts ps' = ps_acts ps @ new \<and> (\<forall>a \<in> set new. subject a = k)"
    "ps_flight ps' = ps_flight ps"
    "Act_Restacked j r' onto \<in> set (ps_acts ps') \<Longrightarrow> Act_Restacked j r' onto \<in> set (ps_acts ps)"
    "ra_tried (ps_readjuster ps) \<subseteq> ra_tried (ps_readjuster ps')"
    "ra_merged_elsewhere (ps_readjuster ps') = ra_merged_elsewhere (ps_readjuster ps)"
  using moved_back_acts [of k r "mark_tried k ps"]
  unfolding ps'_def retarget_one_def Let_def by (auto split: option.splits)

text \<open>One draft of the pass: what it adds is about that draft, and it is added only where it is ready.\<close>

lemma readjust_one_effect:
  fixes w lc st k ps
  defines "ps' \<equiv> readjust_one w lc st k ps"
  shows "\<exists>new. ps_acts ps' = ps_acts ps @ new \<and> (\<forall>a \<in> set new. subject a = k) \<and>
      (new \<noteq> [] \<longrightarrow> ready_draft w st k ps \<noteq> None)"
    "ps_flight ps' = ps_flight ps \<or>
       (ps_flight ps' = insert k (ps_flight ps) \<and> card (ps_flight ps) < unat (concurrency (r_graph st)))"
    "Act_Restacked j r' onto \<in> set (ps_acts ps') \<Longrightarrow> Act_Restacked j r' onto \<in> set (ps_acts ps) \<or>
       (j = k \<and> k \<in> ps_flight ps' \<and> (\<exists>n r. ready_draft w st k ps = Some (n, r, Done)))"
    "ra_tried (ps_readjuster ps) \<subseteq> ra_tried (ps_readjuster ps')"
    "ra_merged_elsewhere (ps_readjuster ps') = ra_merged_elsewhere (ps_readjuster ps)"
proof -
  consider "ps' = ps" | n r status where "ready_draft w st k ps = Some (n, r, status)" "status = Done"
      "ps' = restack_one w lc st k n r ps"
    | n r status where "ready_draft w st k ps = Some (n, r, status)" "ps' = retarget_one w k r ps"
  proof (cases "ps_stopped ps \<or> ready_draft w st k ps = None")
    case True
    then have "ps' = ps" by (auto simp: ps'_def readjust_one_def)
    with that show ?thesis by blast
  next
    case False
    then obtain n r status where ready: "ready_draft w st k ps = Some (n, r, status)" by auto
    with False have "ps' = (if status = Done then restack_one w lc st k n r ps else retarget_one w k r ps)"
      by (simp add: ps'_def readjust_one_def)
    with that ready show ?thesis by (cases "status = Done") auto
  qed
  note effects = this
  show "\<exists>new. ps_acts ps' = ps_acts ps @ new \<and> (\<forall>a \<in> set new. subject a = k) \<and>
      (new \<noteq> [] \<longrightarrow> ready_draft w st k ps \<noteq> None)"
    by (rule effects) (use restack_one_effect(1) retarget_one_effect(1) in \<open>simp; blast\<close>)+
  show "ps_flight ps' = ps_flight ps \<or>
       (ps_flight ps' = insert k (ps_flight ps) \<and> card (ps_flight ps) < unat (concurrency (r_graph st)))"
    by (rule effects) (use restack_one_effect(2) retarget_one_effect(2) in \<open>simp; blast\<close>)+
  show "Act_Restacked j r' onto \<in> set (ps_acts ps') \<Longrightarrow> Act_Restacked j r' onto \<in> set (ps_acts ps) \<or>
       (j = k \<and> k \<in> ps_flight ps' \<and> (\<exists>n r. ready_draft w st k ps = Some (n, r, Done)))"
    by (rule effects) (use restack_one_effect(3) retarget_one_effect(3) in \<open>simp; blast\<close>)+
  show "ra_tried (ps_readjuster ps) \<subseteq> ra_tried (ps_readjuster ps')"
    by (rule effects) (use restack_one_effect(4) retarget_one_effect(4) in \<open>simp; blast\<close>)+
  show "ra_merged_elsewhere (ps_readjuster ps') = ra_merged_elsewhere (ps_readjuster ps)"
    by (rule effects) (use restack_one_effect(5) retarget_one_effect(5) in \<open>simp; blast\<close>)+
qed

end
