(* ===== verification/Draft_Sound.thy ===== *)
theory Draft_Sound
  imports Draft_Stack Edit_Accepted
begin

text \<open>
  What placement guarantees: the ancestors it walks are the reachable ones, the parents it keeps
  are the topmost unlanded dependencies, and a restack onto the heads it was owed for is owed
  no more.
\<close>

section \<open>Ancestors\<close>

definition depends :: "graph \<Rightarrow> (str \<times> str) set" where
  "depends g = {(k, d). graph_contains g d \<and> (\<exists>n. graph_get g k = Some n \<and> d \<in> set (deps n))}"

lemma depends_start: "(d, x) \<in> (depends g)\<^sup>* \<Longrightarrow> graph_contains g x \<Longrightarrow> graph_contains g d"
  by (erule converse_rtranclE) (auto simp: depends_def graph_contains_def)

lemma ancestors_walk_grows: "found \<subseteq> ancestors_walk g found pending"
  by (induction g found pending rule: ancestors_walk.induct) (auto split: option.split)

lemma ancestors_walk_pending:
  assumes "graph_ok g" "k \<in> set pending" "graph_contains g k"
  shows "k \<in> ancestors_walk g found pending"
  using assms
proof (induction g found pending rule: ancestors_walk.induct)
  case (2 g found j pending)
  show ?case
  proof (cases "k = j")
    case True
    then obtain n where n: "graph_get g j = Some n" using 2(6) by (auto simp: graph_contains_def)
    with graph_ok_id [OF 2(4)] have "node_id n = j" by blast
    with n show ?thesis
      using True ancestors_walk_grows [of found g pending] ancestors_walk_grows [of "insert j found" g "rev (deps n) @ pending"]
      by auto
  next
    case False
    with 2 show ?thesis by (auto split: option.split)
  qed
qed simp

lemma ancestors_walk_closed:
  assumes "graph_ok g" "\<And>x d. x \<in> found \<Longrightarrow> (x, d) \<in> depends g \<Longrightarrow> d \<in> found \<or> d \<in> set pending"
    and "x \<in> ancestors_walk g found pending" "(x, d) \<in> depends g"
  shows "d \<in> ancestors_walk g found pending"
  using assms
proof (induction g found pending rule: ancestors_walk.induct)
  case (1 g found)
  then show ?case by simp
next
  case (2 g found k pending)
  show ?case
  proof (cases "graph_get g k")
    case None
    have "d' \<in> found \<or> d' \<in> set pending" if "x' \<in> found" "(x', d') \<in> depends g" for x' d'
      using 2(5) [OF that] that(2) None by (auto simp: depends_def graph_contains_def)
    with 2(1) [OF None 2(4)] 2(6,7) None show ?thesis by simp
  next
    case (Some n)
    then have id: "node_id n = k" using 2(4) by (simp add: graph_ok_id)
    show ?thesis
    proof (cases "k \<in> found")
      case True
      have "d' \<in> found \<or> d' \<in> set pending" if "x' \<in> found" "(x', d') \<in> depends g" for x' d'
        using 2(5) [OF that] True by auto
      with 2(2) [OF Some _ 2(4)] 2(6,7) Some id True show ?thesis by simp
    next
      case False
      have "d' \<in> insert k found \<or> d' \<in> set (rev (deps n) @ pending)"
        if "x' \<in> insert k found" "(x', d') \<in> depends g" for x' d'
        using 2(5) [of x' d'] that Some by (auto simp: depends_def)
      with 2(3) [OF Some _ 2(4)] 2(6,7) Some id False show ?thesis by simp
    qed
  qed
qed

lemma ancestors_walk_reached:
  assumes "graph_ok g" "x \<in> ancestors_walk g found pending"
  shows "x \<in> found \<or> (graph_contains g x \<and> (\<exists>p \<in> set pending. (p, x) \<in> (depends g)\<^sup>*))"
  using assms
proof (induction g found pending rule: ancestors_walk.induct)
  case (1 g found)
  then show ?case by simp
next
  case (2 g found k pending)
  show ?case
  proof (cases "graph_get g k")
    case None
    with 2 show ?thesis by auto
  next
    case (Some n)
    then have id: "node_id n = k" using 2(4) by (simp add: graph_ok_id)
    show ?thesis
    proof (cases "k \<in> found")
      case True
      with 2(2) [OF Some _ 2(4)] 2(5) Some id show ?thesis by auto
    next
      case False
      have step: "(k, x) \<in> (depends g)\<^sup>*"
        if "d \<in> set (deps n)" "(d, x) \<in> (depends g)\<^sup>*" "graph_contains g x" for d
      proof -
        have "graph_contains g d" using that(2,3) by (rule depends_start)
        with that Some show ?thesis by (auto simp: depends_def intro: converse_rtrancl_into_rtrancl)
      qed
      have "graph_contains g k" using Some by (simp add: graph_contains_def)
      with 2(3) [OF Some _ 2(4)] 2(5) Some id False step show ?thesis by fastforce
    qed
  qed
qed

lemma ancestors_reached:
  assumes "graph_ok g"
  shows "ancestors g k = (depends g)\<^sup>+ `` {k}"
proof (cases "graph_get g k")
  case None
  then have "(k, x) \<notin> (depends g)\<^sup>+" for x
    by (auto simp: depends_def dest: tranclD)
  then have "(depends g)\<^sup>+ `` {k} = {}" by blast
  with None show ?thesis by (simp add: ancestors_def)
next
  case (Some n)
  let ?A = "ancestors_walk g {} (rev (deps n))"
  have "x \<in> ?A" if "(k, x) \<in> (depends g)\<^sup>+" for x
    using that
  proof (induction rule: trancl_induct)
    case (base x)
    with Some show ?case by (auto simp: depends_def intro: ancestors_walk_pending [OF assms])
  next
    case (step x y)
    from ancestors_walk_closed [OF assms _ step(3,2)] show ?case by simp
  qed
  moreover have "(k, x) \<in> (depends g)\<^sup>+" if "x \<in> ?A" for x
  proof -
    from ancestors_walk_reached [OF assms that] obtain d
      where d: "d \<in> set (deps n)" "(d, x) \<in> (depends g)\<^sup>*" "graph_contains g x" by auto
    then have "graph_contains g d" using depends_start by blast
    with d Some show ?thesis by (auto simp: depends_def intro: rtrancl_into_trancl2)
  qed
  ultimately show ?thesis using Some by (auto simp: ancestors_def)
qed

lemma accepted_graph_ok: "accepted_graph w es g \<Longrightarrow> graph_ok g"
  by (simp add: accepted_graph_def)

lemma accepted_graph_acyclic:
  assumes "accepted_graph w es g" "\<not> (\<exists>k. graph_contains g k \<and> is_cross_dag k)"
  shows "acyclic (depends g)"
proof (rule acyclic_subset)
  have "acyclic (dep_edges (from_plan (plan_of_edit g es)))"
    using assms(1) edited_acyclic by (auto simp: accepted_graph_def)
  then show "acyclic (dep_edges g)"
    by (simp add: plan_of_edit_def from_plan_to_plan [OF accepted_graph_ok [OF assms(1)]])
  show "depends g \<subseteq> dep_edges g" using assms(2) by (auto simp: depends_def dep_edges_def)
qed

section \<open>Candidates\<close>

lemma candidates_listed:
  "candidates st statuses r same ds =
     rev (remdups (rev (List.map_filter (candidate st statuses r same) ds)))"
proof (induction ds rule: rev_induct)
  case Nil
  then show ?case by (simp add: candidates_def List.map_filter_def)
next
  case (snoc d ds)
  have "candidates st statuses r same (ds @ [d]) =
      (case candidate st statuses r same d of None \<Rightarrow> candidates st statuses r same ds
       | Some k \<Rightarrow> if k \<in> set (candidates st statuses r same ds) then candidates st statuses r same ds
                  else candidates st statuses r same ds @ [k])"
    unfolding candidates_def by simp
  also note snoc.IH
  finally show ?case by (auto simp: List.map_filter_def split: option.split)
qed

lemma in_candidates:
  "k \<in> set (candidates st statuses r same ds) \<longleftrightarrow> (\<exists>d \<in> set ds. candidate st statuses r same d = Some k)"
  by (auto simp: candidates_listed in_map_filter)

lemma candidate_facts:
  assumes "candidate st statuses r same d = Some k"
  shows "bget (r_branches st) k \<noteq> None" "bget statuses k = Some Done" "bget (r_landings st) k = Some Unlanded"
  using assms by (auto simp: candidate_def split: option.splits if_splits)

lemma kept_distinct: "distinct cs \<Longrightarrow> distinct (kept g cs)"
  by (simp add: kept_def)

lemma depends_finite: "finite (depends g)"
proof (rule finite_subset)
  show "depends g \<subseteq> (fst ` set (nodes g)) \<times> (fst ` set (nodes g))"
    by (auto simp: depends_def graph_contains_def graph_get_def dest: bget_Some_in intro: rev_image_eqI)
qed simp

lemma kept_topmost:
  assumes "graph_ok g" "acyclic (depends g)"
  shows "set (kept g cs) = {k \<in> set cs. \<not> (\<exists>j \<in> set cs. (j, k) \<in> (depends g)\<^sup>+)}"
  using assms(2) by (auto simp: kept_def ancestors_reached [OF assms(1)] acyclic_def)

lemma below_a_kept_one:
  assumes "graph_ok g" "acyclic (depends g)" "k \<in> set cs"
  shows "\<exists>j \<in> set (kept g cs). (j, k) \<in> (depends g)\<^sup>*"
proof -
  have "wf ((depends g)\<^sup>+)"
    by (rule wf_trancl) (simp add: finite_acyclic_wf depends_finite assms(2))
  then obtain j where j: "j \<in> {j \<in> set cs. (j, k) \<in> (depends g)\<^sup>*}"
    and top: "\<And>i. (i, j) \<in> (depends g)\<^sup>+ \<Longrightarrow> i \<notin> {j \<in> set cs. (j, k) \<in> (depends g)\<^sup>*}"
    by (rule wfE_min [of _ k "{j \<in> set cs. (j, k) \<in> (depends g)\<^sup>*}"]) (use assms(3) in auto)
  have "(i, k) \<in> (depends g)\<^sup>*" if "(i, j) \<in> (depends g)\<^sup>+" for i
    using trancl_into_rtrancl [OF that] j by (auto intro: rtrancl_trans)
  then have "j \<in> set (kept g cs)"
    using j top unfolding kept_topmost [OF assms(1,2)] by blast
  with j show ?thesis by blast
qed

section \<open>Placement\<close>

lemma parents_of_Inr:
  "parents_of st n ks = Inr ps \<Longrightarrow>
     map dp_node ps = ks \<and>
     (\<forall>p \<in> set ps. bget (r_heads st) (dp_node p) = Some (dp_head p) \<and>
        dp_branch p = branch_at st (dp_node p) \<and>
        dp_change_url p = bget (r_change_urls st) (dp_node p))"
  by (induction ks arbitrary: ps) (auto split: option.split_asm)

lemma placement_parents:
  assumes "placement st statuses n plan same = Inr (Some s)"
  obtains r where "publish n = Land" "repo n = Some r"
    "parents_of st n (kept (r_graph st) (candidates st statuses r same (deps n))) = Inr (stack_parents s)"
  using assms
  by (cases "publish n")
    (auto simp: placement_def several_def Let_def Suc_le_eq split: option.splits if_splits list.splits sum.splits)

text \<open>
  C9. A node is placed on the top of the unlanded work it depends on: the stack parents are
  those of its draft dependencies (of its repository, done, unlanded, a dependency absorbed
  into another standing for that one) which no other draft dependency depends on, each once,
  with the branch and the commit the record holds; and every other draft dependency is a
  dependency, direct or not, of one of them.
\<close>

theorem placed_on_the_topmost_drafts:
  fixes st statuses r same n
  defines "drafts \<equiv> {k. \<exists>d \<in> set (deps n). candidate st statuses r same d = Some k}"
  assumes accepted: "accepted_graph w es (r_graph st)" "\<not> (\<exists>k. graph_contains (r_graph st) k \<and> is_cross_dag k)"
    and "repo n = Some r" and placed: "placement st statuses n plan same = Inr (Some s)"
  shows "distinct (map dp_node (stack_parents s)) \<and>
    set (map dp_node (stack_parents s)) = {k \<in> drafts. \<not> (\<exists>j \<in> drafts. (j, k) \<in> (depends (r_graph st))\<^sup>+)} \<and>
    (\<forall>k \<in> drafts. \<exists>j \<in> set (map dp_node (stack_parents s)). (j, k) \<in> (depends (r_graph st))\<^sup>*) \<and>
    (\<forall>p \<in> set (stack_parents s). bget (r_branches st) (dp_node p) = Some (dp_branch p) \<and>
       bget (r_heads st) (dp_node p) = Some (dp_head p))"
proof -
  let ?cs = "candidates st statuses r same (deps n)"
  note sound = accepted_graph_ok [OF accepted(1)] accepted_graph_acyclic [OF accepted]
  obtain r' where "repo n = Some r'"
    "parents_of st n (kept (r_graph st) (candidates st statuses r' same (deps n))) = Inr (stack_parents s)"
    using placed by (rule placement_parents)
  with \<open>repo n = Some r\<close> have parents: "parents_of st n (kept (r_graph st) ?cs) = Inr (stack_parents s)" by simp
  note these = parents_of_Inr [OF this]
  have drafts: "set ?cs = drafts" by (auto simp: drafts_def in_candidates)
  have nodes: "map dp_node (stack_parents s) = kept (r_graph st) ?cs" using these by blast
  have "distinct (kept (r_graph st) ?cs)" by (rule kept_distinct) (simp add: candidates_listed)
  moreover have "bget (r_branches st) (dp_node p) = Some (dp_branch p)" if "p \<in> set (stack_parents s)" for p
  proof -
    from that have "dp_node p \<in> set (kept (r_graph st) ?cs)" unfolding nodes [symmetric] by simp
    then have "dp_node p \<in> drafts" unfolding kept_topmost [OF sound] drafts by simp
    then have "bget (r_branches st) (dp_node p) \<noteq> None" unfolding drafts_def using candidate_facts(1) by blast
    then show ?thesis using these that by (auto simp: branch_at_def)
  qed
  ultimately show ?thesis
    using these kept_topmost [OF sound, of ?cs] below_a_kept_one [OF sound, of _ ?cs]
    unfolding nodes drafts by blast
qed

section \<open>Work a stack leaves out\<close>

text \<open>
  Four nodes: \<open>a\<close> and \<open>c\<close> of one repository, \<open>b\<close> between them of another, and \<open>d\<close>
  after \<open>a\<close> and \<open>c\<close>.
\<close>

definition service_node :: "str \<Rightarrow> str \<Rightarrow> str list \<Rightarrow> node" where
  "service_node k r ds = (work_node k ds)\<lparr> repo := Some r, title := Some ''feat: x'' \<rparr>"

definition gap_plan :: plan where
  "gap_plan = plain_plan
     [service_node ''a'' ''service'' [], service_node ''b'' ''site'' [''a''],
      service_node ''c'' ''service'' [''b''], service_node ''d'' ''service'' [''a'', ''c'']]"

definition gap_world :: fold_world where
  "gap_world = one_world\<lparr> fw_plan := (\<lambda>_. Some gap_plan) \<rparr>"

definition drafted_at :: "str \<Rightarrow> journal_event" where
  "drafted_at k = (record_of From_Pipeline K_NodeSettled
     [(''base'', JString ''main''), (''branch'', JString (''work/'' @ k)), (''head'', JString (''head-'' @ k)),
      (''landing'', JString ''unlanded''), (''status'', JString ''done'')])\<lparr> ev_node := Some k, ev_ts := [] \<rparr>"

definition gap_run :: "journal_event list" where
  "gap_run = [record_of From_Pipeline K_RunStarted [(''plan'', JNull)], drafted_at ''a'', drafted_at ''b'']"

definition placed_in :: "run_state \<Rightarrow> str \<Rightarrow> (placement_refusal + stack option) option" where
  "placed_in st k = map_option (\<lambda>n. placement st (statuses_with st (\<lambda>_. None)) n ''p'' (=))
     (graph_get (r_graph st) k)"

text \<open>
  A draft whose own dependencies held no draft was cut from the root; a later node that
  depends on it and on an unlanded draft below it through another repository is placed on it
  alone, so the work of the lower draft is on neither branch. Here \<open>c\<close> is placed on no stack
  while \<open>a\<close> is unlanded, and \<open>d\<close>, which depends on both, is placed on \<open>c\<close>'s branch.
\<close>

lemma a_stack_leaves_work_out:
  "check_plan open_siblings gap_plan = Inr () \<and>
   placed_in (fold_journal gap_world gap_run) ''c'' = Some (Inr None) \<and>
   (let st = fold_journal gap_world (gap_run @ [drafted_at ''c''])
    in bget (r_landings st) ''a'' = Some Unlanded \<and> bget (r_stacks st) ''c'' = None \<and>
       placed_in st ''d'' = Some (Inr (Some (On_Parent \<lparr> dp_node = ''c'', dp_branch = ''work/c'',
         dp_head = ''head-c'', dp_change_url = None \<rparr>))))"
  by code_simp

section \<open>What a restack settles\<close>

lemma restacks_owed_facts:
  assumes "owed \<in> set (restacks_owed st statuses busy)"
  obtains n recorded moved where "n \<in> set (graph_iter (r_graph st))" "node_id n = ow_node owed"
    "bget (r_stacks st) (ow_node owed) = Some recorded"
    "bget (r_branches st) (ow_node owed) = Some (ow_branch owed)"
    "first_moved st (ss_parents recorded) = Some moved"
    "restack_onto st n recorded = Some (ow_stack owed)"
proof -
  from assms obtain n where n: "n \<in> set (graph_iter (r_graph st))" "restack_owed st statuses busy n = Some owed"
    by (auto simp: restacks_owed_def in_map_filter)
  then show thesis
    by (auto simp: restack_owed_def Let_def intro: that [OF n(1)] split: if_split_asm option.split_asm)
qed

lemma restack_parents:
  assumes "restack_onto st n recorded = Some s"
  shows "stack_parents s = map (parent_now st) (ss_parents recorded)"
  using assms
  by (auto simp: restack_onto_def several_def split: option.splits if_splits list.splits sum.splits)

lemma parent_now_stands:
  "bget (r_branch_heads st) (dp_branch (parent_now st p)) \<in> {None, Some (dp_head (parent_now st p))}"
  by (auto simp: parent_now_def moved_head_def split: option.split)

lemma first_moved_None: "first_moved st ps = None \<longleftrightarrow> (\<forall>p \<in> set ps. moved_head st p = None)"
  by (auto simp: first_moved_def find_None_iff)

lemma owed_again:
  assumes "\<And>s. bget (r_stacks st) k = Some s \<Longrightarrow> \<forall>p \<in> set (ss_parents s). moved_head st p = None"
  shows "k \<notin> ow_node ` set (restacks_owed st statuses busy)"
proof
  assume "k \<in> ow_node ` set (restacks_owed st statuses busy)"
  then obtain owed where "owed \<in> set (restacks_owed st statuses busy)" "ow_node owed = k" by blast
  then show False
    using assms by (auto elim!: restacks_owed_facts simp flip: first_moved_None)
qed

lemma settled_frames:
  "r_stacks (fold_status k s st) = r_stacks st" "r_stacks (fold_outcome k x st) = r_stacks st"
  "r_stacks (fold_head w k p st) = r_stacks st" "r_stacks (pin_preserved_branch k t st) = r_stacks st"
  "r_branch_heads (fold_status k s st) = r_branch_heads st"
  "r_branch_heads (fold_outcome k x st) = r_branch_heads st"
  "r_branch_heads (fold_base w k p st) = r_branch_heads st"
  "r_branch_heads (pin_preserved_branch k t st) = r_branch_heads st"
  "r_branches (fold_base w k p st) = r_branches st" "r_branches (fold_head w k p st) = r_branches st"
  "r_branches (pin_preserved_branch k t st) = r_branches st"
  by (simp_all add: fold_status_def fold_outcome_def fold_head_def fold_base_def pin_preserved_branch_def
      end_the_park_def Let_def split: option.split)

lemma settled_cases:
  "r_stacks (case x of None \<Rightarrow> st | Some s \<Rightarrow> pin_preserved_branch k s st) = r_stacks st"
  "r_branch_heads (case x of None \<Rightarrow> st | Some s \<Rightarrow> pin_preserved_branch k s st) = r_branch_heads st"
  "r_branches (case x of None \<Rightarrow> st | Some s \<Rightarrow> pin_preserved_branch k s st) = r_branches st"
  "r_stacks (case y of None \<Rightarrow> st | Some r \<Rightarrow> if P r then st\<lparr> r_continued_reworks := m r \<rparr> else st) = r_stacks st"
  "r_branch_heads (case y of None \<Rightarrow> st | Some r \<Rightarrow> if P r then st\<lparr> r_continued_reworks := m r \<rparr> else st)
     = r_branch_heads st"
  by (simp_all add: settled_frames split: option.split)

lemma fold_settled_stack:
  "bget (r_stacks (fold_settled w k e st)) k =
     (if usable_at w (ev_payload e) ''base'' = None then bget (r_stacks st) k
      else case Option.bind (bget (ev_payload e) ''stack'') (fw_stack w) of
        Some s \<Rightarrow> if stack_is_usable (payload_limit (fw_edit w)) s then Some s else None
      | None \<Rightarrow> None)"
proof -
  have base: "bget (r_stacks (fold_base w k p st')) k =
     (if usable_at w p ''base'' = None then bget (r_stacks st') k
      else case Option.bind (bget p ''stack'') (fw_stack w) of
        Some s \<Rightarrow> if stack_is_usable (payload_limit (fw_edit w)) s then Some s else None
      | None \<Rightarrow> None)" for p st'
    by (simp add: fold_base_def split: option.split)
  show ?thesis
    by (simp add: fold_settled_def Let_def settled_cases settled_frames base)
qed

lemma fold_settled_branch_heads:
  assumes "bget (r_branches (fold_settled w k e st)) k \<noteq> Some b"
  shows "bget (r_branch_heads (fold_settled w k e st)) b = bget (r_branch_heads st) b"
proof -
  have head: "bget (r_branch_heads (fold_head w k p st')) b = bget (r_branch_heads st') b"
    if "bget (r_branches st') k \<noteq> Some b" for p st'
    using that by (simp add: fold_head_def Let_def split: option.split)
  show ?thesis
    using assms
    by (simp add: fold_settled_def Let_def settled_cases settled_frames head)
qed

text \<open>
  C11. A draft is owed a restack because a parent its settlement recorded stands elsewhere now,
  onto heads none of its parents' branches has moved past; and once the settlement of that
  restack is folded, naming the stack it was brought onto, it is owed none: not until a parent's
  branch moves again, whatever the statuses and whoever is busy.
\<close>

theorem a_restack_pays_its_debt:
  assumes owed: "owed \<in> set (restacks_owed st statuses busy)"
    and settled: "usable_at w (ev_payload e) ''base'' = Some base"
      "Option.bind (bget (ev_payload e) ''stack'') (fw_stack w) = Some (stack_settled heads (ow_stack owed))"
      "\<not> (\<exists>p \<in> set (stack_parents (ow_stack owed)).
         bget heads (dp_branch p) \<notin> {None, bget (r_branch_heads st) (dp_branch p)})"
    and st': "st' = fold_settled w (ow_node owed) e st"
      "bget (r_branches st') (ow_node owed) \<notin> Some ` dp_branch ` set (stack_parents (ow_stack owed))"
  shows "(\<exists>recorded. bget (r_stacks st) (ow_node owed) = Some recorded \<and>
      map sp_branch (ss_parents recorded) = map fst (owed_onto owed) \<and>
      map sp_head (ss_parents recorded) \<noteq> map snd (owed_onto owed)) \<and>
    (\<forall>(b, h) \<in> set (owed_onto owed). bget (r_branch_heads st) b \<in> {None, Some h}) \<and>
    ow_node owed \<notin> ow_node ` set (restacks_owed st' statuses' busy')"
proof -
  from owed obtain n recorded moved where recorded: "bget (r_stacks st) (ow_node owed) = Some recorded"
    "first_moved st (ss_parents recorded) = Some moved" "restack_onto st n recorded = Some (ow_stack owed)"
    by (rule restacks_owed_facts)
  note parents = restack_parents [OF recorded(3)]
  have stands: "bget (r_branch_heads st) (dp_branch p) \<in> {None, Some (dp_head p)}"
    if "p \<in> set (stack_parents (ow_stack owed))" for p
  proof -
    from that obtain q where q: "p = parent_now st q" unfolding parents by auto
    show ?thesis unfolding q by (rule parent_now_stands)
  qed
  have "map sp_head (ss_parents recorded) \<noteq> map snd (owed_onto owed)"
  proof
    assume same: "map sp_head (ss_parents recorded) = map snd (owed_onto owed)"
    from recorded(2) obtain p where p: "p \<in> set (ss_parents recorded)" "moved_head st p \<noteq> None"
      using first_moved_None [of st "ss_parents recorded"] by auto
    with same have "sp_head p = dp_head (parent_now st p)" by (simp add: owed_onto_def parents)
    with p(2) show False by (auto simp: parent_now_def moved_head_def split: option.splits if_splits)
  qed
  moreover have "map sp_branch (ss_parents recorded) = map fst (owed_onto owed)"
    by (simp add: owed_onto_def parents parent_now_def)
  moreover have "ow_node owed \<notin> ow_node ` set (restacks_owed st' statuses' busy')"
  proof (rule owed_again)
    fix s assume s: "bget (r_stacks st') (ow_node owed) = Some s"
    then have s: "s = stack_settled heads (ow_stack owed)"
      unfolding st'(1) fold_settled_stack using settled(1,2) by (simp split: if_splits)
    show "\<forall>p \<in> set (ss_parents s). moved_head st' p = None"
    proof
      fix p assume "p \<in> set (ss_parents s)"
      then obtain q where q: "q \<in> set (stack_parents (ow_stack owed))" "sp_branch p = dp_branch q"
        "sp_head p = (case bget heads (dp_branch q) of None \<Rightarrow> dp_head q | Some h \<Rightarrow> h)"
        by (auto simp: s stack_settled_def)
      then have "bget (r_branches st') (ow_node owed) \<noteq> Some (dp_branch q)" using st'(2) by blast
      then have "bget (r_branch_heads st') (dp_branch q) = bget (r_branch_heads st) (dp_branch q)"
        unfolding st'(1) by (rule fold_settled_branch_heads)
      with q stands [OF q(1)] settled(3) show "moved_head st' p = None"
        by (auto simp: moved_head_def split: option.split)
    qed
  qed
  ultimately show ?thesis using recorded(1) stands by (auto simp: owed_onto_def)
qed

text \<open>The draft of \<open>d\<close> on \<open>c\<close>, and \<open>c\<close>'s branch moved since.\<close>

definition gap_state :: run_state where
  "gap_state = blank_run\<lparr> r_graph := from_plan gap_plan,
     r_landings := [(''a'', Unlanded), (''c'', Unlanded), (''d'', Unlanded)],
     r_branches := [(''a'', ''work/a''), (''c'', ''work/c''), (''d'', ''work/d'')],
     r_heads := [(''a'', ''head-a''), (''c'', ''head-c'')],
     r_stacks := [(''d'', \<lparr> ss_parents = [\<lparr> sp_node = ''c'', sp_branch = ''work/c'', sp_head = ''head-c'' \<rparr>], ss_base = None \<rparr>)],
     r_branch_heads := [(''work/c'', ''new-c'')] \<rparr>"

definition all_done :: "node_status bmap" where
  "all_done = [(''a'', Done), (''b'', Done), (''c'', Done), (''d'', Done)]"

definition on_c :: "str \<Rightarrow> stack" where
  "on_c head = On_Parent \<lparr> dp_node = ''c'', dp_branch = ''work/c'', dp_head = head, dp_change_url = None \<rparr>"

theorem placed_on_the_topmost_drafts_witness:
  "\<exists>s. placement gap_state all_done (service_node ''d'' ''service'' [''a'', ''c'']) ''p'' (=) = Inr (Some s) \<and>
     map dp_node (stack_parents s) = [''c''] \<and> (''c'', ''a'') \<in> (depends (from_plan gap_plan))\<^sup>*"
proof -
  let ?n = "service_node ''d'' ''service'' [''a'', ''c'']"
  have g: "r_graph gap_state = from_plan gap_plan" by (simp add: gap_state_def)
  have "check_edited (w_siblings dropping_world) (plan_of_edit (from_plan gap_plan) []) = Inr ()" by code_simp
  then have accepted: "accepted_graph dropping_world [] (r_graph gap_state)"
    by (simp add: accepted_graph_def g graph_ok_from_plan)
  have "\<not> list_ex is_cross_dag (order_ids (from_plan gap_plan))" by code_simp
  then have local: "\<not> (\<exists>k. graph_contains (r_graph gap_state) k \<and> is_cross_dag k)"
    unfolding g by (auto simp: list_ex_iff graph_ok_order [OF graph_ok_from_plan])
  have placed: "placement gap_state all_done ?n ''p'' (=) = Inr (Some (on_c ''head-c''))" by code_simp
  have "repo ?n = Some ''service''" by (simp add: service_node_def)
  note topmost = placed_on_the_topmost_drafts [OF accepted local this placed]
  have "candidate gap_state all_done ''service'' (=) ''a'' = Some ''a''" by code_simp
  moreover have "''a'' \<in> set (deps ?n)" by (simp add: service_node_def work_node_def blank_node_def)
  ultimately have "\<exists>j \<in> set (map dp_node (stack_parents (on_c ''head-c''))). (j, ''a'') \<in> (depends (r_graph gap_state))\<^sup>*"
    using topmost by blast
  then show ?thesis using placed by (auto simp: on_c_def g)
qed

theorem a_restack_pays_its_debt_witness:
  "\<exists>owed st'. restacks_owed gap_state all_done (\<lambda>_. False) = [owed] \<and> ow_stack owed = on_c ''new-c'' \<and>
     ow_node owed \<notin> ow_node ` set (restacks_owed st' all_done (\<lambda>_. False))"
proof -
  define owed where "owed = \<lparr> ow_node = ''d'', ow_branch = ''work/d'', ow_stack = on_c ''new-c'', ow_cause = Cause_Rework \<rparr>"
  define w where "w = gap_world\<lparr> fw_stack := (\<lambda>_. Some (stack_settled [] (on_c ''new-c''))) \<rparr>"
  define e where "e = (drafted_at ''d'')\<lparr> ev_payload := [(''base'', JString ''work/c''), (''stack'', JNull)] \<rparr>"
  have owes: "restacks_owed gap_state all_done (\<lambda>_. False) = [owed]" unfolding owed_def by code_simp
  then have "owed \<in> set (restacks_owed gap_state all_done (\<lambda>_. False))" by simp
  moreover have "usable_at w (ev_payload e) ''base'' = Some ''work/c''" unfolding w_def e_def by code_simp
  moreover have "Option.bind (bget (ev_payload e) ''stack'') (fw_stack w) = Some (stack_settled [] (ow_stack owed))"
    by (simp add: e_def w_def owed_def)
  moreover have "bget (r_branches (fold_settled w ''d'' e gap_state)) ''d'' = Some ''work/d''"
    unfolding w_def e_def by code_simp
  then have "bget (r_branches (fold_settled w (ow_node owed) e gap_state)) (ow_node owed)
      \<notin> Some ` dp_branch ` set (stack_parents (ow_stack owed))" by (simp add: owed_def on_c_def)
  ultimately have "ow_node owed \<notin> ow_node ` set (restacks_owed (fold_settled w (ow_node owed) e gap_state) all_done (\<lambda>_. False))"
    using a_restack_pays_its_debt [OF _ _ _ _ refl, of owed gap_state all_done "\<lambda>_. False" w e "''work/c''" "[]"] by simp
  moreover have "ow_stack owed = on_c ''new-c''" by (simp add: owed_def)
  ultimately show ?thesis using owes by blast
qed

end
