(* ===== verification/Readjust_Sound.thy ===== *)
theory Readjust_Sound
  imports Readjust_Pass Draft_Sound
begin

text \<open>
  What a readjustment pass starts, what it leaves waiting, and two drafts it never comes back to.
\<close>

section \<open>What a pass starts\<close>

definition started :: "pass_act list \<Rightarrow> str list" where
  "started = List.map_filter (\<lambda>a. case a of Act_Restacked k _ _ \<Rightarrow> Some k | _ \<Rightarrow> None)"

lemma started_append: "started (as @ bs) = started as @ started bs"
  by (simp add: started_def List.map_filter_def)

lemma started_simps [simp]:
  "started [] = []" "started (Act_Restacked k r onto # as) = k # started as"
  "started (Act_Retargeted k r b # as) = started as" "started (Act_Overridden k s # as) = started as"
  by (simp_all add: started_def List.map_filter_simps)

lemma restack_one_started:
  "(started (ps_acts (restack_one w lc st k n r ps)) = started (ps_acts ps) \<and>
    ps_flight (restack_one w lc st k n r ps) = ps_flight ps) \<or>
   (started (ps_acts (restack_one w lc st k n r ps)) = started (ps_acts ps) @ [k] \<and>
    ps_flight (restack_one w lc st k n r ps) = insert k (ps_flight ps) \<and>
    card (ps_flight ps) < unat (concurrency (r_graph st)))"
  using moved_back_acts [of k r "mark_tried k ps"]
  unfolding restack_one_def Let_def by (auto simp: started_append)

lemma retarget_one_started:
  "started (ps_acts (retarget_one w k r ps)) = started (ps_acts ps)"
  "ps_flight (retarget_one w k r ps) = ps_flight ps"
  using moved_back_acts [of k r "mark_tried k ps"]
  unfolding retarget_one_def Let_def by (auto simp: started_append split: option.split)

lemma readjust_one_started:
  obtains "started (ps_acts (readjust_one w lc st k ps)) = started (ps_acts ps)"
    "ps_flight (readjust_one w lc st k ps) = ps_flight ps"
  | n r where "ready_draft w st k ps = Some (n, r, Done)"
    "started (ps_acts (readjust_one w lc st k ps)) = started (ps_acts ps) @ [k]"
    "ps_flight (readjust_one w lc st k ps) = insert k (ps_flight ps)"
    "card (ps_flight ps) < unat (concurrency (r_graph st))"
proof (cases "ps_stopped ps \<or> ready_draft w st k ps = None")
  case True
  then have "readjust_one w lc st k ps = ps" by (auto simp: readjust_one_def)
  with that(1) show ?thesis by simp
next
  case False
  then obtain n r status where ready: "ready_draft w st k ps = Some (n, r, status)" by auto
  with False have one: "readjust_one w lc st k ps =
      (if status = Done then restack_one w lc st k n r ps else retarget_one w k r ps)"
    by (simp add: readjust_one_def)
  show ?thesis
  proof (cases "status = Done")
    case True
    with one ready that restack_one_started [of w lc st k n r ps] show ?thesis by auto
  next
    case False
    with one that(1) retarget_one_started show ?thesis by simp
  qed
qed

text \<open>
  A draft started as the \<open>i\<close>-th of a pass: over, held by nothing, and above nothing that moves.
\<close>

definition rightly_started ::
  "pass_world \<Rightarrow> run_state \<Rightarrow> str set \<Rightarrow> readjuster \<Rightarrow> str list \<Rightarrow> str \<Rightarrow> bool" where
  "rightly_started w st flight ra before k \<longleftrightarrow>
     k \<in> set (readjust_queue st ra) \<and> bget (pw_statuses w) k = Some Done \<and>
     k \<notin> flight \<union> set before \<union> pw_paused w \<union> pw_held w \<union> ra_tried ra \<and>
     (\<exists>n. graph_get (r_graph st) k = Some n \<and>
        (\<forall>dep \<in> set (deps n). head_of st dep \<notin> flight \<union> set before \<and>
           (bget (r_readjust_owed st) (head_of st dep) = None \<or> head_of st dep \<in> ra_merged_elsewhere ra)))"

definition pass_inv ::
  "pass_world \<Rightarrow> run_state \<Rightarrow> str set \<Rightarrow> readjuster \<Rightarrow> pass_state \<Rightarrow> bool" where
  "pass_inv w st flight ra ps \<longleftrightarrow>
     ps_flight ps = flight \<union> set (started (ps_acts ps)) \<and>
     ra_tried ra \<subseteq> ra_tried (ps_readjuster ps) \<and>
     ra_merged_elsewhere (ps_readjuster ps) = ra_merged_elsewhere ra \<and>
     card (flight \<union> set (started (ps_acts ps))) \<le> max (card flight) (unat (concurrency (r_graph st))) \<and>
     distinct (started (ps_acts ps)) \<and> set (started (ps_acts ps)) \<inter> flight = {} \<and>
     (\<forall>i < length (started (ps_acts ps)).
        rightly_started w st flight ra (take i (started (ps_acts ps))) (started (ps_acts ps) ! i))"

lemma pass_inv_one:
  assumes inv: "pass_inv w st flight ra ps" and queued: "k \<in> set (readjust_queue st ra)" and "finite flight"
  shows "pass_inv w st flight ra (readjust_one w lc st k ps)"
proof -
  let ?ps = "readjust_one w lc st k ps" and ?ids = "started (ps_acts ps)"
  have tried: "ra_tried ra \<subseteq> ra_tried (ps_readjuster ?ps)"
    "ra_merged_elsewhere (ps_readjuster ?ps) = ra_merged_elsewhere ra"
    using inv readjust_one_effect(4,5) [where w = w and lc = lc and st = st and k = k and ps = ps]
    by (auto simp: pass_inv_def)
  show ?thesis
  proof (rule readjust_one_started [of w lc st k ps])
    assume "started (ps_acts ?ps) = ?ids" "ps_flight ?ps = ps_flight ps"
    with inv tried show ?thesis by (simp add: pass_inv_def)
  next
    fix n r
    assume ready: "ready_draft w st k ps = Some (n, r, Done)"
      and now: "started (ps_acts ?ps) = ?ids @ [k]" "ps_flight ?ps = insert k (ps_flight ps)"
        "card (ps_flight ps) < unat (concurrency (r_graph st))"
    note facts = ready_draft_facts [OF ready]
    have "rightly_started w st flight ra ?ids k"
      using facts inv queued unfolding rightly_started_def pass_inv_def waits_below_def
      by (auto simp: list_ex_iff)
    then have all: "\<forall>i < length (?ids @ [k]). rightly_started w st flight ra (take i (?ids @ [k])) ((?ids @ [k]) ! i)"
      using inv unfolding pass_inv_def by (auto simp: nth_append less_Suc_eq)
    have "card (insert k (ps_flight ps)) \<le> unat (concurrency (r_graph st))"
      using now(3) card_insert_le_m1 [of "unat (concurrency (r_graph st))" "ps_flight ps" k] by simp
    with all now tried facts(1) inv show ?thesis
      by (auto simp: pass_inv_def)
  qed
qed

lemma pass_inv_pass:
  assumes "finite flight"
  shows "pass_inv w st flight ra (readjust_pass w lc st flight ra)"
proof -
  have "pass_inv w st flight ra (fold (readjust_one w lc st) ks ps)"
    if "pass_inv w st flight ra ps" "set ks \<subseteq> set (readjust_queue st ra)" for ks ps
    using that by (induction ks arbitrary: ps) (simp_all add: pass_inv_one assms)
  moreover have "pass_inv w st flight ra
      \<lparr> ps_flight = flight, ps_readjuster = ra, ps_acts = [], ps_stopped = False \<rparr>"
    by (simp add: pass_inv_def)
  ultimately show ?thesis unfolding readjust_pass_def by blast
qed

text \<open>
  C10. What a pass starts: never more than the plan's concurrency beside what is already in
  flight, each draft once, and each settled \<open>done\<close>, neither superseded nor closed, held by
  nothing, and with every dependency's lineage head neither in flight, nor started earlier in
  the pass, nor itself still owed a readjustment (but for one merged into an unknown branch).
\<close>

theorem a_pass_moves_what_is_below_first:
  fixes w lc st flying ra
  defines "ps \<equiv> readjust_pass w lc st (set flying) ra"
  defines "ids \<equiv> started (ps_acts ps)"
  shows "distinct ids \<and> set ids \<inter> set flying = {} \<and> ps_flight ps = set flying \<union> set ids \<and>
    card (set flying \<union> set ids) \<le> max (card (set flying)) (unat (concurrency (r_graph st))) \<and>
    (\<forall>i < length ids.
       bget (pw_statuses w) (ids ! i) = Some Done \<and>
       bget (r_superseded st) (ids ! i) = None \<and>
       ids ! i \<notin> r_closed_changes st \<union> pw_paused w \<union> pw_held w \<union> ra_tried ra \<and>
       (\<exists>n. graph_get (r_graph st) (ids ! i) = Some n \<and>
          (\<forall>dep \<in> set (deps n). head_of st dep \<notin> set flying \<union> set (take i ids) \<and>
             (bget (r_readjust_owed st) (head_of st dep) = None \<or> head_of st dep \<in> ra_merged_elsewhere ra))))"
  using pass_inv_pass [of "set flying" w st ra lc]
  by (auto simp: pass_inv_def rightly_started_def readjust_queue_def ids_def ps_def)

section \<open>A closed draft\<close>

text \<open>
  A draft of four nodes of one repository: \<open>b\<close> on \<open>a\<close>, and \<open>c\<close> on \<open>b\<close> and \<open>x\<close>. \<open>a\<close> lands
  while \<open>b\<close> is closed, and then \<open>x\<close> lands, which moves \<open>c\<close>.
\<close>

definition stacked_plan :: plan where
  "stacked_plan = plain_plan
     [service_node ''a'' ''service'' [], service_node ''x'' ''service'' [],
      service_node ''b'' ''service'' [''a''], service_node ''c'' ''service'' [''b'', ''x'']]"

definition of_each :: "(str \<Rightarrow> 'v) \<Rightarrow> 'v bmap" where
  "of_each f = map (\<lambda>k. (k, f k)) [''a'', ''b'', ''c'', ''x'']"

definition stacked_state :: run_state where
  "stacked_state = blank_run\<lparr> r_graph := from_plan stacked_plan,
     r_recorded := of_each (\<lambda>_. Rec_At Done), r_landings := of_each (\<lambda>_. Unlanded),
     r_branches := of_each (\<lambda>k. ''work/'' @ k), r_heads := of_each (\<lambda>k. ''head-'' @ k),
     r_change_urls := of_each (\<lambda>k. ''https://host/'' @ k), r_bases := of_each (\<lambda>_. ''main''),
     r_stacks := [(''c'', \<lparr> ss_parents = map (\<lambda>k. \<lparr> sp_node = k, sp_branch = ''work/'' @ k, sp_head = ''head-'' @ k \<rparr>)
        [''b'', ''x''], ss_base = Some ''stack-base/p/c'' \<rparr>)] \<rparr>"

definition host_world :: fold_world where
  "host_world = one_world\<lparr> fw_landed := (\<lambda>p. map_option (\<lambda>k. (k, JNull)) (text_at p ''node'')),
     fw_closed := (\<lambda>p. text_at p ''node'') \<rparr>"

definition read_of :: "event_kind \<Rightarrow> str \<Rightarrow> journal_event" where
  "read_of what k = (record_of From_Pipeline what [(''node'', JString k)])\<lparr> ev_node := Some k, ev_ts := [] \<rparr>"

definition easy_pass :: pass_world where
  "easy_pass = \<lparr> pw_edit = dropping_world, pw_statuses = of_each (\<lambda>_. Done), pw_paused = {}, pw_held = {},
     pw_plan = ''p'', pw_same = (=), pw_dispatching = (\<lambda>_. True), pw_admits = (\<lambda>_. True),
     pw_retargets = (\<lambda>_. Some True) \<rparr>"

definition fresh_readjuster :: readjuster where
  "fresh_readjuster = \<lparr> ra_bodies = [], ra_overridden = [], ra_host_bases = [], ra_red = [], ra_tried = {},
     ra_merged_elsewhere = {} \<rparr>"

definition landed_then_closed :: run_state where
  "landed_then_closed = fold (fold_record host_world)
     [read_of K_NodeLanded ''a'', read_of K_ChangeClosed ''b'', read_of K_NodeLanded ''x''] stacked_state"

definition closed_then_landed :: run_state where
  "closed_then_landed = fold (fold_record host_world)
     [read_of K_ChangeClosed ''b'', read_of K_NodeLanded ''a'', read_of K_NodeLanded ''x''] stacked_state"

text \<open>Both states evaluated once, for the runs below.\<close>

lemma landed_then_closed_state [code]:
  "landed_then_closed = stacked_state\<lparr> r_closed_changes := {''b''},
     r_readjust_owed := [(''b'', {''a''}), (''c'', {''x'', ''a''})],
     r_landed_how := [(''a'', JNull), (''x'', JNull)],
     r_landings := [(''a'', Landed), (''b'', Unlanded), (''c'', Unlanded), (''x'', Landed)],
     r_last_write_at := Some 0 \<rparr>"
  by code_simp

lemma closed_then_landed_state [code]:
  "closed_then_landed = stacked_state\<lparr> r_closed_changes := {''b''},
     r_readjust_owed := [(''c'', {''x'', ''a''})],
     r_landed_how := [(''a'', JNull), (''x'', JNull)],
     r_landings := [(''a'', Landed), (''b'', Unlanded), (''c'', Unlanded), (''x'', Landed)],
     r_last_write_at := Some 0 \<rparr>"
  by code_simp

lemma not_started: "k \<notin> subject ` set as \<Longrightarrow> k \<notin> set (started as)"
proof (induction as)
  case (Cons a as)
  then show ?case by (cases a) auto
qed simp

lemma draft_of_facts:
  assumes "draft_of w st n = Some d"
  shows "dr_node d = node_id n \<and> bget (r_superseded st) (node_id n) = None \<and>
     bget (r_landings st) (node_id n) \<noteq> Some Landed \<and> bget (r_absorbed st) (node_id n) = None \<and>
     node_id n \<notin> r_closed_changes st"
proof (cases "bget (r_superseded st) (node_id n) \<noteq> None \<or> bget (r_landings st) (node_id n) = Some Landed
    \<or> bget (r_absorbed st) (node_id n) \<noteq> None \<or> node_id n \<in> r_closed_changes st")
  case True
  then have "draft_of w st n = None" unfolding draft_of_def Let_def by (rule if_P)
  with assms show ?thesis by simp
next
  case False
  then have "draft_of w st n = (case (repo n, lineage_change w st [] (node_id n)) of
      (Some r, Some url) \<Rightarrow> Some \<lparr> dr_node = node_id n, dr_url = url, dr_repo = r, dr_root = draft_root st (node_id n) \<rparr>
    | _ \<Rightarrow> None)"
    unfolding draft_of_def Let_def by (rule if_not_P)
  with assms have "dr_node d = node_id n"
    by (cases "repo n"; cases "lineage_change w st [] (node_id n)") auto
  with False show ?thesis by blast
qed

text \<open>A draft a pass never finds ready is one it never acts on.\<close>

lemma never_ready_never_acted:
  assumes "\<And>ps. ra_tried ra \<subseteq> ra_tried (ps_readjuster ps) \<Longrightarrow>
      ra_merged_elsewhere (ps_readjuster ps) = ra_merged_elsewhere ra \<Longrightarrow> ready_draft w st k ps = None"
    and "a \<in> set (ps_acts (readjust_pass w lc st flight ra))"
  shows "subject a \<noteq> k"
proof -
  let ?inv = "\<lambda>ps. ra_tried ra \<subseteq> ra_tried (ps_readjuster ps) \<and>
      ra_merged_elsewhere (ps_readjuster ps) = ra_merged_elsewhere ra \<and> (\<forall>a \<in> set (ps_acts ps). subject a \<noteq> k)"
  have step: "?inv (readjust_one w lc st j ps)" if "?inv ps" for j ps
  proof -
    from readjust_one_effect(1) [of w lc st j ps] obtain new where
      new: "ps_acts (readjust_one w lc st j ps) = ps_acts ps @ new" "\<forall>a \<in> set new. subject a = j"
        "new \<noteq> [] \<longrightarrow> ready_draft w st j ps \<noteq> None" by blast
    have "\<forall>a \<in> set new. subject a \<noteq> k" using new(2,3) assms(1) that by (cases "new = []") auto
    with new(1) that readjust_one_effect(4,5) [where w = w and lc = lc and st = st and k = j and ps = ps]
    show ?thesis by auto
  qed
  have kept: "?inv (fold (readjust_one w lc st) ks ps)" if "?inv ps" for ks ps
    using that
  proof (induction ks arbitrary: ps)
    case (Cons j ks)
    from Cons.IH [OF step [OF Cons.prems]] show ?case by simp
  qed simp
  have "?inv (readjust_pass w lc st flight ra)" unfolding readjust_pass_def by (rule kept) simp
  with assms(2) show ?thesis by blast
qed

text \<open>
  A draft that is owed a readjustment and then closed on the host stays owed: no read looks
  at it again and no pass readjusts it, and no pass acts on a node that depends on it, whatever
  else moves under that node, until the closed draft is replaced.
\<close>

lemma a_closed_draft_holds_what_is_above:
  assumes "b \<in> r_closed_changes st" "bget (r_readjust_owed st) b \<noteq> None" "bget (r_superseded st) b = None"
    and "b \<notin> ra_merged_elsewhere ra"
    and "graph_get (r_graph st) k = Some n" "b \<in> set (deps n)"
  shows "b \<notin> dr_node ` set (drafts ew st) \<and> b \<notin> set (readjust_queue st ra) \<and>
    k \<notin> subject ` set (ps_acts (readjust_pass w lc st flight ra))"
proof -
  have "head_of st b = b" using assms(3) by (simp add: head_of_def follow.simps)
  then have waits: "waits_below st (ps_flight ps) (ps_readjuster ps) n"
    if "ra_merged_elsewhere (ps_readjuster ps) = ra_merged_elsewhere ra" for ps
    using assms(2,4,6) that unfolding waits_below_def list_ex_iff by (intro bexI [of _ b]) simp_all
  then have "ready_draft w st k ps = None" if "ra_merged_elsewhere (ps_readjuster ps) = ra_merged_elsewhere ra" for ps
    using assms(5) waits [OF that] by (simp add: ready_draft_def)
  then have "k \<notin> subject ` set (ps_acts (readjust_pass w lc st flight ra))"
    using never_ready_never_acted [of ra w st k] by blast
  moreover have "dr_node d \<noteq> b" if "d \<in> set (drafts ew st)" for d
  proof -
    from that obtain m where "draft_of ew st m = Some d" by (auto simp: drafts_def in_map_filter)
    from draft_of_facts [OF this] assms(1) show ?thesis by metis
  qed
  moreover have "b \<notin> set (readjust_queue st ra)" using assms(1) by (simp add: readjust_queue_def)
  ultimately show ?thesis by blast
qed

section \<open>A refused admission\<close>

text \<open>
  A draft ready to be restacked that the loop may not start, because an envelope named it
  beside the pass, is marked tried before it is asked for: nothing is started, and no later pass
  acts on it, whatever the run and the world then are, until a read of the host clears the mark.
\<close>

lemma a_refused_draft_is_not_tried_again:
  assumes "ready_draft w st k ps = Some (n, r, Done)" "\<not> ps_stopped ps" "\<not> pw_admits w k"
    and "card (ps_flight ps) < unat (concurrency (r_graph st))"
  shows "started (ps_acts (readjust_one w lc st k ps)) = started (ps_acts ps) \<and>
    k \<notin> subject ` set (ps_acts (readjust_pass w' lc' st' flight (ps_readjuster (readjust_one w lc st k ps))))"
proof -
  let ?ps = "readjust_one w lc st k ps"
  have "?ps = restack_one w lc st k n r ps" using assms(1,2) by (simp add: readjust_one_def)
  then have ps: "started (ps_acts ?ps) = started (ps_acts ps)" "k \<in> ra_tried (ps_readjuster ?ps)"
    using assms(3,4) moved_back_acts [of k r "mark_tried k ps"]
    by (auto simp: restack_one_def Let_def started_append)
  then have "ready_draft w' st' k q = None" if "ra_tried (ps_readjuster ?ps) \<subseteq> ra_tried (ps_readjuster q)" for q
    using that by (auto simp: ready_draft_def)
  with never_ready_never_acted [of "ps_readjuster ?ps" w' st' k] ps(1) show ?thesis by blast
qed

definition first_of_pass :: pass_state where
  "first_of_pass = \<lparr> ps_flight = {}, ps_readjuster = fresh_readjuster, ps_acts = [], ps_stopped = False \<rparr>"

theorem a_pass_moves_what_is_below_first_witness:
  "\<exists>n. graph_get (r_graph closed_then_landed) ''c'' = Some n \<and> bget (pw_statuses easy_pass) ''c'' = Some Done \<and>
     started (ps_acts (readjust_pass easy_pass (\<lambda>_. None) closed_then_landed (set []) fresh_readjuster)) = [''c'']"
proof -
  have one: "started (ps_acts (readjust_pass easy_pass (\<lambda>_. None) closed_then_landed (set []) fresh_readjuster)) = [''c'']"
    by code_simp
  with a_pass_moves_what_is_below_first [of easy_pass "\<lambda>_. None" closed_then_landed "[]" fresh_readjuster]
  show ?thesis by (auto simp: less_Suc_eq)
qed

end
