(* ===== verification/Timestamps.thy ===== *)
theory Timestamps
  imports Run_State
begin

text \<open>
  The timestamps a record carries: written by \<open>rfc3339_from_millis\<close> (\<open>src/src/sys.rs\<close>) and read
  back by \<open>millis_of\<close> (\<open>src/src/projection.rs\<close>).
\<close>

section \<open>Writing\<close>

definition zero_padded :: "nat \<Rightarrow> nat \<Rightarrow> str" where
  "zero_padded w n = replicate (w - length (digits_of n)) (CHR ''0'') @ digits_of n"

text \<open>\<open>civil_from_days\<close>, with the quotient that rounds towards zero written out.\<close>

definition civil_from_days :: "int \<Rightarrow> int \<times> int \<times> int" where
  "civil_from_days days =
     (let z = days + 719468;
          era = (if z \<ge> 0 then z div 146097 else - ((146096 - z) div 146097));
          doe = z - era * 146097;
          yoe = (doe - doe div 1460 + doe div 36524 - doe div 146096) div 365;
          y = yoe + era * 400;
          doy = doe - (365 * yoe + yoe div 4 - yoe div 100);
          mp = (5 * doy + 2) div 153;
          d = doy - (153 * mp + 2) div 5 + 1;
          m = (if mp < 10 then mp + 3 else mp - 9);
          year = (if m \<le> 2 then y + 1 else y)
      in (year, m, d))"

definition rfc3339_from_millis :: "u64 \<Rightarrow> str" where
  "rfc3339_from_millis millis =
     (let secs = unat millis div 1000; ms = unat millis mod 1000;
          days = int (secs div 86400); sod = secs mod 86400;
          (year, month, day) = civil_from_days days
      in zero_padded 4 (nat year) @ ''-'' @ zero_padded 2 (nat month) @ ''-'' @ zero_padded 2 (nat day) @ ''T''
           @ zero_padded 2 (sod div 3600) @ '':'' @ zero_padded 2 (sod mod 3600 div 60) @ '':''
           @ zero_padded 2 (sod mod 60) @ ''.'' @ zero_padded 3 ms @ ''Z'')"

section \<open>Digits\<close>

definition read_digits :: "str \<Rightarrow> int" where
  "read_digits t = fold (\<lambda>c n. 10 * n + (int (code_point c) - 48)) t 0"

lemma read_digits_append:
  "read_digits (s @ [c]) = 10 * read_digits s + (int (code_point c) - 48)"
  by (simp add: read_digits_def)

lemma code_point_char: "n < 256 \<Longrightarrow> code_point (char_of n) = n"
  by (simp add: code_point_def)

lemma digits_of_read: "list_all is_ascii_digit (digits_of n) \<and> read_digits (digits_of n) = int n"
proof (induction n rule: digits_of.induct)
  case (1 n)
  show ?case
  proof (cases "n < 10")
    case True
    then have "digits_of n = [char_of (48 + n)]" by (subst digits_of.simps) simp
    with True show ?thesis by (simp add: is_ascii_digit_def code_point_char read_digits_def)
  next
    case False
    have "n = 10 * (n div 10) + n mod 10" by simp
    then have "int n = 10 * int (n div 10) + int (n mod 10)" by (metis of_nat_add of_nat_mult of_nat_numeral)
    moreover have "digits_of n = digits_of (n div 10) @ [char_of (48 + n mod 10)]"
      using False by (subst digits_of.simps) simp
    moreover have "n mod 10 < 10" by simp
    ultimately show ?thesis using 1 [OF False]
      by (simp add: is_ascii_digit_def code_point_char read_digits_append Let_def del: mod_less_divisor)
  qed
qed

lemma digits_of_length: "1 \<le> w \<Longrightarrow> length (digits_of n) \<le> w \<longleftrightarrow> n < 10 ^ w"
proof (induction n arbitrary: w rule: digits_of.induct)
  case (1 n)
  show ?case
  proof (cases "n < 10")
    case True
    have "(10::nat) ^ 1 \<le> 10 ^ w" using 1(2) by (intro power_increasing) simp_all
    with True 1(2) show ?thesis by (subst digits_of.simps) simp
  next
    case False
    then have len: "length (digits_of n) = Suc (length (digits_of (n div 10)))" by (subst digits_of.simps) simp
    show ?thesis
    proof (cases "w = 1")
      case True
      have "digits_of (n div 10) \<noteq> []" by (subst digits_of.simps) simp
      with True False len show ?thesis by auto
    next
      case w: False
      then obtain v where v: "w = Suc v" "1 \<le> v" using 1(2) by (cases w) auto
      from 1(1) [OF False v(2)] v len show ?thesis by (simp add: less_mult_imp_div_less div_less_iff_less_mult mult.commute)
    qed
  qed
qed

lemma zero_padded_length: "1 \<le> w \<Longrightarrow> n < 10 ^ w \<Longrightarrow> length (zero_padded w n) = w"
  using digits_of_length [of w n] by (simp add: zero_padded_def)

lemma zero_padded_longer: "1 \<le> w \<Longrightarrow> \<not> n < 10 ^ w \<Longrightarrow> w < length (zero_padded w n)"
  using digits_of_length [of w n] by (simp add: zero_padded_def)

lemma read_zeros: "((\<lambda>n. 10 * n + (int (code_point (CHR ''0'')) - 48)) ^^ k) 0 = 0"
  by (induction k) (simp_all add: code_point_def)

lemma zero_padded_read: "list_all is_ascii_digit (zero_padded w n) \<and> read_digits (zero_padded w n) = int n"
proof -
  have "is_ascii_digit (CHR ''0'')" by code_simp
  then show ?thesis using digits_of_read [of n]
    by (auto simp: zero_padded_def read_digits_def read_zeros list_all_iff)
qed

section \<open>The calendar\<close>

text \<open>
  The year of an era a day falls in: \<open>leaps\<close> is how many days its years before it have, and the
  days a \<open>yoe\<close> answers for are those from its first up to the next one's.
\<close>

definition shifted :: "int \<Rightarrow> int" where
  "shifted doe = doe - doe div 1460 + doe div 36524 - doe div 146096"

definition first_day :: "int \<Rightarrow> int" where
  "first_day y = (if y = 400 then 146097 else 365 * y + y div 4 - y div 100)"

lemma shifted_step:
  assumes "0 \<le> n" "n + 1 < 146097"
  shows "shifted n \<le> shifted (n + 1)"
proof -
  have a: "(n + 1) div 1460 \<le> n div 1460 + 1" by (simp add: zdiv_mono1 [of "n + 1" "n + 1460" 1460, simplified])
  have b: "n div 36524 \<le> (n + 1) div 36524" by (simp add: zdiv_mono1)
  have c: "n div 146096 = 0" using assms by simp
  have d: "(n + 1) div 146096 = (if n + 1 = 146096 then 1 else 0)" using assms by auto
  show ?thesis
  proof (cases "n + 1 = 146096")
    case True
    then have "n = 146095" by simp
    then show ?thesis by (simp add: shifted_def)
  next
    case False
    with a b c d show ?thesis by (simp add: shifted_def)
  qed
qed

lemma shifted_mono:
  assumes "0 \<le> m" "m \<le> n" "n < 146097"
  shows "shifted m \<le> shifted n"
  using assms(2,1,3)
proof (induction n rule: int_ge_induct)
  case (step i)
  then have "shifted m \<le> shifted i" "shifted i \<le> shifted (i + 1)" using shifted_step [of i] by simp_all
  then show ?case by simp
qed simp

lemma years_turn:
  "list_all (\<lambda>y. 365 * y \<le> shifted (first_day y) \<and> shifted (first_day (y + 1) - 1) < 365 * (y + 1)
     \<and> first_day (y + 1) - first_day y = 365 + (if (y + 1) mod 4 = 0 \<and> ((y + 1) mod 100 \<noteq> 0 \<or> (y + 1) mod 400 = 0) then 1 else 0))
   [0..399]"
  by code_simp

lemma months_turn:
  "list_all (\<lambda>doy. let mp = (5 * doy + 2) div 153; d = doy - (153 * mp + 2) div 5 + 1
     in 0 \<le> mp \<and> mp \<le> 11 \<and> 1 \<le> d \<and>
        d \<le> (if mp \<in> {1, 3, 6, 8} then 30 else if mp = 11 then (if doy = 365 then 29 else 28) else 31))
   [0..365]"
  by code_simp

lemma civil_from_days_parts:
  assumes "0 \<le> days" "civil_from_days days = (year, m, d)"
  obtains era yoe doy mp where
    "0 \<le> era" "0 \<le> yoe" "yoe < 400" "days + 719468 = era * 146097 + (365 * yoe + yoe div 4 - yoe div 100) + doy"
    "0 \<le> doy" "doy < first_day (yoe + 1) - first_day yoe" "mp = (5 * doy + 2) div 153"
    "d = doy - (153 * mp + 2) div 5 + 1" "m = (if mp < 10 then mp + 3 else mp - 9)"
    "year = yoe + era * 400 + (if m \<le> 2 then 1 else 0)"
proof -
  define z where "z = days + 719468"
  define era where "era = z div 146097"
  define doe where "doe = z - era * 146097"
  define yoe where "yoe = shifted doe div 365"
  define doy where "doy = doe - (365 * yoe + yoe div 4 - yoe div 100)"
  have z: "0 \<le> z" using assms(1) by (simp add: z_def)
  then have era: "0 \<le> era" by (simp add: era_def pos_imp_zdiv_nonneg_iff)
  have doe: "doe = z mod 146097" by (simp add: doe_def era_def minus_div_mult_eq_mod)
  then have bounds: "0 \<le> doe" "doe < 146097" by simp_all
  have low: "shifted 0 = 0" and high: "shifted 146096 = 145999" by code_simp+
  have "0 \<le> shifted doe" using shifted_mono [of 0 doe] bounds low by simp
  moreover have "shifted doe \<le> 145999" using shifted_mono [of doe 146096] bounds high by simp
  ultimately have yoe: "0 \<le> yoe" "yoe < 400" by (simp_all add: yoe_def)
  have turn: "365 * y \<le> shifted (first_day y) \<and> shifted (first_day (y + 1) - 1) < 365 * (y + 1)" if "0 \<le> y" "y \<le> 399" for y
    using years_turn that unfolding list_all_iff by auto
  have "shifted doe = 365 * yoe + shifted doe mod 365" by (simp add: yoe_def)
  moreover have "0 \<le> shifted doe mod 365 \<and> shifted doe mod 365 < 365" by simp
  ultimately have inside: "365 * yoe \<le> shifted doe" "shifted doe < 365 * (yoe + 1)"
    by (simp_all only: distrib_left mult_1_right)
  have day: "0 \<le> first_day y \<and> first_day y \<le> 146097" if "0 \<le> y" "y \<le> 400" for y
    using that by (auto simp: first_day_def)
  have "first_day yoe \<le> doe"
  proof (rule ccontr)
    assume less: "\<not> first_day yoe \<le> doe"
    then have "yoe \<noteq> 0" using bounds by (auto simp: first_day_def)
    then have y: "0 \<le> yoe - 1" "yoe - 1 \<le> 399" using yoe by simp_all
    have "shifted doe \<le> shifted (first_day yoe - 1)"
      using less bounds day [of yoe] yoe by (intro shifted_mono) auto
    with turn [OF y] inside(1) show False by simp
  qed
  moreover have "doe < first_day (yoe + 1)"
  proof (rule ccontr)
    assume more: "\<not> doe < first_day (yoe + 1)"
    then have "yoe + 1 \<noteq> 400" using bounds by (auto simp: first_day_def)
    then have y: "0 \<le> yoe + 1" "yoe + 1 \<le> 399" using yoe by simp_all
    have "shifted (first_day (yoe + 1)) \<le> shifted doe"
      using more bounds day [of "yoe + 1"] yoe by (intro shifted_mono) auto
    with turn [OF y] inside(2) show False by simp
  qed
  ultimately have doy: "0 \<le> doy" "doy < first_day (yoe + 1) - first_day yoe"
    using yoe unfolding doy_def by (auto simp: first_day_def)
  have whole: "civil_from_days days = (let mp = (5 * doy + 2) div 153; d = doy - (153 * mp + 2) div 5 + 1;
      m = (if mp < 10 then mp + 3 else mp - 9); year = (if m \<le> 2 then yoe + era * 400 + 1 else yoe + era * 400)
     in (year, m, d))"
    by (simp only: civil_from_days_def Let_def z_def [symmetric] if_P [OF z] era_def [symmetric]
        doe_def [symmetric] shifted_def [symmetric] yoe_def [symmetric] doy_def [symmetric])
  define mp where "mp = (5 * doy + 2) div 153"
  from whole [folded mp_def, unfolded Let_def] assms(2) have "d = doy - (153 * mp + 2) div 5 + 1" "m = (if mp < 10 then mp + 3 else mp - 9)"
    "year = yoe + era * 400 + (if m \<le> 2 then 1 else 0)" by auto
  moreover have "days + 719468 = era * 146097 + (365 * yoe + yoe div 4 - yoe div 100) + doy"
    by (simp add: doy_def doe_def z_def)
  ultimately show thesis using that [OF era yoe _ doy mp_def] by blast
qed

lemma civil_round_trip:
  assumes "0 \<le> days" "civil_from_days days = (year, m, d)"
  shows "days_from_civil year m d = days \<and> 1 \<le> m \<and> m \<le> 12 \<and> 1 \<le> d \<and> d \<le> days_in_month year m \<and>
    0 \<le> year \<and> (year \<le> 9999 \<longleftrightarrow> days < 2932897)"
proof -
  obtain era yoe doy mp where parts: "0 \<le> era" "0 \<le> yoe" "yoe < 400"
    "days + 719468 = era * 146097 + (365 * yoe + yoe div 4 - yoe div 100) + doy"
    "0 \<le> doy" "doy < first_day (yoe + 1) - first_day yoe" "mp = (5 * doy + 2) div 153"
    "d = doy - (153 * mp + 2) div 5 + 1" "m = (if mp < 10 then mp + 3 else mp - 9)"
    "year = yoe + era * 400 + (if m \<le> 2 then 1 else 0)"
    using civil_from_days_parts [OF assms] .
  have leap: "first_day (yoe + 1) - first_day yoe =
      365 + (if (yoe + 1) mod 4 = 0 \<and> ((yoe + 1) mod 100 \<noteq> 0 \<or> (yoe + 1) mod 400 = 0) then 1 else 0)"
    using years_turn parts(2,3) unfolding list_all_iff by auto
  then have "doy \<le> 365" using parts(6) by (simp split: if_splits)
  then have month: "0 \<le> mp \<and> mp \<le> 11 \<and> 1 \<le> d \<and>
      d \<le> (if mp \<in> {1, 3, 6, 8} then 30 else if mp = 11 then (if doy = 365 then 29 else 28) else 31)"
    using months_turn parts(5) unfolding list_all_iff parts(7,8) Let_def by auto
  have m: "m \<le> 2 \<longleftrightarrow> 10 \<le> mp" "1 \<le> m" "m \<le> 12" "(if m > 2 then m - 3 else m + 9) = mp"
    using month parts(9) by auto
  define y where "y = yoe + era * 400"
  have y: "(if m \<le> 2 then year - 1 else year) = y" "0 \<le> y" "y div 400 = era" "y - era * 400 = yoe"
    using parts(1,2,3,10) by (auto simp: y_def)
  have "(153 * mp + 2) div 5 + d - 1 = doy" using parts(8) by simp
  then have "days_from_civil year m d = days"
    using parts(4) by (simp only: days_from_civil_def Let_def y(1) if_P [OF y(2)] y(3,4) m(4))
  moreover have "d \<le> days_in_month year m"
  proof (cases "mp = 11")
    case True
    have "(yoe + 1) mod 4 = 0 \<and> ((yoe + 1) mod 100 \<noteq> 0 \<or> (yoe + 1) mod 400 = 0)" if "doy = 365"
      using that parts(6) leap by (simp split: if_splits)
    moreover have "year = yoe + 1 + era * 400" "m = 2" using True m(1) parts(9,10) by simp_all
    moreover have "(yoe + 1 + era * 400) mod 4 = (yoe + 1) mod 4" "(yoe + 1 + era * 400) mod 100 = (yoe + 1) mod 100"
      "(yoe + 1 + era * 400) mod 400 = (yoe + 1) mod 400"
      using mod_mult_self1 [of "yoe + 1" "era * 100" 4] mod_mult_self1 [of "yoe + 1" "era * 4" 100]
      by (simp_all add: mult.assoc)
    ultimately show ?thesis using month True by (auto simp: days_in_month_def split: if_splits)
  next
    case False
    moreover have "0 \<le> mp" "mp \<le> 11" using month by simp_all
    ultimately have "mp = 0 \<or> mp = 1 \<or> mp = 2 \<or> mp = 3 \<or> mp = 4 \<or> mp = 5 \<or> mp = 6
      \<or> mp = 7 \<or> mp = 8 \<or> mp = 9 \<or> mp = 10" by presburger
    then show ?thesis using month parts(9) by (elim disjE) (simp_all add: days_in_month_def)
  qed
  moreover have "year \<le> 9999 \<longleftrightarrow> days < 2932897"
  proof -
    define doe where "doe = (365 * yoe + yoe div 4 - yoe div 100) + doy"
    have "doe < first_day (yoe + 1)" using parts(2,3,6) by (simp add: doe_def first_day_def split: if_splits)
    then have below: "doe < 145735 \<or> yoe = 399" "doe \<le> 146096"
      using parts(2,3) by (auto simp: first_day_def split: if_splits)
    have last: "doe = 145731 + doy" if "yoe = 399" using that by (simp add: doe_def)
    have "mp < 10 \<longleftrightarrow> doy < 306" using parts(5,7) by linarith
    consider "era \<le> 23" | "era = 24" | "25 \<le> era" by linarith
    then show ?thesis
      using parts(2,3,4,5,10) below last \<open>mp < 10 \<longleftrightarrow> doy < 306\<close> m(1) doe_def by cases (auto split: if_splits)
  qed
  ultimately show ?thesis using month m(2,3) parts(1,2,10) by simp
qed

section \<open>The round trip\<close>

lemma layout:
  assumes "length y = 4" "length m = 2" "length d = 2" "length h = 2" "length i = 2" "length s = 2" "length f = 3"
    and "ts = y @ ''-'' @ m @ ''-'' @ d @ ''T'' @ h @ '':'' @ i @ '':'' @ s @ ''.'' @ f @ ''Z''"
  shows "length ts = 24 \<and> separators_ok ts \<and>
    take (4 - 0) (drop 0 ts) = y \<and> take (7 - 5) (drop 5 ts) = m \<and> take (10 - 8) (drop 8 ts) = d \<and>
    take (13 - 11) (drop 11 ts) = h \<and> take (16 - 14) (drop 14 ts) = i \<and> take (19 - 17) (drop 17 ts) = s \<and>
    take (23 - 20) (drop 20 ts) = f"
  using assms(1-7) unfolding assms(8) by (simp add: separators_ok_def nth_append)

lemma field_of:
  "take (to - from) (drop from ts) = zero_padded w n \<Longrightarrow> field_digits ts from to = Some (int n)"
  using zero_padded_read [of w n] by (simp add: field_digits_def read_digits_def)

lemma clock_parts:
  "(sod :: nat) = h * 3600 + r \<Longrightarrow> r = i * 60 + s \<Longrightarrow> secs = d * 86400 + sod \<Longrightarrow> n = secs * 1000 + f \<Longrightarrow>
     int n = (int d * 86400 + int h * 3600 + int i * 60 + int s) * 1000 + int f"
  by simp

text \<open>
  C12. What is written is read back as the millisecond it says, for every instant before the year
  10000; from then on the written year has five digits and nothing reads the timestamp.
\<close>

theorem timestamps_round_trip:
  "millis_of (rfc3339_from_millis ms) = (if unat ms < 253402300800000 then Some ms else None)"
proof -
  define secs where "secs = unat ms div 1000"
  define sod where "sod = secs mod 86400"
  obtain year m d where civil: "civil_from_days (int (secs div 86400)) = (year, m, d)" by (cases "civil_from_days (int (secs div 86400))")
  note again = civil_round_trip [OF _ civil]
  let ?y = "zero_padded 4 (nat year)" and ?f = "zero_padded 3 (unat ms mod 1000)"
  define ts where "ts = ?y @ ''-'' @ zero_padded 2 (nat m) @ ''-'' @ zero_padded 2 (nat d) @ ''T''
    @ zero_padded 2 (sod div 3600) @ '':'' @ zero_padded 2 (sod mod 3600 div 60) @ '':''
    @ zero_padded 2 (sod mod 60) @ ''.'' @ ?f @ ''Z''"
  have written: "rfc3339_from_millis ms = ts"
    by (simp add: rfc3339_from_millis_def Let_def ts_def secs_def sod_def civil [unfolded secs_def])
  have sod: "sod < 86400" by (simp add: sod_def)
  have d31: "d \<le> 31" using again by (auto simp: days_in_month_def split: if_splits)
  have two: "length (zero_padded 2 (nat m)) = 2" "length (zero_padded 2 (nat d)) = 2"
    "length (zero_padded 2 (sod div 3600)) = 2" "length (zero_padded 2 (sod mod 3600 div 60)) = 2"
    "length (zero_padded 2 (sod mod 60)) = 2" "length ?f = 3"
    using again d31 sod by (auto intro!: zero_padded_length)
  have total: "int (unat ms) = (int (secs div 86400) * 86400 + int (sod div 3600) * 3600
      + int (sod mod 3600 div 60) * 60 + int (sod mod 60)) * 1000 + int (unat ms mod 1000)"
  proof -
    have "sod = sod div 3600 * 3600 + sod mod 3600" by (simp only: div_mult_mod_eq)
    moreover have "sod mod 3600 = sod mod 3600 div 60 * 60 + sod mod 60"
      using div_mult_mod_eq [of "sod mod 3600" 60] by (simp add: mod_mod_cancel)
    moreover have "secs = secs div 86400 * 86400 + sod" by (simp add: sod_def)
    moreover have "unat ms = secs * 1000 + unat ms mod 1000" by (simp add: secs_def)
    ultimately show ?thesis by (rule clock_parts)
  qed
  have small: "year \<le> 9999 \<longleftrightarrow> unat ms < 253402300800000"
    using again by (simp add: secs_def) linarith
  show ?thesis
  proof (cases "year \<le> 9999")
    case True
    then have "length ?y = 4" using again by (auto intro!: zero_padded_length)
    from layout [OF this two ts_def] have ts: "length ts = 24" "separators_ok ts"
      "field_digits ts 0 4 = Some year" "field_digits ts 5 7 = Some m" "field_digits ts 8 10 = Some d"
      "field_digits ts 11 13 = Some (int (sod div 3600))" "field_digits ts 14 16 = Some (int (sod mod 3600 div 60))"
      "field_digits ts 17 19 = Some (int (sod mod 60))" "field_digits ts 20 23 = Some (int (unat ms mod 1000))"
      using field_of [of 4 0 ts 4 "nat year"] field_of [of 7 5 ts 2 "nat m"] field_of [of 10 8 ts 2 "nat d"]
        field_of [of 13 11 ts] field_of [of 16 14 ts] field_of [of 19 17 ts] field_of [of 23 20 ts] again by auto
    have "in_range year m d (int (sod div 3600)) (int (sod mod 3600 div 60)) (int (sod mod 60))"
      using again sod by (auto simp: in_range_def)
    then have "millis_of ts = Some (of_int (int (unat ms)))"
      unfolding millis_of_def using ts again total by (simp add: Let_def)
    with True small written show ?thesis by simp
  next
    case False
    then have "4 < length ?y" using zero_padded_longer [of 4 "nat year"] by simp
    then have "24 < length ts" using two by (simp add: ts_def)
    with False small written show ?thesis by (simp add: millis_of_def)
  qed
qed

end
