(* ===== verification/Run_Takeover.thy ===== *)
theory Run_Takeover
  imports Run_Fold
begin

text \<open>
  What the fold of a journal guarantees: the invariants every state it reaches keeps, how it
  stands to the frontier an undriven run advances, and what a driver that takes the run over
  finds of the work its predecessor had in flight.
\<close>

section \<open>The frontier of a folded operation\<close>

lemma statuses_recorded_bput:
  "map (\<lambda>(k, r). (k, rec_status r)) (bput k r m) = bput k (rec_status r) (map (\<lambda>(k, r). (k, rec_status r)) m)"
  by (induction m) auto

lemma statuses_recorded_bdel:
  "map (\<lambda>(k, r). (k, rec_status r)) (bdel k m) = bdel k (map (\<lambda>(k, r). (k, rec_status r)) m)"
  by (induction m) (auto simp: bdel_def)

text \<open>What the fold records of an operation and \<open>advance\<close> does not.\<close>

fun beyond_advance :: "run_state \<Rightarrow> edit_world \<Rightarrow> operation \<Rightarrow> frontier \<Rightarrow> frontier" where
  "beyond_advance st w (NodeParked k _ _) f = f\<lparr> f_recorded := bput k Parked (f_recorded f) \<rparr>"
| "beyond_advance st w (RetryRequested k r _) f =
     f\<lparr> f_recorded := bput k Cancelled (f_recorded f),
        f_export_edges := (case r_plan st of None \<Rightarrow> []
          | Some p \<Rightarrow> edges_now (export_edges p) (bput k r (r_superseded st))) \<rparr>"
| "beyond_advance st w (ReworkRequested k r _ _ _ _) f =
     f\<lparr> f_superseded := bput k r (f_superseded f),
        f_export_edges := (case r_plan st of None \<Rightarrow> []
          | Some p \<Rightarrow> edges_now (export_edges p) (bput k r (r_superseded st))) \<rparr>"
| "beyond_advance st w (LandingFromEvidence k l) f =
     (if parse_landing (payload_limit w) (is_http_url (w_siblings w)) l = None then f
      else f\<lparr> f_landings := bput k Landed (f_landings f) \<rparr>)"
| "beyond_advance st w _ f = f"

text \<open>
  C13. What an operation the journal holds does to the run it is folded into, seen by the live
  edits (the frontier), is what a run without a driver advances by, and exactly four operations
  more: folding a park records the node parked, folding a retry records the retried node
  cancelled and moves its export edges, folding a rework supersedes the reworked node, and
  folding a stated landing records that the node has landed.
\<close>

theorem folding_is_advancing_and_more:
  "frontier_of (fold_operation w at op st) =
     beyond_advance st (fw_edit w) op (advance_step (fw_edit w) op (frontier_of st))"
proof (cases op)
  case (NodeParked k who reason)
  have "rec_status (parked_record was at) = Parked" for was
    by (simp add: parked_record_def split: option.split)
  with NodeParked show ?thesis
    by (simp add: fold_operation_def frontier_of_def statuses_recorded_def statuses_recorded_bput
        cong: option.case_cong)
next
  case (LandingFromEvidence k l)
  then show ?thesis
    by (auto simp: fold_operation_def frontier_of_def statuses_recorded_def split: option.split stated_landing.split)
next
  case (NoteDelivered k a t b how s r e i)
  then show ?thesis
    by (auto simp: fold_operation_def frontier_of_def statuses_recorded_def cong: option.case_cong
        split: reached.split)
next
  case (Reparent k old new)
  have "bget (map (\<lambda>(k, r). (k, rec_status r)) (r_recorded st)) k = map_option rec_status (bget (r_recorded st) k)"
    using bget_statuses_recorded [of st k] by (simp add: statuses_recorded_def)
  with Reparent show ?thesis
    by (cases "bget (r_recorded st) k")
      (simp_all add: fold_operation_def frontier_of_def statuses_recorded_def statuses_recorded_bdel
        cong: option.case_cong)
qed (simp_all add: fold_operation_def frontier_of_def statuses_recorded_def statuses_recorded_bput
      statuses_recorded_bdel end_the_park_def cong: option.case_cong)

section \<open>What every folded state keeps\<close>

text \<open>
  \<open>run_ok\<close>: the graph's two halves agree and the record has one entry a node; a cancellation in
  flight has its park; a recorded stack is usable and has a base beside it; a stated change
  request is one, of a node a landing was stated of, which has a landing.
\<close>

definition run_ok :: "fold_world \<Rightarrow> run_state \<Rightarrow> bool" where
  "run_ok w st \<longleftrightarrow>
     graph_ok (r_graph st) \<and> bmap_ok (r_recorded st) \<and>
     (\<forall>k t. bget (r_recorded st) k = Some (Rec_Cancelling t) \<longrightarrow> bget (r_parks st) k \<noteq> None) \<and>
     (\<forall>k s. bget (r_stacks st) k = Some s \<longrightarrow>
        bget (r_bases st) k \<noteq> None \<and> stack_is_usable (payload_limit (fw_edit w)) s) \<and>
     (\<forall>k s. bget (r_stated_change_urls st) k = Some s \<longrightarrow>
        (\<exists>url. s = ChangeRequest url) \<and> bget (r_stated_landings st) k \<noteq> None) \<and>
     (\<forall>k. bget (r_stated_landings st) k \<noteq> None \<longrightarrow> bget (r_landings st) k \<noteq> None)"

lemma bget_put_some [simp]:
  "bget (put_some k v m) j = (if j = k \<and> v \<noteq> None then v else bget m j)"
  by (auto simp: put_some_def split: option.split)

lemma run_ok_end_the_park:
  "run_ok w st \<Longrightarrow> bget (r_recorded st) k \<in> range (Some \<circ> Rec_At) \<Longrightarrow> run_ok w (end_the_park k st)"
  by (auto simp: run_ok_def end_the_park_def intro: graph_ok_modify)

lemma run_ok_record_op:
  assumes "run_ok w st"
  shows "run_ok w (record_op w at op st)"
proof (cases op)
  case (NodeParked k who reason)
  with assms show ?thesis by (auto simp: run_ok_def)
next
  case (SettledFromEvidence k s e)
  have "run_ok w (st\<lparr> r_recorded := bput k (Rec_At (settled_status s)) (r_recorded st),
      r_outcomes := bput k settled_from_evidence (r_outcomes st) \<rparr>)"
    using assms by (auto simp: run_ok_def)
  with SettledFromEvidence show ?thesis by (auto intro!: run_ok_end_the_park)
next
  case (LandingFromEvidence k l)
  with assms show ?thesis by (auto simp: run_ok_def split: option.split stated_landing.split)
next
  case (NoteDelivered k a t b how s r e i)
  with assms show ?thesis by (auto simp: run_ok_def split: reached.split)
qed (use assms in \<open>auto simp: run_ok_def\<close>)

lemma run_ok_graph: "run_ok w st \<Longrightarrow> graph_ok g \<Longrightarrow> run_ok w (st\<lparr> r_graph := g \<rparr>)"
  by (simp add: run_ok_def)

lemma run_ok_fold_operations:
  assumes "run_ok w st"
  shows "run_ok w (fold_operations w ops at st)"
proof -
  have "run_ok w (fold_operation w at op st)" if "run_ok w st" for op st
    unfolding fold_operation_def
    by (intro run_ok_record_op run_ok_graph apply_op_ok that) (use that in \<open>simp add: run_ok_def\<close>)
  then show ?thesis
    using assms unfolding fold_operations_def by (induction ops arbitrary: st) simp_all
qed

lemma run_ok_settled:
  assumes "run_ok w st"
  shows "run_ok w (fold_settled w k e st)"
proof -
  have status: "run_ok w (fold_status k s st)" if "run_ok w st" for s st
  proof -
    have "run_ok w (st\<lparr> r_recorded := bput k (Rec_At x) (r_recorded st) \<rparr>)" for x
      using that by (auto simp: run_ok_def)
    then show ?thesis
      using that by (auto simp: fold_status_def Let_def intro!: run_ok_end_the_park split: option.split)
  qed
  have outcome: "run_ok w (fold_outcome k o' st)" if "run_ok w st" for o' st
    using that by (auto simp: run_ok_def fold_outcome_def Let_def)
  have base: "run_ok w (fold_base w k p st)" if "run_ok w st" for p st
    using that by (auto simp: run_ok_def fold_base_def split: option.split)
  have head: "run_ok w (fold_head w k p st)" if "run_ok w st" for p st
    using that by (auto simp: run_ok_def fold_head_def Let_def split: option.split)
  have pin: "run_ok w (pin_preserved_branch k s st)" if "run_ok w st" for s st
    using that by (auto simp: run_ok_def pin_preserved_branch_def pinned_to_def Let_def
        intro: graph_ok_modify split: option.split)
  have frame: "run_ok w (st\<lparr> r_continued_reworks := a \<rparr>)" "run_ok w (st\<lparr> r_restacking := b \<rparr>)"
    "run_ok w (st\<lparr> r_branches := c, r_completed_steps := d, r_change_urls := f \<rparr>)"
    "run_ok w (st\<lparr> r_causes := g, r_remotes := h, r_landings := put_some k l (r_landings st), r_settled_at := i \<rparr>)"
    if "run_ok w st" for st a b c d f g h l i
    using that by (auto simp: run_ok_def)
  show ?thesis
    unfolding fold_settled_def Let_def
    by (intro frame) (auto split: option.split intro!: frame status outcome base head pin assms)
qed

text \<open>The record a taken-over run starts from.\<close>

lemma bget_map_filter_snd:
  "distinct (map fst m) \<Longrightarrow>
     bget (map (\<lambda>(k, r). (k, f r)) (filter (\<lambda>(_, r). P r) m)) j =
       (case bget m j of None \<Rightarrow> None | Some r \<Rightarrow> if P r then Some (f r) else None)"
proof (induction m)
  case (Cons e m)
  then have "fst e \<noteq> j \<or> bget m j = None" by (auto simp: map_of_eq_None_iff)
  with Cons show ?case by (cases e) (auto split: option.split)
qed simp

lemma bget_drop_running:
  "bmap_ok (r_recorded st) \<Longrightarrow>
     bget (r_recorded (drop_running st)) k =
       (case bget (r_recorded st) k of None \<Rightarrow> None
        | Some r \<Rightarrow> if rec_status r \<noteq> Running then Some (cancel_over r) else None)"
  by (simp add: drop_running_def bget_map_filter_snd bmap_ok_distinct)

lemma bget_all_done:
  "bget (fold (\<lambda>(j, _). bput j (Rec_At Done)) xs m) k =
     (if k \<in> fst ` set xs then Some (Rec_At Done) else bget m k)"
  by (induction xs arbitrary: m) auto

lemma bmap_ok_all_done: "bmap_ok m \<Longrightarrow> bmap_ok (fold (\<lambda>(j, _). bput j (Rec_At Done)) xs m)"
  by (induction xs arbitrary: m) auto

lemma run_ok_adopted:
  assumes "run_ok w st"
  shows "run_ok w (fold_adopted e st)"
proof -
  have abandon: "run_ok w (fold abandon_one entries st)" if "run_ok w st" for entries st
    using that
  proof (induction entries arbitrary: st)
    case (Cons x entries)
    have "run_ok w (abandon_one x st)"
      using Cons.prems by (cases x) (auto simp: run_ok_def abandon_one_def intro: graph_ok_modify)
    then show ?case by (simp add: Cons.IH)
  qed simp
  have restacked: "run_ok w (restacks_end_done st)" if "run_ok w st" for st
    using that by (auto simp: run_ok_def restacks_end_done_def bget_all_done bmap_ok_all_done)
  have dropped: "run_ok w (drop_running st)" if ok: "run_ok w st" for st
  proof -
    have "sorted_wrt (<) (map fst (r_recorded st))" using ok by (simp add: run_ok_def bmap_ok_def)
    then have "bmap_ok (r_recorded (drop_running st))"
      by (auto simp: bmap_ok_def drop_running_def sorted_wrt_map split_def intro: sorted_wrt_filter)
    moreover have "cancel_over r \<noteq> Rec_Cancelling t" for r t by (cases r) simp_all
    ultimately show ?thesis
      using ok bget_drop_running [of st]
      by (auto simp: run_ok_def drop_running_def split: option.splits if_splits)
  qed
  have "run_ok w (st\<lparr> r_let_go_by := a, r_closure := b, r_stop := c \<rparr>)" for a b c
    using assms by (auto simp: run_ok_def)
  then show ?thesis
    unfolding fold_adopted_def abandon_the_dispatch_in_flight_def by (intro dropped restacked abandon)
qed

lemma run_ok_nodes:
  assumes "run_ok w st"
  shows "run_ok w (fold_dispatched e k st)" "run_ok w (fold_restack_started e k onto st)"
    "run_ok w (fold_restacked k x st)" "run_ok w (fold_landed w k x st)"
    "run_ok w (fold_absorbed w k b st)" "run_ok w (fold_readjusted k x st)"
    "run_ok w (fold_checks k b v st)" "run_ok w (fold_adopted_release w k p st)"
    "run_ok w (fold_cross_satisfied p st)" "run_ok w (fold_upstream_modified n p st)"
  using assms
  by (auto simp: run_ok_def fold_dispatched_def fold_restack_started_def fold_restacked_def fold_landed_def
      fold_absorbed_def fold_readjusted_def fold_checks_def fold_adopted_release_def
      fold_cross_satisfied_def fold_upstream_modified_def Let_def intro: graph_ok_modify
      split: option.splits checks_verdict.splits)

lemma run_ok_commit:
  assumes "run_ok w st"
  shows "run_ok w (fold_commit edit ops st)"
  using assms unfolding fold_commit_def
proof (induction ops arbitrary: st)
  case (Cons op ops)
  have "run_ok w (st\<lparr> r_noted := a \<rparr>)" "run_ok w (st\<lparr> r_nodes_added := b \<rparr>)" for a b
    using Cons.prems by (auto simp: run_ok_def)
  with Cons show ?case by (cases op) auto
qed simp

lemma run_ok_committed: "run_ok w st \<Longrightarrow> run_ok w (fold_committed w edit e st)"
proof -
  assume ok: "run_ok w st"
  have "run_ok w (st\<lparr> r_closure := c \<rparr>)" "run_ok w (st\<lparr> r_closure := c, r_strict := b \<rparr>)"
    "run_ok w (st\<lparr> r_strict := b \<rparr>)" for b c
    using ok by (auto simp: run_ok_def)
  with ok show ?thesis
    by (auto simp: fold_committed_def Let_def intro!: run_ok_fold_operations run_ok_commit split: option.split)
qed

lemma run_ok_sources:
  assumes "run_ok w st"
  shows "run_ok w (fold_session w e st)" "run_ok w (fold_push w e st)" "run_ok w (fold_landing_commit w e st)"
proof -
  have "run_ok w (st\<lparr> r_retired_branches := a, r_branch_prefix := b, r_bases := put_some k v (r_bases st),
      r_sessions := c \<rparr>)" "run_ok w (st\<lparr> r_branch_heads := d \<rparr>)"
    "run_ok w (st\<lparr> r_landing_commits := f, r_bases := put_some k v (r_bases st) \<rparr>)" for a b c d f k v
    using assms by (auto simp: run_ok_def)
  with assms show "run_ok w (fold_session w e st)" "run_ok w (fold_push w e st)"
    "run_ok w (fold_landing_commit w e st)"
    by (simp_all add: fold_session_def fold_push_def fold_landing_commit_def Let_def split: option.split)
qed

lemma run_ok_vcs: "run_ok w st \<Longrightarrow> run_ok w (fold_vcs w e st)"
  by (cases "ev_kind e") (simp_all add: fold_vcs_def run_ok_sources)

lemma run_ok_kind:
  assumes "run_ok w st"
  shows "run_ok w (fold_kind w what e st)"
proof (cases what)
  case K_RunStarted
  have "run_ok w (st\<lparr> r_closure := c \<rparr>)" "run_ok w (st\<lparr> r_graph := from_plan p, r_plan := q \<rparr>)"
    "run_ok w (st\<lparr> r_closure := c, r_graph := from_plan p, r_plan := q \<rparr>)" for c p q
    using assms by (auto simp: run_ok_def graph_ok_from_plan)
  with K_RunStarted assms show ?thesis by (auto simp: on_some_def Let_def split: option.split)
next
  case K_ChangeRetitled
  with assms show ?thesis
    by (auto simp: run_ok_def on_some_def intro: graph_ok_modify split: option.split)
qed (use assms in \<open>auto simp: on_some_def Let_def run_ok_nodes run_ok_settled run_ok_adopted run_ok_committed
      split: option.split json.split\<close>; use assms in \<open>auto simp: run_ok_def\<close>)+

lemma run_ok_record:
  assumes "run_ok w st"
  shows "run_ok w (fold_record w e st)"
proof -
  have frame: "run_ok w (st\<lparr> r_last_write_at := a \<rparr>)" "run_ok w (st\<lparr> r_strict := b \<rparr>)"
    "run_ok w (st\<lparr> r_last_progress_at := a \<rparr>)" "run_ok w (st\<lparr> r_dispatched_nodes := c \<rparr>)"
    if "run_ok w st" for st a b c
    using that by (auto simp: run_ok_def)
  have recall: "run_ok w (fold_recall e st)" if "run_ok w st" for st
    using frame [OF that] that frame(4) [OF frame(3) [OF that]]
    by (cases "ev_kind e") (auto simp: fold_recall_def Let_def split: option.split)
  show ?thesis
    using assms unfolding fold_record_def Let_def
    by (auto intro!: frame run_ok_kind run_ok_vcs recall)
qed

interpretation journal: preserving_fold "fold_record w" "run_ok w" for w
  by unfold_locales (rule run_ok_record)

lemma run_ok_journal: "run_ok w (fold_journal w es)"
  unfolding fold_journal_def by (rule journal.fold_inv) (simp add: run_ok_def blank_run_def)

section \<open>A driver takes the run over\<close>

lemma sessions_in_flight_in:
  assumes "bmap_ok (r_recorded st)"
  shows "(k, s) \<in> set (sessions_in_flight st) \<longleftrightarrow>
    map_option rec_status (bget (r_recorded st) k) = Some Running \<and> bget (r_sessions st) k = Some s"
proof -
  have "(k, r) \<in> set (r_recorded st) \<longleftrightarrow> bget (r_recorded st) k = Some r" for r
    using bmap_ok_in_bget [OF assms] bget_Some_in by metis
  then show ?thesis by (auto simp: sessions_in_flight_def in_map_filter)
qed

lemma sessions_in_flight_distinct:
  "bmap_ok (r_recorded st) \<Longrightarrow> distinct (map fst (sessions_in_flight st))"
proof -
  have "distinct (map fst m) \<Longrightarrow> distinct (map fst (List.map_filter (\<lambda>(k, r). map_option (Pair k) (bget n k))
      (filter (\<lambda>(_, r). P r) m)))" for m :: "run_recorded bmap" and n :: "dispatch_session bmap" and P
  proof (induction m)
    case (Cons x m)
    have "k \<in> fst ` set m" if "k \<in> fst ` set (List.map_filter (\<lambda>(k, r). map_option (Pair k) (bget n k))
        (filter (\<lambda>(_, r). P r) m))" for k
      using that by (force simp: in_map_filter)
    with Cons show ?case by (cases x) (auto simp: map_filter_simps split: option.split)
  qed (simp add: map_filter_simps)
  then show "bmap_ok (r_recorded st) \<Longrightarrow> ?thesis"
    by (simp add: sessions_in_flight_def bmap_ok_distinct)
qed

text \<open>Abandoning a list of sessions, looked up.\<close>

lemma abandon_each:
  "distinct (map fst xs) \<Longrightarrow>
     r_recorded (fold abandon_one xs st) = r_recorded st \<and>
     r_restacking (fold abandon_one xs st) = r_restacking st \<and>
     (\<forall>k. graph_get (r_graph (fold abandon_one xs st)) k =
        (case bget xs k of None \<Rightarrow> graph_get (r_graph st) k
         | Some s \<Rightarrow> map_option (\<lambda>n. n\<lparr> branch := Some (ds_branch s) \<rparr>) (graph_get (r_graph st) k))) \<and>
     (\<forall>k. bget (r_sessions (fold abandon_one xs st)) k = (if bget xs k = None then bget (r_sessions st) k else None)) \<and>
     (\<forall>k. bget (r_abandoned (fold abandon_one xs st)) k =
        (case bget xs k of None \<Rightarrow> bget (r_abandoned st) k | Some s \<Rightarrow> Some s))"
proof (induction xs arbitrary: st)
  case (Cons x xs)
  obtain j s where x: "x = (j, s)" by (cases x)
  with Cons.prems have fresh: "bget xs j = None" by (simp add: map_of_eq_None_iff)
  have "distinct (map fst xs)" using Cons.prems by simp
  note ih = Cons.IH [OF this, of "abandon_one x st"]
  show ?case using ih fresh by (auto simp: x abandon_one_def split: option.splits)
qed simp

lemma abandon_frame:
  "r_let_go_by (fold abandon_one xs st) = r_let_go_by st"
  "r_closure (fold abandon_one xs st) = r_closure st"
  "r_stop (fold abandon_one xs st) = r_stop st"
  "r_last_write_at (fold abandon_one xs st) = r_last_write_at st"
  by (induction xs arbitrary: st) (simp_all add: abandon_one_def split_def Let_def)

lemma in_flight_bget:
  assumes "bmap_ok (r_recorded st)"
  shows "bget (sessions_in_flight st) k =
    (if map_option rec_status (bget (r_recorded st) k) = Some Running then bget (r_sessions st) k else None)"
proof -
  have "bget (sessions_in_flight st) k = Some s \<longleftrightarrow> (k, s) \<in> set (sessions_in_flight st)" for s
    using sessions_in_flight_distinct [OF assms] by (metis map_of_eq_Some_iff)
  then have "bget (sessions_in_flight st) k = Some s \<longleftrightarrow>
      map_option rec_status (bget (r_recorded st) k) = Some Running \<and> bget (r_sessions st) k = Some s" for s
    using sessions_in_flight_in [OF assms] by simp
  then show ?thesis by (cases "bget (sessions_in_flight st) k") (force split: if_splits)+
qed

lemma adopted_facts:
  fixes e k
  assumes "run_ok w st"
  defines "st' \<equiv> fold_adopted e st"
  shows "bget (r_recorded st') k =
      (if bget (r_restacking st) k \<noteq> None then Some (Rec_At Done)
       else case bget (r_recorded st) k of None \<Rightarrow> None
            | Some r \<Rightarrow> if rec_status r \<noteq> Running then Some (cancel_over r) else None)"
    and "graph_get (r_graph st') k =
      (case bget (sessions_in_flight st) k of None \<Rightarrow> graph_get (r_graph st) k
       | Some s \<Rightarrow> map_option (\<lambda>n. n\<lparr> branch := Some (ds_branch s) \<rparr>) (graph_get (r_graph st) k))"
    and "bget (r_sessions st') k = (if bget (sessions_in_flight st) k = None then bget (r_sessions st) k else None)"
    and "bget (r_abandoned st') k =
      (case bget (sessions_in_flight st) k of None \<Rightarrow> bget (r_abandoned st) k | Some s \<Rightarrow> Some s)"
    and "r_restacking st' = []"
proof -
  let ?at = "st\<lparr> r_let_go_by := None,
           r_closure := (reopened (or_else (millis_of (ev_ts e)) (r_last_write_at st)) (r_closure st))
             \<lparr> cl_owed_until_closed := owed_until_closed (ev_payload e) \<or> cl_owed_until_closed (r_closure st) \<rparr>,
           r_stop := NotStopped \<rparr>"
  let ?left = "fold abandon_one (sessions_in_flight st) ?at"
  have flights: "sessions_in_flight ?at = sessions_in_flight st" by (simp add: sessions_in_flight_def)
  have ok: "bmap_ok (r_recorded st)" using assms(1) by (simp add: run_ok_def)
  have st': "st' = drop_running (restacks_end_done ?left)"
    unfolding st'_def fold_adopted_def abandon_the_dispatch_in_flight_def flights ..
  note left = abandon_each [OF sessions_in_flight_distinct [OF ok], of ?at]
  have rec: "r_recorded (restacks_end_done ?left) = fold (\<lambda>(j, _). bput j (Rec_At Done)) (r_restacking st) (r_recorded st)"
    using left by (simp add: restacks_end_done_def)
  then have "bmap_ok (r_recorded (restacks_end_done ?left))" using bmap_ok_all_done [OF ok] by simp
  from bget_drop_running [OF this] show "bget (r_recorded st') k =
      (if bget (r_restacking st) k \<noteq> None then Some (Rec_At Done)
       else case bget (r_recorded st) k of None \<Rightarrow> None
            | Some r \<Rightarrow> if rec_status r \<noteq> Running then Some (cancel_over r) else None)"
    unfolding st' rec by (auto simp: bget_all_done bget_dom)
  show "graph_get (r_graph st') k =
      (case bget (sessions_in_flight st) k of None \<Rightarrow> graph_get (r_graph st) k
       | Some s \<Rightarrow> map_option (\<lambda>n. n\<lparr> branch := Some (ds_branch s) \<rparr>) (graph_get (r_graph st) k))"
    "bget (r_sessions st') k = (if bget (sessions_in_flight st) k = None then bget (r_sessions st) k else None)"
    "bget (r_abandoned st') k =
      (case bget (sessions_in_flight st) k of None \<Rightarrow> bget (r_abandoned st) k | Some s \<Rightarrow> Some s)"
    "r_restacking st' = []"
    unfolding st' using left by (simp_all add: drop_running_def restacks_end_done_def cong: option.case_cong)
qed

lemma adopted_again:
  assumes "run_ok w st"
  shows "fold_adopted e (fold_adopted e st) = fold_adopted e st"
proof -
  let ?a = "fold_adopted e st"
  have ok: "bmap_ok (r_recorded ?a)" using run_ok_adopted [OF assms, of e] by (simp add: run_ok_def)
  have settled: "rec_status r \<noteq> Running \<and> cancel_over r = r" if "(k, r) \<in> set (r_recorded ?a)" for k r
  proof -
    have "bget (r_recorded ?a) k = Some r" using bmap_ok_in_bget [OF ok that] .
    moreover have "cancel_over x \<noteq> Rec_Cancelling t" "rec_status x \<noteq> Running \<Longrightarrow> cancel_over x \<noteq> Rec_At Running" for x t
      by (cases x; simp)+
    ultimately show ?thesis
      using adopted_facts(1) [OF assms, of e k] by (cases r) (auto split: if_splits option.splits)
  qed
  then have none: "sessions_in_flight ?a = []"
  proof -
    have "filter (\<lambda>(_, r). rec_status r = Running) (r_recorded ?a) = []"
      using settled by (auto simp: filter_empty_conv)
    then show ?thesis by (simp add: sessions_in_flight_def map_filter_simps)
  qed
  have "map (\<lambda>(k, r). (k, cancel_over r)) (filter (\<lambda>(_, r). rec_status r \<noteq> Running) (r_recorded ?a)) = r_recorded ?a"
  proof -
    have "filter (\<lambda>(_, r). rec_status r \<noteq> Running) (r_recorded ?a) = r_recorded ?a"
      using settled by (auto simp: filter_id_conv)
    then show ?thesis using settled by (auto intro!: map_idI)
  qed
  moreover have fields: "r_let_go_by ?a = None" "r_stop ?a = NotStopped" "r_restacking ?a = []"
    "r_last_write_at ?a = r_last_write_at st"
    "r_closure ?a = (reopened (or_else (millis_of (ev_ts e)) (r_last_write_at st)) (r_closure st))
             \<lparr> cl_owed_until_closed := owed_until_closed (ev_payload e) \<or> cl_owed_until_closed (r_closure st) \<rparr>"
    by (simp_all add: fold_adopted_def drop_running_def restacks_end_done_def
        abandon_the_dispatch_in_flight_def abandon_frame)
  ultimately have still: "drop_running (restacks_end_done (?a\<lparr> r_let_go_by := None, r_closure := r_closure ?a,
      r_stop := NotStopped \<rparr>)) = ?a"
    by (simp add: drop_running_def restacks_end_done_def)
  have closure: "(reopened (or_else (millis_of (ev_ts e)) (r_last_write_at ?a)) (r_closure ?a))
      \<lparr> cl_owed_until_closed := owed_until_closed (ev_payload e) \<or> cl_owed_until_closed (r_closure ?a) \<rparr> = r_closure ?a"
    unfolding fields by (auto simp: reopened_def split: option.split)
  have "sessions_in_flight (?a\<lparr> r_let_go_by := None, r_closure := r_closure ?a, r_stop := NotStopped \<rparr>) = []"
    using none by (simp add: sessions_in_flight_def)
  then show ?thesis
    unfolding fold_adopted_def [of e "?a"] closure abandon_the_dispatch_in_flight_def using still by simp
qed

text \<open>
  C8. Whatever the journal holds, in whatever order: the folded graph keeps one node an id, a
  cancellation in flight has its park, a stack is recorded only beside a base and with parents
  that are usable, and a change request is stated only of a node with a stated landing, which
  has a landing.
\<close>

theorem journal_keeps_the_run_whole:
  assumes "st = fold_journal w es"
  shows "graph_ok (r_graph st) \<and>
    (\<forall>k t. bget (r_recorded st) k = Some (Rec_Cancelling t) \<longrightarrow> bget (r_parks st) k \<noteq> None) \<and>
    (\<forall>k s. bget (r_stacks st) k = Some s \<longrightarrow>
       bget (r_bases st) k \<noteq> None \<and> ss_parents s \<noteq> [] \<and>
       (\<forall>p \<in> set (ss_parents s). usable (payload_limit (fw_edit w)) (sp_head p) \<noteq> None)) \<and>
    (\<forall>k s. bget (r_stated_change_urls st) k = Some s \<longrightarrow> (\<exists>url. s = ChangeRequest url) \<and>
       bget (r_stated_landings st) k \<noteq> None \<and> bget (r_landings st) k \<noteq> None)"
  using run_ok_journal [of w es] unfolding assms run_ok_def stack_is_usable_def
  by (auto simp: list_all_iff)

text \<open>
  C7. A driver that takes a run over starts from a record of what has settled: nothing is
  running and nothing is being cancelled, a restack its predecessor died in is done again, and
  every other node reads as it did. Each node that ran with a session open is pinned to that
  session's branch, every other node of the graph is left alone, and the sessions are kept as
  abandoned. Taking the run over again changes nothing.
\<close>

theorem takeover_starts_from_what_settled:
  fixes w es e
  defines "st \<equiv> fold_journal w es"
  shows "(\<forall>k. bget (r_recorded (fold_adopted e st)) k =
      (if bget (r_restacking st) k \<noteq> None then Some (Rec_At Done)
       else case bget (r_recorded st) k of
              Some (Rec_Cancelling _) \<Rightarrow> Some (Rec_At Parked)
            | r \<Rightarrow> if r = Some (Rec_At Running) then None else r)) \<and>
    (\<forall>k. let ran = (bget (r_recorded st) k = Some (Rec_At Running)); session = bget (r_sessions st) k
         in graph_get (r_graph (fold_adopted e st)) k =
              (if ran \<and> session \<noteq> None
               then map_option (\<lambda>n. n\<lparr> branch := map_option ds_branch session \<rparr>) (graph_get (r_graph st) k)
               else graph_get (r_graph st) k) \<and>
            bget (r_abandoned (fold_adopted e st)) k =
              (if ran \<and> session \<noteq> None then session else bget (r_abandoned st) k)) \<and>
    r_restacking (fold_adopted e st) = [] \<and> fold_adopted e (fold_adopted e st) = fold_adopted e st"
proof -
  note ok = run_ok_journal [of w es, folded st_def]
  then have recorded: "bmap_ok (r_recorded st)" by (simp add: run_ok_def)
  have ran: "rec_status r = Running \<longleftrightarrow> r = Rec_At Running" for r by (cases r) simp_all
  show ?thesis
    using adopted_again [OF ok, of e] adopted_facts [OF ok, of e]
    by (auto simp: in_flight_bget [OF recorded] ran Let_def split: option.split run_recorded.split)
qed

section \<open>A cancelled dispatch whose driver died\<close>

lemma parked_reads_parked:
  assumes "graph_ok (r_graph st)" "graph_get (r_graph st) k = Some n" "parked n"
  shows "bget (statuses_with st up) k = Some Parked"
  using derive_filled_seed [OF assms(1,2), of "settled_facts st" Parked up] assms
  by (simp add: statuses_with_def derive_get seed_status_def)

text \<open>
  A dispatch that was being cancelled when its driver died is not among what the next driver
  finds in flight: its node keeps the branch it had, if any, and not the one its session
  committed to, and the session is not kept as abandoned. Where the dispatch was a restack, the
  node is recorded done under its park: it reads parked, and settling it done is refused as
  recorded already.
\<close>

lemma takeover_forgets_a_cancelled_dispatch:
  assumes "st = fold_journal w es" "bget (r_recorded st) k = Some (Rec_Cancelling t)"
    and "graph_get (r_graph st) k = Some n" "parked n" and "st' = fold_adopted e st"
  shows "graph_get (r_graph st') k = Some n \<and> bget (r_abandoned st') k = bget (r_abandoned st) k \<and>
    bget (statuses_with st' up) k = Some Parked \<and>
    bget (r_recorded st') k = Some (Rec_At (if bget (r_restacking st) k = None then Parked else Done)) \<and>
    (bget (r_restacking st) k \<noteq> None \<longrightarrow>
       isl (compile_into (fw_edit w) (r_graph st') (frontier_of st') a (Cmd_Settle k Settle_Done why None None)))"
proof -
  have ok: "run_ok w st" using run_ok_journal assms(1) by simp
  then have "bmap_ok (r_recorded st)" by (simp add: run_ok_def)
  then have "bget (sessions_in_flight st) k = None" using assms(2) by (simp add: in_flight_bget)
  with adopted_facts(1,2,4) [OF ok, where e = e and k = k] assms(2,3,5)
  have facts: "graph_get (r_graph st') k = Some n" "bget (r_abandoned st') k = bget (r_abandoned st) k"
    "bget (r_recorded st') k = Some (Rec_At (if bget (r_restacking st) k = None then Parked else Done))"
    by (simp_all split: if_splits)
  have "graph_ok (r_graph st')" using run_ok_adopted [OF ok, of e] assms(5) by (simp add: run_ok_def)
  with facts(1) assms(4) have "bget (statuses_with st' up) k = Some Parked" by (simp add: parked_reads_parked)
  moreover have "isl (compile_into (fw_edit w) (r_graph st') (frontier_of st') a (Cmd_Settle k Settle_Done why None None))"
    if "bget (r_restacking st) k \<noteq> None"
    using that facts(1,3)
    by (auto simp: stated_of_def compile_settle_def refused_when_def and_then_def settled_status_def frontier_of_def graph_contains_def)
  ultimately show ?thesis using facts by blast
qed

text \<open>A run of one node, dispatched, its session opened, cancelled; then its driver dies.\<close>

definition cancelled_run :: "journal_event list" where
  "cancelled_run =
     [record_of From_Pipeline K_RunStarted [(''plan'', JNull)],
      record_of From_Pipeline K_NodeDispatched [],
      record_of From_Vcs K_SessionOpened [(''branch'', JString ''work/a''), (''token'', JString ''s1'')],
      record_of From_Pipeline K_EditCommitted [(''operations'', JNull)]]"

definition restack_cancelled_run :: "journal_event list" where
  "restack_cancelled_run =
     [record_of From_Pipeline K_RunStarted [(''plan'', JNull)],
      record_of From_Pipeline K_NodeRestackStarted [(''node'', JString ''a'')],
      record_of From_Pipeline K_EditCommitted [(''operations'', JNull)]]"

lemma cancelled_run_state_let:
  "let st = fold_journal one_world cancelled_run
   in bget (r_recorded st) ''a'' = Some (Rec_Cancelling 1767323045006) \<and>
      graph_get (r_graph st) ''a'' = Some ((plain_node ''a'' [])\<lparr> parked := True \<rparr>) \<and>
      bget (r_sessions st) ''a'' = Some \<lparr> ds_token = ''s1'', ds_branch = ''work/a'' \<rparr>"
  by code_simp

lemma restack_cancelled_run_state_let:
  "let st = fold_journal one_world restack_cancelled_run
   in bget (r_recorded st) ''a'' = Some (Rec_Cancelling 1767323045006) \<and>
      graph_get (r_graph st) ''a'' = Some ((plain_node ''a'' [])\<lparr> parked := True \<rparr>) \<and>
      bget (r_restacking st) ''a'' = Some JNull"
  by code_simp

lemma cancelled_run_state:
  "bget (r_recorded (fold_journal one_world cancelled_run)) ''a'' = Some (Rec_Cancelling 1767323045006)"
  "graph_get (r_graph (fold_journal one_world cancelled_run)) ''a'' = Some ((plain_node ''a'' [])\<lparr> parked := True \<rparr>)"
  "bget (r_sessions (fold_journal one_world cancelled_run)) ''a'' = Some \<lparr> ds_token = ''s1'', ds_branch = ''work/a'' \<rparr>"
  using cancelled_run_state_let by (simp_all add: Let_def)

lemma restack_cancelled_run_state:
  "bget (r_recorded (fold_journal one_world restack_cancelled_run)) ''a'' = Some (Rec_Cancelling 1767323045006)"
  "graph_get (r_graph (fold_journal one_world restack_cancelled_run)) ''a'' = Some ((plain_node ''a'' [])\<lparr> parked := True \<rparr>)"
  "bget (r_restacking (fold_journal one_world restack_cancelled_run)) ''a'' = Some JNull"
  using restack_cancelled_run_state_let by (simp_all add: Let_def)

theorem journal_keeps_the_run_whole_witness:
  "\<exists>p. bget (r_parks (fold_journal one_world cancelled_run)) ''a'' = Some p"
proof -
  note whole = journal_keeps_the_run_whole [OF refl, of one_world cancelled_run, THEN conjunct2, THEN conjunct1]
  from whole [rule_format, OF cancelled_run_state(1)] show ?thesis by blast
qed

end
