(* ===== verification/Interlock.thy ===== *)
theory Interlock
  imports Cross_Dag "HOL-Library.Product_Lexorder"
begin

text \<open>
  The launch interlock (\<open>src/src/concurrency.rs\<close>, and its caller in \<open>driver.rs\<close>): which of the
  sessions that hold the plan's repositories the launch defers to, and which it conflicts with.
  The enumeration of the holders of one repository, and whether a holder is live, are the
  version-control crate's: \<open>session_holders\<close> is an argument. Of a holder the fields this code
  reads are kept.
\<close>

section \<open>The holders of the plan's repositories\<close>

datatype holder_lifecycle = Open_Session | Ended_Session

datatype holder_liveness = Live_Owner | Stale_Owner

record holder =
  ho_identity :: str
  ho_token :: str
  ho_labels :: "str bmap"
  ho_state :: holder_lifecycle
  ho_liveness :: holder_liveness

record holdings =
  hg_holders :: "holder list"
  hg_identities :: "str set bmap"

text \<open>
  Every distinct repository of the plan is asked in the order of its spelling; a holder found
  twice is kept once, under its identity and token.
\<close>

definition repositories_named :: "plan \<Rightarrow> str list" where
  "repositories_named p = map fst (bcollect (map (\<lambda>r. (r, ())) (List.map_filter repo (tasks p))))"

fun read_holders ::
  "(str \<Rightarrow> holder list option) \<Rightarrow> str list \<Rightarrow> (str \<times> str, holder) omap \<Rightarrow> str set bmap
     \<Rightarrow> str + ((str \<times> str, holder) omap \<times> str set bmap)" where
  "read_holders session_holders [] by_token identities = Inr (by_token, identities)"
| "read_holders session_holders (r # rs) by_token identities =
     (case session_holders r of
        None \<Rightarrow> Inl r
      | Some found \<Rightarrow>
          read_holders session_holders rs
            (fold (\<lambda>h. bput (ho_identity h, ho_token h) h) found by_token)
            (bput r (set (map ho_identity found)) identities))"

definition holders :: "(str \<Rightarrow> holder list option) \<Rightarrow> plan \<Rightarrow> str + holdings" where
  "holders session_holders p =
     map_sum id (\<lambda>(by_token, identities).
         \<lparr> hg_holders = map snd by_token, hg_identities = identities \<rparr>)
       (read_holders session_holders (repositories_named p) [] [])"

definition live_holders :: "holdings \<Rightarrow> holder list" where
  "live_holders hg =
     filter (\<lambda>h. ho_state h = Open_Session \<and> ho_liveness h = Live_Owner) (hg_holders hg)"

definition session_run_label :: str where
  "session_run_label = ''run''"

definition session_node_label :: str where
  "session_node_label = ''node''"

definition attribution :: "holder \<Rightarrow> (str \<times> str) option" where
  "attribution h =
     (case (bget (ho_labels h) session_run_label, bget (ho_labels h) session_node_label) of
        (Some run, Some n) \<Rightarrow> if run \<noteq> [] \<and> n \<noteq> [] then Some (run, n) else None
      | _ \<Rightarrow> None)"

section \<open>Waiting for a reference\<close>

text \<open>
  \<open>reaches\<close>: whether a node waits for a dependency, directly or through the plan's own edges.
  The recursion shares one set of the nodes seen, so \<open>any_reaches\<close>, the search over a list of
  dependencies, returns it beside its answer. A node reached from a dependency is marked before
  its own dependencies are searched.
\<close>

function any_reaches :: "node bmap \<Rightarrow> str \<Rightarrow> str list \<Rightarrow> str set \<Rightarrow> bool \<times> str set" where
  "any_reaches by_id d [] seen = (False, seen)"
| "any_reaches by_id d (x # xs) seen =
     (if x = d then (True, seen)
      else case bget by_id x of
             None \<Rightarrow> any_reaches by_id d xs seen
           | Some up \<Rightarrow>
               if node_id up \<in> seen then any_reaches by_id d xs seen
               else (case any_reaches by_id d (deps up) (insert (node_id up) seen) of
                       (found, seen') \<Rightarrow>
                         if found then (True, seen') else any_reaches by_id d xs seen'))"
  by pat_completeness auto

lemma any_reaches_dom_grows:
  assumes "any_reaches_dom (by_id, d, xs, seen)"
  shows "seen \<subseteq> snd (any_reaches by_id d xs seen)"
  using assms
proof (induction rule: any_reaches.pinduct)
  case (1 by_id d seen)
  then show ?case by (simp add: any_reaches.psimps)
next
  case (2 by_id d x xs seen)
  show ?case
  proof (cases "bget by_id x")
    case None
    with 2 show ?thesis by (cases "x = d") (simp_all add: any_reaches.psimps)
  next
    case (Some up)
    obtain found seen' where below:
      "any_reaches by_id d (deps up) (insert (node_id up) seen) = (found, seen')" by fastforce
    have step: "any_reaches by_id d (x # xs) seen =
        (if x = d then (True, seen) else if node_id up \<in> seen then any_reaches by_id d xs seen
         else if found then (True, seen') else any_reaches by_id d xs seen')"
      using Some below 2(1) by (simp add: any_reaches.psimps)
    have "x \<noteq> d \<Longrightarrow> node_id up \<in> seen \<Longrightarrow> seen \<subseteq> snd (any_reaches by_id d xs seen)"
      using 2(3) Some by simp
    moreover have "seen \<subseteq> seen'" if "x \<noteq> d" "node_id up \<notin> seen"
      using 2(4) [OF that(1) Some that(2)] below by simp
    moreover have "seen' \<subseteq> snd (any_reaches by_id d xs seen')" if "x \<noteq> d" "node_id up \<notin> seen" "\<not> found"
      using 2(5) [OF that(1) Some that(2)] below that(3) by simp
    ultimately show ?thesis unfolding step by (auto split: if_splits)
  qed
qed

lemma map_of_node_ids: "bget m x = Some n \<Longrightarrow> node_id n \<in> node_id ` snd ` set m"
  by (force dest!: map_of_SomeD)

termination any_reaches
proof (relation "inv_image (less_than <*lex*> less_than)
     (\<lambda>(by_id, d, xs, seen). (card (node_id ` snd ` set by_id - seen), length xs))", goal_cases)
  case (4 by_id d x xs seen up)
  then have "card (node_id ` snd ` set by_id - insert (node_id up) seen)
      < card (node_id ` snd ` set by_id - seen)"
    using map_of_node_ids [of by_id x up] by (intro psubset_card_mono) auto
  then show ?case by simp
next
  case (5 by_id d x xs seen up found seen')
  have "insert (node_id up) seen \<subseteq> seen'" using any_reaches_dom_grows [OF 5(6)] by (simp flip: 5(4))
  then have "card (node_id ` snd ` set by_id - seen') \<le> card (node_id ` snd ` set by_id - seen)"
    by (intro card_mono) auto
  then show ?case by (auto simp: le_less)
qed auto

definition reaches :: "node bmap \<Rightarrow> str \<Rightarrow> node \<Rightarrow> bool" where
  "reaches by_id d n = fst (any_reaches by_id d (deps n) {node_id n})"

section \<open>The acknowledgement rule\<close>

record deferred =
  df_holder :: holder
  df_run :: str
  df_node :: str
  df_dependency :: str
  df_dependents :: "str list"

record conflict =
  cf_holder :: holder
  cf_attribution :: "(str \<times> str) option"
  cf_undeclared :: "str list"

record classified =
  cl_deferred :: "deferred list"
  cl_conflicts :: "conflict list"

definition by_node_id :: "plan \<Rightarrow> node bmap" where
  "by_node_id p = bcollect (map (\<lambda>n. (node_id n, n)) (tasks p))"

definition works_on :: "str set bmap \<Rightarrow> holder \<Rightarrow> node \<Rightarrow> bool" where
  "works_on identities h n \<longleftrightarrow>
     (case Option.bind (repo n) (bget identities) of
        None \<Rightarrow> False | Some found \<Rightarrow> ho_identity h \<in> found)"

definition classify_one :: "plan \<Rightarrow> str set bmap \<Rightarrow> holder \<Rightarrow> conflict + deferred" where
  "classify_one p identities h =
     (let on = filter (works_on identities h) (tasks p) in
      case attribution h of
        None \<Rightarrow> Inl \<lparr> cf_holder = h, cf_attribution = None, cf_undeclared = map node_id on \<rparr>
      | Some (run, n) \<Rightarrow>
          (let dependency = show_reference \<lparr> ref_run = run, ref_node = n \<rparr>;
               undeclared = map node_id (filter (\<lambda>c. \<not> reaches (by_node_id p) dependency c) on)
           in if on = [] \<or> undeclared \<noteq> []
              then Inl \<lparr> cf_holder = h, cf_attribution = Some (run, n), cf_undeclared = undeclared \<rparr>
              else Inr \<lparr> df_holder = h, df_run = run, df_node = n, df_dependency = dependency,
                         df_dependents = map node_id on \<rparr>))"

fun classify :: "plan \<Rightarrow> str set bmap \<Rightarrow> holder list \<Rightarrow> classified" where
  "classify p identities [] = \<lparr> cl_deferred = [], cl_conflicts = [] \<rparr>"
| "classify p identities (h # live) =
     (let rest = classify p identities live in
      case classify_one p identities h of
        Inl c \<Rightarrow> rest\<lparr> cl_conflicts := c # cl_conflicts rest \<rparr>
      | Inr d \<Rightarrow> rest\<lparr> cl_deferred := d # cl_deferred rest \<rparr>)"

definition dependency_of :: "classified \<Rightarrow> holder \<Rightarrow> str option" where
  "dependency_of cl h =
     map_option df_dependency (find (\<lambda>d. ho_token (df_holder d) = ho_token h) (cl_deferred cl))"

text \<open>
  The launch: refused over any conflict nobody acknowledged, else told what it deferred to.
\<close>

definition interlock ::
  "(str \<Rightarrow> holder list option) \<Rightarrow> bool \<Rightarrow> plan \<Rightarrow> (str + conflict list) + classified" where
  "interlock session_holders acknowledge p =
     (case holders session_holders p of
        Inl unread \<Rightarrow> Inl (Inl unread)
      | Inr hg \<Rightarrow>
          (let cl = classify p (hg_identities hg) (live_holders hg)
           in if cl_conflicts cl \<noteq> [] \<and> \<not> acknowledge then Inl (Inr (cl_conflicts cl)) else Inr cl))"

section \<open>What the search decides\<close>

text \<open>One node waits for another when it states it as a dependency and the plan has it.\<close>

definition waits :: "node bmap \<Rightarrow> (node \<times> node) set" where
  "waits by_id = {(n, up). \<exists>x \<in> set (deps n). bget by_id x = Some up}"

definition searched :: "node bmap \<Rightarrow> str \<Rightarrow> str list \<Rightarrow> str set \<Rightarrow> bool" where
  "searched by_id d xs seen \<longleftrightarrow>
     d \<notin> set xs \<and> (\<forall>x \<in> set xs. \<forall>up. bget by_id x = Some up \<longrightarrow> node_id up \<in> seen)"

lemma searched_mono: "searched by_id d xs seen \<Longrightarrow> seen \<subseteq> seen' \<Longrightarrow> searched by_id d xs seen'"
  by (auto simp: searched_def)

lemma searched_Cons:
  "searched by_id d (x # xs) seen \<longleftrightarrow>
     x \<noteq> d \<and> (case bget by_id x of None \<Rightarrow> True | Some up \<Rightarrow> node_id up \<in> seen) \<and> searched by_id d xs seen"
  by (auto simp: searched_def split: option.splits)

lemma any_reaches_exhausts:
  assumes "any_reaches by_id d xs seen = (False, seen')"
  shows "seen \<subseteq> seen' \<and> searched by_id d xs seen' \<and>
    (\<forall>v \<in> seen' - seen. \<exists>x up. bget by_id x = Some up \<and> node_id up = v \<and> searched by_id d (deps up) seen')"
  using assms
proof (induction by_id d xs seen arbitrary: seen' rule: any_reaches.induct)
  case (1 by_id d seen)
  then show ?case by (simp add: searched_def)
next
  case (2 by_id d x xs seen)
  from 2(5) have "x \<noteq> d" by (auto split: if_splits)
  show ?case
  proof (cases "bget by_id x")
    case None
    with 2(1) [OF \<open>x \<noteq> d\<close>] 2(5) \<open>x \<noteq> d\<close> show ?thesis by (simp add: searched_Cons)
  next
    case (Some up)
    show ?thesis
    proof (cases "node_id up \<in> seen")
      case True
      with 2(2) [OF \<open>x \<noteq> d\<close> Some] 2(5) \<open>x \<noteq> d\<close> Some show ?thesis by (auto simp: searched_Cons)
    next
      case False
      obtain below where below: "any_reaches by_id d (deps up) (insert (node_id up) seen) = (False, below)"
        "any_reaches by_id d xs below = (False, seen')"
        using 2(5) \<open>x \<noteq> d\<close> Some False by (auto split: prod.splits if_splits)
      note up = 2(3) [OF \<open>x \<noteq> d\<close> Some False below(1)]
        and rest = 2(4) [OF \<open>x \<noteq> d\<close> Some False below(1) [symmetric] _ below(2)]
      show ?thesis
      proof (intro conjI ballI)
        show "seen \<subseteq> seen'" using up rest by blast
        show "searched by_id d (x # xs) seen'" using up rest Some \<open>x \<noteq> d\<close> by (auto simp: searched_Cons)
        fix v assume v: "v \<in> seen' - seen"
        show "\<exists>x up. bget by_id x = Some up \<and> node_id up = v \<and> searched by_id d (deps up) seen'"
        proof (cases "v \<in> below")
          case True
          show ?thesis
          proof (cases "v = node_id up")
            case True
            have "searched by_id d (deps up) seen'" using up rest searched_mono by blast
            with True Some show ?thesis by blast
          next
            case False
            with v \<open>v \<in> below\<close> up obtain y w where "bget by_id y = Some w" "node_id w = v"
              "searched by_id d (deps w) below" by blast
            with rest searched_mono show ?thesis by blast
          qed
        next
          case False
          with v rest show ?thesis by blast
        qed
      qed
    qed
  qed
qed

lemma any_reaches_finds:
  assumes "any_reaches by_id d xs seen = (True, seen')"
  shows "d \<in> set xs \<or> (\<exists>x \<in> set xs. \<exists>up. bget by_id x = Some up \<and>
    (\<exists>v. (up, v) \<in> (waits by_id)\<^sup>* \<and> d \<in> set (deps v)))"
  using assms
proof (induction by_id d xs seen arbitrary: seen' rule: any_reaches.induct)
  case (2 by_id d x xs seen)
  show ?case
  proof (cases "x = d")
    case False
    show ?thesis
    proof (cases "bget by_id x")
      case None
      with 2(1) [OF False None] 2(5) False show ?thesis by auto
    next
      case (Some up)
      have below: "\<exists>v. (up, v) \<in> (waits by_id)\<^sup>* \<and> d \<in> set (deps v)"
        if "d \<in> set (deps up) \<or> (\<exists>y \<in> set (deps up). \<exists>w. bget by_id y = Some w \<and>
          (\<exists>v. (w, v) \<in> (waits by_id)\<^sup>* \<and> d \<in> set (deps v)))"
        using that by (auto simp: waits_def intro: converse_rtrancl_into_rtrancl)
      show ?thesis
      proof (cases "node_id up \<in> seen")
        case True
        with 2(2) [OF False Some True] 2(5) False Some show ?thesis by auto
      next
        case unseen: False
        obtain found at where at: "any_reaches by_id d (deps up) (insert (node_id up) seen) = (found, at)"
          by fastforce
        show ?thesis
        proof (cases found)
          case True
          with 2(3) [OF False Some unseen, of at] at below Some show ?thesis by auto
        next
          case no: False
          with 2(5) at False Some unseen have "any_reaches by_id d xs at = (True, seen')" by simp
          with 2(4) [OF False Some unseen at [symmetric]] no show ?thesis by auto
        qed
      qed
    qed
  qed simp
qed simp

lemma bget_bcollect: "bget (bcollect kvs) k = map_of (rev kvs) k"
proof -
  have "bget (fold (\<lambda>(k, v). bput k v) kvs m) k = (map_of m ++ map_of (rev kvs)) k"
    for m by (induction kvs arbitrary: m) (auto simp: map_add_def split: option.splits)
  from this [of "[]"] show ?thesis by (simp add: bcollect_def)
qed

lemma by_node_id_Some:
  assumes "distinct (map node_id (tasks p))"
  shows "bget (by_node_id p) k = Some n \<longleftrightarrow> n \<in> set (tasks p) \<and> node_id n = k"
proof -
  have "distinct (map fst (rev (map (\<lambda>n. (node_id n, n)) (tasks p))))"
    using assms by (simp add: rev_map [symmetric] comp_def)
  then show ?thesis by (auto simp: by_node_id_def bget_bcollect map_of_eq_Some_iff)
qed

lemma reaches_exact:
  assumes keyed: "distinct (map node_id (tasks p))" and n: "n \<in> set (tasks p)"
  shows "reaches (by_node_id p) d n \<longleftrightarrow> (\<exists>v. (n, v) \<in> (waits (by_node_id p))\<^sup>* \<and> d \<in> set (deps v))"
proof -
  let ?m = "by_node_id p"
  note at = by_node_id_Some [OF keyed]
  obtain found seen where run: "any_reaches ?m d (deps n) {node_id n} = (found, seen)" by fastforce
  show ?thesis
  proof (cases found)
    case True
    with any_reaches_finds [of ?m d "deps n" "{node_id n}" seen] run
    have "d \<in> set (deps n) \<or> (\<exists>x \<in> set (deps n). \<exists>up. bget ?m x = Some up \<and>
      (\<exists>v. (up, v) \<in> (waits ?m)\<^sup>* \<and> d \<in> set (deps v)))" by simp
    then have "\<exists>v. (n, v) \<in> (waits ?m)\<^sup>* \<and> d \<in> set (deps v)"
      by (auto simp: waits_def intro: converse_rtrancl_into_rtrancl)
    with run True show ?thesis by (simp add: reaches_def)
  next
    case False
    with any_reaches_exhausts [of ?m d "deps n" "{node_id n}" seen] run
    have sought: "node_id n \<in> seen" "searched ?m d (deps n) seen"
      "\<And>v. v \<in> seen - {node_id n} \<Longrightarrow> \<exists>x up. bget ?m x = Some up \<and> node_id up = v \<and> searched ?m d (deps up) seen"
      by auto
    have all: "searched ?m d (deps u) seen" if "u \<in> set (tasks p)" "node_id u \<in> seen" for u
    proof (cases "node_id u = node_id n")
      case True
      with keyed that n have "u = n" by (auto simp: distinct_map dest: inj_onD)
      with sought(2) show ?thesis by simp
    next
      case False
      with sought(3) that obtain x up where "bget ?m x = Some up" "node_id up = node_id u"
        "searched ?m d (deps up) seen" by blast
      with at that keyed show ?thesis by (auto simp: distinct_map dest: inj_onD)
    qed
    have "v \<in> set (tasks p) \<and> node_id v \<in> seen" if "(n, v) \<in> (waits ?m)\<^sup>*" for v
      using that
    proof (induction)
      case base
      show ?case using n sought(1) by simp
    next
      case (step u v)
      with all [of u] show ?case by (auto simp: waits_def searched_def at)
    qed
    with all have "\<not> (\<exists>v. (n, v) \<in> (waits ?m)\<^sup>* \<and> d \<in> set (deps v))" by (auto simp: searched_def)
    with run False show ?thesis by (simp add: reaches_def)
  qed
qed

lemma read_holders_identities:
  assumes "read_holders sh rs by_token ids = Inr (by_token', ids')"
  shows "(\<forall>r \<in> set rs. sh r \<noteq> None) \<and>
    bget ids' = (\<lambda>r. if r \<in> set rs then map_option (\<lambda>found. set (map ho_identity found)) (sh r) else bget ids r)"
  using assms by (induction sh rs by_token ids rule: read_holders.induct) (auto split: option.splits)

lemma in_repositories_named: "r \<in> set (repositories_named p) \<longleftrightarrow> (\<exists>n \<in> set (tasks p). repo n = Some r)"
proof -
  have "fst ` set (fold (\<lambda>(k, v). bput k v) (map (\<lambda>r. (r, ())) rs) m) = fst ` set m \<union> set rs"
    for rs :: "str list" and m by (induction rs arbitrary: m) auto
  from this [of _ "[]"] show ?thesis
    by (auto simp: repositories_named_def bcollect_def in_map_filter) 
qed

lemma works_on_read:
  assumes "holders sh p = Inr hg" "n \<in> set (tasks p)"
  shows "works_on (hg_identities hg) h n \<longleftrightarrow>
    (\<exists>r found. repo n = Some r \<and> sh r = Some found \<and> ho_identity h \<in> ho_identity ` set found)"
proof -
  from assms(1) obtain by_token where read: "read_holders sh (repositories_named p) [] [] = Inr (by_token, hg_identities hg)"
    by (auto simp: holders_def map_sum_def split: sum.splits)
  note known = read_holders_identities [OF this]
  show ?thesis
  proof (cases "repo n")
    case (Some r)
    with assms(2) have "r \<in> set (repositories_named p)" by (auto simp: in_repositories_named)
    with known Some show ?thesis by (auto simp: works_on_def split: option.splits)
  qed (simp add: works_on_def)
qed

lemma classify_conflicts:
  "cl_conflicts (classify p ids live) = [] \<longleftrightarrow> (\<forall>h \<in> set live. \<exists>d. classify_one p ids h = Inr d)"
  by (induction live) (auto simp: Let_def split: sum.splits)

lemma classify_one_deferred:
  "(\<exists>d. classify_one p ids h = Inr d) \<longleftrightarrow>
     (\<exists>run k. attribution h = Some (run, k) \<and> (\<exists>n \<in> set (tasks p). works_on ids h n) \<and>
        (\<forall>n \<in> set (tasks p). works_on ids h n \<longrightarrow>
           reaches (by_node_id p) (show_reference \<lparr> ref_run = run, ref_node = k \<rparr>) n))"
  by (auto simp: classify_one_def Let_def filter_empty_conv split: option.splits)

section \<open>What a launch defers to\<close>


text \<open>A launch of \<open>b\<close> on \<open>a\<close>, where \<open>a\<close> waits for the node that holds their repository.\<close>

definition lifecycle_node :: "str \<Rightarrow> str list \<Rightarrow> node" where
  "lifecycle_node k ds = blank_node\<lparr> node_id := k, deps := ds, repo := Some ''app'' \<rparr>"

definition behind_nightly :: plan where
  "behind_nightly = \<lparr> schema_version = 3, goal = None, plan_name = None, plan_concurrency = 2,
     tasks = [lifecycle_node ''b'' [''a''], lifecycle_node ''a'' [''run:nightly#build'']],
     export_edges = [] \<rparr>"

definition nightly_session :: holder where
  "nightly_session = \<lparr> ho_identity = ''host/app'', ho_token = ''s1'',
     ho_labels = [(''node'', ''build''), (''run'', ''nightly'')],
     ho_state = Open_Session, ho_liveness = Live_Owner \<rparr>"

definition nightly_holds :: "str \<Rightarrow> holder list option" where
  "nightly_holds r = (if r = ''app'' then Some [nightly_session] else None)"


end
