(* ===== verification/Release.thy ===== *)
theory Release
  imports Run_State
begin

text \<open>
  What a node waits for before its work is released (\<open>src/src/release.rs\<close>): how one entry of
  its \<open>deps\<close> is resolved, what is asked about it and how an answer is read.

  What the version-control crate answers is the record \<open>release_host\<close>: the release targets of a
  repository, the adoption a repository is configured with, and, beside them, the ledgers under
  the run root and the two clocks a pass reads (\<open>Instant\<close> in milliseconds, and the wall clock).
  \<open>RepositoryReleases::select\<close> is a field of what the repository releases. An instruction
  template is the text it is written as.
\<close>

section \<open>Answers\<close>

datatype adoption_mode = Fast | Published

text \<open>\<open>onevcs::ReleaseStatus\<close>, and the refusals of the question, of which one is told apart.\<close>

datatype release_status =
    Status_Released str
  | Status_Not_Released
  | Status_Awaiting_Human_Step
  | Status_Not_Answered str
  | Status_Not_Landed

datatype ask_refusal = Unresolvable_Reference | Refused_Otherwise

datatype release_answer =
    Was_Released str
  | Not_Released
  | Awaiting_Human_Step
  | Not_Answered
  | Not_Landed

fun answer_as_str :: "release_answer \<Rightarrow> str" where
  "answer_as_str (Was_Released _) = ''released''"
| "answer_as_str Not_Released = ''not-released''"
| "answer_as_str Awaiting_Human_Step = ''awaiting-human-step''"
| "answer_as_str Not_Answered = ''not-answered''"
| "answer_as_str Not_Landed = ''not-landed''"

definition no_answer_yet :: str where
  "no_answer_yet = ''no-answer-yet''"

fun answer_version :: "release_answer \<Rightarrow> str option" where
  "answer_version (Was_Released v) = Some v"
| "answer_version _ = None"

text \<open>\<open>renderable\<close> is the rule \<open>usable\<close> holds a session token to.\<close>

definition renderable :: "nat \<Rightarrow> str \<Rightarrow> str option" where
  "renderable limit v = usable limit v"

fun answered_as :: "nat \<Rightarrow> ask_refusal + release_status \<Rightarrow> release_answer" where
  "answered_as limit (Inr (Status_Released version)) =
     (case renderable limit version of Some v \<Rightarrow> Was_Released v | None \<Rightarrow> Not_Answered)"
| "answered_as limit (Inr Status_Not_Released) = Not_Released"
| "answered_as limit (Inr Status_Awaiting_Human_Step) = Awaiting_Human_Step"
| "answered_as limit (Inr (Status_Not_Answered _)) = Not_Answered"
| "answered_as limit (Inl _) = Not_Answered"
| "answered_as limit (Inr Status_Not_Landed) = Not_Landed"

text \<open>
  \<open>release_status_falling_back\<close>: the fallback is asked only where the reference cannot be
  resolved; the spelling that answered goes with the answer.
\<close>

type_synonym asking = "str \<Rightarrow> str option \<Rightarrow> ask_refusal + release_status"

definition release_status_falling_back ::
  "asking \<Rightarrow> str \<Rightarrow> str option \<Rightarrow> str option \<Rightarrow> (ask_refusal + release_status) \<times> str" where
  "release_status_falling_back ask reference fallback target =
     (case (ask reference target, fallback) of
        (Inl Unresolvable_Reference, Some back) \<Rightarrow> (ask back target, back)
      | (answered, _) \<Rightarrow> (answered, reference))"

section \<open>Dependencies\<close>

datatype release_style = Automated | Human_Step

fun style_as_str :: "release_style \<Rightarrow> str" where
  "style_as_str Automated = ''automated''"
| "style_as_str Human_Step = ''human-step''"

record declared_target =
  rt_name :: str
  rt_style :: release_style
  rt_action :: "str option"
  rt_instructions :: "str option"

record repository_releases =
  rr_identity :: str
  rr_targets :: "declared_target list"
  rr_select :: "str option \<Rightarrow> declared_target option"

record dependency =
  dy_dep :: str
  dy_identity :: str
  dy_branch :: "str option"
  dy_commit :: "str option"
  dy_landing :: "str option"
  dy_fallback :: "str option"
  dy_target :: "str option"
  dy_style :: "release_style option"
  dy_action :: "str option"
  dy_instructions :: "str option"

definition dy_reference :: "dependency \<Rightarrow> str option" where
  "dy_reference d = or_else (dy_landing d) (or_else (dy_branch d) (dy_commit d))"

definition dy_askable :: "dependency \<Rightarrow> bool" where
  "dy_askable d \<longleftrightarrow> dy_reference d \<noteq> None \<and> dy_style d \<noteq> None"

record cross_repo_reference =
  cr_dependency :: str
  cr_repository :: str
  cr_branch :: str
  cr_commit :: str
  cr_release_target :: str
  cr_version :: str
  cr_instructions :: "str option"

definition or_empty :: "str option \<Rightarrow> str" where
  "or_empty s = (case s of None \<Rightarrow> [] | Some t \<Rightarrow> t)"

definition dy_row :: "dependency \<Rightarrow> str option \<Rightarrow> cross_repo_reference" where
  "dy_row d version =
     \<lparr> cr_dependency = dy_dep d, cr_repository = dy_identity d, cr_branch = or_empty (dy_branch d),
       cr_commit = or_empty (dy_commit d), cr_release_target = or_empty (dy_target d),
       cr_version = or_empty version, cr_instructions = dy_instructions d \<rparr>"

definition dy_named :: "dependency \<Rightarrow> str" where
  "dy_named d = (case dy_target d of
     Some t \<Rightarrow> dy_identity d @ '' '' @ t | None \<Rightarrow> dy_identity d)"

section \<open>The host\<close>

record release_host =
  rh_limit :: nat
  rh_targets :: "str \<Rightarrow> str + repository_releases"
  rh_adoption :: "str \<Rightarrow> adoption_mode option"
  rh_ledger :: "str \<Rightarrow> run_state option"
  rh_edit :: edit_world
  rh_instant :: nat
  rh_now :: u64

text \<open>
  What the repositories release, cached: what was read stays, and one that could not be read is
  read again once the interval since has passed.
\<close>

record release_repositories =
  rp_known :: "((str \<times> nat) + repository_releases) bmap"
  rp_retry_every :: nat

definition releases_at ::
  "release_host \<Rightarrow> str \<Rightarrow> release_repositories \<Rightarrow> (str + repository_releases) \<times> release_repositories" where
  "releases_at h r rp =
     (let stale = (case bget (rp_known rp) r of
            Some (Inl (_, at)) \<Rightarrow> rp_retry_every rp \<le> rh_instant h - at | _ \<Rightarrow> False);
          known = (if stale then bdel r (rp_known rp) else rp_known rp);
          entry = (case bget known r of
             Some e \<Rightarrow> e
           | None \<Rightarrow> (case rh_targets h r of
                Inr releases \<Rightarrow> Inr releases | Inl why \<Rightarrow> Inl (why, rh_instant h)));
          answer = (case entry of Inr releases \<Rightarrow> Inr releases | Inl (why, _) \<Rightarrow> Inl why)
      in (answer, rp\<lparr> rp_known := bput r entry known \<rparr>))"

text \<open>\<open>adoption_of\<close>: the node's own rung, its repository's, then the floor.\<close>

definition adoption_of :: "release_host \<Rightarrow> node \<Rightarrow> adoption_mode" where
  "adoption_of h n =
     (case adoption n of
        Some declared \<Rightarrow> if declared = ''published'' then Published else Fast
      | None \<Rightarrow>
          (case Option.bind (repo n) (rh_adoption h) of
             Some resolved \<Rightarrow> resolved | None \<Rightarrow> Fast))"

section \<open>Where work was stated to have landed\<close>

record stated =
  sl_landing :: str
  sl_fallback :: "str option"

definition split_stated :: "stated option \<Rightarrow> str option \<times> str option" where
  "split_stated s = (case s of None \<Rightarrow> (None, None) | Some t \<Rightarrow> (Some (sl_landing t), sl_fallback t))"

definition stated_landings :: "release_host \<Rightarrow> run_state \<Rightarrow> stated bmap" where
  "stated_landings h st =
     bcollect (List.map_filter (\<lambda>(k, l).
       map_option (\<lambda>k'. (k', \<lparr> sl_landing = landing_reference l,
          sl_fallback = (case l of Commit _ \<Rightarrow> known_change_url (rh_edit h) st k | ChangeRequest _ \<Rightarrow> None) \<rparr>))
        (renderable (rh_limit h) k))
       (r_stated_landings st))"

section \<open>What one dependency is\<close>

datatype resolution = Nothing_To_Await | Outside dependency | Unreadable str

definition unread_repository :: "str \<Rightarrow> str \<Rightarrow> str" where
  "unread_repository r why =
     ''what the repository '' @ r @ '' releases could not be read: '' @ why"

definition no_node_for :: "str \<Rightarrow> str" where
  "no_node_for dep =
     ''the graph has no node '' @ CHR 0x27 # dep @ CHR 0x27 # '' to say where its work landed''"

definition no_ledger_for :: "str \<Rightarrow> str" where
  "no_ledger_for run =
     ''the run '' @ CHR 0x27 # run @ CHR 0x27 # '' it names has no ledger under this run root''"

definition identity_of_node ::
  "release_host \<Rightarrow> node \<Rightarrow> release_repositories \<Rightarrow> str option \<times> release_repositories" where
  "identity_of_node h n rp =
     (case repo n of
        None \<Rightarrow> (None, rp)
      | Some r \<Rightarrow>
          (case releases_at h r rp of
             (Inr releases, rp') \<Rightarrow> (Some (rr_identity releases), rp') | (Inl _, rp') \<Rightarrow> (None, rp')))"

text \<open>\<open>across_repositories\<close>: the repository an in-run dependency lands in, where it is another.\<close>

definition across_repositories ::
  "release_host \<Rightarrow> run_state \<Rightarrow> str \<Rightarrow> str option \<Rightarrow> release_repositories
     \<Rightarrow> (resolution + str) \<times> release_repositories" where
  "across_repositories h st dep mine rp =
     (case graph_get (r_graph st) dep of
        None \<Rightarrow> (Inl (Unreadable (no_node_for dep)), rp)
      | Some up \<Rightarrow>
          (case repo up of
             None \<Rightarrow> (Inl Nothing_To_Await, rp)
           | Some r \<Rightarrow>
               (case releases_at h r rp of
                  (Inl why, rp') \<Rightarrow> (Inl (Unreadable (unread_repository r why)), rp')
                | (Inr releases, rp') \<Rightarrow>
                    (if Some (rr_identity releases) = mine then (Inl Nothing_To_Await, rp') else (Inr r, rp')))))"

definition outside ::
  "release_host \<Rightarrow> str \<Rightarrow> str \<Rightarrow> str option \<Rightarrow> str option \<Rightarrow> stated option \<Rightarrow> str option
     \<Rightarrow> release_repositories \<Rightarrow> resolution \<times> release_repositories" where
  "outside h dep r on_branch commit landing named rp =
     (case releases_at h r rp of
        (Inl why, rp') \<Rightarrow> (Unreadable (unread_repository r why), rp')
      | (Inr releases, rp') \<Rightarrow>
          (if rr_targets releases = [] then (Nothing_To_Await, rp')
           else
             let selected = rr_select releases named;
                 (landed, fallback) = split_stated landing
             in (Outside \<lparr> dy_dep = dep, dy_identity = rr_identity releases, dy_branch = on_branch,
                   dy_commit = commit, dy_landing = landed, dy_fallback = fallback,
                   dy_target = (case selected of Some t \<Rightarrow> Some (rt_name t) | None \<Rightarrow> named),
                   dy_style = map_option rt_style selected,
                   dy_action = Option.bind selected rt_action,
                   dy_instructions = Option.bind selected rt_instructions \<rparr>, rp')))"

definition is_export_edge :: "run_state \<Rightarrow> str \<Rightarrow> str \<Rightarrow> bool" where
  "is_export_edge st dep k \<longleftrightarrow>
     (case r_plan st of
        None \<Rightarrow> False
      | Some p \<Rightarrow> list_ex (\<lambda>e. edge_from e = dep \<and> edge_to e = k) (edges_now (export_edges p) (r_superseded st)))"

section \<open>Questions\<close>

type_synonym wait_key = "str \<times> str"    \<comment> \<open>the waiting node and the dependency\<close>

record question =
  qu_keys :: "wait_key list"
  qu_reference :: str
  qu_fallback :: "str option"
  qu_target :: "str option"
  qu_style :: release_style

definition asks_about :: "dependency \<Rightarrow> str \<Rightarrow> release_style \<Rightarrow> question \<Rightarrow> bool" where
  "asks_about d reference style q \<longleftrightarrow>
     qu_reference q = reference \<and> qu_fallback q = dy_fallback d \<and> qu_target q = dy_target d \<and> qu_style q = style"

fun join_question :: "wait_key \<Rightarrow> dependency \<Rightarrow> str \<Rightarrow> release_style \<Rightarrow> question list \<Rightarrow> question list" where
  "join_question key d reference style [] =
     [\<lparr> qu_keys = [key], qu_reference = reference, qu_fallback = dy_fallback d,
        qu_target = dy_target d, qu_style = style \<rparr>]"
| "join_question key d reference style (q # qs) =
     (if asks_about d reference style q then q\<lparr> qu_keys := qu_keys q @ [key] \<rparr> # qs
      else q # join_question key d reference style qs)"

definition question_of :: "wait_key \<times> dependency \<Rightarrow> question list \<Rightarrow> question list" where
  "question_of = (\<lambda>(key, d) qs.
     (case (dy_reference d, dy_style d) of
        (Some reference, Some style) \<Rightarrow> join_question key d reference style qs
      | _ \<Rightarrow> qs))"

definition questions_of :: "(wait_key \<times> dependency) list \<Rightarrow> question list" where
  "questions_of waits = fold question_of waits []"

end
