(* ===== verification/Release_Watch.thy ===== *)
theory Release_Watch
  imports Release Run_Fold
begin

text \<open>
  The watch over the releases a run waits for (\<open>Watch\<close> of \<open>src/src/release.rs\<close>): the
  dependencies of each watched node, the last answer about each, what holds a node, what the
  planner is told and when. The asker, which puts the questions from a thread of its own, is a
  party of \<open>watch_step\<close>: it answers any question it was last handed, whenever it will.
\<close>

section \<open>When a wait is said again\<close>

record surfaced_wait =
  sw_content :: str
  sw_at :: u64
  sw_checked :: "nat option"
  sw_every :: nat              \<comment> \<open>milliseconds\<close>
  sw_id :: u64

record resurfacing =
  rs_base :: nat
  rs_last :: "surfaced_wait bmap"

definition ceiling_millis :: nat where
  "ceiling_millis = 14400 * 1000"

text \<open>
  The channel: the ids of the surfaces still waiting to be read, and when one was queued, as the
  log says. \<open>due\<close> refreshes the stamp it counts from at most once a second.
\<close>

record channel_view =
  cv_waiting :: "u64 set"
  cv_queued_at :: "u64 \<Rightarrow> u64 option"
  cv_instant :: nat
  cv_now :: u64

definition due :: "channel_view \<Rightarrow> str \<Rightarrow> str \<Rightarrow> resurfacing \<Rightarrow> bool \<times> resurfacing" where
  "due cv k content rs =
     (case bget (rs_last rs) k of
        None \<Rightarrow> (True, rs)
      | Some prior \<Rightarrow>
          if sw_content prior \<noteq> content then (True, rs)
          else if sw_id prior \<in> cv_waiting cv then (False, rs)
          else
            let prior' = (if (case sw_checked prior of None \<Rightarrow> True | Some at \<Rightarrow> 1000 \<le> cv_instant cv - at)
                  then prior\<lparr> sw_at := (case cv_queued_at cv (sw_id prior) of Some at \<Rightarrow> at | None \<Rightarrow> sw_at prior),
                             sw_checked := Some (cv_instant cv) \<rparr>
                  else prior)
            in (sw_every prior' \<le> unat (cv_now cv) - unat (sw_at prior'),
                rs\<lparr> rs_last := bput k prior' (rs_last rs) \<rparr>))"

definition next_interval :: "nat \<Rightarrow> str \<Rightarrow> surfaced_wait option \<Rightarrow> nat" where
  "next_interval base content prior =
     (case prior of
        Some l \<Rightarrow>
          if sw_content l = content
          then (if ceiling_millis \<le> sw_every l then sw_every l else min (2 * sw_every l) ceiling_millis)
          else base
      | None \<Rightarrow> base)"

definition queued :: "str \<Rightarrow> str \<Rightarrow> u64 \<Rightarrow> u64 \<Rightarrow> resurfacing \<Rightarrow> resurfacing" where
  "queued k content at surface rs =
     rs\<lparr> rs_last := bput k
          \<lparr> sw_content = content, sw_at = at, sw_checked = None,
            sw_every = next_interval (rs_base rs) content (bget (rs_last rs) k), sw_id = surface \<rparr>
        (rs_last rs) \<rparr>"

definition retain_surfaced :: "(str \<Rightarrow> bool) \<Rightarrow> resurfacing \<Rightarrow> resurfacing" where
  "retain_surfaced held rs = rs\<lparr> rs_last := filter (\<lambda>(k, _). held k) (rs_last rs) \<rparr>"

section \<open>The watch\<close>

record unresolved =
  un_dep :: str
  un_reason :: str
  un_since :: u64

record watch =
  wa_repositories :: release_repositories
  wa_dependencies :: "dependency list bmap"
  wa_answers :: "wait_key \<Rightarrow> release_answer option"
  wa_since :: "wait_key \<Rightarrow> u64 option"
  wa_adopted :: "str set"
  wa_arrived :: "wait_key set"
  wa_surfaced :: resurfacing
  wa_relay_every :: nat
  wa_stated :: "stated bmap bmap"
  wa_read_landings :: "nat option"
  wa_unresolved :: "unresolved list bmap"
  wa_holdups :: "str list bmap"     \<comment> \<open>what holds the release of an identity, rendered\<close>

definition version_of :: "watch \<Rightarrow> str \<Rightarrow> dependency \<Rightarrow> str option" where
  "version_of wa k d = Option.bind (wa_answers wa (k, dy_dep d)) answer_version"

definition dependencies_of :: "watch \<Rightarrow> str \<Rightarrow> dependency list" where
  "dependencies_of wa k = (case bget (wa_dependencies wa) k of None \<Rightarrow> [] | Some ds \<Rightarrow> ds)"

definition unresolved_of :: "watch \<Rightarrow> str \<Rightarrow> unresolved list" where
  "unresolved_of wa k = (case bget (wa_unresolved wa) k of None \<Rightarrow> [] | Some us \<Rightarrow> us)"

text \<open>A version latches: no later answer replaces it.\<close>

definition take_up_one :: "release_answer \<Rightarrow> wait_key \<Rightarrow> watch \<Rightarrow> watch" where
  "take_up_one a key wa =
     (if Option.bind (wa_answers wa key) answer_version \<noteq> None then wa
      else wa\<lparr> wa_answers := (wa_answers wa)(key \<mapsto> a) \<rparr>)"

definition take_up_keys :: "wait_key list \<Rightarrow> release_answer \<Rightarrow> watch \<Rightarrow> watch" where
  "take_up_keys keys a wa = fold (take_up_one a) keys wa"

definition take_up_answers :: "(wait_key list \<times> release_answer) list \<Rightarrow> watch \<Rightarrow> watch" where
  "take_up_answers as wa = fold (\<lambda>(keys, a). take_up_keys keys a) as wa"

section \<open>Resolving what a node waits for\<close>

definition landings_are_due :: "release_host \<Rightarrow> watch \<Rightarrow> bool \<times> watch" where
  "landings_are_due h wa =
     (if (case wa_read_landings wa of None \<Rightarrow> True
          | Some prior \<Rightarrow> wa_relay_every wa \<le> rh_instant h - prior)
      then (True, wa\<lparr> wa_read_landings := Some (rh_instant h), wa_stated := [] \<rparr>)
      else (False, wa))"

definition stated_landing_of :: "release_host \<Rightarrow> str \<Rightarrow> str \<Rightarrow> watch \<Rightarrow> stated option \<times> watch" where
  "stated_landing_of h run k wa =
     (let read = (case bget (wa_stated wa) run of
            Some m \<Rightarrow> m
          | None \<Rightarrow> stated_landings h (case rh_ledger h run of Some st \<Rightarrow> st | None \<Rightarrow> blank_run))
      in (bget read k, wa\<lparr> wa_stated := bput run read (wa_stated wa) \<rparr>))"

definition landing_of :: "release_host \<Rightarrow> str \<Rightarrow> str \<Rightarrow> watch \<Rightarrow> stated option \<times> watch" where
  "landing_of h run dep wa =
     (case parse_reference dep of
        Some r \<Rightarrow> (if rh_ledger h (ref_run r) = None then (None, wa)
                   else stated_landing_of h (ref_run r) (ref_node r) wa)
      | None \<Rightarrow> stated_landing_of h run dep wa)"

definition on_repositories :: "(release_repositories \<Rightarrow> 'a \<times> release_repositories) \<Rightarrow> watch \<Rightarrow> 'a \<times> watch" where
  "on_repositories f wa = (case f (wa_repositories wa) of (a, rp) \<Rightarrow> (a, wa\<lparr> wa_repositories := rp \<rparr>))"

definition dependency_on ::
  "release_host \<Rightarrow> str \<Rightarrow> run_state \<Rightarrow> node \<Rightarrow> str \<Rightarrow> str option \<Rightarrow> watch \<Rightarrow> resolution \<times> watch" where
  "dependency_on h run st n dep mine wa =
     (let target = bget (consumes n) dep in
      case parse_reference dep of
        Some r \<Rightarrow>
          (case rh_ledger h (ref_run r) of
             None \<Rightarrow> (Unreadable (no_ledger_for (ref_run r)), wa)
           | Some up \<Rightarrow>
               (case Option.bind (graph_get (r_graph up) (ref_node r)) repo of
                  None \<Rightarrow> (Nothing_To_Await, wa)
                | Some repository \<Rightarrow>
                    (let (landing, wa') = stated_landing_of h (ref_run r) (ref_node r) wa
                     in on_repositories (outside h dep repository (bget (r_branches up) (ref_node r))
                          (bget (r_landing_commits up) (ref_node r)) landing target) wa')))
      | None \<Rightarrow>
          (case on_repositories (across_repositories h st dep mine) wa of
             (Inl ended, wa') \<Rightarrow> (ended, wa')
           | (Inr repository, wa') \<Rightarrow>
               (let (landing, wa'') = stated_landing_of h run dep wa'
                in on_repositories (outside h dep repository (bget (r_branches st) dep)
                     (bget (r_landing_commits st) dep) landing target) wa'')))"

text \<open>\<open>resolve\<close>: the loop over the dependencies, and the set it freezes when all could be described.\<close>

fun resolve_deps ::
  "release_host \<Rightarrow> str \<Rightarrow> run_state \<Rightarrow> node \<Rightarrow> str option \<Rightarrow> str list \<Rightarrow> watch
     \<Rightarrow> dependency list \<times> unresolved list \<times> watch" where
  "resolve_deps h run st n mine [] wa = ([], [], wa)"
| "resolve_deps h run st n mine (dep # ds) wa =
     (if is_export_edge st dep (node_id n) then resolve_deps h run st n mine ds wa
      else
        let (res, wa') = dependency_on h run st n dep mine wa;
            (found, lost, wa'') = resolve_deps h run st n mine ds wa'
        in (case res of
              Unreadable reason \<Rightarrow>
                (found,
                 \<lparr> un_dep = dep, un_reason = reason,
                   un_since = (case find (\<lambda>u. un_dep u = dep) (unresolved_of wa (node_id n)) of
                     Some u \<Rightarrow> un_since u | None \<Rightarrow> rh_now h) \<rparr> # lost, wa'')
            | Nothing_To_Await \<Rightarrow> (found, lost, wa'')
            | Outside d \<Rightarrow> (d # found, lost, wa'')))"

fun re_read ::
  "release_host \<Rightarrow> str \<Rightarrow> dependency list \<Rightarrow> watch \<Rightarrow> dependency list \<times> watch" where
  "re_read h run [] wa = ([], wa)"
| "re_read h run (d # ds) wa =
     (let (landing, wa') = landing_of h run (dy_dep d) wa;
          (landed, fallback) = split_stated landing;
          (ds', wa'') = re_read h run ds wa'
      in (d\<lparr> dy_landing := landed, dy_fallback := fallback \<rparr> # ds', wa''))"

definition resolve_node ::
  "release_host \<Rightarrow> str \<Rightarrow> run_state \<Rightarrow> node \<Rightarrow> bool \<Rightarrow> watch \<Rightarrow> dependency list \<times> watch" where
  "resolve_node h run st n again wa =
     (let k = node_id n in
      case bget (wa_dependencies wa) k of
        Some known \<Rightarrow>
          (if \<not> again then (known, wa)
           else let (ds, wa') = re_read h run known wa
                in (ds, wa'\<lparr> wa_dependencies := bput k ds (wa_dependencies wa') \<rparr>))
      | None \<Rightarrow>
          (let (mine, wa') = on_repositories (identity_of_node h n) wa;
               (found, lost, wa'') = resolve_deps h run st n mine (deps n) wa'
           in if lost \<noteq> [] then ([], wa''\<lparr> wa_unresolved := bput k lost (wa_unresolved wa'') \<rparr>)
              else (found, wa''\<lparr> wa_unresolved := bdel k (wa_unresolved wa''),
                             wa_dependencies := bput k found (wa_dependencies wa'') \<rparr>)))"

section \<open>A pass\<close>

definition watching :: "run_state \<Rightarrow> node_status bmap \<Rightarrow> str set \<Rightarrow> node list" where
  "watching st statuses running =
     filter (\<lambda>n. (case bget statuses (node_id n) of
         Some s \<Rightarrow> s = Ready \<or> awaits_release s | None \<Rightarrow> False) \<or> node_id n \<in> running)
       (graph_iter (r_graph st))"

text \<open>One watched node's dependencies: what has arrived is not waited on any more.\<close>

definition wait_on :: "release_host \<Rightarrow> str \<Rightarrow> dependency \<Rightarrow> (wait_key \<times> dependency) list \<times> watch
     \<Rightarrow> (wait_key \<times> dependency) list \<times> watch" where
  "wait_on h k d = (\<lambda>(waits, wa).
     (let key = (k, dy_dep d) in
      if version_of wa k d \<noteq> None then (waits, wa\<lparr> wa_since := (wa_since wa)(key := None) \<rparr>)
      else (waits @ [(key, d)],
            (if wa_since wa key = None then wa\<lparr> wa_since := (wa_since wa)(key \<mapsto> rh_now h) \<rparr> else wa))))"

definition watch_node :: "release_host \<Rightarrow> str \<Rightarrow> run_state \<Rightarrow> bool \<Rightarrow> node
     \<Rightarrow> (wait_key \<times> dependency) list \<times> watch \<Rightarrow> (wait_key \<times> dependency) list \<times> watch" where
  "watch_node h run st again n = (\<lambda>(waits, wa).
     (let (ds, wa') = resolve_node h run st n again wa
      in fold (wait_on h (node_id n)) ds (waits, wa')))"

definition refresh ::
  "release_host \<Rightarrow> str \<Rightarrow> run_state \<Rightarrow> node list \<Rightarrow> (wait_key list \<times> release_answer) list \<Rightarrow> watch
     \<Rightarrow> question list \<times> watch" where
  "refresh h run st watched as wa =
     (let (again, wa1) = landings_are_due h (take_up_answers as wa);
          (waits, wa2) = fold (watch_node h run st again) watched ([], wa1)
      in (questions_of waits,
          wa2\<lparr> wa_unresolved := filter (\<lambda>(k, _). k \<in> set (map node_id watched)) (wa_unresolved wa2) \<rparr>))"

section \<open>What holds a node and what it is told\<close>

definition all_released :: "watch \<Rightarrow> str \<Rightarrow> bool" where
  "all_released wa k \<longleftrightarrow>
     dependencies_of wa k \<noteq> [] \<and> list_all (\<lambda>d. version_of wa k d \<noteq> None) (dependencies_of wa k)"

definition awaits_a_release :: "watch \<Rightarrow> str \<Rightarrow> bool" where
  "awaits_a_release wa k \<longleftrightarrow> dependencies_of wa k \<noteq> [] \<and> \<not> all_released wa k"

definition held_releases :: "release_host \<Rightarrow> node list \<Rightarrow> watch \<Rightarrow> str set" where
  "held_releases h watched wa =
     set (map node_id (filter (\<lambda>n. (bget (wa_unresolved wa) (node_id n) \<noteq> None \<or> awaits_a_release wa (node_id n))
         \<and> adoption_of h n = Published) watched))"

definition references :: "watch \<Rightarrow> node \<Rightarrow> cross_repo_reference list" where
  "references wa n = map (\<lambda>d. dy_row d (version_of wa (node_id n) d)) (dependencies_of wa (node_id n))"

definition awaited_deps :: "watch \<Rightarrow> str \<Rightarrow> str list" where
  "awaited_deps wa k =
     map dy_dep (filter (\<lambda>d. version_of wa k d = None) (dependencies_of wa k)) @ map un_dep (unresolved_of wa k)"

definition names_a_release_dependency :: "watch \<Rightarrow> bool" where
  "names_a_release_dependency wa \<longleftrightarrow>
     wa_unresolved wa \<noteq> [] \<or> list_ex (\<lambda>(_, ds). ds \<noteq> []) (wa_dependencies wa)"

definition last_answer :: "watch \<Rightarrow> str \<Rightarrow> dependency \<Rightarrow> str" where
  "last_answer wa k d =
     (case wa_answers wa (k, dy_dep d) of
        Some a \<Rightarrow> answer_as_str a
      | None \<Rightarrow> if dy_askable d then no_answer_yet else answer_as_str Not_Answered)"

record released =
  re_dep :: str
  re_identity :: str
  re_branch :: str
  re_commit :: str
  re_target :: str
  re_version :: str
  re_instructions :: "str option"

definition released_of :: "watch \<Rightarrow> str \<Rightarrow> released list" where
  "released_of wa k =
     List.map_filter (\<lambda>d. map_option (\<lambda>v.
         \<lparr> re_dep = dy_dep d, re_identity = dy_identity d, re_branch = or_empty (dy_branch d),
           re_commit = or_empty (dy_commit d), re_target = or_empty (dy_target d), re_version = v,
           re_instructions = dy_instructions d \<rparr>) (version_of wa k d))
       (dependencies_of wa k)"

definition ready_to_adopt :: "release_host \<Rightarrow> node list \<Rightarrow> watch \<Rightarrow> (str \<times> released list) list" where
  "ready_to_adopt h told wa =
     map (\<lambda>n. (node_id n, released_of wa (node_id n)))
       (filter (\<lambda>n. node_id n \<notin> wa_adopted wa \<and> all_released wa (node_id n) \<and> adoption_of h n = Fast) told)"

definition adopted :: "str \<Rightarrow> watch \<Rightarrow> watch" where
  "adopted k wa = wa\<lparr> wa_adopted := insert k (wa_adopted wa) \<rparr>"

section \<open>What the planner is told\<close>

text \<open>What one wait says, less how long it has been waiting; the separators are control characters.\<close>

definition unit_separator :: str where
  "unit_separator = [CHR 0x1F]"

definition unresolved_word :: str where
  "unresolved_word = ''unresolved''"

fun joined :: "str \<Rightarrow> str list \<Rightarrow> str" where
  "joined sep [] = []"
| "joined sep [w] = w"
| "joined sep (w # v # ws) = w @ sep @ joined sep (v # ws)"

definition holdup_of :: "watch \<Rightarrow> str \<Rightarrow> dependency \<Rightarrow> str list option" where
  "holdup_of wa k d =
     (if dy_style d \<noteq> Some Automated \<or> wa_answers wa (k, dy_dep d) \<noteq> Some Not_Released then None
      else bget (wa_holdups wa) (dy_identity d))"

definition wait_content :: "watch \<Rightarrow> str \<Rightarrow> str" where
  "wait_content wa k =
     joined [CHR 0x1E]
       (map (\<lambda>d. joined unit_separator
            [dy_dep d, (case dy_style d of None \<Rightarrow> [] | Some s \<Rightarrow> style_as_str s), or_empty (dy_action d),
             last_answer wa k d,
             (case holdup_of wa k d of None \<Rightarrow> [] | Some ls \<Rightarrow> joined [CHR 0x0A] ls)])
          (filter (\<lambda>d. version_of wa k d = None) (dependencies_of wa k))
        @ map (\<lambda>u. joined unit_separator [un_dep u, unresolved_word, un_reason u]) (unresolved_of wa k))"

record awaiting_entry =
  aw_dep :: str
  aw_identity :: "str option"
  aw_target :: "str option"
  aw_style :: "str option"
  aw_action :: "str option option"     \<comment> \<open>only a human-step wait carries the key\<close>
  aw_since :: u64
  aw_waited_seconds :: nat
  aw_last_answer :: str
  aw_reason :: "str option"

definition awaiting_entries :: "u64 \<Rightarrow> watch \<Rightarrow> str \<Rightarrow> awaiting_entry list" where
  "awaiting_entries now wa k =
     map (\<lambda>d. let since = (case wa_since wa (k, dy_dep d) of None \<Rightarrow> now | Some at \<Rightarrow> at) in
         \<lparr> aw_dep = dy_dep d, aw_identity = Some (dy_identity d), aw_target = dy_target d,
           aw_style = map_option style_as_str (dy_style d),
           aw_action = (if dy_style d = Some Human_Step then Some (dy_action d) else None),
           aw_since = since, aw_waited_seconds = (unat now - unat since) div 1000,
           aw_last_answer = last_answer wa k d, aw_reason = None \<rparr>)
       (filter (\<lambda>d. version_of wa k d = None) (dependencies_of wa k))
     @ map (\<lambda>u. \<lparr> aw_dep = un_dep u, aw_identity = None, aw_target = None, aw_style = None, aw_action = None,
           aw_since = un_since u, aw_waited_seconds = (unat now - unat (un_since u)) div 1000,
           aw_last_answer = unresolved_word, aw_reason = Some (un_reason u) \<rparr>)
       (unresolved_of wa k)"

datatype release_report =
    Report_Arrived str dependency str
  | Report_Wait str "awaiting_entry list"

text \<open>One arrival is reported once: \<open>arrived\<close> is what has been said.\<close>

definition report_arrival :: "str \<Rightarrow> dependency \<Rightarrow> watch \<times> release_report list \<Rightarrow> watch \<times> release_report list" where
  "report_arrival k d = (\<lambda>(wa, out).
     (case version_of wa k d of
        None \<Rightarrow> (wa, out)
      | Some v \<Rightarrow>
          if (k, dy_dep d) \<in> wa_arrived wa then (wa, out)
          else (wa\<lparr> wa_arrived := insert (k, dy_dep d) (wa_arrived wa) \<rparr>, out @ [Report_Arrived k d v])))"

text \<open>\<open>raised\<close> answers the stamp and the id the channel queued a surface under.\<close>

definition report_wait ::
  "channel_view \<Rightarrow> (str \<Rightarrow> u64 \<times> u64) \<Rightarrow> str \<Rightarrow> watch \<times> release_report list \<Rightarrow> watch \<times> release_report list" where
  "report_wait cv raised k = (\<lambda>(wa, out).
     (let content = wait_content wa k;
          (is_due, rs) = due cv k content (wa_surfaced wa)
      in if \<not> is_due then (wa\<lparr> wa_surfaced := rs \<rparr>, out)
         else (wa\<lparr> wa_surfaced := queued k content (fst (raised k)) (snd (raised k)) rs \<rparr>,
               out @ [Report_Wait k (awaiting_entries (cv_now cv) wa k)])))"

definition report ::
  "channel_view \<Rightarrow> (str \<Rightarrow> u64 \<times> u64) \<Rightarrow> str list \<Rightarrow> node list \<Rightarrow> watch \<Rightarrow> watch \<times> release_report list" where
  "report cv raised held watched wa =
     (let (wa1, out1) = fold (\<lambda>n. fold (report_arrival (node_id n)) (dependencies_of wa (node_id n))) watched (wa, []);
          (wa2, out2) = fold (report_wait cv raised) held (wa1, out1)
      in (wa2\<lparr> wa_surfaced := retain_surfaced (\<lambda>k. k \<in> set held) (wa_surfaced wa2) \<rparr>, out2))"

section \<open>What a driver takes up\<close>

text \<open>
  \<open>Released::payload\<close> and its reading back. The conversions of a release target's name and of an
  instruction template are the version-control crate's: they are arguments.
\<close>

definition put_text :: "str \<Rightarrow> str \<Rightarrow> json bmap \<Rightarrow> json bmap" where
  "put_text key v m = (if v = [] then m else bput key (JString v) m)"

definition released_payload :: "released \<Rightarrow> json" where
  "released_payload r =
     JObject ((case re_instructions r of None \<Rightarrow> id | Some i \<Rightarrow> bput ''instructions'' (JString i))
       (put_text ''commit'' (re_commit r) (put_text ''branch'' (re_branch r) (put_text ''dep'' (re_dep r)
         (bput ''version'' (JString (re_version r)) (bput ''target'' (JString (re_target r))
           (bput ''identity'' (JString (re_identity r)) [])))))))"

definition field_at :: "nat \<Rightarrow> json bmap \<Rightarrow> str \<Rightarrow> str option" where
  "field_at limit m key = Option.bind (text_at m key) (renderable limit)"

definition released_of_entry ::
  "nat \<Rightarrow> (str \<Rightarrow> str option) \<Rightarrow> (str \<Rightarrow> str option) \<Rightarrow> json \<Rightarrow> released option" where
  "released_of_entry limit as_target as_template entry =
     (case entry of
        JObject m \<Rightarrow>
          (case (field_at limit m ''identity'', Option.bind (text_at m ''target'') as_target,
                 field_at limit m ''version'') of
             (Some identity, Some target, Some version) \<Rightarrow>
               Some \<lparr> re_dep = or_empty (field_at limit m ''dep''), re_identity = identity,
                 re_branch = or_empty (field_at limit m ''branch''),
                 re_commit = or_empty (field_at limit m ''commit''), re_target = target,
                 re_version = version,
                 re_instructions = Option.bind (text_at m ''instructions'') as_template \<rparr>
           | _ \<Rightarrow> None)
      | _ \<Rightarrow> None)"

definition released_of_payload ::
  "nat \<Rightarrow> (str \<Rightarrow> str option) \<Rightarrow> (str \<Rightarrow> str option) \<Rightarrow> json \<Rightarrow> released list" where
  "released_of_payload limit as_target as_template p =
     (case p of JArray es \<Rightarrow> List.map_filter (released_of_entry limit as_target as_template) es | _ \<Rightarrow> [])"

text \<open>The records of a run a starting driver reads back (\<open>of_run\<close>): each with its node's label.\<close>

datatype recalled_record = Recalled_Adopted "json bmap" | Recalled_Arrived "json bmap" | Recalled_Other

definition recall_one ::
  "nat \<Rightarrow> (str \<Rightarrow> str option) \<Rightarrow> (str \<Rightarrow> str option) \<Rightarrow> str option \<times> recalled_record
     \<Rightarrow> str set \<times> wait_key set \<Rightarrow> str set \<times> wait_key set" where
  "recall_one limit as_target as_template = (\<lambda>(label, rec) (told, said).
     (case Option.bind label (renderable limit) of
        None \<Rightarrow> (told, said)
      | Some k \<Rightarrow>
          (case rec of
             Recalled_Adopted m \<Rightarrow>
               (if released_of_payload limit as_target as_template
                     (case bget m ''versions'' of None \<Rightarrow> JNull | Some v \<Rightarrow> v) \<noteq> []
                then (insert k told, said) else (told, said))
           | Recalled_Arrived m \<Rightarrow>
               (case field_at limit m ''dep'' of
                  Some dep \<Rightarrow> (told, insert (k, dep) said) | None \<Rightarrow> (told, said))
           | Recalled_Other \<Rightarrow> (told, said))))"

definition watch_of_run ::
  "nat \<Rightarrow> nat \<Rightarrow> nat \<Rightarrow> (str \<Rightarrow> str option) \<Rightarrow> (str \<Rightarrow> str option) \<Rightarrow> (str option \<times> recalled_record) list \<Rightarrow> watch" where
  "watch_of_run limit poll base as_target as_template recalled =
     (let (told, said) = fold (recall_one limit as_target as_template) recalled ({}, {})
      in \<lparr> wa_repositories = \<lparr> rp_known = [], rp_retry_every = poll \<rparr>, wa_dependencies = [],
           wa_answers = (\<lambda>_. None), wa_since = (\<lambda>_. None), wa_adopted = told, wa_arrived = said,
           wa_surfaced = \<lparr> rs_base = base, rs_last = [] \<rparr>, wa_relay_every = poll, wa_stated = [],
           wa_read_landings = None, wa_unresolved = [], wa_holdups = [] \<rparr>)"

section \<open>The watch beside its asker\<close>

text \<open>
  The loop hands the asker a set of questions each pass and takes up what it answered; the asker
  answers, one at a time, any question it was ever handed, by asking the host whatever it then
  says. \<open>wr_confirmed\<close> is the record of what the host said: the versions it answered as released,
  with the question that was answered.
\<close>

record watched_run =
  wr_watch :: watch
  wr_handed :: "question set"
  wr_answered :: "(wait_key list \<times> release_answer) list"
  wr_confirmed :: "(question \<times> str) set"

inductive watch_step :: "watched_run \<Rightarrow> watched_run \<Rightarrow> bool" where
  Pass: "refresh h run st watched (wr_answered s) (wr_watch s) = (qs, wa)
    \<Longrightarrow> watch_step s (s\<lparr> wr_watch := wa, wr_handed := wr_handed s \<union> set qs, wr_answered := [] \<rparr>)"
| Take_Up: "watch_step s (s\<lparr> wr_watch := take_up_answers (wr_answered s) (wr_watch s), wr_answered := [] \<rparr>)"
| Report: "report cv raised held watched (wr_watch s) = (wa, out) \<Longrightarrow> watch_step s (s\<lparr> wr_watch := wa \<rparr>)"
| Told: "watch_step s (s\<lparr> wr_watch := adopted k (wr_watch s) \<rparr>)"
| Answer: "\<lbrakk> q \<in> wr_handed s;
      a = answered_as limit (fst (release_status_falling_back ask (qu_reference q) (qu_fallback q) (qu_target q))) \<rbrakk>
    \<Longrightarrow> watch_step s (s\<lparr> wr_answered := wr_answered s @ [(qu_keys q, a)],
          wr_confirmed := wr_confirmed s \<union> (case a of Was_Released v \<Rightarrow> {(q, v)} | _ \<Rightarrow> {}) \<rparr>)"

definition starting :: "watch \<Rightarrow> watched_run" where
  "starting wa = \<lparr> wr_watch = wa, wr_handed = {}, wr_answered = [], wr_confirmed = {} \<rparr>"

end
