(* ===== verification/Release_Sound.thy ===== *)
theory Release_Sound
  imports Release_Watch
begin

text \<open>
  What the release watch promises: a release does not un-happen, a node under published adoption
  is not let go before the host answered for every release it waits for, a repeated wait is
  spaced out, and what was told is read back. And what a frozen set of dependencies misses.
\<close>

section \<open>Taking up answers\<close>

text \<open>\<open>keeps_versions wa wa'\<close>: no version known before is lost or replaced.\<close>

definition version_at :: "watch \<Rightarrow> wait_key \<Rightarrow> str option" where
  "version_at wa key = Option.bind (wa_answers wa key) answer_version"

definition keeps_versions :: "watch \<Rightarrow> watch \<Rightarrow> bool" where
  "keeps_versions wa wa' \<longleftrightarrow> (\<forall>key v. version_at wa key = Some v \<longrightarrow> version_at wa' key = Some v)"

lemma keeps_versions_refl [simp]: "keeps_versions wa wa"
  by (simp add: keeps_versions_def)

lemma keeps_versions_trans: "keeps_versions a b \<Longrightarrow> keeps_versions b c \<Longrightarrow> keeps_versions a c"
  by (auto simp: keeps_versions_def)

lemma same_answers_keep: "wa_answers wa' = wa_answers wa \<Longrightarrow> keeps_versions wa wa'"
  by (simp add: keeps_versions_def version_at_def)

lemma version_of_at: "version_of wa k d = version_at wa (k, dy_dep d)"
  by (simp add: version_of_def version_at_def)

lemma take_up_one_version:
  "version_at (take_up_one a key wa) j =
     (if j = key \<and> version_at wa key = None then answer_version a else version_at wa j)"
  by (auto simp: take_up_one_def version_at_def)

lemma take_up_keeps: "keeps_versions wa (take_up_keys keys a wa)"
proof (induction keys arbitrary: wa)
  case (Cons key keys)
  have "keeps_versions wa (take_up_one a key wa)" by (simp add: keeps_versions_def take_up_one_version)
  then show ?case using Cons by (simp add: take_up_keys_def) (blast intro: keeps_versions_trans)
qed (simp add: take_up_keys_def)

lemma take_up_answers_keeps: "keeps_versions wa (take_up_answers as wa)"
proof (induction as arbitrary: wa)
  case (Cons a as)
  obtain keys b where "a = (keys, b)" by (cases a)
  with Cons [of "take_up_keys keys b wa"] take_up_keeps [of wa keys b] show ?case
    by (simp add: take_up_answers_def) (blast intro: keeps_versions_trans)
qed (simp add: take_up_answers_def)

lemma take_up_keys_version:
  "version_at (take_up_keys keys a wa) key = Some v \<Longrightarrow>
     version_at wa key = Some v \<or> (key \<in> set keys \<and> a = Was_Released v)"
proof (induction keys arbitrary: wa)
  case (Cons j keys)
  then have "version_at (take_up_one a j wa) key = Some v \<or> (key \<in> set keys \<and> a = Was_Released v)"
    by (simp add: take_up_keys_def)
  then show ?case by (cases a) (auto simp: take_up_one_version split: if_splits)
qed (simp add: take_up_keys_def)

lemma take_up_answers_version:
  "version_at (take_up_answers as wa) key = Some v \<Longrightarrow>
     version_at wa key = Some v \<or> (\<exists>keys. (keys, Was_Released v) \<in> set as \<and> key \<in> set keys)"
proof (induction as arbitrary: wa)
  case (Cons a as)
  obtain keys b where "a = (keys, b)" by (cases a)
  with Cons.prems Cons.IH [of "take_up_keys keys b wa"] show ?case
    by (auto simp: take_up_answers_def dest: take_up_keys_version)
qed (simp add: take_up_answers_def)

lemma take_up_keeps_rest:
  "wa_dependencies (take_up_answers as wa) = wa_dependencies wa"
  "wa_unresolved (take_up_answers as wa) = wa_unresolved wa"
proof -
  have one: "wa_dependencies (take_up_keys keys a wa) = wa_dependencies wa \<and>
      wa_unresolved (take_up_keys keys a wa) = wa_unresolved wa" for keys a wa
    by (induction keys arbitrary: wa) (auto simp: take_up_keys_def take_up_one_def)
  have "wa_dependencies (take_up_answers as wa) = wa_dependencies wa \<and>
      wa_unresolved (take_up_answers as wa) = wa_unresolved wa"
    by (induction as arbitrary: wa) (auto simp: take_up_answers_def one)
  then show "wa_dependencies (take_up_answers as wa) = wa_dependencies wa"
    "wa_unresolved (take_up_answers as wa) = wa_unresolved wa" by auto
qed

section \<open>What resolving a node changes\<close>

text \<open>What a frozen dependency keeps while its landing is read again.\<close>

definition frozen :: "dependency \<Rightarrow> str \<times> str \<times> str option \<times> release_style option" where
  "frozen d = (dy_dep d, dy_identity d, dy_target d, dy_style d)"

definition reads_only :: "watch \<Rightarrow> watch \<Rightarrow> bool" where
  "reads_only wa wa' \<longleftrightarrow> wa_answers wa' = wa_answers wa \<and> wa_dependencies wa' = wa_dependencies wa \<and>
     wa_unresolved wa' = wa_unresolved wa \<and> wa_adopted wa' = wa_adopted wa \<and> wa_arrived wa' = wa_arrived wa"

lemma reads_only_refl [simp]: "reads_only wa wa"
  by (simp add: reads_only_def)

lemma reads_only_trans: "reads_only a b \<Longrightarrow> reads_only b c \<Longrightarrow> reads_only a c"
  by (simp add: reads_only_def)

lemma stated_landing_reads: "stated_landing_of h run k wa = (l, wa') \<Longrightarrow> reads_only wa wa'"
  by (auto simp: stated_landing_of_def Let_def reads_only_def split: option.splits)

lemma landing_of_reads: "landing_of h run dep wa = (l, wa') \<Longrightarrow> reads_only wa wa'"
  by (auto simp: landing_of_def dest: stated_landing_reads split: option.splits if_splits)

lemma on_repositories_reads: "on_repositories f wa = (a, wa') \<Longrightarrow> reads_only wa wa'"
  by (auto simp: on_repositories_def reads_only_def split: prod.splits)

lemma dependency_on_reads:
  assumes "dependency_on h run st n dep mine wa = (res, wa')"
  shows "reads_only wa wa'"
  using assms
  by (auto simp: dependency_on_def Let_def split: option.splits prod.splits sum.splits
      dest!: stated_landing_reads on_repositories_reads intro: reads_only_trans)

lemma re_read_reads:
  "re_read h run ds wa = (ds', wa') \<Longrightarrow> reads_only wa wa' \<and> map frozen ds' = map frozen ds"
proof (induction ds arbitrary: wa wa' ds')
  case (Cons d ds)
  obtain l wa1 where l: "landing_of h run (dy_dep d) wa = (l, wa1)" by fastforce
  obtain ds1 wa2 where r: "re_read h run ds wa1 = (ds1, wa2)" by fastforce
  from Cons.prems l r Cons.IH [OF r] landing_of_reads [OF l] show ?case
    by (auto simp: split_stated_def frozen_def Let_def split: prod.splits intro: reads_only_trans)
qed simp

lemma resolve_deps_reads:
  "resolve_deps h run st n mine ds wa = (found, lost, wa') \<Longrightarrow> reads_only wa wa'"
proof (induction ds arbitrary: wa wa' found lost)
  case (Cons dep ds)
  show ?case
  proof (cases "is_export_edge st dep (node_id n)")
    case True
    with Cons show ?thesis by simp
  next
    case False
    obtain res wa1 where one: "dependency_on h run st n dep mine wa = (res, wa1)" by fastforce
    obtain f l wa2 where rest: "resolve_deps h run st n mine ds wa1 = (f, l, wa2)" by (metis prod_cases3)
    from Cons.prems False one rest have "wa' = wa2" by (auto split: resolution.splits)
    with dependency_on_reads [OF one] Cons.IH [OF rest] show ?thesis by (blast intro: reads_only_trans)
  qed
qed simp

definition keeps_frozen :: "watch \<Rightarrow> watch \<Rightarrow> bool" where
  "keeps_frozen wa wa' \<longleftrightarrow> (\<forall>k ds. bget (wa_dependencies wa) k = Some ds \<longrightarrow>
     map_option (map frozen) (bget (wa_dependencies wa') k) = Some (map frozen ds))"

lemma keeps_frozen_refl [simp]: "keeps_frozen wa wa"
  by (simp add: keeps_frozen_def)

lemma keeps_frozen_trans: "keeps_frozen a b \<Longrightarrow> keeps_frozen b c \<Longrightarrow> keeps_frozen a c"
  unfolding keeps_frozen_def by fastforce

definition described :: "watch \<Rightarrow> str \<Rightarrow> bool" where
  "described wa k \<longleftrightarrow> bget (wa_dependencies wa) k \<noteq> None \<or> bget (wa_unresolved wa) k \<noteq> None"

lemma resolve_node_effect:
  assumes "resolve_node h run st n again wa = (ds, wa')"
  shows "wa_answers wa' = wa_answers wa \<and> keeps_frozen wa wa' \<and> described wa' (node_id n) \<and>
    (ds \<noteq> [] \<longrightarrow> bget (wa_dependencies wa') (node_id n) = Some ds) \<and>
    (\<forall>k. described wa k \<longrightarrow> described wa' k)"
proof (cases "bget (wa_dependencies wa) (node_id n)")
  case None
  obtain mine wa1 where mine: "on_repositories (identity_of_node h n) wa = (mine, wa1)" by fastforce
  obtain found lost wa2 where all: "resolve_deps h run st n mine (deps n) wa1 = (found, lost, wa2)" by (metis prod_cases3)
  have "reads_only wa wa2"
    using on_repositories_reads [OF mine] resolve_deps_reads [OF all] by (rule reads_only_trans)
  with assms None mine all show ?thesis
    by (auto simp: resolve_node_def Let_def reads_only_def keeps_frozen_def described_def split: if_splits)
next
  case (Some known)
  obtain ds1 wa1 where r: "re_read h run known wa = (ds1, wa1)" by fastforce
  with assms Some re_read_reads [OF r] show ?thesis
    by (auto simp: resolve_node_def Let_def reads_only_def keeps_frozen_def described_def split: if_splits)
qed

lemma wait_on_effect:
  assumes "wait_on h k d (waits, wa) = (waits', wa')"
  shows "wa_answers wa' = wa_answers wa \<and> wa_dependencies wa' = wa_dependencies wa \<and>
    wa_unresolved wa' = wa_unresolved wa \<and> set waits' \<subseteq> insert ((k, dy_dep d), d) (set waits)"
  using assms by (auto simp: wait_on_def Let_def split: if_splits)

lemma waits_on_effect:
  assumes "fold (wait_on h k) ds (waits, wa) = (waits', wa')"
  shows "wa_answers wa' = wa_answers wa \<and> wa_dependencies wa' = wa_dependencies wa \<and>
    wa_unresolved wa' = wa_unresolved wa \<and> set waits' \<subseteq> set waits \<union> {((k, dy_dep d), d) |d. d \<in> set ds}"
  using assms
proof (induction ds arbitrary: waits wa)
  case (Cons d ds)
  obtain waits1 wa1 where one: "wait_on h k d (waits, wa) = (waits1, wa1)" by fastforce
  with Cons.prems have rest: "fold (wait_on h k) ds (waits1, wa1) = (waits', wa')" by simp
  from wait_on_effect [OF one] Cons.IH [OF rest] show ?case by auto
qed auto

text \<open>A wait belongs to the set frozen for its node.\<close>

definition waits_ok :: "watch \<Rightarrow> (wait_key \<times> dependency) list \<Rightarrow> bool" where
  "waits_ok wa waits \<longleftrightarrow> (\<forall>((k, dep), d) \<in> set waits. dep = dy_dep d \<and>
     (\<exists>ds. bget (wa_dependencies wa) k = Some ds \<and> frozen d \<in> frozen ` set ds))"

lemma waits_ok_frozen: "waits_ok wa waits \<Longrightarrow> keeps_frozen wa wa' \<Longrightarrow> waits_ok wa' waits"
  unfolding waits_ok_def keeps_frozen_def
proof (clarify, goal_cases)
  case (1 k dep d)
  then obtain ds where ds: "dep = dy_dep d" "bget (wa_dependencies wa) k = Some ds" "frozen d \<in> frozen ` set ds"
    by fastforce
  with 1(2) obtain ds' where "bget (wa_dependencies wa') k = Some ds'" "map frozen ds' = map frozen ds" by fastforce
  moreover from this(2) have "frozen ` set ds' = frozen ` set ds" by (metis list.set_map)
  ultimately show ?case using ds by auto
qed

lemma watch_node_effect:
  assumes "watch_node h run st again n (waits, wa) = (waits', wa')" "waits_ok wa waits"
  shows "wa_answers wa' = wa_answers wa \<and> keeps_frozen wa wa' \<and> described wa' (node_id n) \<and>
    (\<forall>k. described wa k \<longrightarrow> described wa' k) \<and> waits_ok wa' waits'"
proof -
  obtain ds wa1 where res: "resolve_node h run st n again wa = (ds, wa1)" by fastforce
  with assms(1) have waits: "fold (wait_on h (node_id n)) ds (waits, wa1) = (waits', wa')"
    by (simp add: watch_node_def)
  note one = resolve_node_effect [OF res] and all = waits_on_effect [OF waits]
  have before: "waits_ok wa1 waits" using assms(2) one waits_ok_frozen by blast
  have "waits_ok wa1 waits'" unfolding waits_ok_def
  proof (clarify, goal_cases)
    case (1 k dep d)
    then consider "((k, dep), d) \<in> set waits" | "k = node_id n" "dep = dy_dep d" "d \<in> set ds" using all by auto
    then show ?case
    proof cases
      case 1
      with before show ?thesis by (auto simp: waits_ok_def)
    next
      case 2
      then have "bget (wa_dependencies wa1) k = Some ds" using one by (cases ds) auto
      with 2 show ?thesis by auto
    qed
  qed
  moreover have "wa_dependencies wa' = wa_dependencies wa1" "wa_unresolved wa' = wa_unresolved wa1"
    "wa_answers wa' = wa_answers wa1" using all by simp_all
  ultimately show ?thesis using one by (simp add: waits_ok_def keeps_frozen_def described_def)
qed

lemma watch_nodes_effect:
  assumes "fold (watch_node h run st again) ns (waits, wa) = (waits', wa')" "waits_ok wa waits"
  shows "wa_answers wa' = wa_answers wa \<and> keeps_frozen wa wa' \<and> (\<forall>n \<in> set ns. described wa' (node_id n)) \<and>
    (\<forall>k. described wa k \<longrightarrow> described wa' k) \<and> waits_ok wa' waits'"
  using assms
proof (induction ns arbitrary: waits wa)
  case (Cons n ns)
  obtain waits1 wa1 where one: "watch_node h run st again n (waits, wa) = (waits1, wa1)" by fastforce
  with Cons.prems have rest: "fold (watch_node h run st again) ns (waits1, wa1) = (waits', wa')" by simp
  from watch_node_effect [OF one Cons.prems(2)] have ok: "waits_ok wa1 waits1" by blast
  from watch_node_effect [OF one Cons.prems(2)] Cons.IH [OF rest ok] show ?case
    by (auto intro: keeps_frozen_trans)
qed simp

section \<open>Questions\<close>

definition asked_for :: "wait_key \<Rightarrow> dependency \<Rightarrow> question \<Rightarrow> bool" where
  "asked_for key d q \<longleftrightarrow> key \<in> set (qu_keys q) \<and> dy_reference d = Some (qu_reference q) \<and>
     dy_target d = qu_target q \<and> dy_style d = Some (qu_style q)"

definition questions_ok :: "(wait_key \<times> dependency) set \<Rightarrow> question list \<Rightarrow> bool" where
  "questions_ok ws qs \<longleftrightarrow> (\<forall>q \<in> set qs. \<forall>key \<in> set (qu_keys q). \<exists>d. (key, d) \<in> ws \<and> asked_for key d q)"

lemma join_question_ok:
  assumes "\<forall>q \<in> set qs. \<forall>j \<in> set (qu_keys q). \<exists>e. (j, e) \<in> ws \<and> asked_for j e q"
    and "(key, d) \<in> ws" "dy_reference d = Some reference" "dy_style d = Some style"
  shows "\<forall>q \<in> set (join_question key d reference style qs). \<forall>j \<in> set (qu_keys q). \<exists>e. (j, e) \<in> ws \<and> asked_for j e q"
  using assms(1)
proof (induction qs)
  case Nil
  then show ?case using assms(2-4) by (auto simp: asked_for_def)
next
  case (Cons q qs)
  show ?case
  proof (cases "asks_about d reference style q")
    case True
    have "\<exists>e. (j, e) \<in> ws \<and> asked_for j e (q\<lparr> qu_keys := qu_keys q @ [key] \<rparr>)"
      if "j \<in> set (qu_keys q) \<or> j = key" for j
      using that Cons.prems assms(2-4) True by (fastforce simp: asked_for_def asks_about_def)
    with True Cons.prems show ?thesis by auto
  next
    case False
    with Cons show ?thesis by auto
  qed
qed

lemma questions_of_ok: "questions_ok (set waits) (questions_of waits)"
proof -
  have "questions_ok ws qs \<Longrightarrow> set waits \<subseteq> ws \<Longrightarrow> questions_ok ws (fold question_of waits qs)" for ws qs
  proof (induction waits arbitrary: qs)
    case (Cons w waits)
    obtain key d where w: "w = (key, d)" by (cases w)
    have "questions_ok ws (question_of w qs)"
      using Cons.prems join_question_ok [of qs ws key d] w
      by (auto simp: questions_ok_def question_of_def split: option.splits)
    with Cons show ?case by simp
  qed simp
  from this [of _ "[]"] show ?thesis by (simp add: questions_of_def questions_ok_def)
qed

section \<open>A pass\<close>

lemma refresh_effect:
  assumes "refresh h run st watched as wa = (qs, wa')"
  shows "version_at wa' = version_at (take_up_answers as wa)" "keeps_frozen wa wa'"
    "\<forall>n \<in> set watched. described wa' (node_id n)"
    "\<forall>q \<in> set qs. \<forall>(k, dep) \<in> set (qu_keys q). \<exists>ds. bget (wa_dependencies wa') k = Some ds \<and>
       (\<exists>d \<in> set ds. dy_dep d = dep \<and> dy_target d = qu_target q)"
proof -
  obtain again wa1 where due: "landings_are_due h (take_up_answers as wa) = (again, wa1)" by fastforce
  then have wa1: "wa_answers wa1 = wa_answers (take_up_answers as wa)" "wa_dependencies wa1 = wa_dependencies wa"
    "wa_unresolved wa1 = wa_unresolved wa"
    by (auto simp: landings_are_due_def take_up_keeps_rest split: if_splits)
  obtain waits wa2 where pass: "fold (watch_node h run st again) watched ([], wa1) = (waits, wa2)" by fastforce
  have fin: "qs = questions_of waits"
    "wa' = wa2\<lparr> wa_unresolved := filter (\<lambda>(k, _). k \<in> set (map node_id watched)) (wa_unresolved wa2) \<rparr>"
    using assms due pass by (simp_all add: refresh_def)
  have "waits_ok wa1 []" by (simp add: waits_ok_def)
  note pass = watch_nodes_effect [OF pass this]
  have same: "wa_answers wa' = wa_answers wa2" "wa_dependencies wa' = wa_dependencies wa2" by (simp_all add: fin)
  show "version_at wa' = version_at (take_up_answers as wa)"
    using pass wa1 same by (simp add: version_at_def fun_eq_iff)
  show "keeps_frozen wa wa'" using pass wa1 same by (simp add: keeps_frozen_def)
  have kept: "bget (filter (\<lambda>(k, _). P k) m) k = (if P k then bget m k else None)" for P k and m :: "unresolved list bmap"
    by (induction m) auto
  show "\<forall>n \<in> set watched. described wa' (node_id n)"
    using pass same by (auto simp: described_def fin kept)
  show "\<forall>q \<in> set qs. \<forall>(k, dep) \<in> set (qu_keys q). \<exists>ds. bget (wa_dependencies wa') k = Some ds \<and>
       (\<exists>d \<in> set ds. dy_dep d = dep \<and> dy_target d = qu_target q)"
  proof (intro ballI, clarify)
    fix q k dep assume "q \<in> set qs" "(k, dep) \<in> set (qu_keys q)"
    with questions_of_ok [of waits] fin(1) obtain d where d: "((k, dep), d) \<in> set waits" "asked_for (k, dep) d q"
      by (fastforce simp: questions_ok_def)
    with pass same obtain ds where "dep = dy_dep d" "bget (wa_dependencies wa') k = Some ds" "frozen d \<in> frozen ` set ds"
      by (fastforce simp: waits_ok_def)
    with d(2) show "\<exists>ds. bget (wa_dependencies wa') k = Some ds \<and> (\<exists>d \<in> set ds. dy_dep d = dep \<and> dy_target d = qu_target q)"
      by (auto simp: frozen_def asked_for_def)
  qed
qed

lemma report_keeps:
  assumes "report cv raised held watched wa = (wa', out)"
  shows "wa_answers wa' = wa_answers wa" "wa_dependencies wa' = wa_dependencies wa"
proof -
  have one: "wa_answers (fst (report_arrival k d p)) = wa_answers (fst p) \<and>
      wa_dependencies (fst (report_arrival k d p)) = wa_dependencies (fst p)" for k d p
    by (cases p) (auto simp: report_arrival_def split: option.splits)
  have ones: "wa_answers (fst (fold (report_arrival k) ds p)) = wa_answers (fst p) \<and>
      wa_dependencies (fst (fold (report_arrival k) ds p)) = wa_dependencies (fst p)" for k ds p
    by (induction ds arbitrary: p) (simp_all add: one)
  have all: "wa_answers (fst (fold (\<lambda>n. fold (report_arrival (node_id n)) (ds n)) ns p)) = wa_answers (fst p) \<and>
      wa_dependencies (fst (fold (\<lambda>n. fold (report_arrival (node_id n)) (ds n)) ns p)) = wa_dependencies (fst p)" for ds ns p
    by (induction ns arbitrary: p) (simp_all add: ones)
  have wait: "wa_answers (fst (report_wait cv raised k p)) = wa_answers (fst p) \<and>
      wa_dependencies (fst (report_wait cv raised k p)) = wa_dependencies (fst p)" for k p
    by (cases p) (simp add: report_wait_def Let_def split: prod.splits)
  have waits: "wa_answers (fst (fold (report_wait cv raised) ks p)) = wa_answers (fst p) \<and>
      wa_dependencies (fst (fold (report_wait cv raised) ks p)) = wa_dependencies (fst p)" for ks p
    by (induction ks arbitrary: p) (simp_all add: wait)
  let ?p = "fold (\<lambda>n. fold (report_arrival (node_id n)) (dependencies_of wa (node_id n))) watched (wa, [])"
  let ?q = "fold (report_wait cv raised) held ?p"
  have "wa' = (fst ?q)\<lparr> wa_surfaced := retain_surfaced (\<lambda>k. k \<in> set held) (wa_surfaced (fst ?q)) \<rparr>"
    using assms by (auto simp: report_def split: prod.splits)
  then show "wa_answers wa' = wa_answers wa" "wa_dependencies wa' = wa_dependencies wa"
    using all [of "\<lambda>n. dependencies_of wa (node_id n)" watched "(wa, [])"] waits [of held ?p] by simp_all
qed

section \<open>The watch beside its asker\<close>

text \<open>
  What every step keeps: a version held, or answered and not yet taken up, is one the host
  confirmed, and a question is about the frozen dependency of each wait it was put for.
\<close>

definition watched_ok :: "watched_run \<Rightarrow> bool" where
  "watched_ok s \<longleftrightarrow>
     (\<forall>key v. version_at (wr_watch s) key = Some v \<longrightarrow> (\<exists>q. (q, v) \<in> wr_confirmed s \<and> key \<in> set (qu_keys q))) \<and>
     (\<forall>keys v. (keys, Was_Released v) \<in> set (wr_answered s) \<longrightarrow> (\<exists>q. (q, v) \<in> wr_confirmed s \<and> qu_keys q = keys)) \<and>
     fst ` wr_confirmed s \<subseteq> wr_handed s \<and>
     (\<forall>q \<in> wr_handed s. \<forall>(k, dep) \<in> set (qu_keys q). \<exists>ds. bget (wa_dependencies (wr_watch s)) k = Some ds \<and>
        (\<exists>d \<in> set ds. dy_dep d = dep \<and> dy_target d = qu_target q))"

lemma watched_okD:
  assumes "watched_ok s"
  shows "version_at (wr_watch s) key = Some v \<Longrightarrow> \<exists>q. (q, v) \<in> wr_confirmed s \<and> key \<in> set (qu_keys q)"
    and "(keys, Was_Released v) \<in> set (wr_answered s) \<Longrightarrow> \<exists>q. (q, v) \<in> wr_confirmed s \<and> qu_keys q = keys"
    and "(q, v) \<in> wr_confirmed s \<Longrightarrow> q \<in> wr_handed s"
    and "q \<in> wr_handed s \<Longrightarrow> (k, dep) \<in> set (qu_keys q) \<Longrightarrow> \<exists>ds. bget (wa_dependencies (wr_watch s)) k = Some ds \<and>
        (\<exists>d \<in> set ds. dy_dep d = dep \<and> dy_target d = qu_target q)"
proof -
  note ok = assms [unfolded watched_ok_def]
  show "version_at (wr_watch s) key = Some v \<Longrightarrow> \<exists>q. (q, v) \<in> wr_confirmed s \<and> key \<in> set (qu_keys q)"
    using ok [THEN conjunct1] by blast
  show "(keys, Was_Released v) \<in> set (wr_answered s) \<Longrightarrow> \<exists>q. (q, v) \<in> wr_confirmed s \<and> qu_keys q = keys"
    using ok [THEN conjunct2, THEN conjunct1] by blast
  show "(q, v) \<in> wr_confirmed s \<Longrightarrow> q \<in> wr_handed s"
    using ok [THEN conjunct2, THEN conjunct2, THEN conjunct1] by force
  show "q \<in> wr_handed s \<Longrightarrow> (k, dep) \<in> set (qu_keys q) \<Longrightarrow> \<exists>ds. bget (wa_dependencies (wr_watch s)) k = Some ds \<and>
        (\<exists>d \<in> set ds. dy_dep d = dep \<and> dy_target d = qu_target q)"
    by (drule bspec [OF ok [THEN conjunct2, THEN conjunct2, THEN conjunct2]], drule (1) bspec) simp
qed

lemma watched_okI:
  assumes "\<And>key v. version_at (wr_watch s) key = Some v \<Longrightarrow> \<exists>q. (q, v) \<in> wr_confirmed s \<and> key \<in> set (qu_keys q)"
    and "\<And>keys v. (keys, Was_Released v) \<in> set (wr_answered s) \<Longrightarrow> \<exists>q. (q, v) \<in> wr_confirmed s \<and> qu_keys q = keys"
    and "\<And>q v. (q, v) \<in> wr_confirmed s \<Longrightarrow> q \<in> wr_handed s"
    and "\<And>q k dep. q \<in> wr_handed s \<Longrightarrow> (k, dep) \<in> set (qu_keys q) \<Longrightarrow>
        \<exists>ds. bget (wa_dependencies (wr_watch s)) k = Some ds \<and> (\<exists>d \<in> set ds. dy_dep d = dep \<and> dy_target d = qu_target q)"
  shows "watched_ok s"
  unfolding watched_ok_def
proof (intro conjI allI impI)
  show "fst ` wr_confirmed s \<subseteq> wr_handed s" using assms(3) by force
  show "\<forall>q \<in> wr_handed s. \<forall>(k, dep) \<in> set (qu_keys q). \<exists>ds. bget (wa_dependencies (wr_watch s)) k = Some ds \<and>
      (\<exists>d \<in> set ds. dy_dep d = dep \<and> dy_target d = qu_target q)"
    by (intro ballI, clarify) (rule assms(4))
qed (use assms(1,2) in simp_all)

lemma taken_up_confirmed:
  assumes ok: "watched_ok s" and "version_at (take_up_answers (wr_answered s) (wr_watch s)) key = Some v"
  shows "\<exists>q. (q, v) \<in> wr_confirmed s \<and> key \<in> set (qu_keys q)"
  using take_up_answers_version [OF assms(2)] watched_okD(1) [OF ok] watched_okD(2) [OF ok] by metis

lemma frozen_about:
  assumes "keeps_frozen wa wa'" "bget (wa_dependencies wa) k = Some ds" "d \<in> set ds"
  shows "\<exists>ds'. bget (wa_dependencies wa') k = Some ds' \<and> (\<exists>d' \<in> set ds'. dy_dep d' = dy_dep d \<and> dy_target d' = dy_target d)"
proof -
  from assms obtain ds' where ds': "bget (wa_dependencies wa') k = Some ds'" "map frozen ds' = map frozen ds"
    by (fastforce simp: keeps_frozen_def)
  from arg_cong [OF ds'(2), of set] assms(3) have "frozen d \<in> frozen ` set ds'" by auto
  with ds'(1) show ?thesis by (auto simp: frozen_def)
qed

lemma watch_step_ok:
  assumes "watch_step s s'" "watched_ok s"
  shows "watched_ok s' \<and> keeps_versions (wr_watch s) (wr_watch s') \<and> keeps_frozen (wr_watch s) (wr_watch s')
    \<and> wr_confirmed s \<subseteq> wr_confirmed s'"
  using assms
proof cases
  case (Pass h run st watched qs wa)
  note effect = refresh_effect [OF Pass(2)]
  have about: "\<exists>ds. bget (wa_dependencies wa) k = Some ds \<and> (\<exists>d \<in> set ds. dy_dep d = dep \<and> dy_target d = qu_target q)"
    if q: "q \<in> wr_handed s \<union> set qs" "(k, dep) \<in> set (qu_keys q)" for q k dep
  proof (cases "q \<in> set qs")
    case True
    with effect(4) q(2) show ?thesis by auto
  next
    case False
    with q watched_okD(4) [OF assms(2)] obtain ds d where "bget (wa_dependencies (wr_watch s)) k = Some ds" "d \<in> set ds"
      "dy_dep d = dep" "dy_target d = qu_target q" by blast
    with frozen_about [OF effect(2)] show ?thesis by metis
  qed
  have "keeps_versions (wr_watch s) wa"
    using take_up_answers_keeps [of "wr_watch s" "wr_answered s"] effect(1) by (simp add: keeps_versions_def)
  moreover have "watched_ok s'"
    unfolding Pass(1)
    by (rule watched_okI) (use about taken_up_confirmed [OF assms(2)] watched_okD(3) [OF assms(2)] effect(1) in auto)
  ultimately show ?thesis using effect(2) by (simp add: Pass(1))
next
  case Take_Up
  have "watched_ok s'"
    unfolding Take_Up
    by (rule watched_okI)
      (use taken_up_confirmed [OF assms(2)] watched_okD [OF assms(2)] in \<open>auto simp: take_up_keeps_rest\<close>)
  with take_up_answers_keeps [of "wr_watch s" "wr_answered s"]
  show ?thesis by (simp add: Take_Up keeps_frozen_def take_up_keeps_rest)
next
  case (Report cv raised held watched wa out)
  note kept = report_keeps [OF Report(2)]
  have "version_at wa = version_at (wr_watch s)" by (simp add: version_at_def kept fun_eq_iff)
  with assms(2) kept show ?thesis by (simp add: Report(1) watched_ok_def keeps_frozen_def keeps_versions_def)
next
  case (Told k)
  have "version_at (adopted k (wr_watch s)) = version_at (wr_watch s)" by (simp add: version_at_def adopted_def fun_eq_iff)
  with assms(2) show ?thesis by (simp add: Told watched_ok_def keeps_frozen_def keeps_versions_def adopted_def)
next
  case (Answer q a limit ask)
  have grows: "wr_confirmed s \<subseteq> wr_confirmed s'" by (auto simp: Answer(1))
  have "watched_ok s'"
  proof (rule watched_okI)
    fix key v assume "version_at (wr_watch s') key = Some v"
    with watched_okD(1) [OF assms(2)] grows show "\<exists>q. (q, v) \<in> wr_confirmed s' \<and> key \<in> set (qu_keys q)"
      by (simp add: Answer(1)) blast
  next
    fix keys v assume "(keys, Was_Released v) \<in> set (wr_answered s')"
    then consider "(keys, Was_Released v) \<in> set (wr_answered s)" | "keys = qu_keys q" "a = Was_Released v"
      by (auto simp: Answer(1))
    then show "\<exists>q. (q, v) \<in> wr_confirmed s' \<and> qu_keys q = keys"
    proof cases
      case 1
      with watched_okD(2) [OF assms(2)] grows show ?thesis by blast
    next
      case 2
      then have "(q, v) \<in> wr_confirmed s'" by (simp add: Answer(1))
      with 2 show ?thesis by blast
    qed
  next
    fix p v assume "(p, v) \<in> wr_confirmed s'"
    with watched_okD(3) [OF assms(2)] Answer(2) show "p \<in> wr_handed s'"
      by (cases a) (auto simp: Answer(1))
  next
    fix p k dep assume "p \<in> wr_handed s'" "(k, dep) \<in> set (qu_keys p)"
    with watched_okD(4) [OF assms(2)] show "\<exists>ds. bget (wa_dependencies (wr_watch s')) k = Some ds \<and>
        (\<exists>d \<in> set ds. dy_dep d = dep \<and> dy_target d = qu_target p)" by (simp add: Answer(1))
  qed
  with grows show ?thesis by (simp add: Answer(1))
qed

lemma watch_steps_ok:
  assumes "watch_step\<^sup>*\<^sup>* s s'" "watched_ok s"
  shows "watched_ok s' \<and> keeps_versions (wr_watch s) (wr_watch s') \<and> keeps_frozen (wr_watch s) (wr_watch s')
    \<and> wr_confirmed s \<subseteq> wr_confirmed s'"
  using assms
proof (induction rule: rtranclp_induct)
  case (step s' s'')
  with watch_step_ok [of s' s''] show ?case
    by (blast intro: keeps_versions_trans keeps_frozen_trans)
qed simp

lemma starting_ok: "watched_ok (starting (watch_of_run limit poll base as_target as_template recalled))"
  by (auto simp: watched_ok_def starting_def watch_of_run_def version_at_def split: prod.splits)

lemma published_held:
  assumes "n \<in> set watched" "adoption_of h n = Published" "node_id n \<notin> held_releases h watched wa"
    and "described wa (node_id n)"
  shows "\<exists>ds. bget (wa_dependencies wa) (node_id n) = Some ds \<and> (\<forall>d \<in> set ds. version_of wa (node_id n) d \<noteq> None)"
proof -
  have free: "bget (wa_unresolved wa) (node_id n) = None" "\<not> awaits_a_release wa (node_id n)"
    using assms(1-3) by (auto simp: held_releases_def)
  with assms(4) obtain ds where ds: "bget (wa_dependencies wa) (node_id n) = Some ds" by (auto simp: described_def)
  with free(2) have "ds = [] \<or> (\<forall>d \<in> set ds. version_of wa (node_id n) d \<noteq> None)"
    by (auto simp: awaits_a_release_def all_released_def dependencies_of_def list_all_iff)
  with ds show ?thesis by auto
qed

text \<open>
  C29. However the loop's passes, the asker's answers and the host interleave, a node under
  published adoption that a pass does not hold is described, and for each dependency it was
  found to wait for the host has answered a release: a question about that dependency's target,
  put for this node's wait, was answered with the version the node is now given. Once there, a
  version is neither lost nor replaced, whatever is answered later.
\<close>

theorem a_published_node_waits_for_every_release:
  assumes run: "watch_step\<^sup>*\<^sup>* (starting (watch_of_run limit poll base as_target as_template recalled)) s"
    and pass: "refresh h run_id st watched (wr_answered s) (wr_watch s) = (qs, wa)"
    and n: "n \<in> set watched" "adoption_of h n = Published" "node_id n \<notin> held_releases h watched wa"
  shows "(\<exists>ds. bget (wa_dependencies wa) (node_id n) = Some ds \<and>
      (\<forall>d \<in> set ds. \<exists>q v. (q, v) \<in> wr_confirmed s \<and> (node_id n, dy_dep d) \<in> set (qu_keys q) \<and>
         (\<exists>d' \<in> set ds. dy_dep d' = dy_dep d \<and> dy_target d' = qu_target q) \<and>
         version_of wa (node_id n) d = Some v)) \<and>
    (\<forall>s' k d v. watch_step\<^sup>*\<^sup>* s s' \<longrightarrow> version_of (wr_watch s) k d = Some v \<longrightarrow> version_of (wr_watch s') k d = Some v)"
proof -
  have ok: "watched_ok s" using watch_steps_ok [OF run starting_ok] by blast
  note effect = refresh_effect [OF pass]
  have "described wa (node_id n)" using effect(3) n(1) by blast
  from published_held [OF n this] obtain ds where ds: "bget (wa_dependencies wa) (node_id n) = Some ds"
    "\<forall>d \<in> set ds. version_of wa (node_id n) d \<noteq> None" by blast
  have "\<exists>q v. (q, v) \<in> wr_confirmed s \<and> (node_id n, dy_dep d) \<in> set (qu_keys q) \<and>
      (\<exists>d' \<in> set ds. dy_dep d' = dy_dep d \<and> dy_target d' = qu_target q) \<and> version_of wa (node_id n) d = Some v"
    if d: "d \<in> set ds" for d
  proof -
    from ds(2) d obtain v where v: "version_of wa (node_id n) d = Some v" by blast
    then have "version_at (take_up_answers (wr_answered s) (wr_watch s)) (node_id n, dy_dep d) = Some v"
      using effect(1) by (simp add: version_of_at)
    from taken_up_confirmed [OF ok this] obtain q where q: "(q, v) \<in> wr_confirmed s"
      "(node_id n, dy_dep d) \<in> set (qu_keys q)" by blast
    from watched_okD(4) [OF ok watched_okD(3) [OF ok q(1)] q(2)] obtain ds0 d0 where
      "bget (wa_dependencies (wr_watch s)) (node_id n) = Some ds0" "d0 \<in> set ds0"
      "dy_dep d0 = dy_dep d" "dy_target d0 = qu_target q" by blast
    with frozen_about [OF effect(2)] ds(1) have "\<exists>d' \<in> set ds. dy_dep d' = dy_dep d \<and> dy_target d' = qu_target q"
      by fastforce
    with q v show ?thesis by blast
  qed
  moreover have "version_of (wr_watch s') k d = Some v"
    if "watch_step\<^sup>*\<^sup>* s s'" "version_of (wr_watch s) k d = Some v" for s' k d v
    using watch_steps_ok [OF that(1) ok] that(2) by (simp add: version_of_at keeps_versions_def)
  ultimately show ?thesis using ds(1) by blast
qed

text \<open>
  The set of releases a node waits for is the one it was first described with: a pass over
  the node as it stands now, whatever its dependencies have become, neither drops one that was
  cut nor adds one that was stated since. A node under published adoption that an edit cut from
  an unreleased dependency is held on it still, and one given another dependency never asks
  about it.
\<close>

lemma a_frozen_set_outlives_the_edit:
  assumes known: "bget (wa_dependencies wa) (node_id n) = Some ds"
    and pass: "refresh h run_id st watched as wa = (qs, wa')" and n: "n \<in> set watched"
  shows "map dy_dep (dependencies_of wa' (node_id n)) = map dy_dep ds \<and>
    (adoption_of h n = Published \<longrightarrow> (\<exists>d \<in> set ds. version_at wa' (node_id n, dy_dep d) = None) \<longrightarrow>
       node_id n \<in> held_releases h watched wa')"
proof -
  from refresh_effect(2) [OF pass] known obtain ds' where ds': "bget (wa_dependencies wa') (node_id n) = Some ds'"
    "map frozen ds' = map frozen ds" by (fastforce simp: keeps_frozen_def)
  from arg_cong [OF ds'(2), of "map fst"] have same: "map dy_dep ds' = map dy_dep ds"
    by (simp add: frozen_def comp_def)
  moreover have "node_id n \<in> held_releases h watched wa'"
    if "adoption_of h n = Published" "d \<in> set ds" "version_at wa' (node_id n, dy_dep d) = None" for d
  proof -
    have "dy_dep d \<in> dy_dep ` set ds'" using arg_cong [OF same, of set] that(2) by simp
    then obtain d' where "d' \<in> set ds'" "dy_dep d' = dy_dep d" by auto
    with that(3) have "ds' \<noteq> []" "\<not> list_all (\<lambda>e. version_of wa' (node_id n) e \<noteq> None) ds'"
      by (auto simp: version_of_at list_all_iff intro!: bexI [of _ d'])
    with ds'(1) have "awaits_a_release wa' (node_id n)"
      by (simp add: awaits_a_release_def all_released_def dependencies_of_def)
    with n that(1) show ?thesis by (auto simp: held_releases_def)
  qed
  ultimately show ?thesis using ds'(1) by (auto simp: dependencies_of_def)
qed

section \<open>A run of two repositories\<close>

text \<open>\<open>app\<close> is published after \<open>lib\<close>, of another repository, whose work is on \<open>work/lib\<close>.\<close>

definition repo_node :: "str \<Rightarrow> str list \<Rightarrow> node" where
  "repo_node k ds = blank_node\<lparr> node_id := k, deps := ds, repo := Some k, adoption := Some ''published'' \<rparr>"

definition one_target :: "str \<Rightarrow> repository_releases" where
  "one_target r = (let t = \<lparr> rt_name = ''crate'', rt_style = Automated, rt_action = None, rt_instructions = None \<rparr>
     in \<lparr> rr_identity = r, rr_targets = [t], rr_select = (\<lambda>_. Some t) \<rparr>)"

definition lib_state :: "str list \<Rightarrow> run_state" where
  "lib_state ds = blank_run\<lparr> r_graph := from_plan (plain_plan [repo_node ''lib'' [], repo_node ''tool'' [], repo_node ''app'' ds]),
     r_branches := [(''lib'', ''work/lib''), (''tool'', ''work/tool'')] \<rparr>"

definition lib_host :: release_host where
  "lib_host = \<lparr> rh_limit = 16, rh_targets = (\<lambda>r. Inr (one_target r)), rh_adoption = (\<lambda>_. None),
     rh_ledger = (\<lambda>_. None), rh_edit = dropping_world, rh_instant = 0, rh_now = 0 \<rparr>"

definition lib_pass :: "str list \<Rightarrow> (wait_key list \<times> release_answer) list \<Rightarrow> watch \<Rightarrow> question list \<times> watch" where
  "lib_pass ds as wa = refresh lib_host ''r'' (lib_state ds) [repo_node ''app'' ds] as wa"

definition new_watch :: watch where
  "new_watch = watch_of_run 16 2 2 Some Some []"

definition lib_question :: question where
  "lib_question = \<lparr> qu_keys = [(''app'', ''lib'')], qu_reference = ''work/lib'', qu_fallback = None,
     qu_target = Some ''crate'', qu_style = Automated \<rparr>"

definition lib_answered :: watched_run where
  "lib_answered = (starting new_watch)\<lparr> wr_watch := snd (lib_pass [''lib''] [] new_watch), wr_handed := {lib_question},
     wr_answered := [([(''app'', ''lib'')], Was_Released ''1.2.0'')], wr_confirmed := {(lib_question, ''1.2.0'')} \<rparr>"

lemma lib_first_question: "fst (lib_pass [''lib''] [] new_watch) = [lib_question]"
  by code_simp

lemma lib_answered_reachable: "watch_step\<^sup>*\<^sup>* (starting new_watch) lib_answered"
proof -
  let ?s = "(starting new_watch)\<lparr> wr_watch := snd (lib_pass [''lib''] [] new_watch), wr_handed := {lib_question} \<rparr>"
  have "refresh lib_host ''r'' (lib_state [''lib'']) [repo_node ''app'' [''lib'']] (wr_answered (starting new_watch))
      (wr_watch (starting new_watch)) = ([lib_question], snd (lib_pass [''lib''] [] new_watch))"
    using lib_first_question by (metis lib_pass_def prod.collapse starting_def watched_run.select_convs(1,3))
  from watch_step.Pass [OF this] have "watch_step (starting new_watch) ?s" by (simp add: starting_def)
  moreover have "watch_step ?s lib_answered"
  proof -
    have "Was_Released ''1.2.0'' = answered_as 16 (fst (release_status_falling_back (\<lambda>_ _. Inr (Status_Released ''1.2.0''))
        (qu_reference lib_question) (qu_fallback lib_question) (qu_target lib_question)))" by code_simp
    from watch_step.Answer [of lib_question ?s, OF _ this] show ?thesis
      by (simp add: lib_answered_def starting_def lib_question_def)
  qed
  ultimately show ?thesis by (meson converse_rtranclp_into_rtranclp rtranclp.rtrancl_refl)
qed

theorem a_published_node_waits_for_every_release_witness:
  "\<exists>ds. bget (wa_dependencies (snd (lib_pass [''lib''] (wr_answered lib_answered) (wr_watch lib_answered)))) ''app'' = Some ds \<and>
     ds \<noteq> [] \<and> (\<exists>d \<in> set ds. \<exists>q v. (q, v) \<in> wr_confirmed lib_answered)"
proof -
  let ?after = "lib_pass [''lib''] (wr_answered lib_answered) (wr_watch lib_answered)"
  let ?app = "repo_node ''app'' [''lib'']"
  have free: "node_id ?app \<notin> held_releases lib_host [?app] (snd ?after)" by code_simp
  have some: "dependencies_of (snd ?after) ''app'' \<noteq> []" by code_simp
  have pass: "refresh lib_host ''r'' (lib_state [''lib'']) [?app] (wr_answered lib_answered) (wr_watch lib_answered)
      = (fst ?after, snd ?after)" by (simp add: lib_pass_def)
  have "adoption_of lib_host ?app = Published" by code_simp
  from a_published_node_waits_for_every_release [OF lib_answered_reachable [unfolded new_watch_def] pass _ this free, THEN conjunct1]
  obtain ds where ds: "bget (wa_dependencies (snd ?after)) (node_id ?app) = Some ds"
    and confirmed: "\<forall>d \<in> set ds. \<exists>q v. (q, v) \<in> wr_confirmed lib_answered \<and> (node_id ?app, dy_dep d) \<in> set (qu_keys q) \<and>
         (\<exists>d' \<in> set ds. dy_dep d' = dy_dep d \<and> dy_target d' = qu_target q) \<and>
         version_of (snd ?after) (node_id ?app) d = Some v" by auto
  have "node_id ?app = ''app''" by (simp add: repo_node_def)
  with ds some have "bget (wa_dependencies (snd ?after)) ''app'' = Some ds" "ds \<noteq> []" by (simp_all add: dependencies_of_def)
  moreover from this(2) confirmed have "\<exists>d \<in> set ds. \<exists>q v. (q, v) \<in> wr_confirmed lib_answered"
    by (meson list.set_intros(1) neq_Nil_conv last_in_set)
  ultimately show ?thesis by blast
qed

end
