(* ===== verification/Release_Told.thy ===== *)
theory Release_Told
  imports Release_Watch
begin

text \<open>
  How often a wait is said again, and what a driver that takes a run over reads back of what was
  told: the spacing of \<open>Resurfacing\<close> and the payload of \<open>release-adopted\<close>.
\<close>

section \<open>Spacing\<close>

definition queued_all :: "str \<Rightarrow> str \<Rightarrow> (u64 \<times> u64) list \<Rightarrow> resurfacing \<Rightarrow> resurfacing" where
  "queued_all k content stamps rs = fold (\<lambda>(at, surface). queued k content at surface) stamps rs"

definition spaced :: "nat \<Rightarrow> nat \<Rightarrow> nat" where
  "spaced base again = (if ceiling_millis \<le> base then base else min (base * 2 ^ again) ceiling_millis)"

lemma spaced_Suc:
  "spaced base (Suc n) =
     (if ceiling_millis \<le> spaced base n then spaced base n else min (2 * spaced base n) ceiling_millis)"
  by (auto simp: spaced_def min_def mult.commute mult.left_commute)

lemma queued_base [simp]: "rs_base (queued k content at surface rs) = rs_base rs"
  by (simp add: queued_def)

lemma queued_all_base [simp]: "rs_base (queued_all k content stamps rs) = rs_base rs"
  by (induction stamps arbitrary: rs) (auto simp: queued_all_def)

lemma queued_at:
  obtains w where "bget (rs_last (queued k content at surface rs)) k = Some w" "sw_content w = content"
    "sw_every w = next_interval (rs_base rs) content (bget (rs_last rs) k)" "sw_checked w = None"
  by (simp add: queued_def)

lemma queued_all_interval:
  assumes "bget (rs_last rs) k = Some w" "sw_content w = content" "sw_every w = spaced (rs_base rs) n"
  shows "\<exists>w'. bget (rs_last (queued_all k content stamps rs)) k = Some w' \<and> sw_content w' = content \<and>
    sw_every w' = spaced (rs_base rs) (n + length stamps)"
  using assms
proof (induction stamps arbitrary: rs w n)
  case (Cons stamp stamps)
  obtain at surface where "stamp = (at, surface)" by (cases stamp)
  moreover obtain w1 where w1: "bget (rs_last (queued k content at surface rs)) k = Some w1" "sw_content w1 = content"
    "sw_every w1 = next_interval (rs_base rs) content (bget (rs_last rs) k)" by (rule queued_at)
  then have "sw_every w1 = spaced (rs_base (queued k content at surface rs)) (Suc n)"
    using Cons.prems by (simp add: next_interval_def spaced_Suc)
  from Cons.IH [OF w1(1,2) this] have "\<exists>w'. bget (rs_last (queued_all k content stamps (queued k content at surface rs))) k = Some w' \<and>
      sw_content w' = content \<and> sw_every w' = spaced (rs_base rs) (n + length (stamp # stamps))" by simp
  ultimately show ?case by (simp add: queued_all_def)
qed (simp add: queued_all_def)

text \<open>
  A wait that begins, or says something new, is due at once; queued again \<open>n\<close> times saying
  the same, it is due only once the last one has been read and the shipped interval, doubled
  \<open>n\<close> times but never past four hours unless the interval configured is longer, has passed
  since that one was queued.
\<close>

lemma unchanged_waits_are_spaced_out:
  assumes fresh: "\<forall>w. bget (rs_last rs) k = Some w \<longrightarrow> sw_content w \<noteq> content"
  shows "fst (due cv k content rs) \<and>
    (\<exists>w. bget (rs_last (queued_all k content (first # again) rs)) k = Some w \<and>
       sw_every w = spaced (rs_base rs) (length again) \<and>
       (fst (due cv k content (queued_all k content (first # again) rs)) \<longleftrightarrow>
          sw_id w \<notin> cv_waiting cv \<and>
          sw_every w \<le> unat (cv_now cv) -
            unat (case cv_queued_at cv (sw_id w) of Some at \<Rightarrow> at | None \<Rightarrow> sw_at w)))"
proof -
  have "fst (due cv k content rs)" using fresh by (auto simp: due_def split: option.splits)
  obtain at surface where first: "first = (at, surface)" by (cases first)
  let ?one = "queued k content at surface rs"
  have every: "next_interval (rs_base rs) content (bget (rs_last rs) k) = rs_base rs"
    using fresh by (auto simp: next_interval_def split: option.splits)
  obtain w1 where w1: "bget (rs_last ?one) k = Some w1" "sw_content w1 = content"
    "sw_every w1 = next_interval (rs_base rs) content (bget (rs_last rs) k)" by (rule queued_at)
  have "sw_every w1 = spaced (rs_base ?one) 0" using w1(3) every by (simp add: spaced_def min_def)
  from queued_all_interval [OF w1(1,2) this, of again]
  obtain w where w: "bget (rs_last (queued_all k content again ?one)) k = Some w" "sw_content w = content"
    "sw_every w = spaced (rs_base rs) (length again)" by auto
  have new: "sw_checked w = None"
  proof -
    have "bget (rs_last (queued_all k content stamps r)) k = Some v \<Longrightarrow>
        \<forall>u. bget (rs_last r) k = Some u \<longrightarrow> sw_checked u = None \<Longrightarrow> sw_checked v = None" for stamps r v
      by (induction stamps arbitrary: r) (auto simp: queued_all_def queued_def)
    from this [OF w(1)] show ?thesis by (simp add: queued_def)
  qed
  have all: "queued_all k content (first # again) rs = queued_all k content again ?one"
    by (simp add: queued_all_def first)
  have "fst (due cv k content (queued_all k content (first # again) rs)) \<longleftrightarrow>
      sw_id w \<notin> cv_waiting cv \<and> sw_every w \<le> unat (cv_now cv) -
        unat (case cv_queued_at cv (sw_id w) of Some at \<Rightarrow> at | None \<Rightarrow> sw_at w)"
    unfolding all using w(1,2) new by (simp add: due_def Let_def)
  with \<open>fst (due cv k content rs)\<close> w all show ?thesis by auto
qed

definition quarter_hourly :: resurfacing where
  "quarter_hourly = \<lparr> rs_base = 900 * 1000, rs_last = [] \<rparr>"

section \<open>Reading back what was told\<close>

definition reads_back :: "nat \<Rightarrow> (str \<Rightarrow> str option) \<Rightarrow> (str \<Rightarrow> str option) \<Rightarrow> released \<Rightarrow> bool" where
  "reads_back limit as_target as_template r \<longleftrightarrow>
     renderable limit (re_identity r) = Some (re_identity r) \<and> as_target (re_target r) = Some (re_target r) \<and>
     renderable limit (re_version r) = Some (re_version r) \<and>
     (\<forall>s \<in> {re_dep r, re_branch r, re_commit r}. s = [] \<or> renderable limit s = Some s) \<and>
     (\<forall>i. re_instructions r = Some i \<longrightarrow> as_template i = Some i)"

lemma put_text_get: "bget (put_text key v m) j = (if j = key \<and> v \<noteq> [] then Some (JString v) else bget m j)"
  by (simp add: put_text_def)

lemma released_reads_back:
  assumes "reads_back limit as_target as_template r"
  shows "released_of_entry limit as_target as_template (released_payload r) = Some r"
proof (cases "re_instructions r")
  case None
  with assms show ?thesis
    by (cases r) (auto simp: released_of_entry_def released_payload_def field_at_def text_at_def put_text_get
        reads_back_def or_empty_def)
next
  case (Some i)
  with assms show ?thesis
    by (cases r) (auto simp: released_of_entry_def released_payload_def field_at_def text_at_def put_text_get
        reads_back_def or_empty_def)
qed



end
