(* ===== verification/Pool.thy ===== *)
theory Pool
  imports Release_Watch
begin

text \<open>
  What an identity's workspaces admit (\<open>src/src/pool.rs\<close>): the hold of a node whose identity has
  no room, the refusals that stand until the paced re-read, and the continuation a refused
  attempt resumes from. The reading of a workspace's capacity is the version-control crate's;
  \<open>cp_admits n\<close> is \<open>admits.admits(n)\<close>, whether what is left admits a session past \<open>n\<close>.
\<close>

section \<open>Readings\<close>

record session_request =
  sq_repo :: str
  sq_branch :: "str option"
  sq_base :: "str option"
  sq_checkout :: "str option"
  sq_pool :: "u32 option"
  sq_overflow :: "str option"

text \<open>\<open>vcs::request_for\<close>.\<close>

definition request_for :: "node \<Rightarrow> session_request option" where
  "request_for n = map_option (\<lambda>r. \<lparr> sq_repo = r, sq_branch = branch n, sq_base = base_branch n,
     sq_checkout = execution_checkout n, sq_pool = pool n, sq_overflow = overflow n \<rparr>) (repo n)"

record workspace_hold =
  wh_identity :: str
  wh_pool :: u32
  wh_slots :: u32
  wh_idle :: u32
  wh_maintaining :: u32
  wh_overflow :: str
  wh_overflow_in_use :: u32

record capacity_reading =
  cr_hold :: workspace_hold
  cr_ineligible :: "str list"        \<comment> \<open>each slot it cannot take, and why\<close>

record workspace_capacity =
  cp_reading :: capacity_reading
  cp_admitted :: bool
  cp_admits :: "u32 \<Rightarrow> bool"

definition cp_identity :: "workspace_capacity \<Rightarrow> str" where
  "cp_identity cp = wh_identity (cr_hold (cp_reading cp))"

datatype admission = Admitted | Held_Back | Unread_Capacity

text \<open>Of a continuation the pass reads the node it was refused for.\<close>

record continuation =
  ct_node :: node
  ct_attempt :: nat

record workspaces =
  ws_placing :: "str bmap"
  ws_held :: "workspace_hold bmap"
  ws_unusable :: "str list bmap"
  ws_refused :: "(nat \<times> capacity_reading) bmap"
  ws_resuming :: "continuation bmap"
  ws_read_at :: "nat option"
  ws_every :: nat
  ws_surfaced :: resurfacing

definition new_workspaces :: "nat \<Rightarrow> nat \<Rightarrow> workspaces" where
  "new_workspaces every base = \<lparr> ws_placing = [], ws_held = [], ws_unusable = [], ws_refused = [],
     ws_resuming = [], ws_read_at = None, ws_every = every,
     ws_surfaced = \<lparr> rs_base = base, rs_last = [] \<rparr> \<rparr>"

section \<open>Operations\<close>

definition begin_pass :: "str set \<Rightarrow> workspaces \<Rightarrow> workspaces" where
  "begin_pass in_flight ws = ws\<lparr> ws_held := [], ws_unusable := [],
     ws_placing := filter (\<lambda>(k, _). k \<in> in_flight) (ws_placing ws) \<rparr>"

definition session_opened :: "str \<Rightarrow> workspaces \<Rightarrow> workspaces" where
  "session_opened k ws = ws\<lparr> ws_placing := bdel k (ws_placing ws) \<rparr>"

definition hold_node :: "str \<Rightarrow> capacity_reading \<Rightarrow> workspaces \<Rightarrow> workspaces" where
  "hold_node k reading ws = ws\<lparr> ws_held := bput k (cr_hold reading) (ws_held ws),
     ws_unusable := (if cr_ineligible reading = [] then bdel k (ws_unusable ws)
                     else bput k (cr_ineligible reading) (ws_unusable ws)) \<rparr>"

text \<open>How many placements the loop has outstanding on an identity, as a \<open>u32\<close>.\<close>

definition placed_on :: "str \<Rightarrow> workspaces \<Rightarrow> nat" where
  "placed_on identity ws = length (filter (\<lambda>(_, i). i = identity) (ws_placing ws))"

definition saturated_u32 :: "nat \<Rightarrow> u32" where
  "saturated_u32 n = (if n < 2 ^ 32 then of_nat n else - 1)"

definition admit_read ::
  "nat \<Rightarrow> (session_request \<Rightarrow> str + workspace_capacity) \<Rightarrow> str \<Rightarrow> session_request \<Rightarrow> workspaces
     \<Rightarrow> admission \<times> workspaces" where
  "admit_read now capacity k request ws =
     (case capacity request of
        Inl why \<Rightarrow> (Unread_Capacity, ws)
      | Inr cp \<Rightarrow>
          (let ws' = ws\<lparr> ws_read_at := Some now \<rparr>;
               already = saturated_u32 (placed_on (cp_identity cp) ws)
           in if cp_admitted cp \<and> (already = 0 \<or> cp_admits cp already)
              then (Admitted, ws'\<lparr> ws_placing := bput k (cp_identity cp) (ws_placing ws') \<rparr>)
              else (Held_Back, hold_node k (cp_reading cp) ws')))"

definition admit ::
  "nat \<Rightarrow> (session_request \<Rightarrow> str + workspace_capacity) \<Rightarrow> str \<Rightarrow> session_request \<Rightarrow> workspaces
     \<Rightarrow> admission \<times> workspaces" where
  "admit now capacity k request ws =
     (case bget (ws_refused ws) k of
        Some (at, reading) \<Rightarrow>
          if now - at < ws_every ws then (Held_Back, hold_node k reading ws)
          else admit_read now capacity k request (ws\<lparr> ws_refused := bdel k (ws_refused ws) \<rparr>)
      | None \<Rightarrow> admit_read now capacity k request ws)"

definition session_refused ::
  "nat \<Rightarrow> str \<Rightarrow> capacity_reading option \<Rightarrow> continuation option \<Rightarrow> workspaces \<Rightarrow> workspaces" where
  "session_refused now k reading continued ws =
     (let ws' = (case reading of None \<Rightarrow> ws | Some r \<Rightarrow> ws\<lparr> ws_refused := bput k (now, r) (ws_refused ws) \<rparr>)
      in case continued of
           Some c \<Rightarrow> ws'\<lparr> ws_resuming := bput k c (ws_resuming ws') \<rparr>
         | None \<Rightarrow> ws'\<lparr> ws_resuming := bdel k (ws_resuming ws') \<rparr>)"

definition resuming :: "str \<Rightarrow> workspaces \<Rightarrow> continuation option \<times> workspaces" where
  "resuming k ws = (bget (ws_resuming ws) k, ws\<lparr> ws_resuming := bdel k (ws_resuming ws) \<rparr>)"

definition keep_resuming :: "str \<Rightarrow> continuation option \<Rightarrow> workspaces \<Rightarrow> workspaces" where
  "keep_resuming k continued ws =
     (case continued of None \<Rightarrow> ws | Some c \<Rightarrow> ws\<lparr> ws_resuming := bput k c (ws_resuming ws) \<rparr>)"

text \<open>When the next paced read is due; \<open>None\<close> is \<open>Duration::MAX\<close>.\<close>

definition next_read :: "nat \<Rightarrow> workspaces \<Rightarrow> nat option" where
  "next_read now ws =
     (if ws_held ws = [] \<and> ws_refused ws = [] then None
      else
        let until = (\<lambda>since. ws_every ws - (now - since));
            due = map (\<lambda>(_, at, _). until at) (ws_refused ws) @
              (case ws_read_at ws of None \<Rightarrow> [] | Some at \<Rightarrow> [until at])
        in Some (if due = [] then 0 else Min (set due)))"

definition describe_hold :: "(u32 \<Rightarrow> str) \<Rightarrow> workspace_hold \<Rightarrow> str" where
  "describe_hold shown h =
     ''pool '' @ shown (wh_pool h) @ '' ('' @ shown (wh_slots h) @ '' slot(s): '' @ shown (wh_idle h)
       @ '' idle, '' @ shown (wh_maintaining h) @ '' maintaining), overflow '' @ wh_overflow h @ '' with ''
       @ shown (wh_overflow_in_use h) @ '' in use''"

text \<open>The waits queued to the planner, in the order of the held nodes.\<close>

definition surface_wait ::
  "(u32 \<Rightarrow> str) \<Rightarrow> channel_view \<Rightarrow> (str \<Rightarrow> u64 \<times> u64) \<Rightarrow> str \<times> workspace_hold
     \<Rightarrow> resurfacing \<times> str list \<Rightarrow> resurfacing \<times> str list" where
  "surface_wait shown cv raised = (\<lambda>(k, h) (rs, out).
     (let content = wh_identity h @ unit_separator @ describe_hold shown h;
          (is_due, rs') = due cv k content rs
      in if is_due then (queued k content (fst (raised k)) (snd (raised k)) rs', out @ [k]) else (rs', out)))"

definition surface_waits ::
  "(u32 \<Rightarrow> str) \<Rightarrow> channel_view \<Rightarrow> (str \<Rightarrow> u64 \<times> u64) \<Rightarrow> workspaces \<Rightarrow> workspaces \<times> str list" where
  "surface_waits shown cv raised ws =
     (let (rs, out) = fold (surface_wait shown cv raised) (ws_held ws) (ws_surfaced ws, [])
      in (ws\<lparr> ws_surfaced := retain_surfaced (\<lambda>k. bget (ws_held ws) k \<noteq> None) rs \<rparr>, out))"

end
