(* ===== verification/Boundary_Dispatch.thy ===== *)
theory Boundary_Dispatch
  imports Boundary Run_State
begin

text \<open>
  What the publication boundary tells and gives one dispatch (\<open>dispatching\<close> of
  \<open>src/src/boundary.rs\<close>): the plan a run stands at, its resolution, kept by shape, and the side
  of a mixed plan a node is dispatched on. The section added to a task is the context and the
  sentences it is written from; the opaque id a branch is named by, a hash of the clock, is an
  argument.
\<close>

section \<open>The plan now and its resolution\<close>

definition plan_now :: "run_state \<Rightarrow> plan" where
  "plan_now st =
     (let launched = (case r_plan st of
            Some p \<Rightarrow> p
          | None \<Rightarrow> \<lparr> schema_version = plan_schema_version, goal = None, plan_name = None,
              plan_concurrency = max 1 (concurrency (r_graph st)), tasks = [], export_edges = [] \<rparr>)
      in (to_plan (r_graph st) launched)
           \<lparr> export_edges := edges_now (export_edges launched) (r_superseded st) \<rparr>)"

text \<open>What a resolution reads of a plan.\<close>

type_synonym plan_shape = "(str \<times> str list \<times> classification \<times> str list) list \<times> export_edge list"

definition shape_of :: "plan \<Rightarrow> plan_shape" where
  "shape_of p =
     (map (\<lambda>n. (node_id n, repositories_of n, classification n, deps n)) (tasks p), export_edges p)"

definition resolved_kept :: nat where "resolved_kept = 8"

text \<open>\<open>of_run\<close>: a shape resolved already is not resolved again; the oldest of eight goes first.\<close>

definition of_run ::
  "boundary_oracle \<Rightarrow> plan \<Rightarrow> (plan_shape \<times> resolved option) list
     \<Rightarrow> resolved option \<times> (plan_shape \<times> resolved option) list" where
  "of_run orc p cached =
     (case find (\<lambda>(s, _). s = shape_of p) cached of
        Some (_, r) \<Rightarrow> (r, cached)
      | None \<Rightarrow>
          (let r = resolve_boundary orc p
           in (r, (if resolved_kept \<le> length cached then tl cached else cached) @ [(shape_of p, r)])))"

section \<open>What a dispatch is given\<close>

record boundary_context =
  cx_clearance :: clearance
  cx_export_directory :: "str option"
  cx_target_directory :: "str option"

text \<open>The sentences of the section, in order.\<close>

datatype side_line =
    Line_Producer str str          \<comment> \<open>the directory it writes, and where that lands\<close>
  | Line_Producer_Rules
  | Line_Private
  | Line_Summary
  | Line_Starts_From_Export str
  | Line_Public
  | Line_Names_Nothing_Private

record boundary_section =
  bs_context :: boundary_context
  bs_lines :: "side_line list"

record export_start =
  es_producer :: str
  es_consumer :: str
  es_from :: str
  es_branch :: str
  es_head :: "str option"
  es_source_directory :: str
  es_to :: str
  es_target_directory :: str
  es_ordinal :: nat
  es_accepted_opaque :: "str list"

datatype side =
    Private_Side boundary_section
  | Producer_Side boundary_section str
  | Public_Side boundary_section "str option" "export_start option"

record dispatching =
  dg_term_scope :: "str list"
  dg_side :: "side option"

datatype dispatching_refusal = No_Branch_To_Export | Producer_Without_Repository

fun side_section :: "side \<Rightarrow> boundary_section" where
  "side_section (Private_Side s) = s"
| "side_section (Producer_Side s _) = s"
| "side_section (Public_Side s _ _) = s"

fun side_branch_name :: "side \<Rightarrow> str option" where
  "side_branch_name (Private_Side _) = None"
| "side_branch_name (Producer_Side _ b) = Some b"
| "side_branch_name (Public_Side _ b _) = b"

fun side_export :: "side \<Rightarrow> export_start option" where
  "side_export (Public_Side _ _ e) = e"
| "side_export _ = None"

definition dispatches_publicly :: "dispatching \<Rightarrow> bool" where
  "dispatches_publicly d = (case dg_side d of Some (Public_Side _ _ _) \<Rightarrow> True | _ \<Rightarrow> False)"

text \<open>\<open>lineage_root\<close> of this file: the id the plan launched the node under.\<close>

lemma launched_measure:
  assumes "find (\<lambda>(_, r). r = at) m = Some (b, r)" "at \<notin> set seen"
  shows "card (snd ` set m - insert at (set seen)) < card (snd ` set m - set seen)"
proof -
  have "(b, at) \<in> set m" using assms(1) by (auto simp: find_Some_iff) (metis nth_mem)
  then have "at \<in> snd ` set m" by force
  with assms(2) show ?thesis by (intro psubset_card_mono) auto
qed

function launched_under :: "str bmap \<Rightarrow> str list \<Rightarrow> str \<Rightarrow> str" where
  "launched_under m seen at =
     (case find (\<lambda>(_, r). r = at) m of
        None \<Rightarrow> at
      | Some (older, _) \<Rightarrow> if at \<in> set seen then at else launched_under m (at # seen) older)"
  by auto
termination
  by (relation "measure (\<lambda>(m, seen, k). card (snd ` set m - set seen))")
    (auto intro: launched_measure)

declare launched_under.simps [simp del]

definition ordinal_of :: "plan \<Rightarrow> str \<Rightarrow> nat" where
  "ordinal_of p k = Suc (length (takeWhile (\<lambda>n. node_id n \<noteq> k) (tasks p)))"

definition public_branch_name :: "str \<Rightarrow> nat \<Rightarrow> str" where
  "public_branch_name opaque i = ''public/'' @ opaque @ ''/task-'' @ digits_of i"

definition export_branch_name :: "str \<Rightarrow> str" where
  "export_branch_name opaque = ''export/'' @ opaque"

text \<open>What a public node that consumes an export starts from.\<close>

definition export_for ::
  "plan \<Rightarrow> node \<Rightarrow> str bmap \<Rightarrow> str bmap \<Rightarrow> str bmap \<Rightarrow> export_edge
     \<Rightarrow> dispatching_refusal + export_start" where
  "export_for p n kept heads superseded e =
     (case bget kept (edge_from e) of
        None \<Rightarrow> Inl No_Branch_To_Export
      | Some b \<Rightarrow>
          (case Option.bind (find (\<lambda>c. node_id c = edge_from e) (tasks p)) repo of
             None \<Rightarrow> Inl Producer_Without_Repository
           | Some r \<Rightarrow>
               Inr \<lparr> es_producer = edge_from e, es_consumer = launched_under superseded [] (node_id n),
                 es_from = r, es_branch = b, es_head = bget heads (edge_from e),
                 es_source_directory = source_directory e,
                 es_to = (case repo n of None \<Rightarrow> [] | Some own \<Rightarrow> own),
                 es_target_directory = target_directory e, es_ordinal = ordinal_of p (node_id n),
                 es_accepted_opaque = accepted_opaque e \<rparr>))"

definition private_side :: "str \<Rightarrow> export_edge option \<Rightarrow> side" where
  "private_side opaque produced =
     (case produced of
        Some e \<Rightarrow>
          Producer_Side \<lparr> bs_context = \<lparr> cx_clearance = Private, cx_export_directory = Some (source_directory e),
              cx_target_directory = Some (target_directory e) \<rparr>,
            bs_lines = [Line_Producer (source_directory e) (target_directory e), Line_Producer_Rules] \<rparr>
            (export_branch_name opaque)
      | None \<Rightarrow>
          Private_Side \<lparr> bs_context = \<lparr> cx_clearance = Private, cx_export_directory = None,
              cx_target_directory = None \<rparr>, bs_lines = [Line_Private, Line_Summary] \<rparr>)"

definition public_section :: "export_edge option \<Rightarrow> boundary_section" where
  "public_section consumed =
     \<lparr> bs_context = \<lparr> cx_clearance = Public, cx_export_directory = None,
         cx_target_directory = map_option target_directory consumed \<rparr>,
       bs_lines = [(case consumed of Some e \<Rightarrow> Line_Starts_From_Export (target_directory e) | None \<Rightarrow> Line_Public),
         Line_Names_Nothing_Private] \<rparr>"

definition dispatching_of ::
  "str \<Rightarrow> resolved \<Rightarrow> plan \<Rightarrow> node \<Rightarrow> str bmap \<Rightarrow> str bmap \<Rightarrow> str bmap
     \<Rightarrow> dispatching_refusal + dispatching" where
  "dispatching_of opaque r p n kept heads superseded =
     (if \<not> mixed r then Inr \<lparr> dg_term_scope = scope r, dg_side = None \<rparr>
      else
        (let on = (\<lambda>s. \<lparr> dg_term_scope = scope r, dg_side = Some s \<rparr>);
             consumed = consumed_by p (node_id n);
             branch_name = (case repo n of None \<Rightarrow> None
               | Some _ \<Rightarrow> Some (public_branch_name opaque (ordinal_of p (node_id n))))
         in case clearance_of r (node_id n) of
              Private \<Rightarrow> Inr (on (private_side opaque (find (\<lambda>e. edge_from e = node_id n) (export_edges p))))
            | Public \<Rightarrow>
                (case consumed of
                   None \<Rightarrow> Inr (on (Public_Side (public_section None) branch_name None))
                 | Some e \<Rightarrow>
                     and_then (export_for p n kept heads superseded e) (\<lambda>x.
                       Inr (on (Public_Side (public_section (Some e)) branch_name (Some x)))))))"

end
