(* ===== verification/Boundary_Given.thy ===== *)
theory Boundary_Given
  imports Boundary_Dispatch
begin

text \<open>
  What holds of the boundary at a dispatch: the resolution kept by shape is the one a fresh
  resolution would answer, and a public node starts from the export of the one private node it
  builds on, or does not start.
\<close>

section \<open>Resolutions kept by shape\<close>

definition own_of_shape :: "boundary_oracle \<Rightarrow> str list \<Rightarrow> classification \<Rightarrow> clearance option" where
  "own_of_shape orc named c =
     fold (\<lambda>r c. if repository_clearance orc r = Private then Some Private else c) named
       (if c = Private_Task then Some Private else if named \<noteq> [] then Some Public else None)"

lemma own_clearance_shape: "own_clearance orc n = own_of_shape orc (repositories_of n) (classification n)"
  by (simp add: own_clearance_def own_of_shape_def Let_def)

lemma map_of_shape:
  assumes "map s xs = map s ys" "\<And>x. f x = g (s x)"
  shows "map f xs = map f ys"
proof -
  have "map f zs = map g (map s zs)" for zs by (simp add: assms(2))
  with assms(1) show ?thesis by metis
qed

lemma filter_of_shape:
  assumes "map s xs = map s ys" "\<And>x. P x = Q (s x)" "\<And>x. f x = g (s x)"
  shows "map f (filter P xs) = map f (filter P ys)"
proof -
  have "map f (filter P zs) = map g (filter Q (map s zs))" for zs
    by (induction zs) (simp_all add: assms(2,3))
  with assms(1) show ?thesis by metis
qed

lemma resolve_boundary_shape:
  assumes "shape_of p = shape_of q"
  shows "resolve_boundary orc p = resolve_boundary orc q"
proof -
  let ?s = "\<lambda>n. (node_id n, repositories_of n, classification n, deps n)"
  have ts: "map ?s (tasks p) = map ?s (tasks q)" and es: "export_edges p = export_edges q"
    using assms by (simp_all add: shape_of_def)
  have ids: "map node_id (tasks p) = map node_id (tasks q)"
    by (rule map_of_shape [OF ts, where g = fst]) simp
  have "own_clearances orc p = own_clearances orc q"
    unfolding own_clearances_def own_clearance_shape
    by (rule arg_cong [where f = bcollect], rule map_of_shape [OF ts,
        where g = "\<lambda>(k, rs, c, ds). (k, own_of_shape orc rs c)"]) simp
  moreover have "ordinary_deps p = ordinary_deps q"
    unfolding ordinary_deps_def is_export_def es
    by (rule arg_cong [where f = bcollect], rule map_of_shape [OF ts,
        where g = "\<lambda>(k, rs, c, ds). (k, filter (\<lambda>d. \<not> list_ex (\<lambda>e. edge_from e = d \<and> edge_to e = k)
          (export_edges q)) ds)"]) (simp add: list_ex_iff)
  moreover have "private_scope orc p = private_scope orc q"
    unfolding private_scope_def
    using map_of_shape [OF ts, of repositories_of "\<lambda>(k, rs, c, ds). rs"] by simp
  moreover have "map node_id (filter (\<lambda>n. own_clearance orc n = Some Public) (tasks p))
      = map node_id (filter (\<lambda>n. own_clearance orc n = Some Public) (tasks q))"
    unfolding own_clearance_shape
    by (rule filter_of_shape [OF ts, where g = fst
          and Q = "\<lambda>(k, rs, c, ds). own_of_shape orc rs c = Some Public"]) simp_all
  ultimately show ?thesis by (simp add: resolve_boundary_def ids)
qed

text \<open>The resolutions a process holds after the plans it was asked of, one by one.\<close>

definition cached_after :: "boundary_oracle \<Rightarrow> plan list \<Rightarrow> (plan_shape \<times> resolved option) list" where
  "cached_after orc ps = fold (\<lambda>p cached. snd (of_run orc p cached)) ps []"

definition rightly_cached :: "boundary_oracle \<Rightarrow> (plan_shape \<times> resolved option) list \<Rightarrow> bool" where
  "rightly_cached orc cached \<longleftrightarrow>
     length cached \<le> resolved_kept \<and> (\<forall>(s, r) \<in> set cached. \<exists>p. s = shape_of p \<and> r = resolve_boundary orc p)"

lemma of_run_right:
  assumes "rightly_cached orc cached"
  shows "fst (of_run orc p cached) = resolve_boundary orc p \<and> rightly_cached orc (snd (of_run orc p cached))"
proof (cases "find (\<lambda>(s, _). s = shape_of p) cached")
  case None
  have "set (tl cached) \<subseteq> set cached" by (cases cached) auto
  with assms None show ?thesis
    by (auto simp: of_run_def rightly_cached_def Let_def resolved_kept_def)
next
  case (Some e)
  obtain s r where e: "e = (s, r)" by fastforce
  with Some have "s = shape_of p" "(s, r) \<in> set cached"
    by (auto simp: find_Some_iff in_set_conv_nth)
  then obtain q where "shape_of p = shape_of q" "r = resolve_boundary orc q"
    using assms unfolding rightly_cached_def by blast
  with Some e assms show ?thesis
    using resolve_boundary_shape [of p q orc] by (simp add: of_run_def)
qed

text \<open>
  C34. A resolution is shared only by plans it is right for: after any plans a process has been
  asked about, the answer it gives for a plan, kept or made anew, is the resolution of that plan,
  while what the host says of the repositories stands; and it never keeps more than eight.
\<close>

theorem a_kept_boundary_is_the_plans_own:
  "fst (of_run orc p (cached_after orc ps)) = resolve_boundary orc p \<and>
   length (cached_after orc (ps @ [p])) \<le> 8"
proof -
  have "rightly_cached orc cached \<Longrightarrow>
      rightly_cached orc (fold (\<lambda>p cached. snd (of_run orc p cached)) ps cached)" for cached
    by (induction ps arbitrary: cached) (simp_all add: of_run_right)
  moreover have "rightly_cached orc []" by (simp add: rightly_cached_def)
  ultimately have "rightly_cached orc (cached_after orc ps)" by (simp add: cached_after_def)
  with of_run_right [OF this, of p] show ?thesis
    by (auto simp: cached_after_def rightly_cached_def resolved_kept_def)
qed

section \<open>The side a node is dispatched on\<close>

lemma consumed_by_only:
  assumes "distinct (map edge_to (export_edges p))" "e \<in> set (export_edges p)"
  shows "consumed_by p (edge_to e) = Some e"
proof -
  have "consumed_by p (edge_to e) \<noteq> None" using assms(2) by (auto simp: consumed_by_def find_None_iff)
  then obtain e' where e': "consumed_by p (edge_to e) = Some e'" by blast
  then have "e' \<in> set (export_edges p)" "edge_to e' = edge_to e"
    unfolding consumed_by_def by (auto simp: find_Some_iff in_set_conv_nth)
  with assms e' show ?thesis by (metis distinct_map inj_onD)
qed

text \<open>
  C35. A public node starts from its export or not at all: in a plan the boundary accepts with
  both sides in it, a public node that depends on a private one is dispatched, whatever else
  stands, with the export of that one node, from the branch and commit recorded of it, on a
  branch named by nothing but an opaque id and its position; where no branch of the producer was
  kept the dispatch is refused; and everything else it depends on in the plan is public.
\<close>

theorem a_public_node_starts_from_its_export:
  assumes edited: "check_edited sib p = Inr ()"
    and accepted: "check_boundary sib orc stg p = Some (Inr r)" and "mixed r"
    and n: "n \<in> set (tasks p)" "node_id n \<in> public_destinations r" "clearance_of r (node_id n) = Public"
      "repo n \<noteq> None"
    and m: "m \<in> set (tasks p)" "node_id m \<in> set (deps n)" "clearance_of r (node_id m) = Private"
  shows "(case bget kept (node_id m) of
       None \<Rightarrow> dispatching_of opaque r p n kept heads superseded = Inl No_Branch_To_Export
     | Some b \<Rightarrow> \<exists>d s x. dispatching_of opaque r p n kept heads superseded = Inr d \<and>
         dg_side d = Some (Public_Side s (Some (public_branch_name opaque (ordinal_of p (node_id n)))) (Some x)) \<and>
         es_producer x = node_id m \<and> es_branch x = b \<and> es_head x = bget heads (node_id m) \<and>
         repo m = Some (es_from x) \<and> repo n = Some (es_to x)) \<and>
   (\<forall>k \<in> set (map node_id (tasks p)) \<inter> set (deps n). k \<noteq> node_id m \<longrightarrow> clearance_of r k = Public)"
proof -
  have dist: "distinct (map node_id (tasks p))" by (rule edited_distinct [OF edited])
  note edges = accepted_export_edges [OF edited]
  have exports: "\<And>i e. (i, e) \<in> set (numbered 1 (export_edges p)) \<Longrightarrow> check_export stg p r i e = Inr ()"
    and ordinary: "\<And>k. k \<in> set (deps n) \<Longrightarrow> check_ordinary_dep p r n k = Inr ()"
    using accepted n by (auto simp: check_boundary_def split: if_splits)
  have edge: "\<exists>e \<in> set (export_edges p). edge_from e = k \<and> edge_to e = node_id n"
    if "k \<in> set (map node_id (tasks p))" "k \<in> set (deps n)" "clearance_of r k = Private" for k
    using ordinary [OF that(2)] that(1,3)
    by (auto simp: check_ordinary_dep_def is_export_def list_ex_iff split: if_splits)
  from edge [of "node_id m"] m obtain e where
    e: "e \<in> set (export_edges p)" "edge_from e = node_id m" "edge_to e = node_id n" by auto
  have consumed: "consumed_by p (node_id n) = Some e"
    using consumed_by_only [OF _ e(1)] edges e(3) by simp
  have others: "\<forall>k \<in> set (map node_id (tasks p)) \<inter> set (deps n). k \<noteq> node_id m \<longrightarrow> clearance_of r k = Public"
  proof (intro ballI impI)
    fix k assume k: "k \<in> set (map node_id (tasks p)) \<inter> set (deps n)" "k \<noteq> node_id m"
    show "clearance_of r k = Public"
    proof (rule ccontr)
      assume "clearance_of r k \<noteq> Public"
      then have "clearance_of r k = Private" by (cases "clearance_of r k") simp_all
      from edge [OF _ _ this] k(1) obtain e' where
        "e' \<in> set (export_edges p)" "edge_from e' = k" "edge_to e' = node_id n" by blast
      with consumed_by_only [of p e'] edges consumed e k(2) show False by auto
    qed
  qed
  obtain i where "(i, e) \<in> set (numbered 1 (export_edges p))" using in_numbered e(1) by metis
  from exports [OF this] obtain a where
    a: "bget (plan_nodes p) (node_id m) = Some a" "repo a \<noteq> None"
    by (auto simp: check_export_def e(2) refuse_if_def split: option.splits if_splits)
  have at: "find (\<lambda>c. node_id c = node_id m) (tasks p) = Some m"
  proof -
    have "find (\<lambda>c. node_id c = node_id m) (tasks p) \<noteq> None" using m(1) by (auto simp: find_None_iff)
    then obtain c where c: "find (\<lambda>c. node_id c = node_id m) (tasks p) = Some c" by blast
    then have "c \<in> set (tasks p)" "node_id c = node_id m"
      by (auto simp: find_Some_iff in_set_conv_nth)
    with m(1) dist c show ?thesis by (metis distinct_map inj_onD)
  qed
  have "a = m"
    using a(1) m(1) dist unfolding plan_nodes_def
    by (auto simp: bcollect_get comp_def distinct_map inj_on_def dest!: map_of_SomeD)
  then obtain rm where rm: "repo m = Some rm" using a(2) by blast
  obtain rn where rn: "repo n = Some rn" using n(4) by blast
  show ?thesis
    using others \<open>mixed r\<close> n(3) consumed at rm rn
    by (auto simp: dispatching_of_def export_for_def e(2) and_then_def split: option.splits)
qed

text \<open>The plan that exports \<open>general\<close> to \<open>public\<close>, with the producer kept.\<close>

definition general_node :: node where
  "general_node = (kept_node ''general'' [])\<lparr> classification := Private_Task \<rparr>"

definition public_node :: node where
  "public_node = (work_node ''public'' [''general''])\<lparr> repo := Some ''site'', title := Some ''feat: x'' \<rparr>"

definition exported_boundary :: resolved where
  "exported_boundary = (case resolve_boundary site_is_public exporting_plan of
     Some r \<Rightarrow> r | None \<Rightarrow> \<lparr> clearances = [], public_destinations = {}, scope = [] \<rparr>)"

theorem a_public_node_starts_from_its_export_witness:
  "\<exists>d s x. dispatching_of ''0a'' exported_boundary exporting_plan public_node [(''general'', ''kept/general'')] [] []
       = Inr d \<and>
     dg_side d = Some (Public_Side s (Some ''public/0a/task-2'') (Some x)) \<and>
     es_producer x = ''general'' \<and> es_branch x = ''kept/general''"
proof -
  have edited: "check_edited open_siblings exporting_plan = Inr ()" by code_simp
  have r: "resolve_boundary site_is_public exporting_plan = Some exported_boundary"
    using resolve_boundary_runs by (auto simp: exported_boundary_def split: option.splits)
  have "(case check_boundary open_siblings site_is_public Load exporting_plan of
      Some (Inr _) \<Rightarrow> True | _ \<Rightarrow> False)" by code_simp
  then have accepted: "check_boundary open_siblings site_is_public Load exporting_plan = Some (Inr exported_boundary)"
    by (auto simp: check_boundary_def r split: option.splits sum.splits)
  have tasks: "public_node \<in> set (tasks exporting_plan)" "general_node \<in> set (tasks exporting_plan)"
    by (simp_all add: exporting_plan_def plain_plan_def general_node_def public_node_def)
  have sides: "mixed exported_boundary" "node_id public_node \<in> public_destinations exported_boundary"
      "clearance_of exported_boundary (node_id public_node) = Public"
      "clearance_of exported_boundary (node_id general_node) = Private"
    by code_simp+
  have "repo public_node \<noteq> None" "node_id general_node \<in> set (deps public_node)" by code_simp+
  from a_public_node_starts_from_its_export [OF edited accepted sides(1) tasks(1) sides(2,3) this(1)
      tasks(2) this(2) sides(4), where kept = "[(''general'', ''kept/general'')]" and opaque = "''0a''"
      and heads = "[]" and superseded = "[]"]
  have "\<exists>d s x. dispatching_of ''0a'' exported_boundary exporting_plan public_node [(''general'', ''kept/general'')] [] []
       = Inr d \<and>
     dg_side d = Some (Public_Side s (Some (public_branch_name ''0a'' (ordinal_of exporting_plan (node_id public_node)))) (Some x)) \<and>
     es_producer x = node_id general_node \<and> es_branch x = ''kept/general''"
    by (auto simp: general_node_def kept_node_def work_node_def)
  moreover have "public_branch_name ''0a'' (ordinal_of exporting_plan (node_id public_node)) = ''public/0a/task-2''"
    "node_id general_node = ''general''" by code_simp+
  ultimately show ?thesis by simp
qed

end
