(* ===== verification/Note_Standing.thy ===== *)
theory Note_Standing
  imports Run_Fold
begin

text \<open>
  The notes that stand for a node (\<open>standing\<close> of \<open>src/src/note.rs\<close>), folded out of the records a
  run keeps whole (\<open>recalled\<close> of \<open>src/src/projection.rs\<close>), and what a dispatch is told it was
  composed with and without (\<open>notes_at_dispatch\<close> of \<open>src/src/engine.rs\<close>).

  The readers of a payload's note list and of its operations are arguments, as in the fold; the
  carry store of a node is another crate's, of which only whether it can be read decides anything.
\<close>

section \<open>Held notes\<close>

record note_entry =
  ne_addressee :: str
  ne_text :: str
  ne_criterion :: "str option"
  ne_reached :: reached

fun of_delivery :: "operation \<Rightarrow> note_entry option" where
  "of_delivery (NoteDelivered _ addressee t criterion how _ _ _ _) =
     Some \<lparr> ne_addressee = addressee, ne_text = t, ne_criterion = criterion, ne_reached = how \<rparr>"
| "of_delivery _ = None"

datatype note_place = Composed_Into_It | Delivered_Since

record held_note =
  hn_note :: note_entry
  hn_place :: note_place
  hn_sent :: "(u64 \<times> u32) option"

definition held_read :: "held_note \<Rightarrow> bool" where
  "held_read h \<longleftrightarrow> (case hn_place h of
     Composed_Into_It \<Rightarrow> True | Delivered_Since \<Rightarrow> a_conversation_read_it (ne_reached (hn_note h)))"

definition standing_notes :: "held_note list \<Rightarrow> note_entry list" where
  "standing_notes hs = map hn_note hs"

definition standing_carried :: "held_note list \<Rightarrow> note_entry list" where
  "standing_carried hs = map hn_note (filter (\<lambda>h. \<not> held_read h) hs)"

definition standing_read :: "held_note list \<Rightarrow> note_entry list" where
  "standing_read hs = map hn_note (filter held_read hs)"

section \<open>The fold\<close>

definition carried_key :: str where "carried_key = ''notes_carried''"

datatype standing_refusal = Unreadable_Record journal_event str | Unreadable_Store str

fun both :: "'a option \<Rightarrow> 'b option \<Rightarrow> ('a \<times> 'b) option" where
  "both (Some a) (Some b) = Some (a, b)"
| "both _ _ = None"

fun hold_op :: "str \<Rightarrow> operation \<Rightarrow> held_note list \<Rightarrow> held_note list" where
  "hold_op k (NoteDelivered whose addressee t criterion how _ _ envelope idx) hs =
     (if whose = k
      then hs @ [\<lparr> hn_note = \<lparr> ne_addressee = addressee, ne_text = t, ne_criterion = criterion, ne_reached = how \<rparr>,
                   hn_place = Delivered_Since, hn_sent = both envelope idx \<rparr>]
      else hs)"
| "hold_op k (NoteWithdrawn whose envelope idx _ _ _ _) hs =
     (if whose = k
      then filter (\<lambda>h. hn_place h \<noteq> Delivered_Since \<or> hn_sent h \<noteq> Some (envelope, idx)) hs else hs)"
| "hold_op k _ hs = hs"

definition a_commit :: "event_kind \<Rightarrow> bool" where
  "a_commit what \<longleftrightarrow> what = K_EditCommitted \<or> what = K_CommandAccepted"

definition operations_of :: "fold_world \<Rightarrow> journal_event \<Rightarrow> operation list option" where
  "operations_of w e = Option.bind (bget (ev_payload e) ''operations'') (fw_operations w)"

text \<open>A dispatch of the node starts over from what it was composed with.\<close>

definition composed_with ::
  "(json \<Rightarrow> note_entry list option) \<Rightarrow> journal_event \<Rightarrow> standing_refusal + held_note list" where
  "composed_with reads e =
     (case bget (ev_payload e) carried_key of
        None \<Rightarrow> Inr []
      | Some v \<Rightarrow>
          (case reads v of
             None \<Rightarrow> Inl (Unreadable_Record e carried_key)
           | Some ns \<Rightarrow>
               Inr (map (\<lambda>n. \<lparr> hn_note = n, hn_place = Composed_Into_It, hn_sent = None \<rparr>) ns)))"

definition standing_step ::
  "fold_world \<Rightarrow> (json \<Rightarrow> note_entry list option) \<Rightarrow> str \<Rightarrow> journal_event \<Rightarrow> held_note list
     \<Rightarrow> standing_refusal + held_note list" where
  "standing_step w reads k e hs =
     (if ev_kind e = K_NodeDispatched
      then (if ev_node e \<noteq> Some k then Inr hs else composed_with reads e)
      else if \<not> a_commit (ev_kind e) \<or> ev_source e \<noteq> From_Pipeline then Inr hs
      else case operations_of w e of
        None \<Rightarrow> Inl (Unreadable_Record e ''operations'')
      | Some ops \<Rightarrow> Inr (fold (hold_op k) ops hs))"

definition standing ::
  "fold_world \<Rightarrow> (json \<Rightarrow> note_entry list option) \<Rightarrow> journal_event list \<Rightarrow> str
     \<Rightarrow> standing_refusal + held_note list" where
  "standing w reads es k = fold (\<lambda>e held. and_then held (standing_step w reads k e)) es (Inr [])"

section \<open>The records kept whole\<close>

text \<open>
  Which records the fold of a run keeps whole. \<open>others\<close> says it of the kinds the model's fold
  does not tell apart, none of which the notes are folded from.
\<close>

fun is_note_op :: "operation \<Rightarrow> bool" where
  "is_note_op (NoteDelivered _ _ _ _ _ _ _ _ _) = True"
| "is_note_op (NoteWithdrawn _ _ _ _ _ _ _) = True"
| "is_note_op _ = False"

definition recalled_whole :: "(journal_event \<Rightarrow> bool) \<Rightarrow> run_state \<Rightarrow> journal_event \<Rightarrow> bool" where
  "recalled_whole others st e =
     (case ev_kind e of
        K_ReleaseAdopted \<Rightarrow> True
      | K_DriverAdopted \<Rightarrow> True
      | K_ScratchRemoved \<Rightarrow> True
      | K_ScratchRetained \<Rightarrow> True
      | K_NodeSettled \<Rightarrow> bget (ev_payload e) ''continued'' \<noteq> None
      | K_NodeDispatched \<Rightarrow>
          bget (ev_payload e) carried_key \<noteq> None \<or>
          (case ev_node e of Some k \<Rightarrow> k \<in> r_noted st | None \<Rightarrow> False)
      | K_Other \<Rightarrow> others e
      | _ \<Rightarrow> False)"

definition commit_recalled :: "fold_world \<Rightarrow> journal_event \<Rightarrow> bool" where
  "commit_recalled w e \<longleftrightarrow> a_commit (ev_kind e) \<and>
     (case operations_of w e of None \<Rightarrow> True | Some ops \<Rightarrow> list_ex is_note_op ops)"

definition recalls :: "fold_world \<Rightarrow> (journal_event \<Rightarrow> bool) \<Rightarrow> run_state \<Rightarrow> journal_event \<Rightarrow> bool" where
  "recalls w others st e \<longleftrightarrow>
     (if ev_source e \<noteq> From_Pipeline then others e
      else ev_kind e = K_DriverExited \<or>
        ev_known e \<and> (recalled_whole others st e \<or> commit_recalled w e))"

definition recall_next :: "fold_world \<Rightarrow> (journal_event \<Rightarrow> bool) \<Rightarrow> journal_event
    \<Rightarrow> run_state \<times> journal_event list \<Rightarrow> run_state \<times> journal_event list" where
  "recall_next w others e = (\<lambda>(st, kept).
     (fold_record w e st, if recalls w others st e then kept @ [e] else kept))"

definition recalled_of :: "fold_world \<Rightarrow> (journal_event \<Rightarrow> bool) \<Rightarrow> journal_event list \<Rightarrow> journal_event list" where
  "recalled_of w others es = snd (fold (recall_next w others) es (blank_run\<lparr> r_strict := True \<rparr>, []))"

section \<open>What a dispatch is told\<close>

record at_dispatch =
  ad_spent :: "note_entry list"
  ad_carried_in :: "note_entry list"

definition may_hold_a_note :: "run_state \<Rightarrow> str \<Rightarrow> bool" where
  "may_hold_a_note st k \<longleftrightarrow> bget (r_dispatched_at st) k \<noteq> None \<or> bget (r_pending_context st) k \<noteq> None"

definition supersedes :: "run_state \<Rightarrow> str \<Rightarrow> str list" where
  "supersedes st k = map fst (filter (\<lambda>(_, replacement). replacement = k) (r_superseded st))"

fun spent_of ::
  "(str \<Rightarrow> standing_refusal + held_note list) \<Rightarrow> str list \<Rightarrow> standing_refusal + note_entry list" where
  "spent_of stands [] = Inr []"
| "spent_of stands (j # js) =
     and_then (stands j) (\<lambda>hs. and_then (spent_of stands js) (\<lambda>ns. Inr (standing_notes hs @ ns)))"

text \<open>\<open>drain_carried\<close>: the node's carry store is emptied, and the fold's own answer stands.\<close>

definition drain_carried :: "(str \<Rightarrow> bool) \<Rightarrow> str \<Rightarrow> held_note list \<Rightarrow> standing_refusal + held_note list" where
  "drain_carried readable k hs = (if readable k then Inr hs else Inl (Unreadable_Store k))"

definition told_from ::
  "(str \<Rightarrow> standing_refusal + held_note list) \<Rightarrow> (str \<Rightarrow> bool) \<Rightarrow> str list \<Rightarrow> str
     \<Rightarrow> standing_refusal + at_dispatch" where
  "told_from stands readable js k =
     and_then (and_then (stands k) (drain_carried readable k)) (\<lambda>hs.
       and_then (spent_of stands js) (\<lambda>ns.
         Inr \<lparr> ad_spent = standing_read hs @ ns, ad_carried_in = standing_carried hs \<rparr>))"

definition notes_at_dispatch ::
  "fold_world \<Rightarrow> (json \<Rightarrow> note_entry list option) \<Rightarrow> journal_event list \<Rightarrow> (str \<Rightarrow> bool) \<Rightarrow> run_state \<Rightarrow> str
     \<Rightarrow> standing_refusal + at_dispatch" where
  "notes_at_dispatch w reads recalled readable st k =
     (if \<not> may_hold_a_note st k \<and> \<not> list_ex (may_hold_a_note st) (supersedes st k)
      then Inr \<lparr> ad_spent = [], ad_carried_in = [] \<rparr>
      else told_from (standing w reads recalled) readable (supersedes st k) k)"

end
