(* ===== verification/Note_Recalled.thy ===== *)
theory Note_Recalled
  imports Note_Standing
begin

text \<open>
  That the records a run keeps whole are enough for the notes of a node, and that a node the
  projection has neither dispatched nor holds a note for has none.
\<close>

section \<open>What the fold says of notes\<close>

text \<open>Who was noted, who was dispatched, and what is owed to a dispatch.\<close>

definition note_view :: "run_state \<Rightarrow> str set \<times> u64 bmap \<times> str bmap" where
  "note_view st = (r_noted st, r_dispatched_at st, r_pending_context st)"

named_theorems note_frames "what leaves the notes of a run as they are"

lemma note_view_update [note_frames, simp]:
  "note_view (st\<lparr> r_graph := x0 \<rparr>) = note_view st"
  "note_view (st\<lparr> r_run_node_sets := x1 \<rparr>) = note_view st"
  "note_view (st\<lparr> r_plan := x2 \<rparr>) = note_view st"
  "note_view (st\<lparr> r_recorded := x3 \<rparr>) = note_view st"
  "note_view (st\<lparr> r_outcomes := x4 \<rparr>) = note_view st"
  "note_view (st\<lparr> r_parks := x5 \<rparr>) = note_view st"
  "note_view (st\<lparr> r_branches := x6 \<rparr>) = note_view st"
  "note_view (st\<lparr> r_sessions := x7 \<rparr>) = note_view st"
  "note_view (st\<lparr> r_abandoned := x8 \<rparr>) = note_view st"
  "note_view (st\<lparr> r_change_urls := x9 \<rparr>) = note_view st"
  "note_view (st\<lparr> r_causes := x10 \<rparr>) = note_view st"
  "note_view (st\<lparr> r_heads := x11 \<rparr>) = note_view st"
  "note_view (st\<lparr> r_remotes := x12 \<rparr>) = note_view st"
  "note_view (st\<lparr> r_landing_commits := x13 \<rparr>) = note_view st"
  "note_view (st\<lparr> r_bases := x14 \<rparr>) = note_view st"
  "note_view (st\<lparr> r_stacks := x15 \<rparr>) = note_view st"
  "note_view (st\<lparr> r_reworks := x16 \<rparr>) = note_view st"
  "note_view (st\<lparr> r_continued_reworks := x17 \<rparr>) = note_view st"
  "note_view (st\<lparr> r_branch_heads := x18 \<rparr>) = note_view st"
  "note_view (st\<lparr> r_restacking := x19 \<rparr>) = note_view st"
  "note_view (st\<lparr> r_restacks := x20 \<rparr>) = note_view st"
  "note_view (st\<lparr> r_titles_unverified := x21 \<rparr>) = note_view st"
  "note_view (st\<lparr> r_absorbed := x22 \<rparr>) = note_view st"
  "note_view (st\<lparr> r_closed_changes := x23 \<rparr>) = note_view st"
  "note_view (st\<lparr> r_readjust_owed := x24 \<rparr>) = note_view st"
  "note_view (st\<lparr> r_landed_how := x25 \<rparr>) = note_view st"
  "note_view (st\<lparr> r_readjusted := x26 \<rparr>) = note_view st"
  "note_view (st\<lparr> r_checks_read := x27 \<rparr>) = note_view st"
  "note_view (st\<lparr> r_reopened := x28 \<rparr>) = note_view st"
  "note_view (st\<lparr> r_branch_prefix := x29 \<rparr>) = note_view st"
  "note_view (st\<lparr> r_retired_branches := x30 \<rparr>) = note_view st"
  "note_view (st\<lparr> r_landings := x31 \<rparr>) = note_view st"
  "note_view (st\<lparr> r_stated_landings := x32 \<rparr>) = note_view st"
  "note_view (st\<lparr> r_stated_change_urls := x33 \<rparr>) = note_view st"
  "note_view (st\<lparr> r_completed_steps := x34 \<rparr>) = note_view st"
  "note_view (st\<lparr> r_settled_at := x35 \<rparr>) = note_view st"
  "note_view (st\<lparr> r_attestations := x36 \<rparr>) = note_view st"
  "note_view (st\<lparr> r_decisions_pending := x37 \<rparr>) = note_view st"
  "note_view (st\<lparr> r_holds := x38 \<rparr>) = note_view st"
  "note_view (st\<lparr> r_nodes_added := x39 \<rparr>) = note_view st"
  "note_view (st\<lparr> r_dispatched_nodes := x40 \<rparr>) = note_view st"
  "note_view (st\<lparr> r_completion_requests := x41 \<rparr>) = note_view st"
  "note_view (st\<lparr> r_surfaces_queued := x42 \<rparr>) = note_view st"
  "note_view (st\<lparr> r_surfaces_read := x43 \<rparr>) = note_view st"
  "note_view (st\<lparr> r_last_surface_at := x44 \<rparr>) = note_view st"
  "note_view (st\<lparr> r_last_write_at := x45 \<rparr>) = note_view st"
  "note_view (st\<lparr> r_last_progress_at := x46 \<rparr>) = note_view st"
  "note_view (st\<lparr> r_stop := x47 \<rparr>) = note_view st"
  "note_view (st\<lparr> r_let_go_by := x48 \<rparr>) = note_view st"
  "note_view (st\<lparr> r_closure := x49 \<rparr>) = note_view st"
  "note_view (st\<lparr> r_strict := x50 \<rparr>) = note_view st"
  "note_view (st\<lparr> r_cross_dag_watches := x51 \<rparr>) = note_view st"
  "note_view (st\<lparr> r_cross_dag_baselines := x52 \<rparr>) = note_view st"
  "note_view (st\<lparr> r_cross_dag_reported := x53 \<rparr>) = note_view st"
  by (simp_all add: note_view_def)

lemma abandon_all_view: "note_view (fold abandon_one xs st) = note_view st"
  by (induction xs arbitrary: st) (simp_all add: abandon_one_def split_def Let_def)

lemma settled_part_views [note_frames]:
  "note_view (fold_status k s st) = note_view st" "note_view (fold_outcome k x st) = note_view st"
  "note_view (fold_head w k p st) = note_view st" "note_view (fold_base w k p st) = note_view st"
  "note_view (pin_preserved_branch k t st) = note_view st"
  by (simp_all add: fold_status_def fold_outcome_def fold_head_def fold_base_def pin_preserved_branch_def
      end_the_park_def Let_def split: option.split)

lemma settled_case_views:
  "note_view (case x of None \<Rightarrow> st | Some s \<Rightarrow> pin_preserved_branch k s st) = note_view st"
  "note_view (case y of None \<Rightarrow> st | Some r \<Rightarrow> if P r then st\<lparr> r_continued_reworks := m r \<rparr> else st) = note_view st"
  by (simp_all add: settled_part_views split: option.split)

lemma fold_settled_view [note_frames]: "note_view (fold_settled w k e st) = note_view st"
  by (simp add: fold_settled_def Let_def settled_case_views settled_part_views)

lemma fold_vcs_view [note_frames]: "note_view (fold_vcs w e st) = note_view st"
  by (cases "ev_kind e")
    (simp_all add: fold_vcs_def fold_session_def fold_push_def fold_landing_commit_def Let_def split: option.split)

lemma record_frames [note_frames]:
  "note_view (fold_adopted e st) = note_view st"
  "note_view (fold_landed w k how st) = note_view st"
  "note_view (fold_absorbed w k into st) = note_view st"
  "note_view (fold_readjusted k done' st) = note_view st"
  "note_view (fold_restacked k done' st) = note_view st"
  "note_view (fold_cross_satisfied p st) = note_view st"
  "note_view (fold_upstream_modified c p st) = note_view st"
  by (simp_all add: fold_adopted_def drop_running_def restacks_end_done_def abandon_the_dispatch_in_flight_def
      abandon_all_view fold_landed_def fold_absorbed_def fold_readjusted_def fold_restacked_def
      fold_cross_satisfied_def fold_upstream_modified_def Let_def split: option.split)

lemma checks_view [note_frames]: "note_view (fold_checks k head v st) = note_view st"
  by (cases v) (simp_all add: fold_checks_def Let_def)

lemma recall_view [note_frames]: "note_view (fold_recall e st) = note_view st"
  by (cases "ev_kind e") (simp_all add: fold_recall_def Let_def split: option.split)

fun noted_by :: "operation \<Rightarrow> str set" where
  "noted_by (NoteDelivered k _ _ _ _ _ _ _ _) = {k}"
| "noted_by (NoteWithdrawn k _ _ _ _ _ _) = {k}"
| "noted_by _ = {}"

definition noted_in :: "operation list \<Rightarrow> str set" where
  "noted_in ops = (\<Union>op \<in> set ops. noted_by op)"

fun pending_op :: "operation \<Rightarrow> str bmap \<Rightarrow> str bmap" where
  "pending_op (ContextAdded k note d) m = (if d = Deferred then bput k note m else m)"
| "pending_op (NoteDelivered k _ t _ how _ _ _ _) m =
     (case how of CarriedOver _ \<Rightarrow> bput k (with_carried (bget m k) t) m | _ \<Rightarrow> m)"
| "pending_op (NoteWithdrawn k _ _ _ from t alike_after) m =
     (if from = From_Carried
      then (case Option.bind (bget m k) (\<lambda>c. without_carried c t alike_after) of
              Some left \<Rightarrow> bput k left m | None \<Rightarrow> bdel k m)
      else m)"
| "pending_op _ m = m"

lemma fold_commit_view:
  "note_view (fold_commit edit ops st) = (r_noted st \<union> noted_in ops, r_dispatched_at st, r_pending_context st)"
proof (induction ops arbitrary: st)
  case (Cons op ops)
  have one: "fold_commit edit (op # ops) st = fold_commit edit ops (fold_commit edit [op] st)"
    by (simp add: fold_commit_def)
  have "note_view (fold_commit edit [op] st) = (r_noted st \<union> noted_by op, r_dispatched_at st, r_pending_context st)"
    by (cases op) (simp_all add: fold_commit_def note_view_def)
  with Cons.IH [of "fold_commit edit [op] st"] show ?case
    by (simp add: one note_view_def noted_in_def Un_assoc)
qed (simp add: fold_commit_def noted_in_def note_view_def)

lemma record_op_view:
  "note_view (record_op w at op st) = (r_noted st, r_dispatched_at st, pending_op op (r_pending_context st))"
  by (cases op) (auto simp: note_view_def end_the_park_def Let_def split: option.splits reached.splits)

lemma fold_operations_view:
  "note_view (fold_operations w ops at st) = (r_noted st, r_dispatched_at st, fold pending_op ops (r_pending_context st))"
proof (induction ops arbitrary: st)
  case (Cons op ops)
  have "note_view (fold_operation w at op st) = (r_noted st, r_dispatched_at st, pending_op op (r_pending_context st))"
    by (simp add: fold_operation_def record_op_view)
  with Cons.IH [of "fold_operation w at op st"] show ?case
    by (simp add: fold_operations_def note_view_def)
qed (simp add: fold_operations_def note_view_def)

lemma fold_committed_view:
  "note_view (fold_committed w edit e st) =
     (case operations_of w e of
        None \<Rightarrow> note_view st
      | Some ops \<Rightarrow> (r_noted st \<union> noted_in ops, r_dispatched_at st, fold pending_op ops (r_pending_context st)))"
proof -
  have "note_view (fold_operations w ops at (fold_commit x ops st')) =
      (r_noted st' \<union> noted_in ops, r_dispatched_at st', fold pending_op ops (r_pending_context st'))" for x ops at st'
    using fold_commit_view [of x ops st'] fold_operations_view [of w ops at "fold_commit x ops st'"]
    by (simp add: note_view_def)
  then show ?thesis
    by (simp add: fold_committed_def Let_def operations_of_def split: option.split)
qed

lemma told_views:
  "note_view (fold_dispatched e k st) =
     (r_noted st, put_some k (millis_of (ev_ts e)) (r_dispatched_at st), bdel k (r_pending_context st))"
  "note_view (fold_restack_started e k onto st) =
     (r_noted st, put_some k (millis_of (ev_ts e)) (r_dispatched_at st), r_pending_context st)"
  "note_view (fold_adopted_release w k p st) =
     (r_noted st, r_dispatched_at st,
      if text_at p ''delivery'' \<noteq> Some ''next'' then r_pending_context st
      else case Option.bind (bget p ''versions'') (fw_arrival_note w) of
        None \<Rightarrow> r_pending_context st | Some note \<Rightarrow> bput k note (r_pending_context st))"
  by (auto simp: note_view_def fold_dispatched_def fold_restack_started_def fold_adopted_release_def
      split: option.split)

lemma told_noted:
  "r_noted (fold_dispatched e k st) = r_noted st" "r_noted (fold_restack_started e k onto st) = r_noted st"
  "r_noted (fold_adopted_release w k p st) = r_noted st"
  using told_views(1) [of e k st] told_views(2) [of e k onto st] told_views(3) [of w k p st]
  by (simp_all add: note_view_def)

definition speaks_of_notes :: "event_kind \<Rightarrow> bool" where
  "speaks_of_notes what \<longleftrightarrow>
     what \<in> {K_NodeDispatched, K_NodeRestackStarted, K_EditCommitted, K_CommandAccepted, K_ReleaseAdopted}"

lemma fold_kind_view:
  "\<not> speaks_of_notes what \<Longrightarrow> note_view (fold_kind w what e st) = note_view st"
  by (cases what)
    (auto simp: speaks_of_notes_def on_some_def Let_def note_frames checks_view split: option.split json.split)

definition heard :: "journal_event \<Rightarrow> bool" where
  "heard e \<longleftrightarrow> ev_source e = From_Pipeline \<and> ev_known e"

lemma fold_record_view:
  "note_view (fold_record w e st) =
     (if \<not> heard e \<or> \<not> speaks_of_notes (ev_kind e) then note_view st
      else note_view (fold_kind w (ev_kind e) e st))"
proof -
  have same: "note_view (fold_kind w what e a) = note_view (fold_kind w what e b)"
    if view: "note_view a = note_view b" and "speaks_of_notes what" for what a b
  proof -
    have parts: "r_noted a = r_noted b" "r_dispatched_at a = r_dispatched_at b"
      "r_pending_context a = r_pending_context b" using view by (simp_all add: note_view_def)
    have "note_view (fold_committed w x e a) = note_view (fold_committed w x e b)" for x
      by (simp add: fold_committed_view view parts split: option.split)
    moreover have "note_view (fold_dispatched e k a) = note_view (fold_dispatched e k b)"
      "note_view (fold_restack_started e k onto a) = note_view (fold_restack_started e k onto b)"
      "note_view (fold_adopted_release w k p a) = note_view (fold_adopted_release w k p b)" for k onto p
      by (simp_all add: told_views parts split: option.split)
    ultimately show ?thesis
      using view that(2) by (auto simp: speaks_of_notes_def on_some_def split: option.split)
  qed
  show ?thesis
  proof (cases "heard e")
    case True
    define st' where "st' = fold_recall e (st\<lparr> r_last_write_at := Some (max
      (case millis_of (ev_ts e) of None \<Rightarrow> 0 | Some t \<Rightarrow> t)
      (case r_last_write_at st of None \<Rightarrow> 0 | Some t \<Rightarrow> t)) \<rparr>)"
    have st': "fold_record w e st = (if ev_kind e = K_DriverExited then st else fold_kind w (ev_kind e) e st')"
      "note_view st' = note_view st"
      using True by (simp_all add: fold_record_def heard_def Let_def st'_def recall_view)
    show ?thesis
    proof (cases "speaks_of_notes (ev_kind e)")
      case speaks: True
      then have "ev_kind e \<noteq> K_DriverExited" by (auto simp: speaks_of_notes_def)
      with True st' same [OF st'(2) speaks] speaks show ?thesis by simp
    next
      case False
      with st' fold_kind_view [OF False, of w e st'] show ?thesis by simp
    qed
  next
    case False
    then show ?thesis by (auto simp: fold_record_def heard_def Let_def note_frames)
  qed
qed

section \<open>The records kept whole are enough\<close>

text \<open>A record judged against the records before it.\<close>

fun each_from :: "(journal_event list \<Rightarrow> journal_event \<Rightarrow> bool) \<Rightarrow> journal_event list \<Rightarrow> journal_event list \<Rightarrow> bool" where
  "each_from P pre [] = True"
| "each_from P pre (e # es) = (P pre e \<and> each_from P (pre @ [e]) es)"

definition each_record :: "(journal_event list \<Rightarrow> journal_event \<Rightarrow> bool) \<Rightarrow> journal_event list \<Rightarrow> bool" where
  "each_record P es = each_from P [] es"

lemma each_from_snoc: "each_from P pre (es @ [e]) \<longleftrightarrow> each_from P pre es \<and> P (pre @ es) e"
  by (induction P pre es rule: each_from.induct) auto

lemma each_record_Nil [simp]: "each_record P []"
  by (simp add: each_record_def)

lemma each_record_snoc [simp]: "each_record P (es @ [e]) \<longleftrightarrow> each_record P es \<and> P es e"
  by (simp add: each_record_def each_from_snoc)

lemma fold_journal_snoc: "fold_journal w (es @ [e]) = fold_record w e (fold_journal w es)"
  by (simp add: fold_journal_def)

lemma recalled_state: "fst (fold (recall_next w others) es (st, kept)) = fold (fold_record w) es st"
  by (induction es arbitrary: st kept) (simp_all add: recall_next_def)

lemma recalled_snoc:
  "recalled_of w others (es @ [e]) =
     recalled_of w others es @ (if recalls w others (fold_journal w es) e then [e] else [])"
proof -
  obtain st kept where run: "fold (recall_next w others) es (blank_run\<lparr> r_strict := True \<rparr>, []) = (st, kept)"
    by fastforce
  then have "st = fold_journal w es"
    using recalled_state [of w others es "blank_run\<lparr> r_strict := True \<rparr>" "[]"] by (simp add: fold_journal_def)
  with run show ?thesis by (simp add: recalled_of_def recall_next_def)
qed

lemma standing_snoc:
  "standing w reads (es @ [e]) k = and_then (standing w reads es k) (standing_step w reads k e)"
  by (simp add: standing_def)

text \<open>
  How the engine writes what the fold of the notes reads: its dispatches and its commits carry a
  version it knows, and a dispatch is composed with the notes of a node a note was recorded for.
\<close>

definition composed_with_noted :: "(json \<Rightarrow> note_entry list option) \<Rightarrow> run_state \<Rightarrow> journal_event \<Rightarrow> bool" where
  "composed_with_noted reads st e \<longleftrightarrow>
     (case (ev_node e, Option.bind (bget (ev_payload e) carried_key) reads) of
        (Some k, Some (_ # _)) \<Rightarrow> k \<in> r_noted st | _ \<Rightarrow> True)"

definition recallable :: "fold_world \<Rightarrow> (json \<Rightarrow> note_entry list option) \<Rightarrow> run_state \<Rightarrow> journal_event \<Rightarrow> bool" where
  "recallable w reads st e \<longleftrightarrow>
     (ev_kind e = K_NodeDispatched \<longrightarrow> heard e \<and> composed_with_noted reads st e) \<and>
     (a_commit (ev_kind e) \<longrightarrow> ev_source e = From_Pipeline \<longrightarrow> ev_known e)"

lemma noted_kept:
  "r_noted (fold_record w e st) =
     (if heard e \<and> a_commit (ev_kind e)
      then (case operations_of w e of None \<Rightarrow> r_noted st | Some ops \<Rightarrow> r_noted st \<union> noted_in ops)
      else r_noted st)"
proof -
  have committed: "r_noted (fold_committed w x e st) =
      (case operations_of w e of None \<Rightarrow> r_noted st | Some ops \<Rightarrow> r_noted st \<union> noted_in ops)" for x
    using arg_cong [where f = fst, OF fold_committed_view [of w x e st]]
    by (simp add: note_view_def split: option.splits)
  have other: "r_noted (fold_kind w (ev_kind e) e st) = r_noted st"
    if "speaks_of_notes (ev_kind e)" "\<not> a_commit (ev_kind e)"
    using that by (auto simp: speaks_of_notes_def a_commit_def on_some_def told_noted split: option.splits)
  have "r_noted (fold_record w e st) = (if \<not> heard e \<or> \<not> speaks_of_notes (ev_kind e) then r_noted st
      else r_noted (fold_kind w (ev_kind e) e st))"
    using arg_cong [where f = fst, OF fold_record_view [of w e st]] by (simp add: note_view_def split: if_splits)
  then show ?thesis
    using committed other by (auto simp: a_commit_def speaks_of_notes_def)
qed

lemma hold_op_quiet: "k \<notin> noted_by op \<Longrightarrow> hold_op k op hs = hs"
  by (cases op) auto

lemma hold_ops_quiet: "k \<notin> noted_in ops \<Longrightarrow> fold (hold_op k) ops hs = hs"
  by (induction ops arbitrary: hs) (auto simp: noted_in_def hold_op_quiet)

lemma not_note_ops: "\<not> list_ex is_note_op ops \<Longrightarrow> noted_in ops = {}"
proof -
  have "\<not> is_note_op op \<Longrightarrow> noted_by op = {}" for op by (cases op) auto
  then show "\<not> list_ex is_note_op ops \<Longrightarrow> noted_in ops = {}" by (auto simp: noted_in_def list_ex_iff)
qed

text \<open>A record not kept changes no node's notes.\<close>

lemma not_recalled_quiet:
  assumes "\<not> recalls w others st e" "recallable w reads st e"
    and "k \<notin> r_noted st \<Longrightarrow> hs = []"
  shows "standing_step w reads k e hs = Inr hs"
proof (cases "ev_kind e = K_NodeDispatched")
  case True
  with assms show ?thesis
    by (auto simp: standing_step_def recalls_def recallable_def heard_def recalled_whole_def composed_with_def
        split: option.splits)
next
  case False
  show ?thesis
  proof (cases "a_commit (ev_kind e) \<and> ev_source e = From_Pipeline")
    case True
    with assms(1,2) have "\<not> commit_recalled w e" by (auto simp: recalls_def recallable_def)
    with True False show ?thesis
      by (auto simp: standing_step_def commit_recalled_def not_note_ops hold_ops_quiet split: option.splits)
  qed (use False in \<open>auto simp: standing_step_def\<close>)
qed

lemma unnoted_step:
  assumes "recallable w reads st e" "k \<notin> r_noted (fold_record w e st)"
  shows "standing_step w reads k e [] = Inr [] \<or> isl (standing_step w reads k e [])"
proof -
  have quiet: "composed_with reads e = Inr [] \<or> isl (composed_with reads e)"
    if "ev_kind e = K_NodeDispatched" "ev_node e = Some k"
  proof (cases "Option.bind (bget (ev_payload e) carried_key) reads")
    case None
    then show ?thesis by (auto simp: composed_with_def split: option.splits)
  next
    case (Some ns)
    moreover have "k \<notin> r_noted st" using assms(2) that by (auto simp: noted_kept a_commit_def split: if_splits)
    ultimately have "ns = []"
      using assms(1) that by (cases ns) (auto simp: recallable_def composed_with_noted_def)
    with Some show ?thesis by (auto simp: composed_with_def bind_eq_Some_conv)
  qed
  show ?thesis
  proof (cases "ev_kind e = K_NodeDispatched")
    case True
    then show ?thesis using quiet by (auto simp: standing_step_def)
  next
    case False
    show ?thesis
    proof (cases "a_commit (ev_kind e) \<and> ev_source e = From_Pipeline")
      case commit: True
      then have "heard e" using assms(1) by (auto simp: recallable_def heard_def)
      with assms(2) commit have "k \<notin> noted_in ops" if "operations_of w e = Some ops" for ops
        using that by (simp add: noted_kept)
      with commit False show ?thesis
        by (auto simp: standing_step_def hold_ops_quiet split: option.split)
    qed (use False in \<open>auto simp: standing_step_def\<close>)
  qed
qed

lemma standing_recalled:
  assumes "each_record (\<lambda>pre. recallable w reads (fold_journal w pre)) es"
  shows "standing w reads (recalled_of w others es) k = standing w reads es k \<and>
    (k \<notin> r_noted (fold_journal w es) \<longrightarrow> standing w reads es k = Inr [] \<or> isl (standing w reads es k))"
  using assms
proof (induction es rule: rev_induct)
  case Nil
  then show ?case by (simp add: recalled_of_def standing_def)
next
  case (snoc e es)
  let ?st = "fold_journal w es"
  from snoc have ih: "standing w reads (recalled_of w others es) k = standing w reads es k"
    and empty: "k \<notin> r_noted ?st \<Longrightarrow> standing w reads es k = Inr [] \<or> isl (standing w reads es k)"
    and ok: "recallable w reads ?st e" by auto
  have "k \<notin> r_noted (fold_record w e ?st) \<Longrightarrow> k \<notin> r_noted ?st"
    by (auto simp: noted_kept split: if_splits option.splits)
  then have "k \<notin> r_noted (fold_record w e ?st) \<longrightarrow>
      standing w reads (es @ [e]) k = Inr [] \<or> isl (standing w reads (es @ [e]) k)"
    using empty unnoted_step [OF ok, of k] by (auto simp: standing_snoc and_then_def split: sum.splits)
  moreover have "standing w reads (recalled_of w others (es @ [e])) k = standing w reads (es @ [e]) k"
  proof (cases "recalls w others ?st e")
    case True
    with ih show ?thesis by (simp add: recalled_snoc standing_snoc)
  next
    case False
    have "and_then (standing w reads es k) (standing_step w reads k e) = standing w reads es k"
    proof (cases "standing w reads es k")
      case (Inr hs)
      with empty have "k \<notin> r_noted ?st \<Longrightarrow> hs = []" by auto
      from not_recalled_quiet [OF False ok this] Inr show ?thesis by simp
    qed simp
    with False ih show ?thesis by (simp add: recalled_snoc standing_snoc)
  qed
  ultimately show ?case by (simp add: fold_journal_snoc)
qed

section \<open>Who holds no note\<close>

text \<open>
  What a commit may say of the notes of a node no dispatch was recorded of: a note no turn took,
  and the withdrawal of one that stands, naming how many that read the same came after it.
\<close>

definition sent_at :: "u64 \<Rightarrow> u32 \<Rightarrow> held_note \<Rightarrow> bool" where
  "sent_at envelope idx h \<longleftrightarrow> hn_sent h = Some (envelope, idx)"

definition held_text :: "held_note \<Rightarrow> str" where
  "held_text h = ne_text (hn_note h)"

definition withdraws_held :: "held_note list \<Rightarrow> u64 \<Rightarrow> u32 \<Rightarrow> str \<Rightarrow> u32 \<Rightarrow> bool" where
  "withdraws_held hs envelope idx t alike \<longleftrightarrow>
     (case (filter (sent_at envelope idx) hs, dropWhile (\<lambda>h. \<not> sent_at envelope idx h) hs) of
        ([_], h # after) \<Rightarrow>
          held_text h = t \<and> unat alike = length (filter (reads_alike t) (map held_text after))
      | _ \<Rightarrow> False)"

fun fits :: "str \<Rightarrow> held_note list \<Rightarrow> operation \<Rightarrow> bool" where
  "fits k hs (ContextAdded j _ d) \<longleftrightarrow> j \<noteq> k \<or> d \<noteq> Deferred"
| "fits k hs (NoteDelivered j _ t _ how _ _ _ _) \<longleftrightarrow> j \<noteq> k \<or> \<not> blank t \<and> \<not> a_conversation_read_it how"
| "fits k hs (NoteWithdrawn j envelope idx _ from t alike) \<longleftrightarrow>
     j \<noteq> k \<or> from = From_Carried \<and> withdraws_held hs envelope idx t alike"
| "fits k hs _ \<longleftrightarrow> True"

fun fits_all :: "str \<Rightarrow> held_note list \<Rightarrow> operation list \<Rightarrow> bool" where
  "fits_all k hs [] = True"
| "fits_all k hs (op # ops) = (fits k hs op \<and> fits_all k (hold_op k op hs) ops)"

text \<open>The notes held are carried, and the context owed to the node is all of them.\<close>

definition owed_all :: "str \<Rightarrow> held_note list \<Rightarrow> str bmap \<Rightarrow> bool" where
  "owed_all k hs m \<longleftrightarrow>
     (\<forall>h \<in> set hs. hn_place h = Delivered_Since \<and> \<not> blank (held_text h)) \<and>
     bget m k = fold carry (map held_text hs) None"

lemma carries_Some: "fold carry ts held = None \<longleftrightarrow> ts = [] \<and> held = None"
  by (induction ts arbitrary: held) (auto simp: carry_def)

lemma owed_none: "owed_all k hs m \<Longrightarrow> bget m k = None \<Longrightarrow> hs = []"
  by (metis carries_Some list.map_disc_iff owed_all_def)

lemma withdrawn_split:
  assumes "withdraws_held hs envelope idx t alike"
  obtains before h after where "hs = before @ h # after" "sent_at envelope idx h"
    "\<forall>x \<in> set (before @ after). \<not> sent_at envelope idx x" "held_text h = t"
    "unat alike = length (filter (reads_alike t) (map held_text after))"
proof -
  let ?p = "sent_at envelope idx"
  obtain h after where rest: "dropWhile (\<lambda>h. \<not> ?p h) hs = h # after"
    and one: "length (filter ?p hs) = 1" and right: "held_text h = t"
      "unat alike = length (filter (reads_alike t) (map held_text after))"
    using assms unfolding withdraws_held_def by (auto split: list.splits)
  let ?before = "takeWhile (\<lambda>h. \<not> ?p h) hs"
  have hs: "hs = ?before @ h # after" using rest by (metis takeWhile_dropWhile_id)
  have h: "?p h" using rest hd_dropWhile [of "\<lambda>h. \<not> ?p h" hs] by simp
  have before: "\<forall>x \<in> set ?before. \<not> ?p x" using set_takeWhileD by fast
  have "filter ?p hs = h # filter ?p after"
    using before h by (subst hs) (simp add: filter_empty_conv)
  with one have "filter ?p after = []" by simp
  then have "\<forall>x \<in> set (?before @ after). \<not> ?p x" using before by (auto simp: filter_empty_conv)
  with that hs h right show ?thesis by metis
qed

lemma owed_all_op:
  assumes "owed_all k hs m" "fits k hs op"
  shows "owed_all k (hold_op k op hs) (pending_op op m)"
proof (cases op)
  case (NoteDelivered j addressee t criterion how shown routed envelope idx)
  show ?thesis
  proof (cases "j = k")
    case True
    with assms NoteDelivered have "\<not> blank t" and "\<exists>r. how = CarriedOver r" by (cases how, auto)+
    then show ?thesis
      using assms(1) NoteDelivered True by (auto simp: owed_all_def held_text_def carry_def)
  next
    case False
    with assms(1) NoteDelivered show ?thesis by (auto simp: owed_all_def split: reached.split)
  qed
next
  case (NoteWithdrawn j envelope idx reason origin t alike)
  show ?thesis
  proof (cases "j = k")
    case True
    with assms(2) NoteWithdrawn have origin: "origin = From_Carried" and held: "withdraws_held hs envelope idx t alike"
      by auto
    obtain before h after where split: "hs = before @ h # after" "sent_at envelope idx h"
      "\<forall>x \<in> set (before @ after). \<not> sent_at envelope idx x" "held_text h = t"
      "unat alike = length (filter (reads_alike t) (map held_text after))" using held by (rule withdrawn_split)
    have left: "hold_op k op hs = before @ after"
      using split(1-3) assms(1) NoteWithdrawn True
      by (auto simp: owed_all_def sent_at_def filter_id_conv)
    have texts: "\<forall>x \<in> set (map held_text before @ t # map held_text after). \<not> blank x"
      using assms(1) split(1,4) by (auto simp: owed_all_def)
    have now: "bget m k = fold carry (map held_text before @ t # map held_text after) None"
      using assms(1) split(1,4) by (simp add: owed_all_def)
    then have "bget m k \<noteq> None" by (simp only: carries_Some append_is_Nil_conv) simp
    then obtain c where c: "bget m k = Some c" by blast
    have "without_carried c t alike = fold carry (map held_text before @ map held_text after) None"
      using withdrawn_from_carried [OF _ texts] now c split(5) by (simp add: separable_def)
    then have "bget (pending_op op m) k = fold carry (map held_text (before @ after)) None"
      using c origin NoteWithdrawn True by (simp split: option.split)
    moreover have "\<forall>x \<in> set (before @ after). hn_place x = Delivered_Since \<and> \<not> blank (held_text x)"
      using assms(1) split(1) by (auto simp: owed_all_def)
    ultimately show ?thesis by (simp only: left owed_all_def)
  next
    case False
    with assms(1) NoteWithdrawn show ?thesis by (auto simp: owed_all_def split: option.split)
  qed
qed (use assms in \<open>auto simp: owed_all_def\<close>)

lemma owed_all_ops:
  "owed_all k hs m \<Longrightarrow> fits_all k hs ops \<Longrightarrow> owed_all k (fold (hold_op k) ops hs) (fold pending_op ops m)"
  by (induction ops arbitrary: hs m) (auto intro: owed_all_op)

section \<open>What a dispatch is told\<close>

definition held_in ::
  "fold_world \<Rightarrow> (json \<Rightarrow> note_entry list option) \<Rightarrow> journal_event list \<Rightarrow> str \<Rightarrow> held_note list" where
  "held_in w reads es k = (case standing w reads es k of Inr hs \<Rightarrow> hs | Inl _ \<Rightarrow> [])"

text \<open>
  What the engine writes of a node \<open>k\<close>: records it can read; a dispatch carries a timestamp;
  before any, a commit only carries notes no turn took and withdraws ones that stand, and no
  release is told.
\<close>

definition dispatch_readable :: "(json \<Rightarrow> note_entry list option) \<Rightarrow> journal_event \<Rightarrow> bool" where
  "dispatch_readable reads e \<longleftrightarrow> millis_of (ev_ts e) \<noteq> None \<and>
     (case bget (ev_payload e) carried_key of None \<Rightarrow> True | Some v \<Rightarrow> reads v \<noteq> None)"

definition commit_fits ::
  "fold_world \<Rightarrow> (json \<Rightarrow> note_entry list option) \<Rightarrow> str \<Rightarrow> journal_event list \<Rightarrow> journal_event \<Rightarrow> bool" where
  "commit_fits w reads k pre e \<longleftrightarrow>
     (case operations_of w e of
        None \<Rightarrow> False
      | Some ops \<Rightarrow> bget (r_dispatched_at (fold_journal w pre)) k = None \<longrightarrow> fits_all k (held_in w reads pre k) ops)"

definition written_of ::
  "fold_world \<Rightarrow> (json \<Rightarrow> note_entry list option) \<Rightarrow> str \<Rightarrow> journal_event list \<Rightarrow> journal_event \<Rightarrow> bool" where
  "written_of w reads k pre e \<longleftrightarrow>
     recallable w reads (fold_journal w pre) e \<and>
     (ev_kind e = K_NodeDispatched \<longrightarrow> ev_node e = Some k \<longrightarrow> dispatch_readable reads e) \<and>
     (a_commit (ev_kind e) \<longrightarrow> ev_source e = From_Pipeline \<longrightarrow> commit_fits w reads k pre e) \<and>
     (ev_kind e = K_ReleaseAdopted \<longrightarrow> ev_node e = Some k \<longrightarrow>
        bget (r_dispatched_at (fold_journal w pre)) k \<noteq> None)"

lemma owed_all_cong: "bget m k = bget m' k \<Longrightarrow> owed_all k hs m = owed_all k hs m'"
  by (simp add: owed_all_def)

lemma put_some_get: "bget (put_some k v m) j = (if j = k \<and> v \<noteq> None then v else bget m j)"
  by (cases v) (auto simp: put_some_def)

text \<open>The three facts of a record that the invariant rests on, by its kind.\<close>

lemma view_parts:
  assumes "note_view st' = (a, d, p)"
  shows "r_dispatched_at st' = d" and "r_pending_context st' = p"
  using assms by (simp_all add: note_view_def)

lemma noteless_step:
  assumes "\<not> a_commit (ev_kind e) \<or> ev_source e \<noteq> From_Pipeline" "ev_kind e \<noteq> K_NodeDispatched"
  shows "standing_step w reads k e hs = Inr hs"
  using assms by (auto simp: standing_step_def)

definition owed_inv :: "str \<Rightarrow> run_state \<Rightarrow> held_note list \<Rightarrow> bool" where
  "owed_inv k st hs \<longleftrightarrow> (bget (r_dispatched_at st) k = None \<longrightarrow> owed_all k hs (r_pending_context st))"

lemma owed_inv_view:
  "note_view st' = note_view st \<Longrightarrow> owed_inv k st' hs = owed_inv k st hs"
  by (simp add: owed_inv_def note_view_def)

lemma owed_inv_step:
  assumes ok: "written_of w reads k pre e" and held: "standing w reads pre k = Inr hs"
    and inv: "owed_inv k (fold_journal w pre) hs"
  shows "\<exists>hs'. standing_step w reads k e hs = Inr hs' \<and> owed_inv k (fold_journal w (pre @ [e])) hs'"
proof -
  let ?st = "fold_journal w pre"
  have next_view: "note_view (fold_journal w (pre @ [e])) =
      (if \<not> heard e \<or> \<not> speaks_of_notes (ev_kind e) then note_view ?st
       else note_view (fold_kind w (ev_kind e) e ?st))"
    by (simp add: fold_journal_snoc fold_record_view)
  have recallable: "recallable w reads ?st e" using ok by (simp add: written_of_def)
  have heard_ones: "ev_kind e = K_NodeDispatched \<Longrightarrow> heard e \<and> speaks_of_notes (ev_kind e)"
    "a_commit (ev_kind e) \<Longrightarrow> ev_source e = From_Pipeline \<Longrightarrow> heard e \<and> speaks_of_notes (ev_kind e)"
    using recallable by (simp_all add: recallable_def speaks_of_notes_def) (auto simp: heard_def a_commit_def)
  show ?thesis
  proof (cases "heard e \<and> speaks_of_notes (ev_kind e)")
    case False
    then have "note_view (fold_journal w (pre @ [e])) = note_view ?st" using next_view by auto
    from owed_inv_view [OF this] inv have "owed_inv k (fold_journal w (pre @ [e])) hs" by simp
    moreover have "\<not> a_commit (ev_kind e) \<or> ev_source e \<noteq> From_Pipeline" "ev_kind e \<noteq> K_NodeDispatched"
      using False heard_ones by metis+
    then have "standing_step w reads k e hs = Inr hs" by (rule noteless_step)
    ultimately show ?thesis by simp
  next
    case True
    then have view: "note_view (fold_journal w (pre @ [e])) = note_view (fold_kind w (ev_kind e) e ?st)"
      using next_view by simp
    from True consider (dispatched) "ev_kind e = K_NodeDispatched" | (restacked) "ev_kind e = K_NodeRestackStarted"
      | (commit) "a_commit (ev_kind e)" | (told) "ev_kind e = K_ReleaseAdopted"
      by (auto simp: speaks_of_notes_def a_commit_def)
    then show ?thesis
    proof cases
      case dispatched
      show ?thesis
      proof (cases "ev_node e = Some k")
        case True
        with ok dispatched have "dispatch_readable reads e" by (simp add: written_of_def)
        moreover have "r_dispatched_at (fold_journal w (pre @ [e])) = put_some k (millis_of (ev_ts e)) (r_dispatched_at ?st)"
          using view dispatched True by (intro view_parts(1)) (simp add: on_some_def told_views)
        ultimately show ?thesis
          using dispatched True
          by (auto simp: standing_step_def composed_with_def dispatch_readable_def owed_inv_def put_some_get
              split: option.splits)
      next
        case False
        have "note_view (fold_kind w (ev_kind e) e ?st) = (case ev_node e of None \<Rightarrow> note_view ?st
            | Some j \<Rightarrow> (r_noted ?st, put_some j (millis_of (ev_ts e)) (r_dispatched_at ?st),
                bdel j (r_pending_context ?st)))"
          using dispatched by (simp add: on_some_def told_views split: option.split)
        with view have "owed_inv k (fold_journal w (pre @ [e])) hs = owed_inv k ?st hs"
          using False by (auto simp: owed_inv_def owed_all_def note_view_def put_some_get split: option.splits)
        with inv dispatched False show ?thesis by (auto simp: standing_step_def)
      qed
    next
      case restacked
      have "note_view (fold_kind w (ev_kind e) e ?st) = (case fw_restack_started w (ev_payload e) of
            None \<Rightarrow> note_view ?st
          | Some (j, _) \<Rightarrow> (r_noted ?st, put_some j (millis_of (ev_ts e)) (r_dispatched_at ?st), r_pending_context ?st))"
        using restacked by (simp add: on_some_def told_views split: option.split)
      with view inv have "owed_inv k (fold_journal w (pre @ [e])) hs"
        by (auto simp: owed_inv_def note_view_def put_some_get split: option.splits if_splits)
      moreover have "standing_step w reads k e hs = Inr hs"
        using restacked by (intro noteless_step) (simp_all add: a_commit_def)
      ultimately show ?thesis by blast
    next
      case commit
      then obtain ops where ops: "operations_of w e = Some ops"
          "bget (r_dispatched_at ?st) k = None \<longrightarrow> fits_all k hs ops"
        using ok True held by (auto simp: written_of_def commit_fits_def heard_def held_in_def split: option.splits)
      have "note_view (fold_kind w (ev_kind e) e ?st) =
          (r_noted ?st \<union> noted_in ops, r_dispatched_at ?st, fold pending_op ops (r_pending_context ?st))"
        using commit ops(1) by (auto simp: a_commit_def fold_committed_view)
      with view have "owed_inv k (fold_journal w (pre @ [e])) (fold (hold_op k) ops hs)"
        using inv ops(2) owed_all_ops by (auto simp: owed_inv_def note_view_def)
      moreover have "standing_step w reads k e hs = Inr (fold (hold_op k) ops hs)"
        using commit ops(1) True by (auto simp: standing_step_def heard_def a_commit_def)
      ultimately show ?thesis by blast
    next
      case told
      have "note_view (fold_kind w (ev_kind e) e ?st) = (case ev_node e of None \<Rightarrow> note_view ?st
          | Some j \<Rightarrow> note_view (fold_adopted_release w j (ev_payload e) ?st))"
        using told by (simp add: on_some_def split: option.split)
      with view inv ok told have "owed_inv k (fold_journal w (pre @ [e])) hs"
        by (auto simp: owed_inv_def note_view_def written_of_def told_noted fold_adopted_release_def owed_all_def
            split: option.splits if_splits)
      moreover have "standing_step w reads k e hs = Inr hs"
        using told by (intro noteless_step) (simp_all add: a_commit_def)
      ultimately show ?thesis by blast
    qed
  qed
qed

lemma owed_inv_journal:
  assumes "each_record (written_of w reads k) es"
  shows "\<exists>hs. standing w reads es k = Inr hs \<and> owed_inv k (fold_journal w es) hs"
  using assms
proof (induction es rule: rev_induct)
  case Nil
  then show ?case by (simp add: standing_def owed_inv_def owed_all_def fold_journal_def blank_run_def)
next
  case (snoc e es)
  then obtain hs where "standing w reads es k = Inr hs" "owed_inv k (fold_journal w es) hs" "written_of w reads k es e"
    by auto
  with owed_inv_step [of w reads k es e hs] show ?case by (auto simp: standing_snoc)
qed

lemma none_held:
  assumes "each_record (written_of w reads k) es" "\<not> may_hold_a_note (fold_journal w es) k"
  shows "standing w reads es k = Inr []"
proof -
  from owed_inv_journal [OF assms(1)] obtain hs where
    "standing w reads es k = Inr hs" "owed_inv k (fold_journal w es) hs" by blast
  with assms(2) show ?thesis using owed_none by (auto simp: may_hold_a_note_def owed_inv_def)
qed

lemma written_recallable:
  "each_record (written_of w reads k) es \<Longrightarrow> each_record (\<lambda>pre. recallable w reads (fold_journal w pre)) es"
  by (induction es rule: rev_induct) (simp_all add: written_of_def)

text \<open>
  C36. A dispatch is told of the notes the whole journal tells of, read off the few records the
  run keeps whole, and off none where the projection has neither dispatched the node nor holds a
  note for it: what it was composed with and without is the fold of everything the run recorded
  of the node, and of each node it replaces.
\<close>

theorem a_dispatch_is_told_what_the_journal_tells:
  assumes "\<And>j. j = k \<or> j \<in> set (supersedes (fold_journal w es) k) \<Longrightarrow> each_record (written_of w reads j) es"
    and "readable k"
  shows "notes_at_dispatch w reads (recalled_of w others es) readable (fold_journal w es) k =
    told_from (standing w reads es) readable (supersedes (fold_journal w es) k) k"
proof -
  let ?st = "fold_journal w es"
  have whole: "standing w reads (recalled_of w others es) = standing w reads es"
    using standing_recalled [OF written_recallable [OF assms(1)]] by blast
  show ?thesis
  proof (cases "may_hold_a_note ?st k \<or> list_ex (may_hold_a_note ?st) (supersedes ?st k)")
    case True
    then show ?thesis by (auto simp: notes_at_dispatch_def whole)
  next
    case False
    then have "standing w reads es k = Inr []" "\<forall>j \<in> set (supersedes ?st k). standing w reads es j = Inr []"
      using none_held assms(1) by (auto simp: list_ex_iff)
    moreover have "\<forall>j \<in> set js. f j = Inr [] \<Longrightarrow> spent_of f js = Inr []" for f js
      by (induction js) (simp_all add: standing_notes_def)
    ultimately show ?thesis
      using False assms(2)
      by (simp add: notes_at_dispatch_def told_from_def drain_carried_def standing_read_def standing_carried_def)
  qed
qed

section \<open>A carried note and an arrival\<close>

text \<open>
  C37. The note that tells a node its releases arrived takes the place of every note carried to
  it: afterwards the context its next dispatch is composed with is the arrival note alone, while
  the record of that dispatch names every carried note among those it was composed with.
\<close>

theorem an_arrival_note_drops_the_carried:
  assumes "heard e" "ev_kind e = K_ReleaseAdopted" "ev_node e = Some k"
    and "text_at (ev_payload e) ''delivery'' = Some ''next''"
    and "Option.bind (bget (ev_payload e) ''versions'') (fw_arrival_note w) = Some arrival"
    and n: "graph_get (r_graph (fold_journal w es)) k = Some n"
    and "standing w reads es k = Inr hs"
  shows "map_option planner_context (graph_get (r_graph (fold_journal w (es @ [e]))) k) = Some (Some arrival) \<and>
    bget (r_pending_context (fold_journal w (es @ [e]))) k = Some arrival \<and>
    told_from (standing w reads (es @ [e])) (\<lambda>_. True) [] k =
      Inr \<lparr> ad_spent = standing_read hs, ad_carried_in = standing_carried hs \<rparr>"
proof -
  define st' where "st' = (fold_journal w es)\<lparr> r_last_write_at := Some (max
      (case millis_of (ev_ts e) of None \<Rightarrow> 0 | Some t \<Rightarrow> t)
      (case r_last_write_at (fold_journal w es) of None \<Rightarrow> 0 | Some t \<Rightarrow> t)) \<rparr>"
  have "r_graph (fold_recall e st') = r_graph (fold_journal w es)"
    using assms(2) by (simp add: fold_recall_def st'_def)
  moreover have "fold_journal w (es @ [e]) = fold_adopted_release w k (ev_payload e) (fold_recall e st')"
    using assms(1-3) by (simp add: fold_journal_snoc fold_record_def heard_def Let_def on_some_def st'_def)
  moreover have "standing w reads (es @ [e]) k = Inr hs"
    using assms(2,7) by (simp add: standing_snoc noteless_step a_commit_def)
  ultimately show ?thesis
    using assms(4,5) n by (simp add: fold_adopted_release_def told_from_def drain_carried_def)
qed

section \<open>A run with one note\<close>

definition a_note :: note_entry where
  "a_note = \<lparr> ne_addressee = ''worker'', ne_text = ''use x'', ne_criterion = None, ne_reached = CarriedOver None \<rparr>"

definition noting_world :: fold_world where
  "noting_world = one_world\<lparr>
     fw_operations := (\<lambda>_. Some [NoteDelivered ''a'' ''worker'' ''use x'' None (CarriedOver None) [] [] (Some 1) (Some 0)]),
     fw_arrival_note := (\<lambda>_. Some ''arrived'') \<rparr>"

definition no_entries :: "json \<Rightarrow> note_entry list option" where
  "no_entries v = None"

definition noted_journal :: "journal_event list" where
  "noted_journal =
     [record_of From_Pipeline K_RunStarted [(''plan'', JNull)],
      record_of From_Pipeline K_EditCommitted [(''operations'', JNull)],
      record_of From_Pipeline K_Other []]"

theorem a_dispatch_is_told_what_the_journal_tells_witness:
  "notes_at_dispatch noting_world no_entries (recalled_of noting_world (\<lambda>_. False) noted_journal) (\<lambda>_. True)
      (fold_journal noting_world noted_journal) ''a'' = Inr \<lparr> ad_spent = [], ad_carried_in = [a_note] \<rparr> \<and>
   length (recalled_of noting_world (\<lambda>_. False) noted_journal) = 1"
proof -
  let ?st = "fold_journal noting_world noted_journal"
  have none: "supersedes ?st ''a'' = []" by code_simp
  have "each_record (written_of noting_world no_entries ''a'') noted_journal" by code_simp
  then have "notes_at_dispatch noting_world no_entries (recalled_of noting_world (\<lambda>_. False) noted_journal) (\<lambda>_. True) ?st ''a''
      = told_from (standing noting_world no_entries noted_journal) (\<lambda>_. True) (supersedes ?st ''a'') ''a''"
    by (intro a_dispatch_is_told_what_the_journal_tells) (auto simp: none)
  moreover have "told_from (standing noting_world no_entries noted_journal) (\<lambda>_. True) [] ''a''
      = Inr \<lparr> ad_spent = [], ad_carried_in = [a_note] \<rparr>" by code_simp
  moreover have "length (recalled_of noting_world (\<lambda>_. False) noted_journal) = 1" by code_simp
  ultimately show ?thesis by (simp add: none)
qed

definition arrival_record :: journal_event where
  "arrival_record = record_of From_Pipeline K_ReleaseAdopted [(''delivery'', JString ''next''), (''versions'', JNull)]"

theorem an_arrival_note_drops_the_carried_witness:
  "map_option planner_context (graph_get (r_graph (fold_journal noting_world noted_journal)) ''a'')
      = Some (Some ''use x'') \<and>
   map_option planner_context (graph_get (r_graph (fold_journal noting_world (noted_journal @ [arrival_record]))) ''a'')
      = Some (Some ''arrived'') \<and>
   told_from (standing noting_world no_entries (noted_journal @ [arrival_record])) (\<lambda>_. True) [] ''a'' =
      Inr \<lparr> ad_spent = [], ad_carried_in = [a_note] \<rparr>"
proof -
  have held: "map_option planner_context (graph_get (r_graph (fold_journal noting_world noted_journal)) ''a'')
      = Some (Some ''use x'')" by code_simp
  then obtain n where n: "graph_get (r_graph (fold_journal noting_world noted_journal)) ''a'' = Some n" by blast
  have "(case standing noting_world no_entries noted_journal ''a'' of
      Inr hs \<Rightarrow> standing_read hs = [] \<and> standing_carried hs = [a_note] | Inl _ \<Rightarrow> False)" by code_simp
  then obtain hs where hs: "standing noting_world no_entries noted_journal ''a'' = Inr hs"
    "standing_read hs = []" "standing_carried hs = [a_note]" by (auto split: sum.splits)
  have "heard arrival_record" "ev_kind arrival_record = K_ReleaseAdopted" "ev_node arrival_record = Some ''a''"
    "text_at (ev_payload arrival_record) ''delivery'' = Some ''next''"
    "Option.bind (bget (ev_payload arrival_record) ''versions'') (fw_arrival_note noting_world) = Some ''arrived''"
    by code_simp+
  from an_arrival_note_drops_the_carried [OF this n hs(1)] held hs(2,3) show ?thesis by simp
qed

end
