(* ===== verification/Dispatch.thy ===== *)
theory Dispatch
  imports Pool Draft_Stack Readjust_Pass Boundary_Dispatch Note_Standing
begin

text \<open>
  The pass that starts every node whose dependencies have settled (\<open>start_ready\<close> of
  \<open>src/src/engine.rs\<close>): what is settled without a dispatch, where each dispatch is placed, what
  it is told and given, what makes it wait, and when the pass stops.

  What the pass reads of the world stands in \<open>dispatch_world\<close>: the statuses derived for it, the
  nodes a decision holds, the clock, and the answers of the version-control crate, of the
  deliveries in flight and of the claimer that applies envelopes beside the pass. A dispatch or
  a settlement is recorded as an act, in the order the source journals them; the spawned thread
  and the writes themselves are not modelled.
\<close>

section \<open>Where kept work is placed\<close>

type_synonym kept_shape = "(str option \<times> str list \<times> publish \<times> str option) bmap"

record stacking_placement =
  kp_shape :: kept_shape
  kp_bases :: "refusal + str bmap"

definition kept_shape_of :: "graph \<Rightarrow> kept_shape" where
  "kept_shape_of g = bcollect (map (\<lambda>n. (node_id n, repo n, deps n, publish n, base_branch n))
     (filter (\<lambda>n. publish n = Preserve) (graph_iter g)))"

text \<open>\<open>stacking_bases\<close> always answers (\<open>bases_answered\<close>); the fallback is never read.\<close>

definition bases_over :: "siblings \<Rightarrow> node bmap \<Rightarrow> refusal + str bmap" where
  "bases_over sib ns = (case stacking_bases sib ns of None \<Rightarrow> Inr [] | Some r \<Rightarrow> r)"

definition by_id :: "node list \<Rightarrow> node bmap" where
  "by_id ns = bcollect (map (\<lambda>n. (node_id n, n)) ns)"

definition placement_of_graph :: "siblings \<Rightarrow> graph \<Rightarrow> stacking_placement" where
  "placement_of_graph sib g = \<lparr> kp_shape = kept_shape_of g, kp_bases = bases_over sib (by_id (graph_iter g)) \<rparr>"

datatype start_refusal =
    Bases_Refused refusal
  | Base_Moved str "str option" "str option"     \<comment> \<open>the node, the base expected, the base now\<close>
  | No_Kept_Branch str                           \<comment> \<open>the dependency\<close>
  | Boundary_Refused dispatching_refusal
  | Stack_Refused placement_refusal

text \<open>
  \<open>base_for\<close>: the bases are resolved again only when the kept nodes' shape changed, and the
  node's own base is then resolved over its ancestors alone.
\<close>

definition ancestry :: "graph \<Rightarrow> str \<Rightarrow> node bmap" where
  "ancestry g k = by_id (filter (\<lambda>n. node_id n \<in> ancestors_walk g {} [k]) (map snd (nodes g)))"

definition base_for ::
  "siblings \<Rightarrow> graph \<Rightarrow> str \<Rightarrow> stacking_placement \<Rightarrow> (start_refusal + str option) \<times> stacking_placement" where
  "base_for sib g k kp =
     (let kp' = (if kept_shape_of g \<noteq> kp_shape kp then placement_of_graph sib g else kp)
      in (and_then (map_err Bases_Refused (kp_bases kp')) (\<lambda>bases.
            and_then (map_err Bases_Refused (bases_over sib (ancestry g k))) (\<lambda>now.
              if bget bases k \<noteq> bget now k then Inl (Base_Moved k (bget bases k) (bget now k))
              else Inr (bget now k))), kp'))"

section \<open>The pass\<close>

text \<open>\<open>Coursed\<close>: what one execution is beyond its node's task.\<close>

datatype coursed = Course_Work | Course_Rework bool | Course_Restack

record started_dispatch =
  go_node :: node                          \<comment> \<open>with the base it is placed on\<close>
  go_stack :: "stack option"
  go_given :: dispatching
  go_resumed :: "continuation option"
  go_spent :: "note_entry list"
  go_carried :: "note_entry list"
  go_course :: coursed
  go_review :: "str option"
  go_retarget :: "retarget option"

datatype start_act =
    Act_Settled str node_status "str option" "start_refusal option"   \<comment> \<open>with its outcome and detail\<close>
  | Act_Started started_dispatch
  | Act_Restacking owed_restack started_dispatch      \<comment> \<open>with the heads it brings the node onto\<close>

text \<open>Whether the loop goes on: broken out of, or ended by a record that cannot be read.\<close>

datatype pass_flow = Going | Broken | Ended standing_refusal

record dispatch_world =
  dw_shutdown :: bool
  dw_statuses :: "node_status bmap"
  dw_paused :: "str set"
  dw_run :: str
  dw_edit :: edit_world
  dw_opaque :: "str \<Rightarrow> str"
  dw_same :: "str \<Rightarrow> str \<Rightarrow> bool"
  dw_now :: nat
  dw_capacity :: "str \<Rightarrow> session_request \<Rightarrow> str + workspace_capacity"
  dw_delivering :: "str \<Rightarrow> nat option"
  dw_admits :: "str \<Rightarrow> bool"
  dw_fold :: fold_world
  dw_note_list :: "json \<Rightarrow> note_entry list option"
  dw_recalled :: "journal_event list"
  dw_journal :: "journal_event list"
  dw_store_ok :: "str \<Rightarrow> bool"
  dw_readjuster :: readjuster

text \<open>\<open>readjust::Plan\<close>: the retarget a started rework is to make.\<close>

record retarget_plan =
  mv_from :: placed
  mv_to :: placed
  mv_cause :: "str list"

record dispatch_pass =
  pa_placement :: stacking_placement
  pa_workspaces :: workspaces
  pa_flight :: "node bmap"
  pa_boundary :: "(plan \<times> resolved) option"     \<comment> \<open>read once a pass\<close>
  pa_resolved :: "(plan_shape \<times> resolved option) list"
  pa_moves :: "retarget_plan bmap"
  pa_acts :: "start_act list"
  pa_flow :: pass_flow

definition no_changes :: str where "no_changes = ''no-changes''"

definition infrastructure_failure :: str where "infrastructure_failure = ''infrastructure-failure''"

text \<open>\<open>DELIVERY_RECORD_PATIENCE\<close>, in milliseconds.\<close>

definition delivery_patience :: nat where "delivery_patience = 30000"

definition acted :: "start_act \<Rightarrow> dispatch_pass \<Rightarrow> dispatch_pass" where
  "acted a pa = pa\<lparr> pa_acts := pa_acts pa @ [a] \<rparr>"

definition refused_start :: "str \<Rightarrow> start_refusal \<Rightarrow> dispatch_pass \<Rightarrow> dispatch_pass" where
  "refused_start k why = acted (Act_Settled k Failed (Some infrastructure_failure) (Some why))"

definition actionable :: "dispatch_world \<Rightarrow> run_state \<Rightarrow> node bmap \<Rightarrow> node list" where
  "actionable w st flight =
     filter (\<lambda>n. (case bget (dw_statuses w) (node_id n) of
           Some Ready \<Rightarrow> True
         | Some Waiting \<Rightarrow> bget (r_recorded st) (node_id n) = None
         | _ \<Rightarrow> False)
       \<and> bget flight (node_id n) = None \<and> node_id n \<notin> dw_paused w) (graph_iter (r_graph st))"

subsection \<open>Where a node is placed\<close>

definition kept_base ::
  "dispatch_world \<Rightarrow> run_state \<Rightarrow> node \<Rightarrow> dispatch_pass \<Rightarrow> (start_refusal + node) \<times> dispatch_pass" where
  "kept_base w st n pa =
     (if publish n \<noteq> Preserve then (Inr n, pa)
      else
        (case base_for (w_siblings (dw_edit w)) (r_graph st) (node_id n) (pa_placement pa) of
           (found, kp) \<Rightarrow>
             (and_then found (\<lambda>dependency. case dependency of
                None \<Rightarrow> Inr n
              | Some d \<Rightarrow> (case bget (r_branches st) d of
                    None \<Rightarrow> Inl (No_Kept_Branch d)
                  | Some b \<Rightarrow> Inr (n\<lparr> base_branch := Some b \<rparr>))),
              pa\<lparr> pa_placement := kp \<rparr>)))"

text \<open>The boundary is resolved once a pass; it always resolves, so the fallback is never read.\<close>

definition boundary_now ::
  "dispatch_world \<Rightarrow> run_state \<Rightarrow> dispatch_pass \<Rightarrow> (plan \<times> resolved) \<times> dispatch_pass" where
  "boundary_now w st pa =
     (case pa_boundary pa of
        Some held \<Rightarrow> (held, pa)
      | None \<Rightarrow>
          (let now = plan_now st;
               (r, cached) = of_run (w_boundary (dw_edit w)) now (pa_resolved pa);
               held = (now, case r of Some x \<Rightarrow> x
                 | None \<Rightarrow> \<lparr> clearances = [], public_destinations = {},
                     scope = private_scope (w_boundary (dw_edit w)) now \<rparr>)
           in (held, pa\<lparr> pa_boundary := Some held, pa_resolved := cached \<rparr>)))"

definition given_at ::
  "dispatch_world \<Rightarrow> run_state \<Rightarrow> node \<Rightarrow> dispatch_pass \<Rightarrow> (start_refusal + dispatching) \<times> dispatch_pass" where
  "given_at w st n pa =
     (case boundary_now w st pa of
        ((now, r), pa') \<Rightarrow>
          (map_err Boundary_Refused (dispatching_of (dw_opaque w (node_id n)) r now n
             (r_branches st) (r_heads st) (r_superseded st)), pa'))"

definition plan_called :: "dispatch_world \<Rightarrow> run_state \<Rightarrow> str" where
  "plan_called w st = (case Option.bind (r_plan st) plan_name of None \<Rightarrow> dw_run w | Some name \<Rightarrow> name)"

definition based_on :: "stack option \<Rightarrow> node \<Rightarrow> node" where
  "based_on s n = (case s of None \<Rightarrow> n | Some s \<Rightarrow> n\<lparr> base_branch := Some (stack_on s) \<rparr>)"

subsection \<open>What a rework is told\<close>

definition reworked_by :: "run_state \<Rightarrow> str \<Rightarrow> (str \<times> rework_record) option" where
  "reworked_by st k = find (\<lambda>(_, r). rw_replacement r = k) (r_reworks st)"

definition course_of :: "run_state \<Rightarrow> str \<Rightarrow> coursed" where
  "course_of st k = (case reworked_by st k of
     None \<Rightarrow> Course_Work | Some (_, r) \<Rightarrow> Course_Rework (rw_title r \<noteq> None))"

definition review_change_for :: "edit_world \<Rightarrow> run_state \<Rightarrow> str \<Rightarrow> str option" where
  "review_change_for w st k =
     (let held = (case reworked_by st k of None \<Rightarrow> k | Some (predecessor, _) \<Rightarrow> predecessor)
      in if bget (r_outcomes st) held \<in> {Some review_drafted, Some review_drafted_unchecked}
         then known_change_url w st held else None)"

text \<open>\<open>rework_readjusting\<close>, with the plan it records even where no change request is known.\<close>

definition rework_readjusting ::
  "dispatch_world \<Rightarrow> run_state \<Rightarrow> node \<Rightarrow> stack option \<Rightarrow> dispatch_pass
     \<Rightarrow> retarget option \<times> dispatch_pass" where
  "rework_readjusting w st n stack pa =
     (case reworked_by st (node_id n) of
        None \<Rightarrow> (None, pa)
      | Some (predecessor, _) \<Rightarrow>
          (case (recorded_placement st predecessor, or_else (base_branch n) (root_of st [] predecessor)) of
             (Some from_there, Some root0) \<Rightarrow>
               (let root = (case stack of
                      None \<Rightarrow> root0
                    | Some (On_Stack_Base root' _ _) \<Rightarrow> root'
                    | Some (On_Parent _) \<Rightarrow> (case root_of st [] predecessor of None \<Rightarrow> root0 | Some r \<Rightarrow> r));
                    to = placement_on stack root;
                    owed = (case bget (r_readjust_owed st) predecessor of None \<Rightarrow> [] | Some c \<Rightarrow> sorted_list_of_set c);
                    bodies = ra_bodies (dw_readjuster w)
                in if to = from_there then (None, pa)
                   else ((case (repo n, lineage_change (dw_edit w) st [] (node_id n)) of
                      (Some r, Some change) \<Rightarrow> Some \<lparr> rt_repo = r, rt_change = change, rt_base = pl_base to,
                        rt_block = block_on stack root,
                        rt_body = or_else (bget bodies (node_id n)) (bget bodies predecessor),
                        rt_remove_restored_base = bget (r_reopened st) predecessor \<noteq> None \<rparr>
                    | _ \<Rightarrow> None),
                    pa\<lparr> pa_moves := bput (node_id n)
                      \<lparr> mv_from = from_there, mv_to = to, mv_cause = owed \<rparr> (pa_moves pa) \<rparr>))
           | _ \<Rightarrow> (None, pa)))"

subsection \<open>What makes a dispatch wait\<close>

definition waits_for_delivery :: "dispatch_world \<Rightarrow> str \<Rightarrow> bool" where
  "waits_for_delivery w k =
     (case dw_delivering w k of None \<Rightarrow> False | Some since \<Rightarrow> dw_now w - since < delivery_patience)"

definition superseded_in_flight :: "str bmap \<Rightarrow> str \<Rightarrow> node bmap \<Rightarrow> bool" where
  "superseded_in_flight superseded k flight =
     list_ex (\<lambda>(predecessor, by_node). by_node = k \<and> bget flight predecessor \<noteq> None) superseded"

definition kept_for_later :: "str \<Rightarrow> continuation option \<Rightarrow> workspaces \<Rightarrow> dispatch_pass \<Rightarrow> dispatch_pass" where
  "kept_for_later k resumed ws pa = pa\<lparr> pa_workspaces := keep_resuming k resumed ws \<rparr>"

text \<open>
  Whether the workspaces have room: a node that opens no session is asked for nothing; \<open>None\<close> is
  a node left for a later pass.
\<close>

definition workspace_for ::
  "dispatch_world \<Rightarrow> run_state \<Rightarrow> node \<Rightarrow> continuation option \<Rightarrow> node bmap \<Rightarrow> workspaces
     \<Rightarrow> bool \<times> workspaces" where
  "workspace_for w st n resumed flight ws =
     (case request_for (case resumed of None \<Rightarrow> n | Some c \<Rightarrow> ct_node c) of
        None \<Rightarrow> (True, ws)
      | Some request \<Rightarrow>
          if superseded_in_flight (r_superseded st) (node_id n) flight then (False, ws)
          else (case admit (dw_now w) (dw_capacity w (node_id n)) (node_id n) request ws of
                  (said, ws') \<Rightarrow> (said \<noteq> Held_Back, ws')))"

subsection \<open>What it is composed with\<close>

definition told_at ::
  "dispatch_world \<Rightarrow> run_state \<Rightarrow> str \<Rightarrow> continuation option \<Rightarrow> standing_refusal + at_dispatch" where
  "told_at w st k resumed =
     (case resumed of
        Some _ \<Rightarrow> and_then (and_then (standing (dw_fold w) (dw_note_list w) (dw_journal w) k)
            (drain_carried (dw_store_ok w) k))
          (\<lambda>hs. Inr \<lparr> ad_spent = [], ad_carried_in = standing_notes hs \<rparr>)
      | None \<Rightarrow> notes_at_dispatch (dw_fold w) (dw_note_list w) (dw_recalled w) (dw_store_ok w) st k)"

definition composed ::
  "dispatch_world \<Rightarrow> run_state \<Rightarrow> node \<Rightarrow> stack option \<Rightarrow> dispatching \<Rightarrow> retarget option
     \<Rightarrow> continuation option \<Rightarrow> dispatch_pass \<Rightarrow> dispatch_pass" where
  "composed w st n stack given moved resumed pa =
     (case told_at w st (node_id n) resumed of
        Inl e \<Rightarrow> pa\<lparr> pa_flow := Ended e \<rparr>
      | Inr told \<Rightarrow>
          acted (Act_Started \<lparr> go_node = n, go_stack = stack, go_given = given, go_resumed = resumed,
              go_spent = ad_spent told, go_carried = ad_carried_in told,
              go_course = course_of st (node_id n),
              go_review = review_change_for (dw_edit w) st (node_id n), go_retarget = moved \<rparr>)
            (pa\<lparr> pa_flight := bput (node_id n) n (pa_flight pa) \<rparr>))"

subsection \<open>One node, and every node\<close>

definition dispatch_placed ::
  "dispatch_world \<Rightarrow> run_state \<Rightarrow> node \<Rightarrow> stack option \<Rightarrow> dispatching \<Rightarrow> retarget option
     \<Rightarrow> dispatch_pass \<Rightarrow> dispatch_pass" where
  "dispatch_placed w st n stack given moved pa =
     (let k = node_id n; (resumed, ws) = resuming k (pa_workspaces pa)
      in if waits_for_delivery w k then kept_for_later k resumed ws pa
         else
           (case workspace_for w st n resumed (pa_flight pa) ws of
              (has_room, ws') \<Rightarrow>
                if \<not> has_room then kept_for_later k resumed ws' pa
                else if \<not> dw_admits w k then (kept_for_later k resumed ws' pa)\<lparr> pa_flow := Broken \<rparr>
                else composed w st n stack given moved resumed (pa\<lparr> pa_workspaces := ws' \<rparr>)))"

definition dispatch_agent :: "dispatch_world \<Rightarrow> run_state \<Rightarrow> node \<Rightarrow> dispatch_pass \<Rightarrow> dispatch_pass" where
  "dispatch_agent w st n pa =
     (case kept_base w st n pa of
        (Inl why, pa1) \<Rightarrow> refused_start (node_id n) why pa1
      | (Inr n1, pa1) \<Rightarrow>
          (case given_at w st n1 pa1 of
             (Inl why, pa2) \<Rightarrow> refused_start (node_id n) why pa2
           | (Inr given, pa2) \<Rightarrow>
               (case placement st (dw_statuses w) n1 (plan_called w st) (dw_same w) of
                  Inl why \<Rightarrow> refused_start (node_id n) (Stack_Refused why) pa2
                | Inr stack \<Rightarrow>
                    (case rework_readjusting w st (based_on stack n1) stack pa2 of
                       (moved, pa3) \<Rightarrow> dispatch_placed w st (based_on stack n1) stack given moved pa3))))"

definition start_one :: "dispatch_world \<Rightarrow> run_state \<Rightarrow> node \<Rightarrow> dispatch_pass \<Rightarrow> dispatch_pass" where
  "start_one w st n pa =
     (if pa_flow pa \<noteq> Going then pa
      else if kind n \<noteq> Human \<and> unat (concurrency (r_graph st)) \<le> length (pa_flight pa)
      then pa\<lparr> pa_flow := Broken \<rparr>
      else if expects_no_diff n
      then acted (Act_Settled (node_id n) Done (Some no_changes) None) pa
      else if kind n = Human then acted (Act_Settled (node_id n) Waiting None None) pa
      else dispatch_agent w st n pa)"

definition start_ready :: "dispatch_world \<Rightarrow> run_state \<Rightarrow> dispatch_pass \<Rightarrow> dispatch_pass" where
  "start_ready w st pa =
     (if dw_shutdown w then pa
      else fold (start_one w st) (actionable w st (pa_flight pa)) pa)"

text \<open>What the driver keeps between passes, taken up at the start of one.\<close>

definition at_pass ::
  "stacking_placement \<Rightarrow> workspaces \<Rightarrow> node bmap \<Rightarrow> (plan_shape \<times> resolved option) list
     \<Rightarrow> retarget_plan bmap \<Rightarrow> dispatch_pass" where
  "at_pass kp ws flight cached moves = \<lparr> pa_placement = kp, pa_workspaces = ws, pa_flight = flight,
     pa_boundary = None, pa_resolved = cached, pa_moves = moves, pa_acts = [], pa_flow = Going \<rparr>"

section \<open>Restacks\<close>

text \<open>
  \<open>start_restacks\<close>: each draft owed a restack goes onto its stack as it stands, on its own branch,
  within the same concurrency, admission and boundary as a dispatch; the plan is resolved anew.
\<close>

definition restacked_node :: "owed_restack \<Rightarrow> node \<Rightarrow> node" where
  "restacked_node ow n = n\<lparr> branch := Some (ow_branch ow), base_branch := Some (stack_on (ow_stack ow)), resume := None \<rparr>"

definition restack_admitted :: "dispatch_world \<Rightarrow> node \<Rightarrow> workspaces \<Rightarrow> bool \<times> workspaces" where
  "restack_admitted w n ws =
     (case request_for n of
        None \<Rightarrow> (True, ws)
      | Some request \<Rightarrow>
          (case admit (dw_now w) (dw_capacity w (node_id n)) (node_id n) request ws of
             (said, ws') \<Rightarrow> (said \<noteq> Held_Back, ws')))"

definition restacking_on ::
  "dispatch_world \<Rightarrow> run_state \<Rightarrow> owed_restack \<Rightarrow> node \<Rightarrow> dispatching \<Rightarrow> dispatch_pass \<Rightarrow> dispatch_pass" where
  "restacking_on w st ow n given pa =
     (case restack_admitted w n (pa_workspaces pa) of
        (has_room, ws) \<Rightarrow>
          if \<not> has_room then pa\<lparr> pa_workspaces := ws \<rparr>
          else if \<not> dw_admits w (node_id n) then pa\<lparr> pa_workspaces := ws, pa_flow := Broken \<rparr>
          else acted (Act_Restacking ow \<lparr> go_node = n, go_stack = Some (ow_stack ow), go_given = given,
              go_resumed = None, go_spent = [], go_carried = [], go_course = Course_Restack,
              go_review = review_change_for (dw_edit w) st (node_id n), go_retarget = None \<rparr>)
            (pa\<lparr> pa_workspaces := ws, pa_flight := bput (node_id n) n (pa_flight pa) \<rparr>))"

definition start_restack :: "dispatch_world \<Rightarrow> run_state \<Rightarrow> owed_restack \<Rightarrow> dispatch_pass \<Rightarrow> dispatch_pass" where
  "start_restack w st ow pa =
     (if pa_flow pa \<noteq> Going then pa
      else if unat (concurrency (r_graph st)) \<le> length (pa_flight pa) then pa\<lparr> pa_flow := Broken \<rparr>
      else
        (case graph_get (r_graph st) (ow_node ow) of
           None \<Rightarrow> pa
         | Some n \<Rightarrow>
             (case given_at w st (restacked_node ow n) (pa\<lparr> pa_boundary := None \<rparr>) of
                (Inl why, pa') \<Rightarrow> refused_start (node_id n) why pa'
              | (Inr given, pa') \<Rightarrow> restacking_on w st ow (restacked_node ow n) given pa')))"

definition start_restacks :: "dispatch_world \<Rightarrow> run_state \<Rightarrow> dispatch_pass \<Rightarrow> dispatch_pass" where
  "start_restacks w st pa =
     (if dw_shutdown w then pa
      else fold (start_restack w st)
        (restacks_owed st (dw_statuses w) (\<lambda>k. bget (pa_flight pa) k \<noteq> None \<or> k \<in> dw_paused w
           \<or> bget (r_readjust_owed st) k \<noteq> None)) pa)"

end
