(* ===== verification/Dispatch_Sound.thy ===== *)
theory Dispatch_Sound
  imports Dispatch Scheduling Stacking Edit_Sound
begin

text \<open>
  What a pass over the ready nodes does: each node in turn is settled, started or left for later
  for one of three reasons, the dispatches started stay within the concurrency, only nodes the
  record clears are started, and the pass looks at every actionable node unless it stops.
\<close>

section \<open>The steps before a dispatch\<close>

lemma bases_answered:
  assumes "keyed ns" "bmap_ok ns"
  shows "stacking_bases sib ns = Some (bases_over sib ns)"
proof -
  obtain r where "stacking_bases sib ns = Some r"
    using stacking_bases_result [OF assms, of sib] by blast
  then show ?thesis by (simp add: bases_over_def)
qed

lemma keyed_fold: "keyed m \<Longrightarrow> keyed (fold (\<lambda>(k, v) m. bput k v m) (map (\<lambda>n. (node_id n, n)) ns) m)"
proof (induction ns arbitrary: m)
  case (Cons n ns)
  have "keyed (bput (node_id n) n m)" using Cons.prems by (simp add: keyed_def)
  from Cons.IH [OF this] show ?case by simp
qed simp

lemma bmap_ok_fold: "bmap_ok m \<Longrightarrow> bmap_ok (fold (\<lambda>(k, v) m. bput k v m) kvs m)"
  by (induction kvs arbitrary: m) auto

lemma by_id_ok: "keyed (by_id ns)" "bmap_ok (by_id ns)"
  unfolding by_id_def bcollect_def by (rule keyed_fold, simp add: keyed_def, rule bmap_ok_fold, simp)

text \<open>What \<open>dispatch_agent\<close> leaves as it was, up to where it asks for a workspace.\<close>

definition same_pass :: "dispatch_pass \<Rightarrow> dispatch_pass \<Rightarrow> bool" where
  "same_pass pa pa' \<longleftrightarrow> pa_workspaces pa' = pa_workspaces pa \<and> pa_flight pa' = pa_flight pa \<and>
     pa_acts pa' = pa_acts pa \<and> pa_flow pa' = pa_flow pa"

lemma same_pass_trans: "same_pass a b \<Longrightarrow> same_pass b c \<Longrightarrow> same_pass a c"
  by (simp add: same_pass_def)

lemma kept_base_same: "kept_base w st n pa = (found, pa') \<Longrightarrow> same_pass pa pa'"
  by (auto simp: kept_base_def same_pass_def split: if_splits prod.splits)

lemma kept_base_node:
  assumes "kept_base w st n pa = (Inr m, pa')" shows "\<exists>b. m = n\<lparr> base_branch := b \<rparr>"
proof (cases "publish n = Preserve")
  case False
  with assms have "m = n\<lparr> base_branch := base_branch n \<rparr>" by (simp add: kept_base_def)
  then show ?thesis by blast
next
  case True
  obtain found kp where found: "base_for (w_siblings (dw_edit w)) (r_graph st) (node_id n) (pa_placement pa) = (found, kp)"
    by fastforce
  with assms True obtain dependency where "(case dependency of
        None \<Rightarrow> Inr n
      | Some d \<Rightarrow> (case bget (r_branches st) d of
            None \<Rightarrow> Inl (No_Kept_Branch d)
          | Some b \<Rightarrow> Inr (n\<lparr> base_branch := Some b \<rparr>))) = Inr m"
    by (auto simp: kept_base_def)
  then have "m = n \<or> (\<exists>b. m = n\<lparr> base_branch := b \<rparr>)" by (auto split: option.splits)
  moreover have "n = n\<lparr> base_branch := base_branch n \<rparr>" by simp
  ultimately show ?thesis by metis
qed

lemma given_at_same: "given_at w st n pa = (given, pa') \<Longrightarrow> same_pass pa pa'"
  by (auto simp: given_at_def boundary_now_def same_pass_def Let_def split: option.splits prod.splits)

lemma rework_readjusting_same: "rework_readjusting w st n s pa = (moved, pa') \<Longrightarrow> same_pass pa pa'"
  by (auto simp: rework_readjusting_def same_pass_def Let_def split: option.splits prod.splits if_splits)

lemma based_on_node: "\<exists>b. based_on s (n\<lparr> base_branch := b' \<rparr>) = n\<lparr> base_branch := b \<rparr>"
  by (cases s) (auto simp: based_on_def)

section \<open>One node\<close>

text \<open>
  Why a node is left for a later pass: a delivery to it is outstanding, the node it replaces is
  still in flight, or its identity has no room, which the workspaces then report.
\<close>

definition held_back :: "dispatch_world \<Rightarrow> run_state \<Rightarrow> str \<Rightarrow> node bmap \<Rightarrow> workspaces \<Rightarrow> bool" where
  "held_back w st k flight ws \<longleftrightarrow> waits_for_delivery w k \<or> superseded_in_flight (r_superseded st) k flight \<or>
     bget (ws_held ws) k \<noteq> None"

lemma admit_reports: "admit t capacity k request ws = (Held_Back, ws') \<Longrightarrow> bget (ws_held ws') k \<noteq> None"
  by (auto simp: admit_def admit_read_def hold_node_def Let_def split: option.splits sum.splits if_splits prod.splits)

lemma admit_keeps_reports:
  "admit t capacity k request ws = (said, ws') \<Longrightarrow> bget (ws_held ws) j \<noteq> None \<Longrightarrow> bget (ws_held ws') j \<noteq> None"
  by (auto simp: admit_def admit_read_def hold_node_def Let_def split: option.splits sum.splits if_splits prod.splits)

lemma workspace_for_keeps_reports:
  "workspace_for w st n resumed flight ws = (room, ws') \<Longrightarrow> bget (ws_held ws) j \<noteq> None \<Longrightarrow> bget (ws_held ws') j \<noteq> None"
  using admit_keeps_reports [of "dw_now w" "dw_capacity w (node_id n)" "node_id n" _ ws _ ws' j]
  by (auto simp: workspace_for_def split: option.splits if_splits prod.splits)

lemma resuming_held [simp]: "ws_held (snd (resuming k ws)) = ws_held ws"
  by (simp add: resuming_def)

lemma keep_resuming_held [simp]: "ws_held (keep_resuming k c ws) = ws_held ws"
  by (simp add: keep_resuming_def split: option.split)

definition opens_session :: "node \<Rightarrow> workspaces \<Rightarrow> bool" where
  "opens_session n ws \<longleftrightarrow>
     request_for (case fst (resuming (node_id n) ws) of None \<Rightarrow> n | Some c \<Rightarrow> ct_node c) \<noteq> None"

lemma dispatch_placed_cases:
  assumes "pa_flow pa = Going"
  obtains (held) "held_back w st (node_id n) (pa_flight pa) (pa_workspaces (dispatch_placed w st n s given moved pa))"
      "pa_acts (dispatch_placed w st n s given moved pa) = pa_acts pa"
      "pa_flight (dispatch_placed w st n s given moved pa) = pa_flight pa"
      "pa_flow (dispatch_placed w st n s given moved pa) = Going"
  | (stopped) "\<not> dw_admits w (node_id n)"
      "pa_acts (dispatch_placed w st n s given moved pa) = pa_acts pa"
      "pa_flight (dispatch_placed w st n s given moved pa) = pa_flight pa"
      "pa_flow (dispatch_placed w st n s given moved pa) = Broken"
  | (ended) e resumed where "told_at w st (node_id n) resumed = Inl e"
      "pa_acts (dispatch_placed w st n s given moved pa) = pa_acts pa"
      "pa_flight (dispatch_placed w st n s given moved pa) = pa_flight pa"
      "pa_flow (dispatch_placed w st n s given moved pa) = Ended e"
  | (started) g where "go_node g = n" "dw_admits w (node_id n)" "\<not> waits_for_delivery w (node_id n)"
      "opens_session n (pa_workspaces pa) \<longrightarrow> \<not> superseded_in_flight (r_superseded st) (node_id n) (pa_flight pa)"
      "pa_acts (dispatch_placed w st n s given moved pa) = pa_acts pa @ [Act_Started g]"
      "pa_flight (dispatch_placed w st n s given moved pa) = bput (node_id n) n (pa_flight pa)"
      "pa_flow (dispatch_placed w st n s given moved pa) = Going"
proof -
  obtain resumed ws where r: "resuming (node_id n) (pa_workspaces pa) = (resumed, ws)" by fastforce
  obtain room ws' where room: "workspace_for w st n resumed (pa_flight pa) ws = (room, ws')" by fastforce
  note unfolds = dispatch_placed_def Let_def r room kept_for_later_def
  show thesis
  proof (cases "waits_for_delivery w (node_id n)")
    case True
    then show thesis using assms by (intro held) (simp_all add: held_back_def unfolds)
  next
    case waits: False
    show thesis
    proof (cases room)
      case False
      with room have "superseded_in_flight (r_superseded st) (node_id n) (pa_flight pa) \<or> bget (ws_held ws') (node_id n) \<noteq> None"
        using admit_reports by (auto simp: workspace_for_def split: option.splits if_splits prod.splits)
      then have "held_back w st (node_id n) (pa_flight pa) (keep_resuming (node_id n) resumed ws')"
        by (auto simp: held_back_def)
      with waits False show thesis using assms by (intro held) (simp_all add: unfolds)
    next
      case True
      with room have free: "opens_session n (pa_workspaces pa) \<longrightarrow>
          \<not> superseded_in_flight (r_superseded st) (node_id n) (pa_flight pa)"
        by (auto simp: opens_session_def workspace_for_def r split: option.splits if_splits)
      show thesis
      proof (cases "dw_admits w (node_id n)")
        case False
        with waits True show thesis by (intro stopped) (simp_all add: unfolds)
      next
        case admits: True
        show thesis
        proof (cases "told_at w st (node_id n) resumed")
          case (Inl e)
          with waits True admits show thesis by (intro ended) (simp_all add: unfolds composed_def)
        next
          case (Inr told)
          with waits True admits free assms show thesis
            by (intro started [of "\<lparr> go_node = n, go_stack = s, go_given = given, go_resumed = resumed,
              go_spent = ad_spent told, go_carried = ad_carried_in told,
              go_course = course_of st (node_id n),
              go_review = review_change_for (dw_edit w) st (node_id n), go_retarget = moved \<rparr>"])
              (simp_all add: unfolds composed_def acted_def)
        qed
      qed
    qed
  qed
qed

lemma dispatch_agent_shape:
  obtains (refused) why pb where "same_pass pa pb" "dispatch_agent w st n pa = refused_start (node_id n) why pb"
  | (placed) b s given moved pb where "same_pass pa pb"
      "dispatch_agent w st n pa = dispatch_placed w st (n\<lparr> base_branch := b \<rparr>) s given moved pb"
proof -
  obtain based pa1 where k: "kept_base w st n pa = (based, pa1)" by fastforce
  note s1 = kept_base_same [OF k]
  show thesis
  proof (cases based)
    case (Inl why)
    with k show thesis by (intro refused [OF s1]) (simp add: dispatch_agent_def)
  next
    case (Inr n1)
    with k have n1: "\<exists>b. n1 = n\<lparr> base_branch := b \<rparr>" by (intro kept_base_node) simp
    obtain given pa2 where g: "given_at w st n1 pa1 = (given, pa2)" by fastforce
    note s2 = same_pass_trans [OF s1 given_at_same [OF g]]
    show thesis
    proof (cases given)
      case (Inl why)
      with k g Inr show thesis by (intro refused [OF s2]) (simp add: dispatch_agent_def)
    next
      case given: (Inr dg)
      show thesis
      proof (cases "placement st (dw_statuses w) n1 (plan_called w st) (dw_same w)")
        case (Inl why)
        with k g Inr given show thesis by (intro refused [OF s2]) (simp add: dispatch_agent_def)
      next
        case stack: (Inr s)
        obtain moved pa3 where m: "rework_readjusting w st (based_on s n1) s pa2 = (moved, pa3)" by fastforce
        from n1 based_on_node obtain b where "based_on s n1 = n\<lparr> base_branch := b \<rparr>" by metis
        with k Inr g given stack m show thesis
          by (intro placed [OF same_pass_trans [OF s2 rework_readjusting_same [OF m]]])
            (simp add: dispatch_agent_def)
      qed
    qed
  qed
qed

lemma dispatch_agent_cases:
  fixes w st n pa
  defines "pa' \<equiv> dispatch_agent w st n pa"
  assumes "pa_flow pa = Going"
  obtains (refused) why where "pa_acts pa' = pa_acts pa @ [Act_Settled (node_id n) Failed (Some infrastructure_failure) (Some why)]"
      "pa_flight pa' = pa_flight pa" "pa_flow pa' = Going"
  | (held) "held_back w st (node_id n) (pa_flight pa) (pa_workspaces pa')"
      "pa_acts pa' = pa_acts pa" "pa_flight pa' = pa_flight pa" "pa_flow pa' = Going"
  | (stopped) "\<not> dw_admits w (node_id n)"
      "pa_acts pa' = pa_acts pa" "pa_flight pa' = pa_flight pa" "pa_flow pa' = Broken"
  | (ended) e resumed where "told_at w st (node_id n) resumed = Inl e"
      "pa_acts pa' = pa_acts pa" "pa_flight pa' = pa_flight pa" "pa_flow pa' = Ended e"
  | (started) g b where "go_node g = n\<lparr> base_branch := b \<rparr>" "dw_admits w (node_id n)"
      "\<not> waits_for_delivery w (node_id n)"
      "repo n \<noteq> None \<and> fst (resuming (node_id n) (pa_workspaces pa)) = None
         \<longrightarrow> \<not> superseded_in_flight (r_superseded st) (node_id n) (pa_flight pa)"
      "pa_acts pa' = pa_acts pa @ [Act_Started g]"
      "pa_flight pa' = bput (node_id n) (go_node g) (pa_flight pa)" "pa_flow pa' = Going"
proof (cases rule: dispatch_agent_shape [of pa w st n])
  case (refused why pb)
  with assms(2) show thesis
    by (intro that(1) [of why]) (simp_all add: pa'_def refused_start_def acted_def same_pass_def)
next
  case (placed b s given moved pb)
  let ?m = "n\<lparr> base_branch := b \<rparr>"
  have going: "pa_flow pb = Going" and same: "pa_flight pb = pa_flight pa" "pa_workspaces pb = pa_workspaces pa"
    "pa_acts pb = pa_acts pa" using placed(1) assms(2) by (simp_all add: same_pass_def)
  have eq: "dispatch_placed w st ?m s given moved pb = pa'" and id: "node_id ?m = node_id n"
    using placed(2) by (simp_all add: pa'_def)
  show thesis
  proof (cases rule: dispatch_placed_cases [OF going, of w st ?m s given moved, unfolded eq id same])
    case 1 then show thesis by (rule that(2))
  next
    case 2 then show thesis by (rule that(3))
  next
    case (3 e resumed) then show thesis by (rule that(4))
  next
    case (4 h)
    have "repo n \<noteq> None \<and> fst (resuming (node_id n) (pa_workspaces pa)) = None \<longrightarrow> opens_session ?m (pa_workspaces pa)"
      by (auto simp: opens_session_def request_for_def)
    with 4 show thesis by (intro that(5) [of h b]) auto
  qed
qed

lemma dispatch_placed_reports:
  assumes "bget (ws_held (pa_workspaces pa)) j \<noteq> None"
  shows "bget (ws_held (pa_workspaces (dispatch_placed w st n s given moved pa))) j \<noteq> None"
proof -
  obtain resumed ws where r: "resuming (node_id n) (pa_workspaces pa) = (resumed, ws)" by fastforce
  obtain room ws' where room: "workspace_for w st n resumed (pa_flight pa) ws = (room, ws')" by fastforce
  have "ws_held ws = ws_held (pa_workspaces pa)" using r resuming_held by (metis snd_conv)
  with assms have "bget (ws_held ws) j \<noteq> None" "bget (ws_held ws') j \<noteq> None"
    using workspace_for_keeps_reports [OF room] by simp_all
  then show ?thesis
    by (simp add: dispatch_placed_def r room Let_def kept_for_later_def composed_def acted_def split: sum.split)
qed

lemma dispatch_agent_reports:
  assumes "bget (ws_held (pa_workspaces pa)) j \<noteq> None"
  shows "bget (ws_held (pa_workspaces (dispatch_agent w st n pa))) j \<noteq> None"
proof (cases rule: dispatch_agent_shape [of pa w st n])
  case (refused why pb)
  with assms show ?thesis by (simp add: refused_start_def acted_def same_pass_def)
next
  case (placed b s given moved pb)
  with assms have "bget (ws_held (pa_workspaces pb)) j \<noteq> None" by (simp add: same_pass_def)
  from dispatch_placed_reports [OF this] placed(2) show ?thesis by simp
qed

section \<open>The pass\<close>

fun act_node :: "start_act \<Rightarrow> str" where
  "act_node (Act_Settled k _ _ _) = k"
| "act_node (Act_Started g) = node_id (go_node g)"
| "act_node (Act_Restacking _ g) = node_id (go_node g)"

fun started_by :: "start_act \<Rightarrow> started_dispatch option" where
  "started_by (Act_Settled _ _ _ _) = None"
| "started_by (Act_Started g) = Some g"
| "started_by (Act_Restacking _ g) = Some g"

definition starts :: "start_act list \<Rightarrow> started_dispatch list" where
  "starts acts = List.map_filter started_by acts"

lemma starts_append [simp]: "starts (as @ bs) = starts as @ starts bs"
  by (simp add: starts_def List.map_filter_def)

lemma starts_one [simp]: "starts [] = []" "starts [Act_Settled k s x y] = []" "starts [Act_Started g] = [g]"
  "starts [Act_Restacking ow g] = [g]"
  by (simp_all add: starts_def List.map_filter_def)

text \<open>What may be started, of the nodes a pass looks at.\<close>

definition may_start :: "dispatch_world \<Rightarrow> node \<Rightarrow> started_dispatch \<Rightarrow> bool" where
  "may_start w n g \<longleftrightarrow> (\<exists>b. go_node g = n\<lparr> base_branch := b \<rparr>) \<and> kind n \<noteq> Human \<and> \<not> expects_no_diff n \<and>
     dw_admits w (node_id n) \<and> \<not> waits_for_delivery w (node_id n)"

text \<open>One node of a pass that is going on: what it adds, and how the pass goes on.\<close>

lemma start_one_cases:
  fixes w st n pa
  defines "pa' \<equiv> start_one w st n pa"
  assumes "pa_flow pa = Going"
  obtains (full) "kind n \<noteq> Human" "unat (concurrency (r_graph st)) \<le> length (pa_flight pa)"
      "pa_acts pa' = pa_acts pa" "pa_flight pa' = pa_flight pa" "pa_flow pa' = Broken"
  | (settled) s x y where "pa_acts pa' = pa_acts pa @ [Act_Settled (node_id n) s x y]"
      "pa_flight pa' = pa_flight pa" "pa_flow pa' = Going"
  | (held) "held_back w st (node_id n) (pa_flight pa) (pa_workspaces pa')"
      "pa_acts pa' = pa_acts pa" "pa_flight pa' = pa_flight pa" "pa_flow pa' = Going"
  | (stopped) "\<not> dw_admits w (node_id n)"
      "pa_acts pa' = pa_acts pa" "pa_flight pa' = pa_flight pa" "pa_flow pa' = Broken"
  | (ended) e resumed where "told_at w st (node_id n) resumed = Inl e"
      "pa_acts pa' = pa_acts pa" "pa_flight pa' = pa_flight pa" "pa_flow pa' = Ended e"
  | (started) g where "may_start w n g" "length (pa_flight pa) < unat (concurrency (r_graph st))"
      "repo n \<noteq> None \<and> fst (resuming (node_id n) (pa_workspaces pa)) = None
         \<longrightarrow> \<not> superseded_in_flight (r_superseded st) (node_id n) (pa_flight pa)"
      "pa_acts pa' = pa_acts pa @ [Act_Started g]"
      "pa_flight pa' = bput (node_id n) (go_node g) (pa_flight pa)" "pa_flow pa' = Going"
proof -
  let ?full = "kind n \<noteq> Human \<and> unat (concurrency (r_graph st)) \<le> length (pa_flight pa)"
  consider "?full" | "\<not> ?full" "expects_no_diff n" | "\<not> ?full" "\<not> expects_no_diff n" "kind n = Human"
    | "\<not> ?full" "\<not> expects_no_diff n" "kind n \<noteq> Human" by blast
  then show thesis
  proof cases
    case 1 with assms(2) show thesis by (intro full) (simp_all add: pa'_def start_one_def)
  next
    case 2 with assms(2) show thesis
      by (intro settled [of Done "Some no_changes" None]) (auto simp: pa'_def start_one_def acted_def)
  next
    case 3 with assms(2) show thesis
      by (intro settled [of Waiting None None]) (simp_all add: pa'_def start_one_def acted_def)
  next
    case 4
    then have eq: "dispatch_agent w st n pa = pa'" using assms(2) by (simp add: pa'_def start_one_def)
    show thesis
    proof (cases rule: dispatch_agent_cases [OF assms(2), of w st n, unfolded eq])
      case (1 why) then show thesis by (intro settled)
    next
      case 2 then show thesis by (rule held)
    next
      case 3 then show thesis by (rule stopped)
    next
      case (4 e resumed) then show thesis by (rule ended)
    next
      case (5 g b) with \<open>\<not> ?full\<close> \<open>\<not> expects_no_diff n\<close> \<open>kind n \<noteq> Human\<close> show thesis
        by (intro started [of g]) (auto simp: may_start_def)
    qed
  qed
qed

lemma stuck_pass: "pa_flow pa \<noteq> Going \<Longrightarrow> fold (start_one w st) ns pa = pa"
  by (induction ns) (simp_all add: start_one_def)

lemma bput_length_new: "bget m k = None \<Longrightarrow> length (bput k v m) = Suc (length m)"
  by (induction m) auto

definition pass_adds :: "dispatch_world \<Rightarrow> run_state \<Rightarrow> node list \<Rightarrow> dispatch_pass \<Rightarrow> dispatch_pass \<Rightarrow> start_act list \<Rightarrow> bool" where
  "pass_adds w st ns pa r new \<longleftrightarrow> pa_acts r = pa_acts pa @ new \<and> distinct (map act_node new) \<and>
     act_node ` set new \<subseteq> node_id ` set ns \<and> (\<forall>g \<in> set (starts new). \<exists>n \<in> set ns. may_start w n g) \<and>
     length (pa_flight r) = length (pa_flight pa) + length (starts new) \<and>
     (starts new = [] \<or> length (pa_flight r) \<le> unat (concurrency (r_graph st))) \<and>
     (\<forall>j. bget (pa_flight pa) j \<noteq> None \<longrightarrow> bget (pa_flight r) j \<noteq> None) \<and>
     (\<forall>j. bget (ws_held (pa_workspaces pa)) j \<noteq> None \<longrightarrow> bget (ws_held (pa_workspaces r)) j \<noteq> None)"

lemma start_one_reports:
  "bget (ws_held (pa_workspaces pa)) j \<noteq> None \<Longrightarrow> bget (ws_held (pa_workspaces (start_one w st n pa))) j \<noteq> None"
  using dispatch_agent_reports [of pa j w st n] by (simp add: start_one_def acted_def)

lemma may_start_id: "may_start w n g \<Longrightarrow> node_id (go_node g) = node_id n"
  by (auto simp: may_start_def)

lemma start_one_adds:
  assumes "pa_flow pa = Going" "bget (pa_flight pa) (node_id n) = None"
  shows "\<exists>new. pass_adds w st [n] pa (start_one w st n pa) new"
proof (cases rule: start_one_cases [OF assms(1), where w = w and st = st and n = n])
  case (2 s x y)
  then show ?thesis using start_one_reports [of pa _ w st n] by (intro exI [of _ "[Act_Settled (node_id n) s x y]"]) (simp add: pass_adds_def)
next
  case (6 g)
  then show ?thesis using start_one_reports [of pa _ w st n] assms(2)
    by (intro exI [of _ "[Act_Started g]"]) (simp add: pass_adds_def bput_length_new may_start_id)
qed (insert start_one_reports [of pa _ w st n], auto simp: pass_adds_def intro: exI [of _ "[]"])

lemma pass_addsD:
  assumes "pass_adds w st ns pa r new"
  shows "pa_acts r = pa_acts pa @ new" "distinct (map act_node new)" "act_node ` set new \<subseteq> node_id ` set ns"
    "\<forall>g \<in> set (starts new). \<exists>n \<in> set ns. may_start w n g"
    "length (pa_flight r) = length (pa_flight pa) + length (starts new)"
    "starts new = [] \<or> length (pa_flight r) \<le> unat (concurrency (r_graph st))"
    "bget (pa_flight pa) j \<noteq> None \<Longrightarrow> bget (pa_flight r) j \<noteq> None"
    "bget (ws_held (pa_workspaces pa)) j \<noteq> None \<Longrightarrow> bget (ws_held (pa_workspaces r)) j \<noteq> None"
  using assms unfolding pass_adds_def by blast+

lemma pass_adds_trans:
  assumes "pass_adds w st [n] pa pb new" "pass_adds w st ns pb r added" "node_id n \<notin> node_id ` set ns"
  shows "pass_adds w st (n # ns) pa r (new @ added)"
  unfolding pass_adds_def
proof (intro conjI allI impI)
  note one = pass_addsD [OF assms(1)] and rest = pass_addsD [OF assms(2)]
  show "pa_acts r = pa_acts pa @ new @ added" using one(1) rest(1) by simp
  have "act_node ` set new \<subseteq> {node_id n}" using one(3) by simp
  then have "x \<notin> act_node ` set added" if "x \<in> act_node ` set new" for x
    using that rest(3) assms(3) by (metis singletonD subsetD)
  then have "act_node ` set new \<inter> act_node ` set added = {}" unfolding disjoint_iff by simp
  then show "distinct (map act_node (new @ added))" using one(2) rest(2) by simp
  show "act_node ` set (new @ added) \<subseteq> node_id ` set (n # ns)" using one(3) rest(3) by (simp add: image_Un) blast
  show "\<forall>g \<in> set (starts (new @ added)). \<exists>m \<in> set (n # ns). may_start w m g"
  proof
    fix g assume "g \<in> set (starts (new @ added))"
    then consider "g \<in> set (starts new)" | "g \<in> set (starts added)" by auto
    then show "\<exists>m \<in> set (n # ns). may_start w m g"
    proof cases
      case 1 then show ?thesis using one(4) by simp
    next
      case 2 then show ?thesis using rest(4) by (meson list.set_intros(2))
    qed
  qed
  show "length (pa_flight r) = length (pa_flight pa) + length (starts (new @ added))" using one(5) rest(5) by simp
  show "starts (new @ added) = [] \<or> length (pa_flight r) \<le> unat (concurrency (r_graph st))"
    using one(6) rest(5,6) by (cases "starts added = []") auto
  show "bget (pa_flight r) j \<noteq> None" if "bget (pa_flight pa) j \<noteq> None" for j
    using one(7) rest(7) that by blast
  show "bget (ws_held (pa_workspaces r)) j \<noteq> None" if "bget (ws_held (pa_workspaces pa)) j \<noteq> None" for j
    using one(8) rest(8) that by blast
qed

lemma pass_adds_other:
  assumes "pass_adds w st [n] pa (start_one w st n pa) new" "pa_flow pa = Going"
    and "j \<noteq> node_id n" "bget (pa_flight pa) j = None"
  shows "bget (pa_flight (start_one w st n pa)) j = None"
  using assms(3,4) by (cases rule: start_one_cases [OF assms(2), where w = w and st = st and n = n]) simp_all

lemma pass_adds_fold:
  assumes "distinct (map node_id ns)" "\<forall>n \<in> set ns. bget (pa_flight pa) (node_id n) = None"
  shows "\<exists>new. pass_adds w st ns pa (fold (start_one w st) ns pa) new"
  using assms
proof (induction ns arbitrary: pa)
  case Nil
  then show ?case by (intro exI [of _ "[]"]) (simp add: pass_adds_def)
next
  case (Cons n ns)
  show ?case
  proof (cases "pa_flow pa = Going")
    case False
    then have "fold (start_one w st) (n # ns) pa = pa" by (rule stuck_pass)
    then show ?thesis by (intro exI [of _ "[]"]) (simp add: pass_adds_def)
  next
    case True
    from start_one_adds [OF True, of n w st] Cons.prems(2)
    obtain new where new: "pass_adds w st [n] pa (start_one w st n pa) new" by auto
    have "bget (pa_flight (start_one w st n pa)) (node_id m) = None" if "m \<in> set ns" for m
    proof -
      have "node_id m \<noteq> node_id n" using Cons.prems(1) that by (metis distinct.simps(2) imageI list.map(2) list.set_map)
      moreover have "bget (pa_flight pa) (node_id m) = None" using Cons.prems(2) that by simp
      ultimately show ?thesis by (rule pass_adds_other [OF new True])
    qed
    with Cons.IH [of "start_one w st n pa"] Cons.prems(1)
    obtain added where "pass_adds w st ns (start_one w st n pa) (fold (start_one w st) ns (start_one w st n pa)) added"
      by auto
    from pass_adds_trans [OF new this] Cons.prems(1) show ?thesis by auto
  qed
qed

text \<open>What became of a node the pass looked at, and what it stopped at.\<close>

definition handled :: "dispatch_world \<Rightarrow> run_state \<Rightarrow> dispatch_pass \<Rightarrow> node \<Rightarrow> bool" where
  "handled w st r n \<longleftrightarrow> node_id n \<in> act_node ` set (pa_acts r) \<or>
     held_back w st (node_id n) (pa_flight r) (pa_workspaces r)"

definition stopped_at :: "dispatch_world \<Rightarrow> run_state \<Rightarrow> dispatch_pass \<Rightarrow> node \<Rightarrow> bool" where
  "stopped_at w st r n \<longleftrightarrow>
     kind n \<noteq> Human \<and> unat (concurrency (r_graph st)) \<le> length (pa_flight r) \<or>
     \<not> dw_admits w (node_id n) \<or> (\<exists>resumed e. told_at w st (node_id n) resumed = Inl e)"

lemma handled_later:
  assumes "handled w st pa n" "pass_adds w st ns pa r new"
  shows "handled w st r n"
proof -
  note later = pass_addsD [OF assms(2)]
  consider "node_id n \<in> act_node ` set (pa_acts pa)" | "held_back w st (node_id n) (pa_flight pa) (pa_workspaces pa)"
    using assms(1) by (auto simp: handled_def)
  then show ?thesis
  proof cases
    case 1
    then show ?thesis using later(1) by (auto simp: handled_def)
  next
    case 2
    then consider "waits_for_delivery w (node_id n)" | "superseded_in_flight (r_superseded st) (node_id n) (pa_flight pa)"
      | "bget (ws_held (pa_workspaces pa)) (node_id n) \<noteq> None" unfolding held_back_def by blast
    then have "held_back w st (node_id n) (pa_flight r) (pa_workspaces r)"
    proof cases
      case 2
      then have "superseded_in_flight (r_superseded st) (node_id n) (pa_flight r)"
        using later(7) unfolding superseded_in_flight_def list_ex_iff by fast
      then show ?thesis by (simp add: held_back_def)
    next
      case 3
      then show ?thesis using later(8) unfolding held_back_def by blast
    qed (simp add: held_back_def)
    then show ?thesis by (simp add: handled_def)
  qed
qed

lemma pass_reaches:
  assumes "pa_flow pa = Going"
    and "distinct (map node_id ns)" "\<forall>n \<in> set ns. bget (pa_flight pa) (node_id n) = None"
  shows "\<exists>seen rest. ns = seen @ rest \<and> (\<forall>n \<in> set seen. handled w st (fold (start_one w st) ns pa) n) \<and>
     (rest \<noteq> [] \<longrightarrow> stopped_at w st (fold (start_one w st) ns pa) (hd rest))"
  using assms
proof (induction ns arbitrary: pa)
  case (Cons n ns)
  let ?pb = "start_one w st n pa"
  from start_one_adds [OF Cons.prems(1), of n w st] Cons.prems(3)
  obtain new where new: "pass_adds w st [n] pa ?pb new" by auto
  have free: "\<forall>m \<in> set ns. bget (pa_flight ?pb) (node_id m) = None"
  proof
    fix m assume m: "m \<in> set ns"
    have "node_id m \<noteq> node_id n" using Cons.prems(2) m by (metis distinct.simps(2) imageI list.map(2) list.set_map)
    moreover have "bget (pa_flight pa) (node_id m) = None" using Cons.prems(3) m by simp
    ultimately show "bget (pa_flight ?pb) (node_id m) = None" by (rule pass_adds_other [OF new Cons.prems(1)])
  qed
  have dist: "distinct (map node_id ns)" using Cons.prems(2) by simp
  obtain added where added: "pass_adds w st ns ?pb (fold (start_one w st) ns ?pb) added"
    using pass_adds_fold [OF dist free] by blast
  have goes_on: ?case if "pa_flow ?pb = Going" "handled w st ?pb n"
  proof -
    from Cons.IH [OF that(1) dist free] obtain seen rest where
      split: "ns = seen @ rest" "\<forall>m \<in> set seen. handled w st (fold (start_one w st) ns ?pb) m"
        "rest \<noteq> [] \<longrightarrow> stopped_at w st (fold (start_one w st) ns ?pb) (hd rest)" by blast
    with handled_later [OF that(2) added] show ?thesis
      by (intro exI [of _ "n # seen"] exI [of _ rest]) simp
  qed
  have stops: ?case if "pa_flow ?pb \<noteq> Going" "stopped_at w st ?pb n"
    using that by (intro exI [of _ "[]"] exI [of _ "n # ns"]) (simp add: stuck_pass)
  show ?case
  proof (cases rule: start_one_cases [OF Cons.prems(1), where w = w and st = st and n = n])
    case 1
    then show ?thesis by (intro stops) (simp_all add: stopped_at_def)
  next
    case (2 s x y)
    then show ?thesis by (intro goes_on) (simp_all add: handled_def)
  next
    case 3
    then show ?thesis by (intro goes_on) (simp_all add: handled_def)
  next
    case 4
    then show ?thesis by (intro stops) (simp_all add: stopped_at_def)
  next
    case (5 e resumed)
    then show ?thesis by (intro stops) (auto simp: stopped_at_def)
  next
    case (6 g)
    then show ?thesis by (intro goes_on) (simp_all add: handled_def may_start_id)
  qed
qed simp

lemma actionable_distinct:
  assumes "graph_ok (r_graph st)"
  shows "distinct (map node_id (actionable w st flight))"
  unfolding actionable_def by (intro distinct_map_filter distinct_iter_ids assms)

lemma actionable_free: "n \<in> set (actionable w st flight) \<Longrightarrow> bget flight (node_id n) = None"
  by (simp add: actionable_def)

lemma settled_facts_tidy:
  assumes "\<forall>n \<in> set (graph_iter (r_graph st)). trim (node_id n) = node_id n"
    and "bget (settled_facts st) k = Some f"
  shows "\<exists>r. bget (r_recorded st) k = Some r \<and>
     f = settled_of (rec_status r) (bget (r_outcomes st) k) (bget (r_landings st) k)"
proof -
  have "bget (bcollect kvs) k = Some f \<Longrightarrow> (k, f) \<in> set kvs" for kvs :: "(str \<times> settled) list"
    unfolding bcollect_def by (auto simp: bm.get_collect split: option.splits dest: map_of_SomeD)
  with assms(2) have "(k, f) \<in> set (List.map_filter (settled_fact st) (graph_iter (r_graph st)))"
    by (simp add: settled_facts_def)
  then obtain n where n: "n \<in> set (graph_iter (r_graph st))" "settled_fact st n = Some (k, f)"
    by (auto simp: in_map_filter)
  then show ?thesis using assms(1)
    by (auto simp: settled_fact_def split: option.splits if_splits)
qed

lemma cleared_to_start:
  assumes ok: "graph_ok (r_graph st)" and statuses: "dw_statuses w = statuses_with st up"
    and tidy: "\<forall>n \<in> set (graph_iter (r_graph st)). trim (node_id n) = node_id n"
    and unready: "\<forall>k. bget (r_recorded st) k \<noteq> Some (Rec_At Ready)"
    and n: "n \<in> set (actionable w st flight)" "kind n \<noteq> Human"
  shows "\<not> parked n" "\<forall>d \<in> set (deps n). dep_satisfied (r_graph st) (settled_facts st) up d"
proof -
  let ?k = "node_id n"
  have got: "graph_get (r_graph st) ?k = Some n"
    using n(1) in_graph_iter [OF ok] by (simp add: actionable_def)
  have seen: "bget (derive (r_graph st) (settled_facts st) up) ?k = Some Ready \<or>
      bget (derive (r_graph st) (settled_facts st) up) ?k = Some Waiting \<and> bget (r_recorded st) ?k = None"
    using n(1) by (auto simp: actionable_def statuses statuses_with_def split: option.splits node_status.splits)
  have fact: "\<exists>r. bget (r_recorded st) ?k = Some r \<and> f = settled_of (rec_status r) (bget (r_outcomes st) ?k) (bget (r_landings st) ?k)"
    if "bget (settled_facts st) ?k = Some f" for f by (rule settled_facts_tidy [OF tidy that])
  have seed: "seed_status (settled_facts st) n = None"
  proof (rule ccontr)
    assume some: "seed_status (settled_facts st) n \<noteq> None"
    then obtain s where s: "seed_status (settled_facts st) n = Some s" by blast
    have "bget (derive (r_graph st) (settled_facts st) up) ?k = Some s"
      using derive_filled_seed [OF ok got s] by (simp add: derive_get [OF ok] graph_contains_def got)
    with seen have "s = Ready \<or> s = Waiting \<and> bget (r_recorded st) ?k = None" by auto
    with s obtain f where f: "bget (settled_facts st) ?k = Some f" "settled_status_of f = s"
      by (auto simp: seed_status_def split: if_splits option.splits)
    from fact [OF f(1)] obtain r where r: "bget (r_recorded st) ?k = Some r"
      "f = settled_of (rec_status r) (bget (r_outcomes st) ?k) (bget (r_landings st) ?k)" by blast
    with f(2) \<open>s = Ready \<or> _\<close> have "rec_status r = Ready" by (auto simp: settled_of_def split: if_splits)
    then have "r = Rec_At Ready" by (cases r) simp_all
    with unready r(1) show False by blast
  qed
  show parked: "\<not> parked n" using seed by (auto simp: seed_status_def)
  have unsettled: "bget (settled_facts st) ?k \<in> {None, Some (At Blocked), Some (At Skipped)}"
  proof (cases "bget (settled_facts st) ?k")
    case (Some f)
    with seed parked have "settled_status_of f \<in> {Blocked, Skipped}" by (auto simp: seed_status_def split: if_splits)
    then show ?thesis using Some by (cases f) auto
  qed simp
  have "bget (derive (r_graph st) (settled_facts st) up) ?k = Some (if kind n = Human then Waiting else Ready)"
  proof (cases "bget (derive (r_graph st) (settled_facts st) up) ?k = Some Ready")
    case False
    with seen have "bget (derive_filled (r_graph st) (settled_facts st) up) ?k = Some Waiting"
      using derive_filled_statuses [OF ok, of Waiting] by simp
    from derive_filled_open [OF ok got seed, of up] show ?thesis
    proof cases
      case (2 mid s)
      then have "eligibility (r_graph st) n mid (settled_facts st) up = Some Waiting"
        using \<open>bget (derive_filled _ _ _) _ = Some Waiting\<close> by simp
      then have "kind n = Human" by (auto simp: eligibility_def Let_def split: if_splits)
      with n(2) show ?thesis by simp
    qed (use \<open>bget (derive_filled _ _ _) _ = Some Waiting\<close> in simp)
  qed (use n(2) in simp)
  with derive_offers_exactly [OF ok got parked unsettled, of up]
  show "\<forall>d \<in> set (deps n). dep_satisfied (r_graph st) (settled_facts st) up d" by simp
qed

section \<open>What a pass starts\<close>

lemma started_pass:
  fixes w :: dispatch_world and st :: run_state and flight :: "node bmap" and kp :: stacking_placement
    and ws :: workspaces and cached :: "(plan_shape \<times> resolved option) list" and moves :: "retarget_plan bmap"
  assumes "graph_ok (r_graph st)" "\<not> dw_shutdown w"
  defines "ns \<equiv> actionable w st flight" and "pa \<equiv> at_pass kp ws flight cached moves"
  shows "\<exists>new. pass_adds w st ns pa (start_ready w st pa) new"
    and "\<exists>seen rest. ns = seen @ rest \<and> (\<forall>n \<in> set seen. handled w st (start_ready w st pa) n) \<and>
      (rest \<noteq> [] \<longrightarrow> stopped_at w st (start_ready w st pa) (hd rest))"
proof -
  have eq: "start_ready w st pa = fold (start_one w st) ns pa"
    using assms(2) by (simp add: start_ready_def ns_def pa_def at_pass_def)
  have free: "\<forall>n \<in> set ns. bget (pa_flight pa) (node_id n) = None"
    using actionable_free by (simp add: ns_def pa_def at_pass_def)
  note dist = actionable_distinct [OF assms(1), of w flight, folded ns_def]
  show "\<exists>new. pass_adds w st ns pa (start_ready w st pa) new"
    unfolding eq by (rule pass_adds_fold [OF dist free])
  show "\<exists>seen rest. ns = seen @ rest \<and> (\<forall>n \<in> set seen. handled w st (start_ready w st pa) n) \<and>
      (rest \<noteq> [] \<longrightarrow> stopped_at w st (start_ready w st pa) (hd rest))"
    unfolding eq by (rule pass_reaches [OF _ dist free]) (simp add: pa_def at_pass_def)
qed

text \<open>
  C31. A pass starts only what the record clears, once each and within the concurrency: a node of
  the graph, changed at most in the base it is placed on, that is neither a human action nor one
  that expects no diff, is not parked, has every dependency satisfied, is held by no decision,
  was not in flight, is admitted, and has no delivery under way. A run that is shutting down
  starts and settles nothing.
\<close>

theorem a_pass_starts_only_what_is_cleared:
  fixes w :: dispatch_world and st :: run_state and flight :: "node bmap" and kp :: stacking_placement
    and ws :: workspaces and cached :: "(plan_shape \<times> resolved option) list" and moves :: "retarget_plan bmap"
  assumes "graph_ok (r_graph st)" and "dw_statuses w = statuses_with st up"
    and "\<forall>n \<in> set (graph_iter (r_graph st)). trim (node_id n) = node_id n"
    and "\<forall>k. bget (r_recorded st) k \<noteq> Some (Rec_At Ready)"
  defines "r \<equiv> start_ready w st (at_pass kp ws flight cached moves)"
  shows "(dw_shutdown w \<longrightarrow> pa_acts r = []) \<and>
    distinct (map (\<lambda>g. node_id (go_node g)) (starts (pa_acts r))) \<and>
    length (pa_flight r) = length flight + length (starts (pa_acts r)) \<and>
    (starts (pa_acts r) = [] \<or> length (pa_flight r) \<le> unat (concurrency (r_graph st))) \<and>
    (\<forall>g \<in> set (starts (pa_acts r)). \<exists>n b. graph_get (r_graph st) (node_id n) = Some n \<and>
       go_node g = n\<lparr> base_branch := b \<rparr> \<and> kind n \<noteq> Human \<and> \<not> expects_no_diff n \<and> \<not> parked n \<and>
       (\<forall>d \<in> set (deps n). dep_satisfied (r_graph st) (settled_facts st) up d) \<and>
       node_id n \<notin> dw_paused w \<and> bget flight (node_id n) = None \<and>
       dw_admits w (node_id n) \<and> \<not> waits_for_delivery w (node_id n))"
proof (cases "dw_shutdown w")
  case True
  then show ?thesis by (simp add: r_def start_ready_def at_pass_def)
next
  case False
  obtain new where "pass_adds w st (actionable w st flight) (at_pass kp ws flight cached moves) r new"
    using started_pass(1) [OF assms(1) False, where flight = flight and kp = kp and ws = ws and cached = cached and moves = moves]
    unfolding r_def by blast
  note new = pass_addsD [OF this]
  have acts: "pa_acts r = new" using new(1) by (simp add: at_pass_def)
  have "distinct (map (\<lambda>g. node_id (go_node g)) (starts acts))" if "distinct (map act_node acts)" for acts
    using that
  proof (induction acts)
    case (Cons a acts)
    have "act_node ` set acts \<supseteq> (\<lambda>g. node_id (go_node g)) ` set (starts acts)"
      by (force simp: starts_def in_map_filter elim: started_by.elims)
    with Cons show ?case by (cases a) (auto simp: starts_def List.map_filter_def)
  qed (simp add: starts_def List.map_filter_def)
  then have "distinct (map (\<lambda>g. node_id (go_node g)) (starts (pa_acts r)))" using new(2) acts by simp
  moreover have "\<exists>n b. graph_get (r_graph st) (node_id n) = Some n \<and>
       go_node g = n\<lparr> base_branch := b \<rparr> \<and> kind n \<noteq> Human \<and> \<not> expects_no_diff n \<and> \<not> parked n \<and>
       (\<forall>d \<in> set (deps n). dep_satisfied (r_graph st) (settled_facts st) up d) \<and>
       node_id n \<notin> dw_paused w \<and> bget flight (node_id n) = None \<and>
       dw_admits w (node_id n) \<and> \<not> waits_for_delivery w (node_id n)"
    if "g \<in> set (starts (pa_acts r))" for g
  proof -
    from that new(4) acts obtain n where n: "n \<in> set (actionable w st flight)" "may_start w n g" by blast
    then obtain b where b: "go_node g = n\<lparr> base_branch := b \<rparr>" and kind: "kind n \<noteq> Human"
      by (auto simp: may_start_def)
    from n(1) in_graph_iter [OF assms(1)] have "graph_get (r_graph st) (node_id n) = Some n"
      "node_id n \<notin> dw_paused w" "bget flight (node_id n) = None" by (simp_all add: actionable_def)
    with b n(2) cleared_to_start [OF assms(1-4) n(1) kind] show ?thesis
      unfolding may_start_def by blast
  qed
  moreover have "length (pa_flight r) = length flight + length (starts (pa_acts r))"
    "starts (pa_acts r) = [] \<or> length (pa_flight r) \<le> unat (concurrency (r_graph st))"
    using new(5,6) acts by (simp_all add: at_pass_def)
  ultimately show ?thesis using False by blast
qed

text \<open>
  C32. A pass passes over nothing: it looks at the actionable nodes in plan order up to the first it
  stops at, because the concurrency is reached, an envelope named it beside the pass, or its
  notes cannot be read; and each node before that one is settled, started, or left with its
  reason: a delivery under way, the node it replaces in flight, or a hold the workspaces report.
\<close>

theorem a_pass_passes_over_nothing:
  fixes w :: dispatch_world and st :: run_state and flight :: "node bmap" and kp :: stacking_placement
    and ws :: workspaces and cached :: "(plan_shape \<times> resolved option) list" and moves :: "retarget_plan bmap"
  assumes "graph_ok (r_graph st)" "\<not> dw_shutdown w"
  defines "r \<equiv> start_ready w st (at_pass kp ws flight cached moves)"
  shows "\<exists>seen rest. actionable w st flight = seen @ rest \<and> (\<forall>n \<in> set seen. handled w st r n) \<and>
    (rest \<noteq> [] \<longrightarrow> stopped_at w st r (hd rest))"
  unfolding r_def by (rule started_pass(2) [OF assms(1,2)])

text \<open>
  C33. A human action behind a ready node is not recorded while the run is full: the pass breaks at
  the first node it has no room for, so although a person's action takes no room none after it
  is settled \<open>waiting\<close>, and until it is, attesting it is refused.
\<close>

theorem a_full_run_records_no_person:
  assumes "actionable w st flight = n # ns" "kind n \<noteq> Human"
    and "unat (concurrency (r_graph st)) \<le> length flight"
  shows "pa_acts (start_ready w st (at_pass kp ws flight cached moves)) = [] \<and>
    (\<forall>h \<in> set ns. kind h = Human \<longrightarrow> bget (r_recorded st) (node_id h) = None \<longrightarrow>
       (\<forall>x. compile_attest (r_graph st) (frontier_of st) (node_id h) \<noteq> Inr x))"
proof -
  let ?pa = "at_pass kp ws flight cached moves"
  have "start_one w st n ?pa = ?pa\<lparr> pa_flow := Broken \<rparr>"
    using assms(2,3) by (simp add: start_one_def at_pass_def)
  then have "fold (start_one w st) (n # ns) ?pa = ?pa\<lparr> pa_flow := Broken \<rparr>" by (simp add: stuck_pass)
  then have "pa_acts (start_ready w st ?pa) = []" using assms(1) by (simp add: start_ready_def at_pass_def)
  moreover have "compile_attest (r_graph st) (frontier_of st) k \<noteq> Inr x"
    if "bget (r_recorded st) k = None" for k x
    using that by (auto simp: compile_attest_def frontier_of_def refused_when_def)
  ultimately show ?thesis by blast
qed

section \<open>A pass over three nodes\<close>

text \<open>An agent's node over one done, a person's and a second agent's, with room for one.\<close>

definition three_nodes :: "node list \<Rightarrow> run_state" where
  "three_nodes ns = blank_run\<lparr> r_graph := from_plan (plain_plan (plain_node ''z'' [] # ns)),
     r_recorded := [(''z'', Rec_At Done)] \<rparr>"

definition agent_a :: node where "agent_a = plain_node ''a'' [''z'']"

definition person_h :: node where "person_h = (plain_node ''h'' [])\<lparr> kind := Human \<rparr>"

definition agent_b :: node where "agent_b = plain_node ''b'' []"

definition dispatching_world :: "run_state \<Rightarrow> dispatch_world" where
  "dispatching_world st = \<lparr> dw_shutdown = False, dw_statuses = statuses_with st (\<lambda>_. None), dw_paused = {},
     dw_run = ''run'', dw_edit = dropping_world, dw_opaque = id, dw_same = (=), dw_now = 0,
     dw_capacity = (\<lambda>_ _. Inl ''unread''), dw_delivering = (\<lambda>_. None), dw_admits = (\<lambda>_. True),
     dw_fold = one_world, dw_note_list = (\<lambda>_. None), dw_recalled = [], dw_journal = [],
     dw_store_ok = (\<lambda>_. True),
     dw_readjuster = \<lparr> ra_bodies = [], ra_overridden = [], ra_host_bases = [], ra_red = [], ra_tried = {},
       ra_merged_elsewhere = {} \<rparr> \<rparr>"

definition first_pass :: "run_state \<Rightarrow> node bmap \<Rightarrow> dispatch_pass" where
  "first_pass st flight = start_ready (dispatching_world st) st
     (at_pass (placement_of_graph open_siblings (r_graph st)) (new_workspaces 1 1) flight [] [])"

lemma three_nodes_ok:
  "graph_ok (r_graph (three_nodes ns))" "\<forall>k. bget (r_recorded (three_nodes ns)) k \<noteq> Some (Rec_At Ready)"
  by (simp_all add: three_nodes_def graph_ok_from_plan)

theorem a_pass_starts_only_what_is_cleared_witness:
  "map (\<lambda>g. node_id (go_node g)) (starts (pa_acts (first_pass (three_nodes [agent_a, person_h, agent_b]) []))) = [''a''] \<and>
   length (pa_flight (first_pass (three_nodes [agent_a, person_h, agent_b]) [])) = 1"
proof -
  let ?st = "three_nodes [agent_a, person_h, agent_b]"
  have "map (\<lambda>g. node_id (go_node g)) (starts (pa_acts (first_pass ?st []))) = [''a'']" by code_simp
  moreover have "list_all (\<lambda>n. trim (node_id n) = node_id n) (graph_iter (r_graph ?st))" by code_simp
  then have tidy: "\<forall>n \<in> set (graph_iter (r_graph ?st)). trim (node_id n) = node_id n" by (simp only: list_all_iff)
  have "dw_statuses (dispatching_world ?st) = statuses_with ?st (\<lambda>_. None)" by (simp add: dispatching_world_def)
  from a_pass_starts_only_what_is_cleared [OF three_nodes_ok(1) this tidy three_nodes_ok(2), where flight = "[]"
      and kp = "placement_of_graph open_siblings (r_graph ?st)" and ws = "new_workspaces 1 1" and cached = "[]" and moves = "[]"]
  have "length (pa_flight (first_pass ?st [])) = length (starts (pa_acts (first_pass ?st [])))"
    unfolding first_pass_def list.size add_0 by (elim conjE)
  moreover have "length (starts (pa_acts (first_pass ?st []))) = length [''a'']"
    using calculation(1) by (metis length_map)
  ultimately show ?thesis by simp
qed

theorem a_pass_passes_over_nothing_witness:
  "map node_id (actionable (dispatching_world (three_nodes [agent_a, person_h, agent_b])) (three_nodes [agent_a, person_h, agent_b]) [])
     = [''a'', ''h'', ''b''] \<and>
   (\<exists>seen rest. actionable (dispatching_world (three_nodes [agent_a, person_h, agent_b])) (three_nodes [agent_a, person_h, agent_b]) []
       = seen @ rest \<and> map act_node (pa_acts (first_pass (three_nodes [agent_a, person_h, agent_b]) [])) = [''a'', ''h''])"
proof -
  let ?st = "three_nodes [agent_a, person_h, agent_b]"
  have "map act_node (pa_acts (first_pass ?st [])) = [''a'', ''h'']" by code_simp
  moreover have "map node_id (actionable (dispatching_world ?st) ?st []) = [''a'', ''h'', ''b'']" by code_simp
  moreover have "\<not> dw_shutdown (dispatching_world ?st)" by (simp add: dispatching_world_def)
  moreover from this obtain seen rest where "actionable (dispatching_world ?st) ?st [] = seen @ rest"
    using a_pass_passes_over_nothing [OF three_nodes_ok(1), of "dispatching_world ?st" _ "[]"
        "placement_of_graph open_siblings (r_graph ?st)" "new_workspaces 1 1" "[]" "[]"] by blast
  ultimately show ?thesis by (intro conjI exI)
qed

theorem a_full_run_records_no_person_witness:
  "pa_acts (first_pass (three_nodes [agent_a, person_h]) [(''b'', agent_b)]) = [] \<and>
   map act_node (pa_acts (first_pass (three_nodes [person_h, agent_a]) [(''b'', agent_b)])) = [''h'']"
proof -
  let ?st = "three_nodes [agent_a, person_h]"
  have "map act_node (pa_acts (first_pass (three_nodes [person_h, agent_a]) [(''b'', agent_b)])) = [''h'']" by code_simp
  moreover have "actionable (dispatching_world ?st) ?st [(''b'', agent_b)] = [agent_a, person_h]" by code_simp
  moreover have "kind agent_a \<noteq> Human" "unat (concurrency (r_graph ?st)) \<le> length [(''b'', agent_b)]" by code_simp+
  ultimately show ?thesis
    using a_full_run_records_no_person [of "dispatching_world ?st" ?st "[(''b'', agent_b)]" agent_a "[person_h]"
        "placement_of_graph open_siblings (r_graph ?st)" "new_workspaces 1 1" "[]" "[]"]
    by (simp add: first_pass_def)
qed

end
