(* ===== verification/Criteria_Read.thy ===== *)
theory Criteria_Read
  imports Task_Text
begin

text \<open>
  The checkable half of a node's acceptance criteria (\<open>src/src/criteria.rs\<close>): which criteria of a
  task name a literal in a file of the branch, and what reading that file answers. The branch is
  an argument: what a path resolves to, its size and its text. A quoted fragment is the text and
  whether it was cut, where the source appends an ellipsis.
\<close>

section \<open>Characters and substrings\<close>

text \<open>\<open>char::is_alphanumeric\<close> and \<open>char::to_lowercase\<close> on the characters of the model.\<close>

definition is_ascii_alphabetic :: "char \<Rightarrow> bool" where
  "is_ascii_alphabetic c \<longleftrightarrow> (let n = code_point c in (65 \<le> n \<and> n \<le> 90) \<or> (97 \<le> n \<and> n \<le> 122))"

definition is_alphanumeric :: "char \<Rightarrow> bool" where
  "is_alphanumeric c \<longleftrightarrow> is_ascii_alphabetic c \<or> is_ascii_digit c \<or>
     (let n = code_point c in n \<in> {170, 178, 179, 181, 185, 186, 188, 189, 190} \<or> (192 \<le> n \<and> n \<noteq> 215 \<and> n \<noteq> 247))"

definition lower_char :: "char \<Rightarrow> char" where
  "lower_char c = (let n = code_point c in
     if (65 \<le> n \<and> n \<le> 90) \<or> (192 \<le> n \<and> n \<le> 222 \<and> n \<noteq> 215) then char_of (n + 32) else c)"

fun occurs :: "str \<Rightarrow> str \<Rightarrow> bool" where
  "occurs p [] = (p = [])"
| "occurs p (c # s) = (starts_with p (c # s) \<or> occurs p s)"

fun split_by :: "(char \<Rightarrow> bool) \<Rightarrow> str \<Rightarrow> str list" where
  "split_by sep [] = [[]]"
| "split_by sep (c # s) =
     (if sep c then [] # split_by sep s
      else (case split_by sep s of [] \<Rightarrow> [[c]] | w # ws \<Rightarrow> (c # w) # ws))"

definition rsplit_once :: "char \<Rightarrow> str \<Rightarrow> (str \<times> str) option" where
  "rsplit_once c s = map_option (\<lambda>(a, b). (rev b, rev a)) (split_once c (rev s))"

definition ends_in :: "str \<Rightarrow> str \<Rightarrow> bool" where
  "ends_in p s \<longleftrightarrow> strip_suffix p s \<noteq> None"

section \<open>What can be checked\<close>

record checkable =
  ck_criterion :: str
  ck_file :: str
  ck_literal :: str

text \<open>\<open>BranchPath::named\<close>.\<close>

definition slash :: char where "slash = CHR ''/''"

definition leaves_the_branch :: "str \<Rightarrow> bool" where
  "leaves_the_branch span \<longleftrightarrow> span = [] \<or> list_ex is_space span \<or> starts_with [slash] span \<or>
     CHR 0x5C \<in> set span \<or> CHR '':'' \<in> set span \<or> ''..'' \<in> set (split_at_char slash span)"

definition lettered_extension :: "str \<Rightarrow> bool" where
  "lettered_extension span =
     (case rsplit_once (CHR ''.'') (last (split_at_char slash span)) of
        None \<Rightarrow> False
      | Some (stem, extension) \<Rightarrow> stem \<noteq> [] \<and> extension \<noteq> [] \<and> list_all is_ascii_alphabetic extension)"

definition branch_path :: "str \<Rightarrow> str option" where
  "branch_path span =
     (if leaves_the_branch span then None
      else if slash \<in> set span \<or> lettered_extension span then Some span else None)"

definition denial_words :: "str list" where
  "denial_words = [''no'', ''not'', ''never'', ''neither'', ''nor'', ''nothing'', ''none'', ''without'', ''cannot'']"

definition denial_phrases :: "str list" where
  "denial_phrases = [''rather than'', ''instead of'']"

definition apostrophe :: char where "apostrophe = CHR 0x27"

definition backtick :: char where "backtick = CHR 0x60"

definition negated :: "str \<Rightarrow> bool" where
  "negated criterion =
     (let lowered = map lower_char criterion
      in list_ex (\<lambda>p. occurs p lowered) denial_phrases \<or>
         list_ex (\<lambda>word. word \<in> set denial_words \<or> ends_in (CHR ''n'' # apostrophe # ''t'') word)
           (split_by (\<lambda>c. \<not> is_alphanumeric c \<and> c \<noteq> apostrophe) lowered))"

fun every_second :: "'a list \<Rightarrow> 'a list" where
  "every_second (_ # x # rest) = x # every_second rest"
| "every_second _ = []"

definition quoted_spans :: "str \<Rightarrow> str list" where
  "quoted_spans criterion = map trim (every_second (split_at_char backtick criterion))"

definition parse_criterion :: "str \<Rightarrow> checkable option" where
  "parse_criterion criterion =
     (if negated criterion \<or> odd (length (filter (\<lambda>c. c = backtick) criterion)) then None
      else (case quoted_spans criterion of
        [one, two] \<Rightarrow>
          (case (case (branch_path one, branch_path two) of
                   (Some file, None) \<Rightarrow> Some (file, two)
                 | (None, Some file) \<Rightarrow> Some (file, one)
                 | _ \<Rightarrow> None) of
             None \<Rightarrow> None
           | Some (file, literal) \<Rightarrow>
               if literal = [] then None
               else Some \<lparr> ck_criterion = criterion, ck_file = file, ck_literal = literal \<rparr>)
      | _ \<Rightarrow> None))"

text \<open>\<open>criteria_in\<close>: the bullets so far, whether the section is open, and whether the last bullet is.\<close>

definition joined_on :: "str \<Rightarrow> str list \<Rightarrow> str list" where
  "joined_on t cs = (if cs = [] then [] else butlast cs @ [last cs @ '' '' @ t])"

fun criteria_from :: "bool \<Rightarrow> bool \<Rightarrow> str list \<Rightarrow> str list \<Rightarrow> str list" where
  "criteria_from inside opn cs [] = cs"
| "criteria_from inside opn cs (l # ls) =
     (let t = trim l in
      if starts_with ''#'' t
      then criteria_from (if is_section_heading t then t = criteria_heading else inside) False cs ls
      else if \<not> inside then criteria_from inside opn cs ls
      else (case or_else (strip_prefix ''- '' t) (strip_prefix ''* '' t) of
          Some bullet \<Rightarrow> criteria_from inside True (cs @ [trim bullet]) ls
        | None \<Rightarrow>
            if t = [] \<or> (l \<noteq> [] \<and> is_alphanumeric (hd l)) then criteria_from inside False cs ls
            else criteria_from inside opn (if opn then joined_on t cs else cs) ls))"

definition criteria_in :: "str \<Rightarrow> str list" where
  "criteria_in prose = criteria_from False False [] (text_lines prose)"

definition checkable_in :: "str \<Rightarrow> checkable list" where
  "checkable_in prose = List.map_filter parse_criterion (criteria_in prose)"

definition take_check :: "checkable \<Rightarrow> checkable list \<Rightarrow> checkable list" where
  "take_check c found = (if c \<in> set found then found else found @ [c])"

definition amended_checks :: "node \<Rightarrow> checkable list" where
  "amended_checks n =
     (case amendment n of None \<Rightarrow> []
      | Some a \<Rightarrow> checkable_in (criteria_heading @ [nl, nl] @ amendment_clauses a))"

definition checkable_of :: "node \<Rightarrow> checkable list" where
  "checkable_of n =
     (let rulings = amended_checks n;
          standing = filter (\<lambda>c. \<not> list_ex (\<lambda>r. ck_file r = ck_file c) rulings);
          own = (case task n of None \<Rightarrow> [] | Some t \<Rightarrow> checkable_in t);
          stepped = concat (map checkable_in
            (List.map_filter step_task (case steps n of None \<Rightarrow> [] | Some ss \<Rightarrow> ss)))
      in fold take_check (standing own @ rulings @ standing stepped) [])"

section \<open>What the branch answers\<close>

datatype unread_why =
    Not_Resolved str            \<comment> \<open>also metadata and text that cannot be read\<close>
  | Outside_The_Branch str
  | Too_Many_Bytes nat

type_synonym quoted = "str \<times> bool"

datatype what_it_holds = Line_Naming quoted | Nothing_Naming quoted

datatype criteria_answer = Match | Mismatch what_it_holds | Unread unread_why

fun criteria_answer_as_str :: "criteria_answer \<Rightarrow> str" where
  "criteria_answer_as_str Match = ''match''"
| "criteria_answer_as_str (Mismatch _) = ''mismatch''"
| "criteria_answer_as_str (Unread _) = ''unread''"

definition max_file_bytes :: nat where "max_file_bytes = 1048576"

definition shown_limit :: nat where "shown_limit = 200"

definition join_words :: "str list \<Rightarrow> str" where
  "join_words ws = (case ws of [] \<Rightarrow> [] | w # rest \<Rightarrow> w @ concat (map (\<lambda>v. '' '' @ v) rest))"

definition one_line_of :: "str \<Rightarrow> quoted" where
  "one_line_of t =
     (let flat = join_words (filter (\<lambda>w. w \<noteq> []) (split_by is_space t))
      in if length flat \<le> shown_limit then (flat, False) else (take shown_limit flat, True))"

text \<open>The key of a \<open>key: value\<close> or \<open>key = value\<close> literal.\<close>

definition key_of :: "str \<Rightarrow> str" where
  "key_of literal = trim (hd (split_by (\<lambda>c. c = CHR '':'' \<or> c = CHR ''='') literal))"

definition holds_instead :: "str \<Rightarrow> str \<Rightarrow> what_it_holds" where
  "holds_instead contents literal =
     (case (if key_of literal = [] then None else find (occurs (key_of literal)) (text_lines contents)) of
        Some l \<Rightarrow> Line_Naming (one_line_of (trim l))
      | None \<Rightarrow> Nothing_Naming (one_line_of (key_of literal)))"

text \<open>The path a file resolves to and whether that is inside the branch, its bytes, and its text.\<close>

record branch_files =
  bf_resolve :: "str \<Rightarrow> str + str \<times> bool"
  bf_bytes :: "str \<Rightarrow> str + nat"
  bf_text :: "str \<Rightarrow> str + str"

definition answer_check :: "branch_files \<Rightarrow> checkable \<Rightarrow> criteria_answer" where
  "answer_check bf c =
     (case bf_resolve bf (ck_file c) of
        Inl e \<Rightarrow> Unread (Not_Resolved e)
      | Inr (path, inside) \<Rightarrow>
          if \<not> inside then Unread (Outside_The_Branch path)
          else (case bf_bytes bf path of
            Inl e \<Rightarrow> Unread (Not_Resolved e)
          | Inr bytes \<Rightarrow>
              if max_file_bytes < bytes then Unread (Too_Many_Bytes bytes)
              else (case bf_text bf path of
                Inl e \<Rightarrow> Unread (Not_Resolved e)
              | Inr contents \<Rightarrow>
                  if occurs (ck_literal c) contents then Match
                  else Mismatch (holds_instead contents (ck_literal c)))))"

end
