(* ===== verification/Criteria_Sound.thy ===== *)
theory Criteria_Sound
  imports Criteria_Read Plan_Sound
begin

text \<open>
  What the reading of criteria promises: a check is one the criterion states without doubt, on a
  file of the branch, made once; the clauses an amendment is rendered as are read back whole; and
  where a declined clause leaves a contradicted criterion standing.
\<close>

section \<open>What is read is sure\<close>

lemma parse_criterion_sure:
  assumes "parse_criterion criterion = Some c"
  shows "ck_criterion c = criterion" "\<not> negated criterion" "ck_literal c \<noteq> []"
    "\<not> leaves_the_branch (ck_file c)" "branch_path (ck_literal c) = None"
    "quoted_spans criterion = [ck_file c, ck_literal c] \<or> quoted_spans criterion = [ck_literal c, ck_file c]"
  using assms
  by (auto simp: parse_criterion_def branch_path_def split: if_splits list.splits option.splits)

lemma checkable_in_parsed: "c \<in> set (checkable_in prose) \<Longrightarrow> parse_criterion (ck_criterion c) = Some c"
  using parse_criterion_sure(1) by (fastforce simp: checkable_in_def in_map_filter)

lemma take_checks:
  "set (fold take_check cs found) = set found \<union> set cs"
  "distinct found \<Longrightarrow> distinct (fold take_check cs found)"
  by (induction cs arbitrary: found) (auto simp: take_check_def)

lemma amended_checks_parsed: "c \<in> set (amended_checks n) \<Longrightarrow> parse_criterion (ck_criterion c) = Some c"
  by (auto simp: amended_checks_def checkable_in_parsed split: option.splits)

text \<open>
  C38. A check is made only of what a criterion says without doubt: of a criterion that denies
  nothing and quotes exactly two spans, one a path that cannot leave the branch as it is written
  and the other no path and not empty. None is made twice, and none of a file a ruling of the
  node's amendment names unless it is that ruling's own.
\<close>

theorem a_check_is_what_a_criterion_says:
  assumes "c \<in> set (checkable_of n)"
  shows "distinct (checkable_of n) \<and> \<not> negated (ck_criterion c) \<and> ck_literal c \<noteq> [] \<and>
    (quoted_spans (ck_criterion c) = [ck_file c, ck_literal c] \<or> quoted_spans (ck_criterion c) = [ck_literal c, ck_file c]) \<and>
    \<not> leaves_the_branch (ck_file c) \<and> branch_path (ck_literal c) = None \<and>
    (ck_file c \<in> ck_file ` set (amended_checks n) \<longrightarrow> c \<in> set (amended_checks n))"
proof -
  have among: "c \<in> set (amended_checks n) \<or>
      (\<exists>prose. c \<in> set (checkable_in prose)) \<and> ck_file c \<notin> ck_file ` set (amended_checks n)"
    using assms by (auto simp: checkable_of_def Let_def take_checks list_ex_iff image_iff split: option.splits)
  then have "parse_criterion (ck_criterion c) = Some c"
    using amended_checks_parsed checkable_in_parsed by blast
  note sure = parse_criterion_sure [OF this]
  have "distinct (checkable_of n)" unfolding checkable_of_def Let_def by (intro take_checks(2)) simp
  with among sure show ?thesis by blast
qed

section \<open>A ruling that is declined\<close>

text \<open>
  C40. A ruling that forbids what a criterion asked leaves that criterion standing: where every
  clause of the amendment is a denial none is a check, so none supersedes anything, and every
  criterion of the task is checked still, a file without the forbidden literal being a mismatch.
\<close>

theorem a_denied_criterion_is_still_checked:
  assumes "task n = Some t" "c \<in> set (checkable_in t)" "amendment n = Some a"
    and "\<forall>clause \<in> set (criteria_in (criteria_heading @ [nl, nl] @ amendment_clauses a)). negated clause"
    and "bf_resolve bf (ck_file c) = Inr (path, True)" "bf_bytes bf path = Inr bytes" "bytes \<le> max_file_bytes"
    and "bf_text bf path = Inr contents" "\<not> occurs (ck_literal c) contents"
  shows "c \<in> set (checkable_of n) \<and> answer_check bf c = Mismatch (holds_instead contents (ck_literal c))"
proof -
  have "amended_checks n = []"
    using assms(3,4)
    by (auto simp: amended_checks_def checkable_in_def List.map_filter_def parse_criterion_def filter_empty_conv)
  then have "c \<in> set (checkable_of n)"
    using assms(1,2) by (simp add: checkable_of_def Let_def take_checks)
  with assms(5-9) show ?thesis by (simp add: answer_check_def)
qed

definition ticks :: "str \<Rightarrow> str" where "ticks s = [backtick] @ s @ [backtick]"

definition denied_node :: node where
  "denied_node = blank_node\<lparr> node_id := ''a'',
     task := Some (criteria_heading @ [nl] @ ''- '' @ ticks ''a.toml'' @ '' holds '' @ ticks ''x = 1''),
     amendment := Some (''- '' @ ticks ''a.toml'' @ '' must not hold '' @ ticks ''x = 1'') \<rparr>"

definition denied_check :: checkable where
  "denied_check = \<lparr> ck_criterion = ticks ''a.toml'' @ '' holds '' @ ticks ''x = 1'',
     ck_file = ''a.toml'', ck_literal = ''x = 1'' \<rparr>"

definition obeying_branch :: branch_files where
  "obeying_branch = \<lparr> bf_resolve = (\<lambda>f. Inr (f, True)), bf_bytes = (\<lambda>_. Inr 0), bf_text = (\<lambda>_. Inr ''y = 2'') \<rparr>"

theorem a_check_is_what_a_criterion_says_witness:
  "quoted_spans (ck_criterion denied_check) = [''a.toml'', ''x = 1''] \<and> checkable_of denied_node = [denied_check] \<and>
   \<not> leaves_the_branch ''a.toml''"
proof -
  have one: "checkable_of denied_node = [denied_check]" by code_simp
  moreover have "quoted_spans (ck_criterion denied_check) = [''a.toml'', ''x = 1'']" by code_simp
  moreover have "\<not> leaves_the_branch (ck_file denied_check)"
    using a_check_is_what_a_criterion_says [of denied_check denied_node] one by simp
  ultimately show ?thesis by (simp add: denied_check_def)
qed

theorem a_denied_criterion_is_still_checked_witness:
  "criteria_in (criteria_heading @ [nl, nl] @ amendment_clauses (''- '' @ ticks ''a.toml'' @ '' must not hold '' @ ticks ''x = 1''))
     = [ticks ''a.toml'' @ '' must not hold '' @ ticks ''x = 1''] \<and>
   answer_check obeying_branch denied_check = Mismatch (Nothing_Naming (''x'', False))"
proof -
  let ?a = "''- '' @ ticks ''a.toml'' @ '' must not hold '' @ ticks ''x = 1''"
  have read: "criteria_in (criteria_heading @ [nl, nl] @ amendment_clauses ?a)
      = [ticks ''a.toml'' @ '' must not hold '' @ ticks ''x = 1'']" by code_simp
  have "negated (ticks ''a.toml'' @ '' must not hold '' @ ticks ''x = 1'')" by code_simp
  then have denied: "\<forall>clause \<in> set (criteria_in (criteria_heading @ [nl, nl] @ amendment_clauses ?a)). negated clause"
    by (simp only: read) simp
  have asked: "denied_check \<in> set (checkable_in (the (task denied_node)))" by code_simp
  have "\<not> occurs (ck_literal denied_check) ''y = 2''" by code_simp
  then have "answer_check obeying_branch denied_check = Mismatch (holds_instead ''y = 2'' (ck_literal denied_check))"
    using a_denied_criterion_is_still_checked [of denied_node _ denied_check ?a obeying_branch "ck_file denied_check" 0 "''y = 2''"]
      asked denied by (simp add: denied_node_def obeying_branch_def)
  moreover have "holds_instead ''y = 2'' (ck_literal denied_check) = Nothing_Naming (''x'', False)" by code_simp
  ultimately show ?thesis using read by simp
qed

section \<open>Clauses written and read back\<close>

text \<open>A line that stands as one: not empty, without a newline and with no space around it.\<close>

definition neat :: "str \<Rightarrow> bool" where
  "neat s \<longleftrightarrow> s \<noteq> [] \<and> nl \<notin> set s \<and> \<not> is_space (hd s) \<and> \<not> is_space (last s)"

lemma trim_same: "s \<noteq> [] \<Longrightarrow> \<not> is_space (hd s) \<Longrightarrow> \<not> is_space (last s) \<Longrightarrow> trim s = s"
proof -
  assume s: "s \<noteq> []" "\<not> is_space (hd s)" "\<not> is_space (last s)"
  have "dropWhile is_space s = s" using s(1,2) by (cases s) simp_all
  moreover have "dropWhile is_space (rev s) = rev s"
  proof (cases "rev s")
    case (Cons c r)
    then have "last s = c" by (metis last_snoc rev.simps(2) rev_rev_ident)
    with s(3) Cons show ?thesis by simp
  qed simp
  ultimately show "trim s = s" by (simp add: trim_def trim_start_def trim_end_def)
qed

lemma trim_ends: "trim s \<noteq> [] \<Longrightarrow> \<not> is_space (hd (trim s)) \<and> \<not> is_space (last (trim s))"
proof -
  assume ne: "trim s \<noteq> []"
  define u where "u = dropWhile is_space s"
  have t: "trim s = rev (dropWhile is_space (rev u))" by (simp add: trim_def trim_start_def trim_end_def u_def)
  have "last (trim s) = hd (dropWhile is_space (rev u))" using ne by (simp add: t last_rev)
  moreover have "\<not> is_space (hd (dropWhile is_space (rev u)))" using ne hd_dropWhile [of is_space "rev u"] by (simp add: t)
  moreover have "\<not> is_space (hd (trim s))"
  proof -
    have u: "u = trim s @ rev (takeWhile is_space (rev u))"
      unfolding t by (metis rev_append rev_rev_ident takeWhile_dropWhile_id)
    then have "hd u = hd (trim s)" "u \<noteq> []" using ne by (metis hd_append2, metis append_is_Nil_conv)
    then show ?thesis using hd_dropWhile [of is_space s] by (simp add: u_def)
  qed
  ultimately show ?thesis by simp
qed

lemma set_trim: "set (trim s) \<subseteq> set s"
  unfolding trim_def trim_start_def trim_end_def by (auto dest!: set_dropWhileD)

lemma neat_trim: "nl \<notin> set s \<Longrightarrow> trim s \<noteq> [] \<Longrightarrow> neat (trim s)"
  using trim_ends [of s] set_trim [of s] by (auto simp: neat_def)

lemma neat_trims: "neat s \<Longrightarrow> trim s = s"
  by (simp add: neat_def trim_same)

lemma neat_joined: "neat a \<Longrightarrow> neat b \<Longrightarrow> neat (a @ '' '' @ b)"
  by (auto simp: neat_def nl_def)

lemma neat_dash: "neat c \<Longrightarrow> neat (''- '' @ c)"
  by (auto simp: neat_def nl_def is_space_def code_point_def Let_def)

lemma neat_rest:
  assumes "neat (p @ r)" "is_space (last p)" "p \<noteq> []"
  shows "neat (trim r)"
proof (rule neat_trim)
  show "nl \<notin> set r" using assms(1) by (simp add: neat_def)
  have "r \<noteq> []" using assms by (auto simp: neat_def)
  then have "\<not> is_space (last r)" using assms(1) by (simp add: neat_def)
  with \<open>r \<noteq> []\<close> have "\<not> blank r" unfolding blank_iff_all_space by (metis last_in_set)
  then show "trim r \<noteq> []" by (simp add: blank_def)
qed

lemma text_lines_neat: "x \<in> set (text_lines s) \<Longrightarrow> nl \<notin> set x"
proof -
  have cut: "l \<in> set (split_inclusive s) \<Longrightarrow> nl \<notin> set (butlast l)" for l
  proof (induction s arbitrary: l rule: split_inclusive.induct)
    case (2 x xs)
    show ?case
    proof (cases "split_inclusive xs")
      case Nil
      then show ?thesis using "2.prems" by (auto split: if_splits)
    next
      case (Cons w ws)
      then show ?thesis using 2 by (auto split: if_splits)
    qed
  qed simp
  assume "x \<in> set (text_lines s)"
  then obtain l where l: "l \<in> set (split_inclusive s)" "x = strip_newline l" by (auto simp: text_lines_def)
  have bl: "nl \<notin> set (butlast l)" by (rule cut [OF l(1)])
  show "nl \<notin> set x"
  proof (cases "strip_suffix [nl] l")
    case None
    then have "l = [] \<or> last l \<noteq> nl"
      by (cases l rule: rev_cases) (auto simp: strip_suffix_def strip_prefix_def)
    with None bl l(2) show ?thesis
      by (cases l rule: rev_cases) (auto simp: strip_newline_def)
  next
    case (Some m)
    then have m: "l = m @ [nl]" by (auto simp: strip_suffix_def strip_prefix_Some)
    with bl have "nl \<notin> set m" by simp
    moreover have "set n \<subseteq> set m" if "strip_suffix [cr] m = Some n" for n
      using that by (auto simp: strip_suffix_def strip_prefix_Some rev_swap)
    ultimately show ?thesis using l(2) Some by (auto simp: strip_newline_def split: option.split)
  qed
qed

definition bold :: "str \<Rightarrow> str" where "bold h = ''**'' @ h @ ''**''"

text \<open>
  The lines an amendment is rendered as: clauses, blanks, and labels with a blank before each.
\<close>

inductive rendered :: "bool \<Rightarrow> str list \<Rightarrow> bool" where
  no_lines: "rendered b []"
| blank_line: "rendered True ls \<Longrightarrow> rendered b ([] # ls)"
| clause: "neat c \<Longrightarrow> rendered False ls \<Longrightarrow> rendered b ((''- '' @ c) # ls)"
| label: "neat h \<Longrightarrow> rendered False ls \<Longrightarrow> rendered True (bold h # ls)"

lemma close_clause_append: "close_clause opn (ls @ ms) = ls @ close_clause opn ms"
  by (simp add: close_clause_def split: option.split)

lemma clause_lines_append: "clause_lines xs opn (ls @ ms) = ls @ clause_lines xs opn ms"
proof (induction xs arbitrary: opn ms)
  case (Cons x xs)
  show ?case
  proof (cases "trim x = []")
    case False
    show ?thesis
    proof (cases "heading_text (trim x)")
      case None
      with False Cons show ?thesis by (simp add: Let_def close_clause_append split: option.split)
    next
      case (Some h)
      with False Cons show ?thesis by (simp add: Let_def close_clause_append)
    qed
  qed (use Cons in \<open>simp add: Let_def close_clause_append\<close>)
qed (simp add: close_clause_append)

lemma clause_lines_after: "clause_lines xs opn ls = ls @ clause_lines xs opn []"
  using clause_lines_append [of xs opn ls "[]"] by simp

lemma list_item_neat:
  assumes "neat t" "list_item t = Some item"
  shows "neat item"
proof -
  have one: "neat (trim r)" if "t = p @ r" "p \<noteq> []" "is_space (last p)" for p r
    using neat_rest [of p r] assms(1) that by simp
  have dash: "is_space (last ''- '')" "is_space (last ''* '')" "is_space (last ''+ '')" "is_space (last ''. '')" "is_space (last '') '')"
    by (simp_all add: is_space_def code_point_def)
  define digits where "digits = length (takeWhile is_ascii_digit t)"
  have numbered: "neat (trim r)" if "drop digits t = p @ r" "p \<noteq> []" "is_space (last p)" for p r
  proof (rule one [of "take digits t @ p" r])
    show "t = (take digits t @ p) @ r" by (metis append.assoc append_take_drop_id that(1))
    show "is_space (last (take digits t @ p))" using that(2,3) by simp
  qed (use that(2) in simp)
  show ?thesis
    using assms(2) dash one numbered
    by (auto simp: list_item_def Let_def or_else_def strip_prefix_Some digits_def [symmetric] split: option.splits if_splits)
qed

lemma heading_text_neat:
  assumes "nl \<notin> set t" "heading_text t = Some h" "h \<noteq> []"
  shows "neat h"
proof -
  have "h = trim (dropWhile (\<lambda>c. c = CHR ''#'') t)"
    using assms(2,3) by (auto simp: heading_text_def Let_def trim_def trim_start_def trim_end_def split: if_splits)
  moreover have "nl \<notin> set (dropWhile (\<lambda>c. c = CHR ''#'') t)" using assms(1) set_dropWhileD by fastforce
  ultimately show ?thesis using assms(3) neat_trim by simp
qed

lemma rendered_close:
  assumes "\<And>b. rendered b ls" "case opn of None \<Rightarrow> True | Some c \<Rightarrow> neat c"
  shows "rendered b (close_clause opn [] @ ls)"
  using assms by (auto simp: close_clause_def intro: clause [simplified] split: option.splits)

lemma clause_lines_rendered:
  assumes "\<forall>x \<in> set xs. nl \<notin> set x" "case opn of None \<Rightarrow> True | Some c \<Rightarrow> neat c"
  shows "rendered b (clause_lines xs opn [])"
  using assms
proof (induction xs arbitrary: opn b)
  case Nil
  then show ?case using rendered_close [OF no_lines] by force
next
  case (Cons x xs)
  have later: "rendered c (clause_lines xs o2 [])" if "case o2 of None \<Rightarrow> True | Some c \<Rightarrow> neat c" for o2 c
    using Cons.IH Cons.prems(1) that by simp
  have none: "rendered c (clause_lines xs None [])" for c by (rule later) simp
  have closed: "rendered b (close_clause opn [] @ ls)" if "\<And>c. rendered c ls" for ls
    by (rule rendered_close [OF that Cons.prems(2)])
  have t: "trim x \<noteq> [] \<Longrightarrow> neat (trim x)" using Cons.prems(1) neat_trim by simp
  consider (blank) "trim x = []" | (heading) h where "trim x \<noteq> []" "heading_text (trim x) = Some h"
    | (item) i where "trim x \<noteq> []" "heading_text (trim x) = None" "list_item (trim x) = Some i"
    | (words) "trim x \<noteq> []" "heading_text (trim x) = None" "list_item (trim x) = None"
    by fastforce
  then show ?case
  proof cases
    case blank
    with closed [OF none] show ?thesis by (simp add: Let_def clause_lines_after [of xs None "close_clause opn []"])
  next
    case (heading h)
    show ?thesis
    proof (cases "h = []")
      case True
      with heading closed [OF none] show ?thesis
        by (simp add: Let_def clause_lines_after [of xs None "close_clause opn []"])
    next
      case False
      have "neat h" using heading_text_neat [OF _ heading(2) False] t [OF heading(1)] by (simp add: neat_def)
      then have "rendered c ([] # bold h # [] # clause_lines xs None [])" for c
        using none by (intro blank_line label)
      from closed [OF this] heading False show ?thesis
        by (simp add: Let_def bold_def clause_lines_after [of xs None "close_clause opn [] @ _"])
    qed
  next
    case (item i)
    have "rendered c (clause_lines xs (Some i) [])" for c
      using list_item_neat [OF t [OF item(1)] item(3)] by (intro later) simp
    from closed [OF this] item show ?thesis
      by (simp add: Let_def clause_lines_after [of xs "Some i" "close_clause opn []"])
  next
    case words
    have "neat (case opn of None \<Rightarrow> trim x | Some c \<Rightarrow> c @ '' '' @ trim x)"
      using t [OF words(1)] Cons.prems(2) neat_joined by (cases opn) auto
    then have "rendered b (clause_lines xs (Some (case opn of None \<Rightarrow> trim x | Some c \<Rightarrow> c @ '' '' @ trim x)) [])"
      by (intro later) simp
    with words show ?thesis by (cases opn) (simp_all add: Let_def)
  qed
qed

lemma text_lines_Cons:
  assumes "nl \<notin> set l" "l = [] \<or> last l \<noteq> cr"
  shows "text_lines (l @ nl # rest) = l # text_lines rest"
proof -
  have "split_inclusive (l @ nl # rest) = (l @ [nl]) # split_inclusive rest"
    using assms(1) by (induction l) auto
  moreover have "strip_newline (l @ [nl]) = l"
    using assms(2) by (cases l rule: rev_cases) (auto simp: strip_newline_def strip_suffix_def strip_prefix_def)
  ultimately show ?thesis by (simp add: text_lines_def)
qed

lemma neat_line: "neat l \<Longrightarrow> text_lines (l @ nl # rest) = l # text_lines rest"
  by (rule text_lines_Cons) (auto simp: neat_def cr_def is_space_def code_point_def)

lemma neat_bold: "neat h \<Longrightarrow> neat (bold h)"
  by (auto simp: neat_def bold_def nl_def is_space_def code_point_def)

lemma clauses_read:
  assumes "rendered b ls" "b \<longrightarrow> \<not> opn"
  shows "criteria_from True opn cs (text_lines (render_clauses b ls)) = cs @ List.map_filter (strip_prefix ''- '') ls"
  using assms
proof (induction arbitrary: opn cs)
  case (no_lines b)
  then show ?case by (simp add: text_lines_def List.map_filter_def)
next
  case (blank_line ls b)
  show ?case
  proof (cases b)
    case True
    with blank_line show ?thesis by (simp add: strip_prefix_def)
  next
    case False
    have "text_lines (render_clauses b ([] # ls)) = [] # text_lines (render_clauses True ls)"
      using False text_lines_Cons [of "[]" "render_clauses True ls"] by simp
    moreover have "criteria_from True opn cs ([] # text_lines (render_clauses True ls))
        = criteria_from True False cs (text_lines (render_clauses True ls))"
      by (simp add: trim_def trim_start_def trim_end_def starts_with_def or_else_def strip_prefix_def)
    ultimately show ?thesis using blank_line.IH [of False cs] by (simp add: strip_prefix_def)
  qed
next
  case (clause c ls b)
  have "text_lines (render_clauses b ((''- '' @ c) # ls)) = (''- '' @ c) # text_lines (render_clauses False ls)"
    using neat_line [OF neat_dash [OF clause(1)], of "render_clauses False ls"] by simp
  moreover have "trim (''- '' @ c) = ''- '' @ c" "trim c = c"
    using neat_trims clause(1) neat_dash by blast+
  then have "criteria_from True opn cs ((''- '' @ c) # text_lines (render_clauses False ls))
      = criteria_from True True (cs @ [c]) (text_lines (render_clauses False ls))"
    using strip_prefix_append [of "''- ''" c] by (simp add: starts_with_def or_else_def)
  ultimately show ?case
    using clause.IH [of True "cs @ [c]"] strip_prefix_append [of "''- ''" c] by (simp add: List.map_filter_def)
next
  case (label h ls)
  have "text_lines (render_clauses True (bold h # ls)) = bold h # text_lines (render_clauses False ls)"
    using neat_line [OF neat_bold [OF label(1)], of "render_clauses False ls"] by (simp add: bold_def)
  moreover have "trim (bold h) = bold h" using neat_trims neat_bold label(1) by blast
  then have "criteria_from True opn cs (bold h # text_lines (render_clauses False ls))
      = criteria_from True False cs (text_lines (render_clauses False ls))"
    using label(4)
    by (simp add: bold_def starts_with_def or_else_def strip_prefix_def is_alphanumeric_def
        is_ascii_alphabetic_def is_ascii_digit_def code_point_def)
  ultimately show ?case
    using label.IH [of False cs] by (simp add: List.map_filter_def bold_def strip_prefix_def)
qed

text \<open>
  C39. The clauses an amendment is rendered as are the criteria read back from it: under the criteria
  heading, each clause, wrapped over however many lines it was written, is one criterion with its
  text unchanged, in order, and no label, blank or other line is one.
\<close>

theorem amendment_clauses_read_back:
  "criteria_in (criteria_heading @ [nl, nl] @ amendment_clauses a)
     = List.map_filter (strip_prefix ''- '') (clause_lines (text_lines a) None [])"
proof -
  have "rendered True (clause_lines (text_lines a) None [])"
    using text_lines_neat by (intro clause_lines_rendered) auto
  note read = clauses_read [OF this, of False "[]"]
  have heading: "neat criteria_heading" by (simp add: neat_def criteria_heading_def nl_def is_space_def code_point_def)
  have "text_lines (criteria_heading @ [nl, nl] @ amendment_clauses a)
      = criteria_heading # [] # text_lines (amendment_clauses a)"
    using neat_line [OF heading, of "nl # amendment_clauses a"] text_lines_Cons [of "[]" "amendment_clauses a"] by simp
  moreover have "criteria_from False False [] (criteria_heading # [] # ls) = criteria_from True False [] ls" for ls
    using neat_trims [OF heading]
    by (simp add: is_section_heading_def starts_with_def criteria_heading_def or_else_def strip_prefix_def
        trim_def trim_start_def trim_end_def)
  ultimately show ?thesis using read by (simp add: criteria_in_def amendment_clauses_def)
qed

end
