(* ===== verification/Spec2Isabelle.thy ===== *)
theory Spec2Isabelle
  imports Stacking Boundary Splice Readjust_Sound Timestamps Run_Takeover Interlock Release_Sound
    Release_Told Pool Boundary_Given Note_Recalled Dispatch_Sound Criteria_Sound
begin

text \<open>
  A verification development of \<open>onepipeline\<close> (\<open>src/src/*.rs\<close>), the engine that executes a plan: a
  graph of nodes, each an agent's task, a change to publish, or an action a person takes. A
  plan is checked, a run derives from the recorded settlements what may be dispatched next,
  and while it runs a planner edits the graph and leaves notes through a channel of command
  envelopes, each of which is compiled against the graph, journalled, and answered.

  Theories and the code they model.
    \<^item> \<open>Prelude\<close>: text operations of the Rust standard library, the sorted association list that
      stands for \<open>BTreeMap\<close> (locale \<open>key_store\<close>, interpreted on it), results, list lemmas.
    \<^item> \<open>Plan_Model\<close> (\<open>plan.rs\<close>): the structs of a plan. \<open>Node_Status\<close> (\<open>graph.rs\<close>): statuses,
      landings, settlements and their words. \<open>Task_Graph\<close> (\<open>graph.rs\<close>, \<open>Graph\<close>): the nodes by
      id beside the order they were added in, and every operation on them.
    \<^item> \<open>Cross_Dag\<close> (\<open>crossdag.rs\<close>): references to another run's node, what a ledger answers, and
      the observer that reports an upstream settlement or change.
    \<^item> \<open>Scheduling\<close> (\<open>graph.rs\<close>, \<open>derive\<close>, \<open>eligibility\<close>, \<open>skipped_by\<close>, \<open>state_of\<close>).
    \<^item> \<open>Cycle_Search\<close> (\<open>graph.rs\<close>, \<open>find_cycle\<close>): the iterative search with its marks and stack.
    \<^item> \<open>Task_Text\<close> (\<open>plan.rs\<close>): the acceptance-criteria rule and amendments to a task.
    \<^item> \<open>Plan_Check\<close>, \<open>Plan_Sound\<close>, \<open>Stacking\<close> (\<open>graph.rs\<close>, \<open>controls.rs\<close>, \<open>refusal.rs\<close>): the
      checks, in the order the code makes them, what an accepted plan is, and the base every
      kept branch starts from.
    \<^item> \<open>Boundary\<close> (\<open>boundary.rs\<close>): private work and public destinations.
    \<^item> \<open>Note_Carry\<close> (\<open>note.rs\<close>): the planner context a note is carried into and withdrawn from.
    \<^item> \<open>Edit_Ops\<close>, \<open>Edit_Command\<close>, \<open>Edit_Compile\<close> (\<open>edits.rs\<close>): the operations an edit records
      (\<open>apply\<close>, the frontier and its \<open>advance\<close>), the commands and their refusals, and \<open>compile\<close>,
      command by command. \<open>Edit_Replay\<close> and \<open>Edit_Sound\<close> hold replay against compilation,
      \<open>Edit_Accepted\<close> that an edited graph stays an accepted one, \<open>Edit_Guards\<close> what the
      commands that judge the run's record refuse.
    \<^item> \<open>Note_Delivery\<close>, \<open>Note_Thread\<close>, \<open>Note_Lanes\<close> (\<open>engine.rs\<close>): one note offered to a
      conversation; the thread that offers one receiver's notes, with the conversation and the
      reconciler as the other two parties of the step relation \<open>lane_step\<close>; the envelopes
      being delivered, lane by lane (\<open>NoteDeliveries\<close>, step relation \<open>deliveries_step\<close>).
    \<^item> \<open>Envelope_Record\<close> (\<open>engine.rs\<close>, \<open>withdrawal.rs\<close>, \<open>channel/layout.rs\<close>): what an envelope
      writes, in order, how it is answered, and how a driver that takes a run over finishes an
      envelope its predecessor died recording.
    \<^item> \<open>Run_State\<close>, \<open>Run_Fold\<close>, \<open>Run_Takeover\<close> (\<open>projection.rs\<close>, \<open>readjust.rs\<close>, \<open>vcs.rs\<close>):
      the state of a run (\<open>RunState\<close>), the fold of the journal into it record by record, and
      what the fold guarantees to the edits and to a driver that takes the run over.
    \<^item> \<open>Draft_Stack\<close>, \<open>Draft_Sound\<close>, \<open>Splice\<close> (\<open>stack.rs\<close>): where a draft is placed, which drafts
      are owed a restack, the block a description carries; what these promise.
    \<^item> \<open>Readjust\<close>, \<open>Readjust_Pass\<close>, \<open>Readjust_Sound\<close> (\<open>readjust.rs\<close>, \<open>engine.rs\<close>): the drafts a
      read of the host asks about and the records it writes (\<open>take_up\<close>), then the pass that
      restacks or retargets the drafts whose base moved (\<open>start_readjustments\<close>).
    \<^item> \<open>Interlock\<close> (\<open>concurrency.rs\<close>): the launch of a plan beside the live runs that hold the same
      repositories, and the depth-first search for the holder's node it has to wait on.
    \<^item> \<open>Release\<close>, \<open>Release_Watch\<close>, \<open>Release_Sound\<close>, \<open>Release_Told\<close> (\<open>release.rs\<close>): how a node adopts
      the releases of what it depends on, the watch shared with the asker as the step relation of
      both, what is said of a wait and when, and the payloads a later driver reads back.
    \<^item> \<open>Pool\<close> (\<open>pool.rs\<close>): the hold of a node whose repository has no workspace with room, the
      refusals that stand until the next read, and what a refused attempt resumes from.
    \<^item> \<open>Boundary_Dispatch\<close>, \<open>Boundary_Given\<close> (\<open>boundary.rs\<close>): the resolutions kept by the shape of a
      plan, what a dispatch on either side of the boundary is told, and the export it starts from.
    \<^item> \<open>Note_Standing\<close>, \<open>Note_Recalled\<close> (\<open>note.rs\<close>, \<open>projection.rs\<close>): the notes that stand for a node,
      folded from the records the run keeps whole, and what a dispatch is told of them.
    \<^item> \<open>Dispatch\<close>, \<open>Dispatch_Sound\<close> (\<open>engine.rs\<close>, \<open>start_ready\<close>, \<open>start_restacks\<close>): the pass that
      starts what the record clears, places it and composes what it is given; what one pass
      starts, what it leaves and why.
    \<^item> \<open>Criteria_Read\<close>, \<open>Criteria_Sound\<close> (\<open>criteria.rs\<close>): the criteria of a node that name a literal in
      a file of its branch, and what reading one answers.
    \<^item> \<open>Timestamps\<close> (\<open>sys.rs\<close>): how an instant is written, against how \<open>Run_State\<close> reads it.

  Correspondence. A struct is a record, an enum a datatype, a \<open>BTreeMap\<close> a sorted association
  list, a \<open>Result\<close> a sum whose left side is the refusal as a datatype (its sentence is not
  spelled out), a machine integer a word. A function that mutates its argument returns it. What
  the program writes to disk while an envelope is recorded is a list of effects
  (\<open>effect\<close>, \<open>apply_effect\<close>), so that a crash is a prefix of it. What belongs to another crate,
  the file system or serde is an argument: \<open>edit_world\<close>, \<open>siblings\<close>, \<open>note_seam\<close>, the answers
  \<open>cross\<close> of the ledgers, the \<open>offer_answer\<close> of a conversation.

  What the lemmas show, in groups: what the scheduler offers, skips and blocks and that an
  accepted graph is never stuck (\<open>Scheduling\<close>, \<open>Plan_Sound\<close>); exactness of the cycle search; no
  private work in a public output; one base for kept work; edits keep the graph accepted, are
  guarded as stated, and replay to what they compiled, exactly or up to the order of
  dependencies; a note is read or carried, never both, never read once taken back; receivers
  are served in order; recovery writes exactly the rest of an envelope; the
  folded state is well formed whatever the journal holds, and a takeover starts from what has
  settled; a draft is placed on the topmost drafts it depends on, a restack pays its debt, and a
  pass moves what is below before what is above; a launch passes exactly when it waits behind
  every live holder; a node under published adoption starts only after each release was answered;
  a dispatch pass starts only what is cleared and passes over nothing, and a dispatch is told what
  the whole journal tells; a check of a criterion is one the criterion states without doubt, and
  an amendment's clauses read back whole. Several properties
  state a divergence of the code from its own comments, on the smallest run that shows it.

  Termination and bounds. Only total functions are used. The fill of \<open>derive\<close>, the walks over
  dependents, the inheritance of clearances, the cycle walk and the draft walk carry measures
  (nodes not yet settled, marked or visited). \<open>chain_holds\<close> takes the number of placed bases as
  fuel, which \<open>Stacking\<close> shows to be enough as a chain of bases visits no node twice. The
  search of \<open>Interlock\<close> and \<open>launched_under\<close> recurse on the ids not yet seen. The
  delivery thread is a relation; \<open>work_left\<close> is the measure that its own steps decrease.

  Not modelled: processes, git, the network, clocks, files and their formats; the serde
  attributes and schemas; the loaders of \<open>oneagentgraph\<close>, the task store and the agents; the
  validator document of an envelope; the rendering of reports and the command line. The
  activity a node reports, the folds only reports read, what an executor does within a dispatch,
  the discharge of decisions, and the rules and filters of the journal are left out. Of a dispatch
  the thread it runs on, the release references and the claimer beside the pass are not modelled.
\<close>

end
